(* ===== verification/Prelude.thy ===== *)
theory Prelude imports Main "HOL-Library.Word" begin

text \<open>
  Shared vocabulary of the development: bytes and 32-bit words, the parts of the C library the
  modelled code uses (character classes, \<open>strchr\<close>, reading a string up to its terminator),
  sequencing of operations that return an int code, and generic lemmas on lists and words.

  A C string of the source is the list of its bytes before the terminating NUL; \<open>at s i\<close> reads
  index \<open>i\<close> and gives the NUL at the end. A byte buffer with a length field is the list of the
  bytes in use.
\<close>

unbundle bit_operations_syntax

type_synonym byte = "8 word"
type_synonym u32 = "32 word"
type_synonym u64 = "64 word"

text \<open>Conversions between the unsigned types: widening, and taking the low bits.\<close>

abbreviation wide :: "byte \<Rightarrow> u32" where "wide \<equiv> ucast"
abbreviation low8 :: "u32 \<Rightarrow> byte" where "low8 \<equiv> ucast"
abbreviation low32 :: "u64 \<Rightarrow> u32" where "low32 \<equiv> ucast"

text \<open>C character constants and string literals.\<close>

abbreviation ch :: "char \<Rightarrow> byte" where
  "ch c \<equiv> of_char c"

abbreviation asc :: "string \<Rightarrow> byte list" where
  "asc s \<equiv> map of_char s"

definition NL :: byte where [simp]: "NL = 10"
definition CR :: byte where [simp]: "CR = 13"

subsection \<open>C library: characters and strings\<close>

definition isspace :: "byte \<Rightarrow> bool" where
  "isspace c \<longleftrightarrow> c = 32 \<or> (9 \<le> c \<and> c \<le> 13)"

definition isdigit :: "byte \<Rightarrow> bool" where
  "isdigit c \<longleftrightarrow> 48 \<le> c \<and> c \<le> 57"

definition isupper :: "byte \<Rightarrow> bool" where
  "isupper c \<longleftrightarrow> 65 \<le> c \<and> c \<le> 90"

definition islower :: "byte \<Rightarrow> bool" where
  "islower c \<longleftrightarrow> 97 \<le> c \<and> c \<le> 122"

definition isalpha :: "byte \<Rightarrow> bool" where
  "isalpha c \<longleftrightarrow> isupper c \<or> islower c"

definition isalnum :: "byte \<Rightarrow> bool" where
  "isalnum c \<longleftrightarrow> isalpha c \<or> isdigit c"

definition tolower :: "byte \<Rightarrow> byte" where
  "tolower c = (if isupper c then c + 32 else c)"

definition toupper :: "byte \<Rightarrow> byte" where
  "toupper c = (if islower c then c - 32 else c)"

text \<open>Reading index \<open>i\<close> of a C string: the terminator where the string ends.\<close>

definition at :: "byte list \<Rightarrow> nat \<Rightarrow> byte" where
  "at s i = (if i < length s then s ! i else 0)"

text \<open>What a C function sees of a buffer used as a string: the bytes before the first NUL.\<close>

definition cstr :: "byte list \<Rightarrow> byte list" where
  "cstr s = takeWhile (\<lambda>c. c \<noteq> 0) s"

text \<open>The index \<open>strchr(s, c)\<close> finds; searching for NUL finds the terminator.\<close>

fun strchr :: "byte list \<Rightarrow> byte \<Rightarrow> nat option" where
  "strchr [] c = (if c = 0 then Some 0 else None)"
| "strchr (x # xs) c = (if x = c then Some 0 else map_option Suc (strchr xs c))"

text \<open>
  \<open>strcmp\<close>, of which only the sign is specified, and the test that \<open>strncasecmp\<close> of the
  first characters is 0.
\<close>

fun strcmp :: "byte list \<Rightarrow> byte list \<Rightarrow> int" where
  "strcmp [] [] = 0"
| "strcmp [] (y # ys) = -1"
| "strcmp (x # xs) [] = 1"
| "strcmp (x # xs) (y # ys) = (if x < y then -1 else if y < x then 1 else strcmp xs ys)"

definition has_prefix_nocase :: "byte list \<Rightarrow> byte list \<Rightarrow> bool" where
  "has_prefix_nocase s p \<longleftrightarrow> map tolower (take (length p) s) = map tolower p"

definition has_prefix :: "byte list \<Rightarrow> byte list \<Rightarrow> bool" where
  "has_prefix s p \<longleftrightarrow> take (length p) s = p"

lemma strcmp_0 [simp]: "strcmp x y = 0 \<longleftrightarrow> x = y"
  by (induction x y rule: strcmp.induct) auto

lemma has_prefix_append [simp]: "has_prefix (p @ s) p"
  by (simp add: has_prefix_def)

lemma has_prefix_nocase_append [simp]: "has_prefix_nocase (p @ s) p"
  by (simp add: has_prefix_nocase_def)

lemma at_Nil [simp]: "at [] i = 0"
  by (simp add: at_def)

lemma at_Cons_0 [simp]: "at (x # xs) 0 = x"
  by (simp add: at_def)

lemma at_Cons_Suc [simp]: "at (x # xs) (Suc i) = at xs i"
  by (simp add: at_def)

lemma cstr_id: "0 \<notin> set s \<Longrightarrow> cstr s = s"
  by (auto simp: cstr_def takeWhile_eq_all_conv)

lemma cstr_append_0: "0 \<notin> set s \<Longrightarrow> cstr (s @ 0 # t) = s"
  by (induction s) (auto simp: cstr_def)

lemma zero_notin_cstr [simp]: "0 \<notin> set (cstr s)"
  by (auto simp: cstr_def dest: set_takeWhileD)

lemma strchr_None: "0 \<notin> set s \<Longrightarrow> c \<noteq> 0 \<Longrightarrow> strchr s c = None \<longleftrightarrow> c \<notin> set s"
  by (induction s) auto

lemma strchr_Some_nth: "strchr s c = Some i \<Longrightarrow> c \<noteq> 0 \<Longrightarrow> i < length s \<and> s ! i = c"
  by (induction s arbitrary: i) (auto split: if_splits)

lemma strchr_nth: "distinct s \<Longrightarrow> i < length s \<Longrightarrow> strchr s (s ! i) = Some i"
proof (induction s arbitrary: i)
  case Nil
  then show ?case by simp
next
  case (Cons x s)
  then show ?case by (cases i) auto
qed

lemma dropWhile_Cons_length [termination_simp]: "dropWhile P p = z # q \<Longrightarrow> length q < length p"
  by (metis length_Cons length_dropWhile_le less_eq_Suc_le)

subsection \<open>Operations that return an int code\<close>

text \<open>
  Many operations of the source return 0 on success and anything else to stop their caller at
  once (\<open>if (rc) return (rc);\<close>). They are modelled as functions from the state to the
  code and the new state; \<open>rc_then\<close> is the sequencing the callers write out.
\<close>

fun rc_then :: "int \<times> 'st \<Rightarrow> ('st \<Rightarrow> int \<times> 'st) \<Rightarrow> int \<times> 'st" where
  "rc_then (rc, st) f = (if rc \<noteq> 0 then (rc, st) else f st)"

lemma rc_then_0: "rc_then r f = (0, st) \<longleftrightarrow> (\<exists>st'. r = (0, st') \<and> f st' = (0, st))"
  by (cases r) auto

lemma rc_then_unit [simp]: "rc_then r (\<lambda>st. (0, st)) = r"
  by (cases r) auto

subsection \<open>Filling a buffer\<close>

text \<open>
  How many of \<open>n\<close> bytes go into a buffer of \<open>cap\<close> bytes that holds \<open>cnt\<close>: the source
  compares with \<open>cap - cnt\<close> as a \<open>size_t\<close>, which is huge if \<open>cnt\<close> were past \<open>cap\<close>.
\<close>

definition room :: "nat \<Rightarrow> nat \<Rightarrow> nat \<Rightarrow> nat" where
  "room cap cnt n = (if cnt \<le> cap then min n (cap - cnt) else n)"

subsection \<open>Decimal output\<close>

text \<open>The digits a do-while loop over \<open>n % 10\<close> and \<open>n / 10\<close> writes from right to left.\<close>

fun decimal :: "nat \<Rightarrow> byte list" where
  "decimal n = (if n < 10 then [of_nat (48 + n)] else decimal (n div 10) @ [of_nat (48 + n mod 10)])"

declare decimal.simps [simp del]


subsection \<open>Bits of bytes\<close>

text \<open>
  Equations between bytes built by shifts and masks are proved bit by bit
  (\<open>bit_word_eqI\<close>) with the bundle \<open>byte_bits\<close>; bounds come from the bits that are off.
\<close>

lemma byte_masks: "(1::byte) = mask 1" "(3::byte) = mask 2" "(7::byte) = mask 3" "(15::byte) = mask 4"
  "(31::byte) = mask 5" "(63::byte) = mask 6" "(127::byte) = mask 7"
  by (simp_all add: mask_eq_exp_minus_1)

lemma byte_bit_ge: "8 \<le> n \<Longrightarrow> \<not> bit (x::byte) n"
  using bit_imp_le_length [of x n] by auto

lemma bit_shift_back [simp]: "k \<le> n \<Longrightarrow> bit x (k + (n - k)) = bit x n"
  by simp

lemma bit_shift_back2 [simp]: "2 \<le> n \<Longrightarrow> bit x (Suc (Suc (n - 2))) = bit x n"
  by (metis Suc_1 Suc_diff_le add_2_eq_Suc le_add_diff_inverse)

lemma bit_shift_less: "bit x n \<Longrightarrow> \<not> bit x (k + (n - k)) \<Longrightarrow> n < k"
  "bit x n \<Longrightarrow> \<not> bit x (Suc (Suc (n - 2))) \<Longrightarrow> n < 2"
  by (metis bit_shift_back not_less) (metis bit_shift_back2 not_less)

lemmas byte_bits = bit_simps byte_masks byte_bit_ge not_le not_less

lemma bit_word_of_nat: "bit (of_nat n :: 'a::len word) i \<longleftrightarrow> i < LENGTH('a) \<and> bit n i"
  by transfer (auto simp: bit_take_bit_iff bit_of_nat_iff)

lemma unat_lt_bits: "(\<And>i. n \<le> i \<Longrightarrow> \<not> bit x i) \<Longrightarrow> unat (x::'a::len word) < 2 ^ n"
proof -
  assume h: "\<And>i. n \<le> i \<Longrightarrow> \<not> bit x i"
  have "take_bit n x = x"
    by (rule bit_word_eqI) (use h in \<open>auto simp: bit_take_bit_iff intro: ccontr\<close>)
  then have "unat x = take_bit n (unat x)" by (metis unsigned_take_bit_eq)
  then show ?thesis by (metis take_bit_nat_less_exp)
qed

lemmas unat_lt_64 = unat_lt_bits [of 6, simplified]
lemmas unat_lt_16 = unat_lt_bits [of 4, simplified]

end
