(* ===== verification/Mime_Encode.thy ===== *)
theory Mime_Encode imports Prelude begin

text \<open>
  The MIME transfer encoder, \<open>wmail/rfc2045/rfc2045encode.c\<close>: choosing an encoding for a body
  (\<open>rfc2045_encode_autodetect_fp\<close>) and the incremental base64 and quoted-printable encoders,
  which collect their output in a fixed buffer and hand it to the caller's callback.
  The callback is an argument: it gets the bytes and its own state and returns an int code,
  where anything but 0 stops the encoder.

  First the definitions, then the interface of a callback that keeps what it is given
  (locale \<open>sink\<close>), and inside it what the encoder hands over, however its input is split.
\<close>

subsection \<open>State\<close>

text \<open>
  \<open>struct rfc2045_encode_info\<close>. \<open>output_buffer\<close> holds the bytes in use
  (\<open>output_buf_cnt\<close> is its length); \<open>input_buffer\<close> holds the bytes written so far, of which
  the first \<open>input_buf_cnt\<close> are pending. The quoted-printable encoder uses \<open>input_buf_cnt\<close>
  as its column and leaves \<open>input_buffer\<close> alone.
\<close>

datatype encoding = Quoted_printable | Base64 | Eflush

record enc_info =
  output_buffer :: "byte list"
  input_buffer :: "byte list"
  input_buf_cnt :: nat
  encoding_func :: encoding

type_synonym 's callback = "byte list \<Rightarrow> 's \<Rightarrow> int \<times> 's"

text \<open>The C library's \<open>BUFSIZ\<close> (glibc), the size of \<open>output_buffer\<close>, and that of \<open>input_buffer\<close>.\<close>

definition BUFSIZ :: nat where "BUFSIZ = 8192"
definition INBUFSIZ :: nat where "INBUFSIZ = 57"

subsection \<open>Choosing an encoding\<close>

fun autodetect_loop :: "bool \<Rightarrow> byte list \<Rightarrow> nat \<Rightarrow> bool \<Rightarrow> string \<Rightarrow> string" where
  "autodetect_loop okQp [] l longline encoding =
     (if longline \<and> okQp then ''quoted-printable'' else encoding)"
| "autodetect_loop okQp (c # fp) l longline encoding =
     (let encoding = (if 128 \<le> c then ''8bit'' else encoding) in
      if c = 0 then ''base64''
      else if c = NL then autodetect_loop okQp fp 0 longline encoding
      else if 990 < l + 1
        then (if \<not> okQp then ''base64'' else autodetect_loop okQp fp (l + 1) True encoding)
        else autodetect_loop okQp fp (l + 1) longline encoding)"

definition rfc2045_encode_autodetect_fp :: "byte list \<Rightarrow> bool \<Rightarrow> string" where
  "rfc2045_encode_autodetect_fp fp okQp = autodetect_loop okQp fp 0 False ''7bit''"

subsection \<open>The output buffer\<close>

definition rfc2045_encode_start :: "byte list \<Rightarrow> enc_info" where
  "rfc2045_encode_start transfer_encoding =
     \<lparr>output_buffer = [], input_buffer = [], input_buf_cnt = 0,
      encoding_func =
        (if at transfer_encoding 0 \<in> {ch CHR ''q'', ch CHR ''Q''} then Quoted_printable
         else if at transfer_encoding 0 \<in> {ch CHR ''b'', ch CHR ''B''} then Base64
         else Eflush)\<rparr>"

definition flush_if_full :: "'s callback \<Rightarrow> enc_info \<times> 's \<Rightarrow> int \<times> (enc_info \<times> 's)" where
  "flush_if_full cb = (\<lambda>(info, s).
     if length (output_buffer info) = BUFSIZ
     then (case cb (output_buffer info) s of (rc, s') \<Rightarrow> (rc, (info\<lparr>output_buffer := []\<rparr>, s')))
     else (0, (info, s)))"

lemma flush_if_full_not_full:
  "flush_if_full cb st = (rc, (info, s)) \<Longrightarrow> length (output_buffer info) \<noteq> BUFSIZ"
  by (auto simp: flush_if_full_def BUFSIZ_def split: prod.splits if_splits)

function eflush :: "'s callback \<Rightarrow> byte list \<Rightarrow> enc_info \<times> 's \<Rightarrow> int \<times> (enc_info \<times> 's)" where
  "eflush cb ptr st =
     (if ptr = [] then (0, st)
      else case flush_if_full cb st of (rc, (info, s)) \<Rightarrow>
        if rc \<noteq> 0 then (rc, (info, s))
        else let i = room BUFSIZ (length (output_buffer info)) (length ptr)
             in eflush cb (drop i ptr)
                  (info\<lparr>output_buffer := output_buffer info @ take i ptr\<rparr>, s))"
  by pat_completeness auto
termination
  by (relation "measure (\<lambda>(cb, ptr, st). length ptr)")
    (auto simp: room_def dest!: flush_if_full_not_full [OF sym])

declare eflush.simps [simp del]

subsection \<open>Base64\<close>

definition base64tab :: "byte list" where
  "base64tab = asc ''ABCDEFGHIJKLMNOPQRSTUVWXYZabcdefghijklmnopqrstuvwxyz0123456789+/''"

text \<open>The four 6-bit values \<open>base64_flush\<close> takes from three bytes.\<close>

definition sextet1 :: "byte \<Rightarrow> byte" where "sextet1 a = drop_bit 2 a"
definition sextet2 :: "byte \<Rightarrow> byte \<Rightarrow> byte" where "sextet2 a b = push_bit 4 (a AND 3) OR drop_bit 4 b"
definition sextet3 :: "byte \<Rightarrow> byte \<Rightarrow> byte" where "sextet3 b c = push_bit 2 (b AND 15) OR drop_bit 6 c"
definition sextet4 :: "byte \<Rightarrow> byte" where "sextet4 c = c AND 63"

lemmas sextet_defs = sextet1_def sextet2_def sextet3_def sextet4_def

text \<open>The loop of \<open>base64_flush\<close>: three input bytes to four characters, the last group padded.\<close>

fun base64_quads :: "byte list \<Rightarrow> byte list" where
  "base64_quads [] = []"
| "base64_quads (a # rest) =
     (let b = (case rest of [] \<Rightarrow> 0 | b # _ \<Rightarrow> b);
          c = (case rest of _ # c # _ \<Rightarrow> c | _ \<Rightarrow> 0);
          d = base64tab ! unat (sextet1 a);
          e = base64tab ! unat (sextet2 a b);
          f = base64tab ! unat (sextet3 b c);
          g = base64tab ! unat (sextet4 c);
          f = (if rest = [] then ch CHR ''='' else f);
          g = (if length rest < 2 then ch CHR ''='' else g)
      in [d, e, f, g] @ base64_quads (drop 2 rest))"

definition base64_flush :: "'s callback \<Rightarrow> enc_info \<times> 's \<Rightarrow> int \<times> (enc_info \<times> 's)" where
  "base64_flush cb = (\<lambda>(info, s).
     eflush cb (base64_quads (take (input_buf_cnt info) (input_buffer info)) @ [NL])
       (info\<lparr>input_buf_cnt := 0\<rparr>, s))"

definition base64_full_flush :: "'s callback \<Rightarrow> enc_info \<times> 's \<Rightarrow> int \<times> (enc_info \<times> 's)" where
  "base64_full_flush cb = (\<lambda>(info, s).
     if input_buf_cnt info = INBUFSIZ then base64_flush cb (info, s) else (0, (info, s)))"

lemma eflush_step:
  "eflush cb ptr st = (0, st') \<Longrightarrow> ptr \<noteq> [] \<Longrightarrow> flush_if_full cb st = (rc, (info, s)) \<Longrightarrow>
   rc = 0 \<and> (let i = room BUFSIZ (length (output_buffer info)) (length ptr)
     in eflush cb (drop i ptr)
          (info\<lparr>output_buffer := output_buffer info @ take i ptr\<rparr>, s)) = (0, st')"
  by (simp add: eflush.simps [of cb ptr st] split: if_splits)

lemma eflush_frame:
  "eflush cb ptr (info, s) = (rc, (info', s')) \<Longrightarrow>
   input_buf_cnt info' = input_buf_cnt info \<and> input_buffer info' = input_buffer info \<and>
   encoding_func info' = encoding_func info"
proof (induction cb ptr "(info, s)" arbitrary: info s rule: eflush.induct)
  case (1 cb ptr info s)
  show ?case
  proof (cases "ptr = []")
    case True
    with "1.prems" show ?thesis by (simp add: eflush.simps)
  next
    case False
    obtain rc1 info1 s1 where f: "flush_if_full cb (info, s) = (rc1, (info1, s1))"
      by (metis prod_cases3)
    have same: "input_buf_cnt info1 = input_buf_cnt info \<and> input_buffer info1 = input_buffer info \<and>
      encoding_func info1 = encoding_func info"
      using f by (auto simp: flush_if_full_def split: if_splits prod.splits)
    show ?thesis
      using "1.prems" "1.hyps" [OF False f [symmetric] refl _ refl] False f same
      by (subst (asm) eflush.simps) (auto simp: Let_def split: if_splits)
  qed
qed

lemma base64_full_flush_not_full:
  "base64_full_flush cb st = (rc, (info, s)) \<Longrightarrow> input_buf_cnt info \<noteq> INBUFSIZ"
  by (cases st) (auto simp: base64_full_flush_def base64_flush_def INBUFSIZ_def
      split: if_splits dest!: eflush_frame)

function base64_loop :: "'s callback \<Rightarrow> byte list \<Rightarrow> enc_info \<times> 's \<Rightarrow> int \<times> (enc_info \<times> 's)" where
  "base64_loop cb buf st =
     (if buf = [] then (0, st)
      else case base64_full_flush cb st of (rc, (info, s)) \<Rightarrow>
        if rc \<noteq> 0 then (rc, (info, s))
        else let i = room INBUFSIZ (input_buf_cnt info) (length buf)
             in base64_loop cb (drop i buf)
                  (info\<lparr>input_buffer := take (input_buf_cnt info) (input_buffer info) @ take i buf,
                        input_buf_cnt := input_buf_cnt info + i\<rparr>, s))"
  by pat_completeness auto
termination
  by (relation "measure (\<lambda>(cb, buf, st). length buf)")
    (auto simp: room_def dest!: base64_full_flush_not_full [OF sym])

declare base64_loop.simps [simp del]

text \<open>\<open>base64\<close> is called with a null pointer at the end of the input.\<close>

fun base64 :: "'s callback \<Rightarrow> byte list option \<Rightarrow> enc_info \<times> 's \<Rightarrow> int \<times> (enc_info \<times> 's)" where
  "base64 cb None (info, s) =
     (if 0 < input_buf_cnt info then base64_flush cb (info, s) else (0, (info, s)))"
| "base64 cb (Some buf) st = base64_loop cb buf st"


subsection \<open>Quoted-printable\<close>

definition xdigit :: "byte list" where
  "xdigit = asc ''0123456789ABCDEF''"

text \<open>
  The test on \<open>*p\<close> for a byte to escape. \<open>char\<close> is signed on the targets, so bytes from
  128 on compare below the space.
\<close>

definition qp_escapes :: "byte \<Rightarrow> bool" where
  "qp_escapes c \<longleftrightarrow> sint c < 32 \<or> c = ch CHR ''='' \<or> 127 \<le> sint c"

text \<open>The macro \<open>QPUT\<close>: append to \<open>local_buf\<close>, handing it on first when it is full.\<close>

definition QPUT :: "'s callback \<Rightarrow> byte \<Rightarrow> byte list \<times> enc_info \<times> 's
    \<Rightarrow> int \<times> (byte list \<times> enc_info \<times> 's)" where
  "QPUT cb c = (\<lambda>(local_buf, st).
     if length local_buf = 256
     then (case eflush cb local_buf st of (rc, st') \<Rightarrow>
             if rc \<noteq> 0 then (rc, ([], st')) else (0, ([c], st')))
     else (0, (local_buf @ [c], st)))"

definition set_col :: "nat \<Rightarrow> byte list \<times> enc_info \<times> 's \<Rightarrow> byte list \<times> enc_info \<times> 's" where
  "set_col n = (\<lambda>(local_buf, info, s). (local_buf, info\<lparr>input_buf_cnt := n\<rparr>, s))"

definition col :: "byte list \<times> enc_info \<times> 's \<Rightarrow> nat" where
  "col = (\<lambda>(local_buf, info, s). input_buf_cnt info)"

definition qp_soft_break :: "'s callback \<Rightarrow> byte \<Rightarrow> byte list \<times> enc_info \<times> 's
    \<Rightarrow> int \<times> (byte list \<times> enc_info \<times> 's)" where
  "qp_soft_break cb c st =
     (if 72 < col st \<and> c \<noteq> NL
      then rc_then (QPUT cb (ch CHR ''='') st)
             (\<lambda>st. rc_then (QPUT cb NL st) (\<lambda>st. (0, set_col 0 st)))
      else (0, st))"

definition qp_char :: "'s callback \<Rightarrow> byte \<Rightarrow> byte list \<times> enc_info \<times> 's
    \<Rightarrow> int \<times> (byte list \<times> enc_info \<times> 's)" where
  "qp_char cb c st =
     (if c = NL then QPUT cb c (set_col 0 st)
      else if qp_escapes c then
        rc_then (QPUT cb (ch CHR ''='') st)
          (\<lambda>st. rc_then (QPUT cb (xdigit ! unat (drop_bit 4 c AND 15)) st)
            (\<lambda>st. rc_then (QPUT cb (xdigit ! unat (c AND 15)) st)
              (\<lambda>st. (0, set_col (col st + 3) st))))
      else QPUT cb c (set_col (col st + 1) st))"

fun qp_loop :: "'s callback \<Rightarrow> byte list \<Rightarrow> byte list \<times> enc_info \<times> 's
    \<Rightarrow> int \<times> (byte list \<times> enc_info \<times> 's)" where
  "qp_loop cb [] st = (0, st)"
| "qp_loop cb (c # p) st =
     rc_then (qp_soft_break cb c st)
       (\<lambda>st. rc_then (qp_char cb c st) (\<lambda>st. qp_loop cb p st))"

fun quoted_printable :: "'s callback \<Rightarrow> byte list option \<Rightarrow> enc_info \<times> 's
    \<Rightarrow> int \<times> (enc_info \<times> 's)" where
  "quoted_printable cb None st = (0, st)"
| "quoted_printable cb (Some p) st =
     (case qp_loop cb p ([], st) of (rc, (local_buf, st')) \<Rightarrow>
        if rc \<noteq> 0 then (rc, st')
        else if local_buf \<noteq> [] then eflush cb local_buf st'
        else (0, st'))"

subsection \<open>The encoder's interface\<close>

definition encoding_step :: "'s callback \<Rightarrow> byte list option \<Rightarrow> enc_info \<times> 's
    \<Rightarrow> int \<times> (enc_info \<times> 's)" where
  "encoding_step cb ptr = (\<lambda>(info, s).
     case encoding_func info of
       Quoted_printable \<Rightarrow> quoted_printable cb ptr (info, s)
     | Base64 \<Rightarrow> base64 cb ptr (info, s)
     | Eflush \<Rightarrow> eflush cb (case ptr of None \<Rightarrow> [] | Some p \<Rightarrow> p) (info, s))"

definition rfc2045_encode :: "'s callback \<Rightarrow> byte list \<Rightarrow> enc_info \<times> 's
    \<Rightarrow> int \<times> (enc_info \<times> 's)" where
  "rfc2045_encode cb ptr st = encoding_step cb (Some ptr) st"

definition rfc2045_encode_end :: "'s callback \<Rightarrow> enc_info \<times> 's
    \<Rightarrow> int \<times> (enc_info \<times> 's)" where
  "rfc2045_encode_end cb st =
     rc_then (encoding_step cb None st)
       (\<lambda>(info, s).
          if 0 < length (output_buffer info)
          then (case cb (output_buffer info) s of (rc, s') \<Rightarrow> (rc, (info\<lparr>output_buffer := []\<rparr>, s')))
          else (0, (info, s)))"

text \<open>How the clients drive it: start, any number of pieces, end; stop at the first error.\<close>

fun encode_pieces :: "'s callback \<Rightarrow> byte list list \<Rightarrow> enc_info \<times> 's
    \<Rightarrow> int \<times> (enc_info \<times> 's)" where
  "encode_pieces cb [] st = rfc2045_encode_end cb st"
| "encode_pieces cb (x # xs) st =
     rc_then (rfc2045_encode cb x st) (\<lambda>st. encode_pieces cb xs st)"

definition encode_message :: "'s callback \<Rightarrow> byte list \<Rightarrow> byte list list \<Rightarrow> 's \<Rightarrow> int \<times> 's" where
  "encode_message cb transfer_encoding xs s =
     (case encode_pieces cb xs (rfc2045_encode_start transfer_encoding, s) of
        (rc, (info, s')) \<Rightarrow> (rc, s'))"

subsection \<open>What an encoding means\<close>

text \<open>Base64 text: lines of 57 input bytes, each line closed by a newline.\<close>

function b64_lines :: "byte list \<Rightarrow> byte list" where
  "b64_lines x = (if x = [] then []
     else base64_quads (take INBUFSIZ x) @ [NL] @ b64_lines (drop INBUFSIZ x))"
  by pat_completeness auto
termination
  by (relation "measure length") (auto simp: INBUFSIZ_def)

declare b64_lines.simps [simp del]

text \<open>Quoted-printable text, with the column before and after.\<close>

fun qp_text :: "nat \<Rightarrow> byte list \<Rightarrow> byte list" where
  "qp_text n [] = []"
| "qp_text n (c # p) =
     (let brk = (72 < n \<and> c \<noteq> NL); n = (if brk then 0 else n) in
      (if brk then [ch CHR ''='', NL] else []) @
      (if c = NL then NL # qp_text 0 p
       else if qp_escapes c then
         [ch CHR ''='', xdigit ! unat (drop_bit 4 c AND 15), xdigit ! unat (c AND 15)] @ qp_text (n + 3) p
       else c # qp_text (n + 1) p))"

fun qp_col :: "nat \<Rightarrow> byte list \<Rightarrow> nat" where
  "qp_col n [] = n"
| "qp_col n (c # p) =
     (let n = (if 72 < n \<and> c \<noteq> NL then 0 else n) in
      qp_col (if c = NL then 0 else if qp_escapes c then n + 3 else n + 1) p)"

fun encoded :: "encoding \<Rightarrow> byte list \<Rightarrow> byte list" where
  "encoded Base64 x = b64_lines x"
| "encoded Quoted_printable x = qp_text 0 x"
| "encoded Eflush x = x"


lemma b64_lines_Nil [simp]: "b64_lines [] = []"
  by (simp add: b64_lines.simps)

lemma b64_lines_full:
  "length p = INBUFSIZ \<Longrightarrow> b64_lines (p @ f) = base64_quads p @ NL # b64_lines f"
  by (subst b64_lines.simps) (auto simp: INBUFSIZ_def)

lemma b64_lines_short:
  "p \<noteq> [] \<Longrightarrow> length p \<le> INBUFSIZ \<Longrightarrow> b64_lines p = base64_quads p @ [NL]"
  by (subst b64_lines.simps) simp

lemma qp_text_append: "qp_text n (p @ q) = qp_text n p @ qp_text (qp_col n p) q"
  by (induction p arbitrary: n) (simp_all add: Let_def)

lemma qp_col_append: "qp_col n (p @ q) = qp_col (qp_col n p) q"
  by (induction p arbitrary: n) (simp_all add: Let_def)

text \<open>The pending input of the base64 encoder, and what the encoder keeps of it.\<close>

definition pending :: "enc_info \<Rightarrow> byte list" where
  "pending info = take (input_buf_cnt info) (input_buffer info)"

definition b64_ok :: "enc_info \<Rightarrow> bool" where
  "b64_ok info \<longleftrightarrow> input_buf_cnt info \<le> length (input_buffer info) \<and> input_buf_cnt info \<le> INBUFSIZ"

lemma length_pending: "b64_ok info \<Longrightarrow> length (pending info) = input_buf_cnt info"
  by (simp add: b64_ok_def pending_def)

lemma base64_loop_step:
  "base64_loop cb buf st = (0, st') \<Longrightarrow> buf \<noteq> [] \<Longrightarrow> base64_full_flush cb st = (rc, (info, s)) \<Longrightarrow>
   rc = 0 \<and> (let i = room INBUFSIZ (input_buf_cnt info) (length buf)
     in base64_loop cb (drop i buf)
          (info\<lparr>input_buffer := take (input_buf_cnt info) (input_buffer info) @ take i buf,
                input_buf_cnt := input_buf_cnt info + i\<rparr>, s)) = (0, st')"
  by (simp add: base64_loop.simps [of cb buf st] split: if_splits)

subsection \<open>The callback's interface\<close>

text \<open>
  A callback that keeps what it is given: when it reports success it has appended the bytes,
  as \<open>flt\<close> shows them, to its output \<open>out\<close>. \<open>flt\<close> works piece by piece.
\<close>

locale sink =
  fixes put :: "'s callback" and out :: "'s \<Rightarrow> byte list" and flt :: "byte list \<Rightarrow> byte list"
  assumes put_out: "put bs s = (0, s') \<Longrightarrow> out s' = out s @ flt bs"
    and flt_append: "flt (xs @ ys) = flt xs @ flt ys"
begin

lemma flt_Nil: "flt [] = []"
  using flt_append [of "[]" "[]"] by simp

lemma flt_Nil_simps [simp]: "xs @ flt [] = xs" "flt [] @ xs = xs" "(flt [] = []) = True"
  by (simp_all add: flt_Nil)

text \<open>What has left the encoder, the buffered part included; the buffer never overflows.\<close>

definition sent :: "enc_info \<times> 's \<Rightarrow> byte list" where
  "sent st = out (snd st) @ flt (output_buffer (fst st))"

definition fits :: "enc_info \<times> 's \<Rightarrow> bool" where
  "fits st \<longleftrightarrow> length (output_buffer (fst st)) \<le> BUFSIZ"

lemma sent_unfold: "sent (info, s) = out s @ flt (output_buffer info)"
  by (simp add: sent_def)

lemma flush_if_full_sent:
  "flush_if_full put st = (0, st') \<Longrightarrow> fits st \<Longrightarrow> sent st' = sent st \<and> fits st'"
  by (auto simp: flush_if_full_def sent_def fits_def split: prod.splits if_splits dest: put_out)

lemma eflush_sent:
  "eflush put ptr st = (0, st') \<Longrightarrow> fits st \<Longrightarrow> sent st' = sent st @ flt ptr \<and> fits st'"
proof (induction ptr arbitrary: st rule: length_induct)
  case (1 ptr)
  show ?case
  proof (cases "ptr = []")
    case True
    with "1.prems" show ?thesis by (simp add: eflush.simps)
  next
    case False
    obtain rc info s where f: "flush_if_full put st = (rc, (info, s))"
      by (metis prod_cases3)
    define i where "i = room BUFSIZ (length (output_buffer info)) (length ptr)"
    define info' where "info' = info\<lparr>output_buffer := output_buffer info @ take i ptr\<rparr>"
    have rc: "rc = 0" and step: "eflush put (drop i ptr) (info', s) = (0, st')"
      using eflush_step [OF "1.prems"(1) False f] by (simp_all add: i_def info'_def Let_def)
    have fl: "sent (info, s) = sent st" "fits (info, s)"
      using flush_if_full_sent f rc "1.prems"(2) by auto
    then have i: "0 < i" "i \<le> length ptr" "length (output_buffer info) + i \<le> BUFSIZ"
      using False flush_if_full_not_full [OF f] by (auto simp: i_def room_def fits_def)
    then have "length (drop i ptr) < length ptr" and "fits (info', s)"
      using False by (auto simp: fits_def info'_def)
    with "1.IH" step have "sent st' = sent (info', s) @ flt (drop i ptr) \<and> fits st'"
      by blast
    moreover have "flt ptr = flt (take i ptr) @ flt (drop i ptr)"
      by (metis append_take_drop_id flt_append)
    ultimately show ?thesis
      using fl by (simp add: sent_unfold info'_def flt_append)
  qed
qed

lemma base64_flush_sent:
  assumes "base64_flush put (info, s) = (0, (info', s'))" and "fits (info, s)"
  shows "sent (info', s') = sent (info, s) @ flt (base64_quads (pending info) @ [NL])"
    and "fits (info', s')" and "input_buf_cnt info' = 0" and "encoding_func info' = encoding_func info"
proof -
  have e: "eflush put (base64_quads (pending info) @ [NL]) (info\<lparr>input_buf_cnt := 0\<rparr>, s)
      = (0, (info', s'))"
    using assms(1) by (simp add: base64_flush_def pending_def)
  show "sent (info', s') = sent (info, s) @ flt (base64_quads (pending info) @ [NL])"
    and "fits (info', s')"
    using eflush_sent [OF e] assms(2) by (auto simp: fits_def sent_unfold)
  show "input_buf_cnt info' = 0" and "encoding_func info' = encoding_func info"
    using eflush_frame [OF e] by simp_all
qed

lemma base64_full_flush_sent:
  assumes "base64_full_flush put (info, s) = (0, (info', s'))" and "fits (info, s)" and "b64_ok info"
  shows "sent (info', s') @ flt (b64_lines (pending info' @ f)) =
      sent (info, s) @ flt (b64_lines (pending info @ f))"
    and "fits (info', s')" and "b64_ok info'" and "encoding_func info' = encoding_func info"
proof -
  have "sent (info', s') @ flt (b64_lines (pending info' @ f)) =
      sent (info, s) @ flt (b64_lines (pending info @ f)) \<and> fits (info', s') \<and> b64_ok info' \<and>
      encoding_func info' = encoding_func info"
  proof (cases "input_buf_cnt info = INBUFSIZ")
    case True
    with assms(1) have fl: "base64_flush put (info, s) = (0, (info', s'))"
      by (simp add: base64_full_flush_def)
    have "b64_lines (pending info @ f) = (base64_quads (pending info) @ [NL]) @ b64_lines f"
      using b64_lines_full [of "pending info"] length_pending [OF assms(3)] True by simp
    with base64_flush_sent [OF fl assms(2)] flt_append [of "[10]" "b64_lines f"] show ?thesis
      by (simp add: pending_def b64_ok_def flt_append)
  next
    case False
    with assms show ?thesis by (auto simp: base64_full_flush_def)
  qed
  then show "sent (info', s') @ flt (b64_lines (pending info' @ f)) =
      sent (info, s) @ flt (b64_lines (pending info @ f))"
    and "fits (info', s')" and "b64_ok info'" and "encoding_func info' = encoding_func info"
    by blast+
qed

lemma base64_loop_sent:
  "base64_loop put buf (info, s) = (0, (info', s')) \<Longrightarrow> fits (info, s) \<Longrightarrow> b64_ok info \<Longrightarrow>
   sent (info', s') @ flt (b64_lines (pending info' @ f)) =
     sent (info, s) @ flt (b64_lines (pending info @ buf @ f)) \<and>
   fits (info', s') \<and> b64_ok info' \<and> encoding_func info' = encoding_func info"
proof (induction buf arbitrary: info s rule: length_induct)
  case (1 buf)
  show ?case
  proof (cases "buf = []")
    case True
    with "1.prems" show ?thesis by (simp add: base64_loop.simps)
  next
    case False
    obtain rc info1 s1 where fl: "base64_full_flush put (info, s) = (rc, (info1, s1))"
      by (metis prod_cases3)
    define i where "i = room INBUFSIZ (input_buf_cnt info1) (length buf)"
    define info2 where "info2 = info1\<lparr>input_buffer := pending info1 @ take i buf,
      input_buf_cnt := input_buf_cnt info1 + i\<rparr>"
    have rc: "rc = 0" and step: "base64_loop put (drop i buf) (info2, s1) = (0, (info', s'))"
      using base64_loop_step [OF "1.prems"(1) False fl]
      by (simp_all add: i_def info2_def Let_def pending_def)
    note flushed = base64_full_flush_sent [OF fl [unfolded rc] "1.prems"(2,3)]
    have i: "0 < i" "i \<le> length buf" "input_buf_cnt info1 + i \<le> INBUFSIZ"
      using False flushed(3) base64_full_flush_not_full [OF fl]
      by (auto simp: i_def room_def b64_ok_def)
    have p2: "pending info2 = pending info1 @ take i buf" and ok2: "b64_ok info2"
      using i flushed(3) length_pending [OF flushed(3)]
      by (simp_all add: info2_def pending_def b64_ok_def)
    have sent2: "sent (info2, s1) = sent (info1, s1)" and fits2: "fits (info2, s1)"
      using flushed(2) by (simp_all add: info2_def sent_unfold fits_def)
    have "length (drop i buf) < length buf"
      using i False by simp
    with "1.IH" step fits2 ok2 have
      "sent (info', s') @ flt (b64_lines (pending info' @ f)) =
         sent (info2, s1) @ flt (b64_lines (pending info2 @ drop i buf @ f)) \<and>
       fits (info', s') \<and> b64_ok info' \<and> encoding_func info' = encoding_func info2"
      by blast
    then show ?thesis
      using p2 sent2 flushed(1) [of "buf @ f"] flushed(4)
      by (simp add: info2_def flip: append_assoc) (metis append_assoc append_take_drop_id)
  qed
qed

text \<open>Quoted-printable: what has been sent includes the local buffer.\<close>

definition sent_qp :: "byte list \<times> enc_info \<times> 's \<Rightarrow> byte list" where
  "sent_qp st = sent (snd st) @ flt (fst st)"

definition same_enc :: "byte list \<times> enc_info \<times> 's \<Rightarrow> byte list \<times> enc_info \<times> 's \<Rightarrow> bool" where
  "same_enc st st' \<longleftrightarrow> encoding_func (fst (snd st')) = encoding_func (fst (snd st)) \<and>
     (fits (snd st) \<longrightarrow> fits (snd st'))"

lemma same_enc_trans: "same_enc a b \<Longrightarrow> same_enc b c \<Longrightarrow> same_enc a c"
  by (simp add: same_enc_def)

lemma set_col_simps [simp]:
  "sent_qp (set_col n st) = sent_qp st" "col (set_col n st) = n" "same_enc st (set_col n st)"
  "fits (snd (set_col n st)) = fits (snd st)"
  "encoding_func (fst (snd (set_col n st))) = encoding_func (fst (snd st))"
  by (auto simp: set_col_def sent_qp_def col_def sent_def same_enc_def fits_def split: prod.splits)

lemma QPUT_sent:
  "QPUT put c st = (0, st') \<Longrightarrow> fits (snd st) \<Longrightarrow>
   sent_qp st' = sent_qp st @ flt [c] \<and> col st' = col st \<and> same_enc st st'"
proof (cases st)
  case (fields lb info s)
  assume q: "QPUT put c st = (0, st')" and fit: "fits (snd st)"
  show ?thesis
  proof (cases "length lb = 256")
    case True
    with q fields obtain info' s' where e: "eflush put lb (info, s) = (0, (info', s'))"
      and st': "st' = ([c], (info', s'))"
      by (auto simp: QPUT_def split: prod.splits if_splits)
    from eflush_sent [OF e] eflush_frame [OF e] fit fields st' show ?thesis
      by (simp add: sent_qp_def col_def same_enc_def)
  next
    case False
    with q fields show ?thesis
      by (auto simp: QPUT_def sent_qp_def col_def same_enc_def flt_append)
  qed
qed

lemma qp_soft_break_sent:
  assumes "qp_soft_break put c st = (0, st')" and fit: "fits (snd st)"
  shows "sent_qp st' = sent_qp st @ flt (if 72 < col st \<and> c \<noteq> NL then [ch CHR ''='', NL] else []) \<and>
    col st' = (if 72 < col st \<and> c \<noteq> NL then 0 else col st) \<and> same_enc st st'"
proof (cases "72 < col st \<and> c \<noteq> NL")
  case True
  with assms(1) obtain st1 st2 where q: "QPUT put (ch CHR ''='') st = (0, st1)"
    "QPUT put NL st1 = (0, st2)" and st': "st' = set_col 0 st2"
    by (auto simp: qp_soft_break_def rc_then_0 simp del: NL_def)
  from QPUT_sent [OF q(1) fit] have s1: "sent_qp st1 = sent_qp st @ flt [ch CHR ''='']"
    "same_enc st st1" by simp_all
  then have "fits (snd st1)" using fit by (simp add: same_enc_def)
  from QPUT_sent [OF q(2) this] have s2: "sent_qp st2 = sent_qp st1 @ flt [NL]" "same_enc st1 st2"
    by simp_all
  show ?thesis
    using True s1 s2 st' flt_append [of "[ch CHR ''='']" "[NL]"]
    by (auto simp: same_enc_def)
next
  case False
  with assms show ?thesis by (auto simp: qp_soft_break_def same_enc_def)
qed

lemma qp_char_sent:
  assumes "qp_char put c st = (0, st')" and fit: "fits (snd st)"
  shows "sent_qp st' = sent_qp st @ flt (if c = NL then [NL] else if qp_escapes c
      then [ch CHR ''='', xdigit ! unat (drop_bit 4 c AND 15), xdigit ! unat (c AND 15)] else [c]) \<and>
    col st' = (if c = NL then 0 else if qp_escapes c then col st + 3 else col st + 1) \<and> same_enc st st'"
proof (cases "c \<noteq> NL \<and> qp_escapes c")
  case True
  let ?h = "xdigit ! unat (drop_bit 4 c AND 15)" and ?l = "xdigit ! unat (c AND 15)"
  from True assms(1) obtain st1 st2 st3 where q: "QPUT put (ch CHR ''='') st = (0, st1)"
    "QPUT put ?h st1 = (0, st2)" "QPUT put ?l st2 = (0, st3)" and st': "st' = set_col (col st3 + 3) st3"
    by (auto simp: qp_char_def rc_then_0 simp del: NL_def)
  from QPUT_sent [OF q(1) fit] have s1: "sent_qp st1 = sent_qp st @ flt [ch CHR ''='']"
    "same_enc st st1" "col st1 = col st" by simp_all
  then have "fits (snd st1)" using fit by (simp add: same_enc_def)
  from QPUT_sent [OF q(2) this] have s2: "sent_qp st2 = sent_qp st1 @ flt [?h]" "same_enc st1 st2"
    "col st2 = col st1" "fits (snd st2)" using \<open>fits (snd st1)\<close> by (simp_all add: same_enc_def)
  from QPUT_sent [OF q(3) s2(4)] have s3: "sent_qp st3 = sent_qp st2 @ flt [?l]" "same_enc st2 st3"
    "col st3 = col st2" by simp_all
  show ?thesis
    using True s1 s2 s3 st' flt_append [of "[ch CHR ''='']" "[?h, ?l]"] flt_append [of "[?h]" "[?l]"]
    by (auto simp: same_enc_def)
next
  case False
  with assms(1) have "QPUT put c (set_col (if c = NL then 0 else col st + 1) st) = (0, st')"
    by (auto simp: qp_char_def simp del: NL_def split: if_splits)
  from QPUT_sent [OF this] fit False show ?thesis
    by (auto simp: same_enc_def)
qed

lemma qp_loop_sent:
  "qp_loop put p st = (0, st') \<Longrightarrow> fits (snd st) \<Longrightarrow>
   sent_qp st' = sent_qp st @ flt (qp_text (col st) p) \<and> col st' = qp_col (col st) p \<and> same_enc st st'"
proof (induction p arbitrary: st)
  case Nil
  then show ?case by (auto simp: same_enc_def)
next
  case (Cons c p)
  then obtain st1 st2 where q: "qp_soft_break put c st = (0, st1)" "qp_char put c st1 = (0, st2)"
    "qp_loop put p st2 = (0, st')"
    by (auto simp: rc_then_0)
  note b = qp_soft_break_sent [OF q(1) Cons.prems(2)]
  then have f1: "fits (snd st1)" using Cons.prems(2) by (simp add: same_enc_def)
  note k = qp_char_sent [OF q(2) f1]
  then have f2: "fits (snd st2)" using f1 by (simp add: same_enc_def)
  note IH = Cons.IH [OF q(3) f2]
  let ?brk = "if 72 < col st \<and> c \<noteq> NL then [ch CHR ''='', NL] else []"
  let ?chr = "if c = NL then [NL] else if qp_escapes c
      then [ch CHR ''='', xdigit ! unat (drop_bit 4 c AND 15), xdigit ! unat (c AND 15)] else [c]"
  have "qp_text (col st) (c # p) = ?brk @ ?chr @ qp_text (col st2) p"
    using b k by (simp add: Let_def del: NL_def)
  moreover have "qp_col (col st) (c # p) = qp_col (col st2) p"
    using b k by (simp add: Let_def del: NL_def)
  moreover have "same_enc st st'"
    using b k IH by (blast intro: same_enc_trans)
  ultimately show ?case
    using b k IH by (simp only: flt_append append_assoc)
qed

lemma quoted_printable_sent:
  assumes "quoted_printable put (Some p) (info, s) = (0, (info', s'))" and fit: "fits (info, s)"
  shows "sent (info', s') = sent (info, s) @ flt (qp_text (input_buf_cnt info) p)"
    and "input_buf_cnt info' = qp_col (input_buf_cnt info) p"
    and "fits (info', s')" and "encoding_func info' = encoding_func info"
proof -
  obtain rc lb info1 s1 where l: "qp_loop put p ([], (info, s)) = (rc, (lb, (info1, s1)))"
    by (metis prod_cases4)
  with assms(1) have "rc = 0" by (auto split: if_splits)
  with l have l: "qp_loop put p ([], (info, s)) = (0, (lb, (info1, s1)))" by simp
  from qp_loop_sent [OF l] fit
  have sq: "sent (info1, s1) @ flt lb = sent (info, s) @ flt (qp_text (input_buf_cnt info) p)"
    "input_buf_cnt info1 = qp_col (input_buf_cnt info) p" "fits (info1, s1)"
    "encoding_func info1 = encoding_func info"
    by (simp_all add: sent_qp_def col_def same_enc_def)
  have "sent (info', s') = sent (info1, s1) @ flt lb \<and> fits (info', s') \<and>
    input_buf_cnt info' = input_buf_cnt info1 \<and> encoding_func info' = encoding_func info1"
  proof (cases "lb = []")
    case True
    with l assms(1) sq show ?thesis by simp
  next
    case False
    with l assms(1) have "eflush put lb (info1, s1) = (0, (info', s'))" by simp
    from eflush_sent [OF this sq(3)] eflush_frame [OF this] show ?thesis by simp
  qed
  with sq show "sent (info', s') = sent (info, s) @ flt (qp_text (input_buf_cnt info) p)"
    and "input_buf_cnt info' = qp_col (input_buf_cnt info) p"
    and "fits (info', s')" and "encoding_func info' = encoding_func info" by simp_all
qed

text \<open>
  The invariant of a whole run: what has been sent, followed by what the encoder still owes for
  its pending input and the input to come, is the encoding of the whole input.
\<close>

definition owed :: "enc_info \<Rightarrow> byte list \<Rightarrow> byte list" where
  "owed info x = (case encoding_func info of
     Base64 \<Rightarrow> b64_lines (pending info @ x)
   | Quoted_printable \<Rightarrow> qp_text (input_buf_cnt info) x
   | Eflush \<Rightarrow> x)"

definition enc_ok :: "enc_info \<times> 's \<Rightarrow> bool" where
  "enc_ok st \<longleftrightarrow> fits st \<and> (encoding_func (fst st) = Base64 \<longrightarrow> b64_ok (fst st))"

lemma rfc2045_encode_sent:
  assumes "rfc2045_encode put x (info, s) = (0, (info', s'))" and ok: "enc_ok (info, s)"
  shows "sent (info', s') @ flt (owed info' f) = sent (info, s) @ flt (owed info (x @ f))"
    and "enc_ok (info', s')" and "encoding_func info' = encoding_func info"
proof -
  have fit: "fits (info, s)" using ok by (simp add: enc_ok_def)
  have "sent (info', s') @ flt (owed info' f) = sent (info, s) @ flt (owed info (x @ f)) \<and>
    enc_ok (info', s') \<and> encoding_func info' = encoding_func info"
  proof (cases "encoding_func info")
    case Quoted_printable
    with assms(1) have "quoted_printable put (Some x) (info, s) = (0, (info', s'))"
      by (simp add: rfc2045_encode_def encoding_step_def)
    from quoted_printable_sent [OF this fit] Quoted_printable show ?thesis
      by (simp add: owed_def qp_text_append flt_append enc_ok_def)
  next
    case Base64
    with assms(1) have "base64_loop put x (info, s) = (0, (info', s'))"
      by (simp add: rfc2045_encode_def encoding_step_def)
    from base64_loop_sent [OF this fit, of f] Base64 ok show ?thesis
      by (simp add: owed_def enc_ok_def)
  next
    case Eflush
    with assms(1) have e: "eflush put x (info, s) = (0, (info', s'))"
      by (simp add: rfc2045_encode_def encoding_step_def)
    from eflush_sent [OF e fit] eflush_frame [OF e] Eflush show ?thesis
      by (simp add: owed_def enc_ok_def flt_append)
  qed
  then show "sent (info', s') @ flt (owed info' f) = sent (info, s) @ flt (owed info (x @ f))"
    and "enc_ok (info', s')" and "encoding_func info' = encoding_func info" by blast+
qed

lemma encoding_step_end_sent:
  assumes "encoding_step put None (info, s) = (0, (info', s'))" and ok: "enc_ok (info, s)"
  shows "sent (info', s') = sent (info, s) @ flt (owed info [])"
proof (cases "encoding_func info")
  case Quoted_printable
  with assms(1) show ?thesis by (simp add: encoding_step_def owed_def)
next
  case Base64
  have fit: "fits (info, s)" and b: "b64_ok info" using ok Base64 by (auto simp: enc_ok_def)
  show ?thesis
  proof (cases "0 < input_buf_cnt info")
    case True
    with assms(1) Base64 have fl: "base64_flush put (info, s) = (0, (info', s'))"
      by (simp add: encoding_step_def)
    have "length (pending info) = input_buf_cnt info" by (rule length_pending [OF b])
    with True b have "b64_lines (pending info) = base64_quads (pending info) @ [NL]"
      by (intro b64_lines_short) (auto simp: b64_ok_def)
    with base64_flush_sent(1) [OF fl fit] Base64 show ?thesis by (simp add: owed_def)
  next
    case False
    with assms(1) Base64 show ?thesis by (simp add: encoding_step_def owed_def pending_def)
  qed
next
  case Eflush
  with assms(1) show ?thesis by (simp add: encoding_step_def owed_def eflush.simps)
qed

lemma rfc2045_encode_end_sent:
  assumes "rfc2045_encode_end put (info, s) = (0, (info', s'))" and ok: "enc_ok (info, s)"
  shows "out s' = sent (info, s) @ flt (owed info [])"
proof -
  from assms(1) obtain info1 s1 where e: "encoding_step put None (info, s) = (0, (info1, s1))"
    and r: "(if 0 < length (output_buffer info1)
          then (case put (output_buffer info1) s1 of (rc, s') \<Rightarrow> (rc, (info1\<lparr>output_buffer := []\<rparr>, s')))
          else (0, (info1, s1))) = (0, (info', s'))"
    unfolding rfc2045_encode_end_def rc_then_0 by auto
  have "out s' = sent (info1, s1)"
    using r by (auto simp: sent_def split: if_splits prod.splits dest: put_out)
  with encoding_step_end_sent [OF e ok] show ?thesis by simp
qed

lemma encode_pieces_sent:
  "encode_pieces put xs (info, s) = (0, (info', s')) \<Longrightarrow> enc_ok (info, s) \<Longrightarrow>
   out s' = sent (info, s) @ flt (owed info (concat xs))"
proof (induction xs arbitrary: info s)
  case Nil
  then show ?case using rfc2045_encode_end_sent by simp
next
  case (Cons x xs)
  then obtain info1 s1 where e: "rfc2045_encode put x (info, s) = (0, (info1, s1))"
    and r: "encode_pieces put xs (info1, s1) = (0, (info', s'))"
    by (auto simp: rc_then_0)
  note step = rfc2045_encode_sent [OF e Cons.prems(2)]
  from Cons.IH [OF r step(2)] step(1) [of "concat xs"] show ?case by simp
qed

lemma encode_message_sent:
  assumes "encode_message put te xs s = (0, s')"
  shows "out s' = out s @ flt (encoded (encoding_func (rfc2045_encode_start te)) (concat xs))"
proof -
  let ?i = "rfc2045_encode_start te"
  from assms obtain info' where e: "encode_pieces put xs (?i, s) = (0, (info', s'))"
    by (auto simp: encode_message_def split: prod.splits)
  have "enc_ok (?i, s)"
    by (simp add: enc_ok_def fits_def b64_ok_def rfc2045_encode_start_def)
  from encode_pieces_sent [OF e this] show ?thesis
    by (auto simp: sent_def owed_def pending_def rfc2045_encode_start_def split: encoding.split)
qed

end

subsection \<open>Codes the encoder returns\<close>

text \<open>The encoder makes up no error of its own: a code it returns is 0 or one of the callback's.\<close>

definition codes :: "'s callback \<Rightarrow> int set" where
  "codes cb = insert 0 {rc. \<exists>bs s. rc = fst (cb bs s)}"

lemma codes_0 [simp]: "0 \<in> codes cb"
  by (simp add: codes_def)

lemma codes_cb [simp]: "fst (cb bs s) \<in> codes cb"
  by (auto simp: codes_def)

lemma codes_cb_eq: "cb bs s = (rc, s') \<Longrightarrow> rc \<in> codes cb"
  by (metis codes_cb fst_conv)

lemma codes_rc_then:
  "fst r \<in> codes cb \<Longrightarrow> (\<And>st. fst (f st) \<in> codes cb) \<Longrightarrow> fst (rc_then r f) \<in> codes cb"
  by (cases r) auto

lemma flush_if_full_code: "fst (flush_if_full cb st) \<in> codes cb"
  by (cases st) (auto simp: flush_if_full_def split: prod.splits intro: codes_cb_eq)

lemma eflush_code: "fst (eflush cb ptr st) \<in> codes cb"
proof (induction ptr arbitrary: st rule: length_induct)
  case (1 ptr)
  obtain rc info s where f: "flush_if_full cb st = (rc, (info, s))"
    by (metis prod_cases3)
  have rc: "rc \<in> codes cb" using flush_if_full_code [of cb st] f by simp
  let ?i = "room BUFSIZ (length (output_buffer info)) (length ptr)"
  have "ptr \<noteq> [] \<Longrightarrow> length (drop ?i ptr) < length ptr"
    using flush_if_full_not_full [OF f] by (auto simp: room_def)
  with "1.IH" f rc show ?case
    by (subst eflush.simps) (auto simp: Let_def)
qed

lemma base64_flush_code: "fst (base64_flush cb st) \<in> codes cb"
  by (cases st) (simp add: base64_flush_def eflush_code)

lemma base64_loop_code: "fst (base64_loop cb buf st) \<in> codes cb"
proof (induction buf arbitrary: st rule: length_induct)
  case (1 buf)
  obtain rc info s where f: "base64_full_flush cb st = (rc, (info, s))"
    by (metis prod_cases3)
  have "fst (base64_full_flush cb st) \<in> codes cb"
    by (cases st) (simp add: base64_full_flush_def base64_flush_code)
  with f have rc: "rc \<in> codes cb" by simp
  let ?i = "room INBUFSIZ (input_buf_cnt info) (length buf)"
  have "buf \<noteq> [] \<Longrightarrow> length (drop ?i buf) < length buf"
    using base64_full_flush_not_full [OF f] by (auto simp: room_def)
  with "1.IH" f rc show ?case
    by (subst base64_loop.simps) (auto simp: Let_def)
qed

lemma QPUT_code: "fst (QPUT cb c st) \<in> codes cb"
proof -
  obtain lb st' where "st = (lb, st')" by (metis surj_pair)
  moreover have "fst (eflush cb lb st') \<in> codes cb" by (rule eflush_code)
  ultimately show ?thesis by (auto simp: QPUT_def split: prod.splits)
qed

lemma qp_loop_code: "fst (qp_loop cb p st) \<in> codes cb"
proof (induction p arbitrary: st)
  case Nil
  show ?case by simp
next
  case (Cons c p)
  have "fst (qp_soft_break cb c st) \<in> codes cb" for st
    by (auto simp: qp_soft_break_def intro!: codes_rc_then QPUT_code)
  moreover have "fst (qp_char cb c st) \<in> codes cb" for st
    by (auto simp: qp_char_def intro!: codes_rc_then QPUT_code)
  ultimately show ?case unfolding qp_loop.simps by (intro codes_rc_then Cons.IH)
qed

lemma encoding_step_code: "fst (encoding_step cb ptr st) \<in> codes cb"
proof (cases st)
  case (Pair info s)
  have "fst (base64 cb ptr (info, s)) \<in> codes cb"
    by (cases ptr) (auto simp: base64_loop_code base64_flush_code)
  moreover have "fst (quoted_printable cb ptr (info, s)) \<in> codes cb"
  proof (cases ptr)
    case None
    then show ?thesis by simp
  next
    case (Some p)
    obtain rc lb st' where l: "qp_loop cb p ([], (info, s)) = (rc, (lb, st'))"
      by (metis prod_cases3)
    with qp_loop_code [of cb p "([], (info, s))"] have "rc \<in> codes cb" by simp
    with l Some show ?thesis by (auto simp: eflush_code)
  qed
  ultimately show ?thesis
    using Pair by (auto simp: encoding_step_def eflush_code split: encoding.split)
qed

lemma encode_pieces_code: "fst (encode_pieces cb xs st) \<in> codes cb"
proof (induction xs arbitrary: st)
  case Nil
  show ?case
    by (auto simp: rfc2045_encode_end_def intro!: codes_rc_then encoding_step_code
        split: prod.splits intro: codes_cb_eq)
next
  case (Cons x xs)
  then show ?case
    by (auto simp: rfc2045_encode_def intro!: codes_rc_then encoding_step_code)
qed

lemma encode_message_code: "encode_message cb te xs s = (rc, s') \<Longrightarrow> rc \<in> codes cb"
  using encode_pieces_code [of cb xs "(rfc2045_encode_start te, s)"]
  by (auto simp: encode_message_def split: prod.splits)

text \<open>A sink that never refuses: the encoder then always finishes.\<close>

locale reliable_sink = sink +
  assumes put_rc: "fst (put bs s) = 0"
begin

lemma codes_put: "codes put = {0}"
  by (auto simp: codes_def put_rc)

lemma encode_message_total:
  "\<exists>s'. encode_message put te xs s = (0, s') \<and>
     out s' = out s @ flt (encoded (encoding_func (rfc2045_encode_start te)) (concat xs))"
proof -
  obtain rc s' where e: "encode_message put te xs s = (rc, s')"
    by (metis surj_pair)
  with encode_message_code [OF e] have "rc = 0" by (simp add: codes_put)
  with e encode_message_sent show ?thesis by blast
qed

end

subsection \<open>What autodetection decides\<close>

definition has_long :: "byte list \<Rightarrow> bool" where
  "has_long fp \<longleftrightarrow> (\<exists>a b c. fp = a @ b @ c \<and> NL \<notin> set b \<and> 990 < length b)"

fun long_line :: "nat \<Rightarrow> byte list \<Rightarrow> bool" where
  "long_line l [] \<longleftrightarrow> False"
| "long_line l (c # fp) \<longleftrightarrow> (if c = NL then long_line 0 fp else 990 < l + 1 \<or> long_line (l + 1) fp)"

lemma has_long_Cons: "has_long fp \<Longrightarrow> has_long (c # fp)"
  unfolding has_long_def by (metis append_Cons)

lemma has_long_NL: "length p \<le> 990 \<Longrightarrow> has_long (p @ NL # fp) \<longleftrightarrow> has_long fp"
proof
  assume p: "length p \<le> 990" and "has_long (p @ NL # fp)"
  then obtain a b c where e: "p @ NL # fp = a @ b @ c" and b: "NL \<notin> set b" "990 < length b"
    by (auto simp: has_long_def)
  have "length p < length a"
  proof (rule ccontr)
    assume n: "\<not> length p < length a"
    have lt: "length p - length a < length b" using p b(2) by linarith
    with n have "(a @ b @ c) ! length p = b ! (length p - length a)"
      by (simp add: nth_append)
    moreover have "(a @ b @ c) ! length p = NL"
      by (metis e nth_append_length)
    ultimately show False using b(1) lt by (metis nth_mem)
  qed
  then have "fp = drop (Suc (length p)) a @ b @ c"
    using arg_cong [OF e, of "drop (Suc (length p))"] by simp
  with b show "has_long fp" unfolding has_long_def by blast
next
  assume "has_long fp"
  then show "has_long (p @ NL # fp)"
    by (induction p) (auto intro: has_long_Cons)
qed

lemma long_line_has_long:
  "NL \<notin> set p \<Longrightarrow> length p \<le> 990 \<Longrightarrow> long_line (length p) fp \<longleftrightarrow> has_long (p @ fp)"
proof (induction fp arbitrary: p)
  case Nil
  then show ?case by (auto simp: has_long_def)
next
  case (Cons c fp)
  consider "c = NL" | "c \<noteq> NL" "length p < 990" | "c \<noteq> NL" "length p = 990"
    using Cons.prems(2) by linarith
  then show ?case
  proof cases
    case 1
    with Cons.IH [of "[]"] has_long_NL [OF Cons.prems(2)] show ?thesis by simp
  next
    case 2
    with Cons.IH [of "p @ [c]"] Cons.prems show ?thesis by simp
  next
    case 3
    with Cons.prems(1) have "has_long (p @ c # fp)"
      unfolding has_long_def by (intro exI [of _ "[]"] exI [of _ "p @ [c]"] exI [of _ fp]) auto
    with 3 show ?thesis by simp
  qed
qed

lemma autodetect_loop_spec:
  "autodetect_loop okQp fp l longline encoding =
     (if 0 \<in> set fp \<or> \<not> okQp \<and> long_line l fp then ''base64''
      else if okQp \<and> (longline \<or> long_line l fp) then ''quoted-printable''
      else if \<exists>c \<in> set fp. 128 \<le> c then ''8bit'' else encoding)"
  by (induction fp arbitrary: l longline encoding) (auto simp: Let_def)

subsection \<open>Properties\<close>

text \<open>
  The encoding chosen for a body: base64 when it holds a NUL, or a line of more than 990
  bytes that quoted-printable may not be used for; quoted-printable for such a line otherwise;
  8bit when a byte is above 127; else 7bit.
\<close>

theorem autodetect_spec:
  "rfc2045_encode_autodetect_fp fp okQp =
     (if 0 \<in> set fp \<or> \<not> okQp \<and> has_long fp then ''base64''
      else if has_long fp then ''quoted-printable''
      else if \<exists>c \<in> set fp. 128 \<le> c then ''8bit'' else ''7bit'')"
  using long_line_has_long [of "[]" fp]
  by (simp add: rfc2045_encode_autodetect_fp_def autodetect_loop_spec)

end
