(* ===== verification/Base64_Decode.thy ===== *)
theory Base64_Decode imports Mime_Encode begin

text \<open>
  The base64 decoder \<open>wmail/rfc2045/base64.c\<close>: the incremental decoder, whose 256-byte work
  buffer is decoded four values at a time and handed to the callback, and
  \<open>base64_decode_str\<close>, which decodes a whole string. The callback interface is that of the
  encoder (locale \<open>sink\<close>); \<open>save_str\<close> is the callback the source itself provides.
\<close>

subsection \<open>Definitions\<close>

text \<open>
  \<open>struct base64decode\<close>: the first \<open>workbuflen\<close> bytes of \<open>workbuf\<close>, beside the callback's
  state. The values kept there are at most 100, so the \<open>int\<close> expressions of \<open>doflush\<close>,
  stored back as \<open>char\<close>, are the byte expressions below.
\<close>

definition WORKBUF :: nat where "WORKBUF = 256"

fun decode_quads :: "byte list \<Rightarrow> byte list \<times> byte list" where
  "decode_quads (w # x # y # z # rest) =
     (let a = push_bit 2 w OR drop_bit 4 x;
          b = push_bit 4 x OR drop_bit 2 y;
          c = push_bit 6 y OR z;
          (done, left) = decode_quads rest
      in ([a] @ (if y \<noteq> 100 then [b] else []) @ (if z \<noteq> 100 then [c] else []) @ done, left))"
| "decode_quads left = ([], left)"

definition doflush :: "'s callback \<Rightarrow> byte list \<times> 's \<Rightarrow> int \<times> (byte list \<times> 's)" where
  "doflush cb = (\<lambda>(workbuf, s).
     case decode_quads workbuf of (done, left) \<Rightarrow>
     case cb done s of (rc, s') \<Rightarrow> (rc, (left, s')))"

fun base64_decode :: "'s callback \<Rightarrow> byte list \<Rightarrow> byte list \<times> 's \<Rightarrow> int \<times> (byte list \<times> 's)" where
  "base64_decode cb [] st = (0, st)"
| "base64_decode cb (c # p) st =
     rc_then (if WORKBUF \<le> length (fst st) then doflush cb st else (0, st))
       (\<lambda>(workbuf, s).
          if c = ch CHR ''='' then base64_decode cb p (workbuf @ [100], s)
          else case strchr base64tab c of
                 None \<Rightarrow> base64_decode cb p (workbuf, s)
               | Some i \<Rightarrow> base64_decode cb p (workbuf @ [of_nat i], s))"

definition base64_decode_init :: "'s \<Rightarrow> byte list \<times> 's" where
  "base64_decode_init s = ([], s)"

definition base64_decode_end :: "'s callback \<Rightarrow> byte list \<times> 's \<Rightarrow> int \<times> (byte list \<times> 's)" where
  "base64_decode_end cb st = doflush cb st"

text \<open>\<open>save_str\<close> copies to where the pointer stands; the state is what has been written.\<close>

definition save_str :: "byte list callback" where
  "save_str p written = (0, written @ p)"

text \<open>
  \<open>base64_decode_str\<close>, for a \<open>strdup\<close> that succeeds (\<open>mem\<close>); it does not look at the codes.
\<close>

definition base64_decode_str :: "bool \<Rightarrow> byte list \<Rightarrow> byte list option" where
  "base64_decode_str mem s =
     (if \<not> mem then None
      else let st = snd (base64_decode save_str s (base64_decode_init []));
               (workbuf, written) = snd (base64_decode_end save_str st)
           in Some written)"

subsection \<open>The alphabet\<close>

lemma distinct_base64tab: "distinct base64tab"
  by (simp add: base64tab_def)

lemma length_base64tab [simp]: "length base64tab = 64"
  by (simp add: base64tab_def)

lemma base64tab_neq: "61 \<notin> set base64tab" "10 \<notin> set base64tab" "13 \<notin> set base64tab" "0 \<notin> set base64tab"
  by (simp_all add: base64tab_def)

lemma strchr_base64tab [simp]: "i < 64 \<Longrightarrow> strchr base64tab (base64tab ! i) = Some i"
  by (simp add: strchr_nth distinct_base64tab)

lemma base64tab_nth_neq [simp]:
  "i < 64 \<Longrightarrow> base64tab ! i \<noteq> 61" "i < 64 \<Longrightarrow> base64tab ! i \<noteq> 10"
  "i < 64 \<Longrightarrow> base64tab ! i \<noteq> 13" "i < 64 \<Longrightarrow> base64tab ! i \<noteq> 0"
  using base64tab_neq by (metis length_base64tab nth_mem)+

lemma strchr_base64tab_None: "c \<noteq> 0 \<Longrightarrow> strchr base64tab c = None \<longleftrightarrow> c \<notin> set base64tab"
  by (simp add: strchr_None base64tab_neq)

subsection \<open>What the decoder hands over\<close>

text \<open>The values that enter the work buffer.\<close>

fun b64_values :: "byte list \<Rightarrow> byte list" where
  "b64_values [] = []"
| "b64_values (c # p) =
     (if c = ch CHR ''='' then 100 # b64_values p
      else case strchr base64tab c of
             None \<Rightarrow> b64_values p
           | Some i \<Rightarrow> of_nat i # b64_values p)"

lemma b64_values_append: "b64_values (p @ q) = b64_values p @ b64_values q"
  by (induction p) (auto split: option.split)

lemma decode_quads_append:
  "fst (decode_quads (x @ y)) = fst (decode_quads x) @ fst (decode_quads (snd (decode_quads x) @ y))"
  "snd (decode_quads (x @ y)) = snd (decode_quads (snd (decode_quads x) @ y))"
  by (induction x rule: decode_quads.induct) (simp_all add: Let_def split_beta)

lemma length_decode_quads: "length (fst (decode_quads x)) \<le> length x"
proof (induction x rule: decode_quads.induct)
  case (1 w x y z rest)
  from "1.IH" [OF refl refl refl] show ?case by (auto simp: Let_def split_beta)
qed simp_all

lemma length_decode_left: "length (snd (decode_quads x)) < 4"
  by (induction x rule: decode_quads.induct) (simp_all add: Let_def split_beta)

lemma length_b64_values: "length (b64_values p) \<le> length p"
  by (induction p) (auto split: option.split)

context sink begin

lemma doflush_out:
  assumes "doflush put (buf, s) = (0, (buf', s'))"
  shows "out s' @ flt (fst (decode_quads (buf' @ f))) = out s @ flt (fst (decode_quads (buf @ f)))"
    and "length buf' < 4" and "out s' = out s @ flt (fst (decode_quads buf))"
proof -
  from assms have p: "put (fst (decode_quads buf)) s = (0, s')" and b: "buf' = snd (decode_quads buf)"
    by (auto simp: doflush_def split: prod.splits)
  from put_out [OF p] show "out s' = out s @ flt (fst (decode_quads buf))" .
  then show "out s' @ flt (fst (decode_quads (buf' @ f))) = out s @ flt (fst (decode_quads (buf @ f)))"
    by (simp add: b decode_quads_append(1) [of buf f] flt_append)
  show "length buf' < 4" by (simp add: b length_decode_left)
qed

lemma base64_decode_out:
  "base64_decode put p (buf, s) = (0, (buf', s')) \<Longrightarrow> length buf \<le> WORKBUF \<Longrightarrow>
   out s' @ flt (fst (decode_quads (buf' @ f))) = out s @ flt (fst (decode_quads (buf @ b64_values p @ f))) \<and>
   length buf' \<le> WORKBUF"
proof (induction p arbitrary: buf s)
  case Nil
  then show ?case by simp
next
  case (Cons c p)
  then obtain buf1 s1 where
    fl: "(if WORKBUF \<le> length buf then doflush put (buf, s) else (0, (buf, s))) = (0, (buf1, s1))"
    by (auto simp: rc_then_0)
  have r: "(if c = ch CHR ''='' then base64_decode put p (buf1 @ [100], s1)
          else case strchr base64tab c of
                 None \<Rightarrow> base64_decode put p (buf1, s1)
               | Some i \<Rightarrow> base64_decode put p (buf1 @ [of_nat i], s1)) = (0, (buf', s'))"
    using Cons.prems(1) fl by (auto simp: rc_then_0 split: if_splits)
  have o: "out s1 @ flt (fst (decode_quads (buf1 @ g))) = out s @ flt (fst (decode_quads (buf @ g)))" for g
    using fl doflush_out(1) by (auto split: if_splits)
  have l: "length buf1 < WORKBUF"
    using fl doflush_out(2) by (fastforce simp: WORKBUF_def split: if_splits)
  show ?case
    using r Cons.IH [of "buf1 @ [100]" s1] Cons.IH [of buf1 s1]
      Cons.IH [of "buf1 @ [of_nat i]" s1 for i] l
    by (auto simp: o split: if_splits option.splits)
qed

end

interpretation saved: reliable_sink save_str "\<lambda>w. w" "\<lambda>x. x"
  by unfold_locales (auto simp: save_str_def)


subsection \<open>Decoding what was encoded\<close>

text \<open>The four values of a group of three bytes, and the bytes they come back as.\<close>

lemma sextet_bounds [simp]:
  "unat (sextet1 a) < 64" "unat (sextet2 a b) < 64" "unat (sextet3 b c) < 64" "unat (sextet4 c) < 64"
  unfolding sextet_defs by (rule unat_lt_64, auto simp: byte_bits)+

lemma sextets_join:
  "push_bit 2 (sextet1 a) OR drop_bit 4 (sextet2 a b) = a"
  "push_bit 4 (sextet2 a b) OR drop_bit 2 (sextet3 b c) = b"
  "push_bit 6 (sextet3 b c) OR sextet4 c = c"
  unfolding sextet_defs by (rule bit_word_eqI, auto simp: byte_bits dest: bit_shift_less)+

lemma sextet_neq_100: "unat (x::byte) < 64 \<Longrightarrow> x \<noteq> 100"
  by auto

lemma b64_values_tab:
  "unat x < 64 \<Longrightarrow> b64_values (base64tab ! unat x # p) = x # b64_values p"
  by simp

lemma b64_values_pad: "b64_values (61 # p) = 100 # b64_values p"
  by simp

lemma base64_quads_shapes:
  "base64_quads [a] = [base64tab ! unat (sextet1 a), base64tab ! unat (sextet2 a 0), 61, 61]"
  "base64_quads [a, b] = [base64tab ! unat (sextet1 a), base64tab ! unat (sextet2 a b),
     base64tab ! unat (sextet3 b 0), 61]"
  "base64_quads (a # b # c # r) = base64tab ! unat (sextet1 a) # base64tab ! unat (sextet2 a b) #
     base64tab ! unat (sextet3 b c) # base64tab ! unat (sextet4 c) # base64_quads r"
  by (simp_all add: Let_def)

lemma base64_quads_cases:
  assumes "P []" and "\<And>a. P [a]" and "\<And>a b. P [a, b]" and "\<And>a b c r. P r \<Longrightarrow> P (a # b # c # r)"
  shows "P x"
proof (induction x rule: length_induct)
  case (1 x)
  consider "x = []" | a where "x = [a]" | a b where "x = [a, b]" | a b c r where "x = a # b # c # r"
    by (metis neq_Nil_conv)
  then show ?case
    using assms "1.IH" by cases auto
qed

lemma decode_quads_step:
  assumes "unat y < 64"
  shows "decode_quads (w # x # y # 100 # v) =
      ((push_bit 2 w OR drop_bit 4 x) # (push_bit 4 x OR drop_bit 2 y) # fst (decode_quads v), snd (decode_quads v))"
    and "unat z < 64 \<Longrightarrow> decode_quads (w # x # y # z # v) =
      ((push_bit 2 w OR drop_bit 4 x) # (push_bit 4 x OR drop_bit 2 y) # (push_bit 6 y OR z) #
       fst (decode_quads v), snd (decode_quads v))"
  using assms sextet_neq_100 [of y] sextet_neq_100 [of z]
  by (simp_all only: decode_quads.simps Let_def split_beta if_True if_False simp_thms append.simps)

lemma decode_quads_pad2:
  "decode_quads (w # x # 100 # 100 # v) =
     ((push_bit 2 w OR drop_bit 4 x) # fst (decode_quads v), snd (decode_quads v))"
  by (simp only: decode_quads.simps Let_def split_beta if_True if_False simp_thms append.simps)

lemma decode_quads_base64_quads:
  "decode_quads (b64_values (base64_quads x) @ v) = (x @ fst (decode_quads v), snd (decode_quads v))"
proof (induction x rule: base64_quads_cases)
  case 1
  show ?case by (simp only: base64_quads.simps b64_values.simps append_Nil prod.collapse)
next
  case (2 a)
  show ?case
    by (simp only: base64_quads_shapes b64_values_tab b64_values_pad sextet_bounds b64_values.simps(1)
        append.simps decode_quads_pad2 sextets_join)
next
  case (3 a b)
  show ?case
    by (simp only: base64_quads_shapes b64_values_tab b64_values_pad sextet_bounds b64_values.simps(1)
        append.simps decode_quads_step sextets_join)
next
  case (4 a b c r)
  then show ?case
    by (simp only: base64_quads_shapes b64_values_tab sextet_bounds
        append.simps decode_quads_step sextets_join fst_conv snd_conv)
qed

lemma decode_quads_b64_lines:
  "decode_quads (b64_values (b64_lines x) @ v) = (x @ fst (decode_quads v), snd (decode_quads v))"
proof (induction x arbitrary: v rule: b64_lines.induct)
  case (1 x)
  show ?case
  proof (cases "x = []")
    case True
    then show ?thesis by simp
  next
    case False
    have "b64_values (b64_lines x) =
        b64_values (base64_quads (take INBUFSIZ x)) @ b64_values (b64_lines (drop INBUFSIZ x))"
    proof -
      have "strchr base64tab 10 = None"
        by (simp add: strchr_base64tab_None base64tab_neq)
      then have "b64_values (NL # r) = b64_values r" for r by simp
      with False show ?thesis by (subst b64_lines.simps) (simp add: b64_values_append)
    qed
    then show ?thesis
      using "1.IH" [OF False] by (simp add: decode_quads_base64_quads)
  qed
qed

lemma b64_lines_decoded: "decode_quads (b64_values (b64_lines x)) = (x, [])"
  using decode_quads_b64_lines [of x "[]"] by simp

subsection \<open>The decoder on a sink that never refuses\<close>

lemma doflush_code: "fst (doflush cb st) \<in> codes cb"
  by (cases st) (auto simp: doflush_def split: prod.splits intro: codes_cb_eq)

lemma base64_decode_code: "fst (base64_decode cb p st) \<in> codes cb"
proof (induction p arbitrary: st)
  case Nil
  show ?case by simp
next
  case (Cons c p)
  have "fst (if WORKBUF \<le> length (fst st) then doflush cb st else (0, st)) \<in> codes cb"
    by (simp add: doflush_code)
  moreover have "fst (case st' of (workbuf, s) \<Rightarrow>
          if c = ch CHR ''='' then base64_decode cb p (workbuf @ [100], s)
          else case strchr base64tab c of
                 None \<Rightarrow> base64_decode cb p (workbuf, s)
               | Some i \<Rightarrow> base64_decode cb p (workbuf @ [of_nat i], s)) \<in> codes cb" for st'
    using Cons.IH by (cases st') (auto split: option.split)
  ultimately show ?case
    unfolding base64_decode.simps by (rule codes_rc_then)
qed

text \<open>The clients feed the decoder piece by piece.\<close>

fun base64_decode_pieces :: "'s callback \<Rightarrow> byte list list \<Rightarrow> byte list \<times> 's
    \<Rightarrow> int \<times> (byte list \<times> 's)" where
  "base64_decode_pieces cb [] st = base64_decode_end cb st"
| "base64_decode_pieces cb (p # ps) st =
     rc_then (base64_decode cb p st) (\<lambda>st. base64_decode_pieces cb ps st)"

lemma base64_decode_pieces_code: "fst (base64_decode_pieces cb ps st) \<in> codes cb"
  by (induction ps arbitrary: st)
    (auto simp: base64_decode_end_def doflush_code intro!: codes_rc_then base64_decode_code)

context sink begin

lemma base64_decode_pieces_out:
  "base64_decode_pieces put ps (buf, s) = (0, (buf', s')) \<Longrightarrow> length buf \<le> WORKBUF \<Longrightarrow>
   out s' = out s @ flt (fst (decode_quads (buf @ b64_values (concat ps))))"
proof (induction ps arbitrary: buf s)
  case Nil
  then show ?case using doflush_out(3) by (simp add: base64_decode_end_def)
next
  case (Cons p ps)
  then obtain buf1 s1 where d: "base64_decode put p (buf, s) = (0, (buf1, s1))"
    and r: "base64_decode_pieces put ps (buf1, s1) = (0, (buf', s'))"
    by (auto simp: rc_then_0)
  note step = base64_decode_out [OF d Cons.prems(2)]
  from Cons.IH [OF r] step show ?case
    by (simp add: b64_values_append)
qed

end

context reliable_sink begin

lemma base64_decode_pieces_total:
  "\<exists>buf s'. base64_decode_pieces put ps (base64_decode_init s) = (0, (buf, s')) \<and>
     out s' = out s @ flt (fst (decode_quads (b64_values (concat ps))))"
proof -
  obtain rc buf s' where d: "base64_decode_pieces put ps (base64_decode_init s) = (rc, (buf, s'))"
    by (metis prod_cases3)
  with base64_decode_pieces_code [of put ps "base64_decode_init s"] have "rc = 0"
    by (simp add: codes_put)
  with d base64_decode_pieces_out [of ps "[]" s buf s'] show ?thesis
    by (auto simp: base64_decode_init_def WORKBUF_def)
qed

end

lemma base64_decode_str_eq:
  "base64_decode_str True s = Some (fst (decode_quads (b64_values s)))"
proof -
  obtain rc buf w where d: "base64_decode save_str s (base64_decode_init []) = (rc, (buf, w))"
    by (metis prod_cases3)
  obtain rc' buf' w' where e: "base64_decode_end save_str (buf, w) = (rc', (buf', w'))"
    by (metis prod_cases3)
  have "rc = 0"
    using base64_decode_code [of save_str s "base64_decode_init []"] d by (simp add: saved.codes_put)
  with d e have "base64_decode_pieces save_str [s] (base64_decode_init []) = (rc', (buf', w'))"
    by simp
  with saved.base64_decode_pieces_total [of "[s]" "[]"] d e show ?thesis
    by (auto simp: base64_decode_str_def)
qed

subsection \<open>Properties\<close>

text \<open>
  Base64 text written by the incremental encoder, however the input is cut into pieces,
  decodes with \<open>base64_decode_str\<close> to exactly the input.
\<close>

theorem base64_roundtrip:
  "\<exists>txt. encode_message save_str (asc ''base64'') xs [] = (0, txt) \<and>
     base64_decode_str True txt = Some (concat xs)"
proof -
  have "encoding_func (rfc2045_encode_start (asc ''base64'')) = Base64"
    by (simp add: rfc2045_encode_start_def)
  then show ?thesis
    using saved.encode_message_total [of "asc ''base64''" xs "[]"]
    by (auto simp: base64_decode_str_eq b64_lines_decoded)
qed

text \<open>
  The incremental decoder gives the same bytes however its input is cut, those
  \<open>base64_decode_str\<close> gives for the whole, and never more bytes than the input has characters,
  so they fit the buffer \<open>base64_decode_str\<close> makes with \<open>strdup\<close>.
\<close>

theorem base64_decode_pieces_str:
  "\<exists>buf w. base64_decode_pieces save_str ps (base64_decode_init []) = (0, (buf, w)) \<and>
     base64_decode_str True (concat ps) = Some w \<and> length w \<le> length (concat ps)"
proof -
  have "length (fst (decode_quads (b64_values (concat ps)))) \<le> length (concat ps)"
    by (meson le_trans length_decode_quads length_b64_values)
  then show ?thesis
    using saved.base64_decode_pieces_total [of ps "[]"] by (auto simp: base64_decode_str_eq)
qed

end
