(* ===== verification/Mime_Decode.thy ===== *)
theory Mime_Decode imports Base64_Decode begin

text \<open>
  The MIME transfer decoder \<open>wmail/rfc2045/rfc2045cdecode.c\<close> on the work buffer of
  \<open>struct rfc2045\<close> (\<open>rfc2045_add_buf\<close> and its wrappers in \<open>rfc2045.c\<close>, for an allocation that
  succeeds: \<open>rfc2045_enomem\<close> does not return). The callback is that of the encoder.
\<close>

subsection \<open>State\<close>

datatype decoding = Decode_raw | Decode_qp | Decode_base64

record rfc2045_dec =
  content_transfer_encoding :: "byte list option"
  workbuf :: "byte list"
  decode_func :: decoding

definition rfc2045_add_workbuf :: "rfc2045_dec \<Rightarrow> byte list \<Rightarrow> rfc2045_dec" where
  "rfc2045_add_workbuf p bs = p\<lparr>workbuf := workbuf p @ bs\<rparr>"

definition rfc2045_add_workbufch :: "rfc2045_dec \<Rightarrow> byte \<Rightarrow> rfc2045_dec" where
  "rfc2045_add_workbufch p c = rfc2045_add_workbuf p [c]"

subsection \<open>Operations\<close>

definition decode_raw :: "'s callback \<Rightarrow> byte list option \<Rightarrow> rfc2045_dec \<times> 's
    \<Rightarrow> int \<times> (rfc2045_dec \<times> 's)" where
  "decode_raw cb s = (\<lambda>(p, st).
     case s of None \<Rightarrow> (0, (p, st))
     | Some s \<Rightarrow> if s \<noteq> [] then (case cb s st of (rc, st') \<Rightarrow> (rc, (p, st'))) else (0, (p, st)))"

text \<open>
  The loop of \<open>do_decode_qp\<close> over the work buffer. Where the source looks at the byte past the
  end before it compares \<open>a >= end\<close>, both outcomes of the look leave the loop.
\<close>

fun qp_scan :: "byte list \<Rightarrow> byte list" where
  "qp_scan [] = []"
| "qp_scan (c # a) =
     (if c \<noteq> ch CHR ''='' then c # qp_scan a
      else case a of [] \<Rightarrow> []
      | x # a' \<Rightarrow>
          if x = 0 \<or> isspace x then []
          else case strchr xdigit x of
            None \<Rightarrow> qp_scan a
          | Some d \<Rightarrow>
              case a' of [] \<Rightarrow> []
              | y # a'' \<Rightarrow>
                  if y = 0 then []
                  else case strchr xdigit y of
                    None \<Rightarrow> qp_scan a'
                  | Some e \<Rightarrow> of_nat (d * 16 + e) # qp_scan a'')"

definition do_decode_qp :: "'s callback \<Rightarrow> rfc2045_dec \<times> 's \<Rightarrow> int \<times> (rfc2045_dec \<times> 's)" where
  "do_decode_qp cb = (\<lambda>(p, st).
     case cb (qp_scan (workbuf p)) st of (rc, st') \<Rightarrow> (rc, (p\<lparr>workbuf := []\<rparr>, st')))"

text \<open>The table \<open>decode64tab\<close> as its initialisation fills it.\<close>

definition decode64tab :: "nat list" where
  "decode64tab =
     (fold (\<lambda>i t. t[unat (base64tab ! i) := i]) [0..<64] (replicate 256 100))
       [unat (ch CHR ''='') := 99]"

definition dec64 :: "byte \<Rightarrow> nat" where
  "dec64 c = decode64tab ! unat c"

fun decode64_quads :: "byte list \<Rightarrow> byte list \<times> byte list" where
  "decode64_quads (cw # cx # cy # cz # rest) =
     (let w = of_nat (dec64 cw); x = of_nat (dec64 cx); y = of_nat (dec64 cy); z = of_nat (dec64 cz);
          a = push_bit 2 w OR drop_bit 4 x;
          b = push_bit 4 x OR drop_bit 2 y;
          c = push_bit 6 y OR z;
          (done, left) = decode64_quads rest
      in ([a] @ (if cy \<noteq> ch CHR ''='' then [b] else []) @ (if cz \<noteq> ch CHR ''='' then [c] else []) @ done,
          left))"
| "decode64_quads left = ([], left)"

text \<open>The code of the callback (\<open>rc\<close>) is computed and not returned.\<close>

definition do_decode_base64 :: "'s callback \<Rightarrow> rfc2045_dec \<times> 's \<Rightarrow> int \<times> (rfc2045_dec \<times> 's)" where
  "do_decode_base64 cb = (\<lambda>(p, st).
     case decode64_quads (filter (\<lambda>c. dec64 c < 100) (workbuf p)) of (done, left) \<Rightarrow>
     case cb done st of (rc, st') \<Rightarrow> (0, (p\<lparr>workbuf := left\<rparr>, st')))"

text \<open>
  The tail of a long line without its newline: what stands from an \<open>=\<close> among the last five
  bytes on is kept (as the C string \<open>buf\<close>), the rest is decoded.
\<close>

definition qp_keep :: "byte list \<Rightarrow> byte list \<times> byte list" where
  "qp_keep w = (let n = length w - 5; tail = drop n w;
                    i = n + length (takeWhile (\<lambda>c. c \<noteq> ch CHR ''='') tail)
                in (take i w, cstr (drop i w)))"

definition qp_long_line :: "'s callback \<Rightarrow> rfc2045_dec \<times> 's \<Rightarrow> int \<times> (rfc2045_dec \<times> 's)" where
  "qp_long_line cb = (\<lambda>(p, st).
     if 1024 < length (workbuf p)
     then (case qp_keep (workbuf p) of (now, buf) \<Rightarrow>
             rc_then (do_decode_qp cb (p\<lparr>workbuf := now\<rparr>, st))
               (\<lambda>(p, st). (0, (rfc2045_add_workbuf p buf, st))))
     else (0, (p, st)))"

function decode_qp_loop :: "'s callback \<Rightarrow> byte list \<Rightarrow> rfc2045_dec \<times> 's
    \<Rightarrow> int \<times> (rfc2045_dec \<times> 's)" where
  "decode_qp_loop cb s (p, st) =
     (if s = [] then (0, (p, st))
      else let line = takeWhile (\<lambda>c. c \<noteq> NL) s; rest = drop (length line) s;
               p = rfc2045_add_workbuf p line in
        if rest = [] then qp_long_line cb (p, st)
        else rc_then (do_decode_qp cb (rfc2045_add_workbufch p NL, st))
               (\<lambda>st. rc_then (qp_long_line cb st) (\<lambda>st. decode_qp_loop cb (tl rest) st)))"
  by pat_completeness auto
termination
  by (relation "measure (\<lambda>(cb, s, st). length s)") auto

declare decode_qp_loop.simps [simp del]

definition decode_qp :: "'s callback \<Rightarrow> byte list option \<Rightarrow> rfc2045_dec \<times> 's
    \<Rightarrow> int \<times> (rfc2045_dec \<times> 's)" where
  "decode_qp cb s st =
     (case s of None \<Rightarrow> do_decode_qp cb st | Some s \<Rightarrow> decode_qp_loop cb s st)"

definition decode_base64 :: "'s callback \<Rightarrow> byte list option \<Rightarrow> rfc2045_dec \<times> 's
    \<Rightarrow> int \<times> (rfc2045_dec \<times> 's)" where
  "decode_base64 cb s = (\<lambda>(p, st).
     case s of None \<Rightarrow> do_decode_base64 cb (p, st)
     | Some s \<Rightarrow>
         let p = rfc2045_add_workbuf p s in
         if 256 < length (workbuf p) then do_decode_base64 cb (p, st) else (0, (p, st)))"

definition rfc2045_cdecode_start :: "rfc2045_dec \<Rightarrow> rfc2045_dec" where
  "rfc2045_cdecode_start p = p\<lparr>workbuf := [],
     decode_func :=
       (case content_transfer_encoding p of None \<Rightarrow> Decode_raw
        | Some e \<Rightarrow>
            if e = asc ''quoted-printable'' then Decode_qp
            else if e = asc ''base64'' then Decode_base64
            else Decode_raw)\<rparr>"

definition decoding_step :: "'s callback \<Rightarrow> byte list option \<Rightarrow> rfc2045_dec \<times> 's
    \<Rightarrow> int \<times> (rfc2045_dec \<times> 's)" where
  "decoding_step cb s st =
     (case decode_func (fst st) of
        Decode_raw \<Rightarrow> decode_raw cb s st
      | Decode_qp \<Rightarrow> decode_qp cb s st
      | Decode_base64 \<Rightarrow> decode_base64 cb s st)"

definition rfc2045_cdecode :: "'s callback \<Rightarrow> byte list \<Rightarrow> rfc2045_dec \<times> 's
    \<Rightarrow> int \<times> (rfc2045_dec \<times> 's)" where
  "rfc2045_cdecode cb s st = (if s \<noteq> [] then decoding_step cb (Some s) st else (0, st))"

definition rfc2045_cdecode_end :: "'s callback \<Rightarrow> rfc2045_dec \<times> 's
    \<Rightarrow> int \<times> (rfc2045_dec \<times> 's)" where
  "rfc2045_cdecode_end cb st = decoding_step cb None st"

fun cdecode_pieces :: "'s callback \<Rightarrow> byte list list \<Rightarrow> rfc2045_dec \<times> 's
    \<Rightarrow> int \<times> (rfc2045_dec \<times> 's)" where
  "cdecode_pieces cb [] st = rfc2045_cdecode_end cb st"
| "cdecode_pieces cb (x # xs) st =
     rc_then (rfc2045_cdecode cb x st) (\<lambda>st. cdecode_pieces cb xs st)"

definition cdecode_message :: "'s callback \<Rightarrow> rfc2045_dec \<Rightarrow> byte list list \<Rightarrow> 's \<Rightarrow> int \<times> 's" where
  "cdecode_message cb p xs s =
     (case cdecode_pieces cb xs (rfc2045_cdecode_start p, s) of (rc, (p', s')) \<Rightarrow> (rc, s'))"


subsection \<open>Quoted-printable: what the decoder hands over\<close>

text \<open>
  Line by line: what stands in the buffer is decoded with each newline. This is what the decoder
  computes as long as no line passes the 1024 bytes after which it decodes a line early.
\<close>

fun qp_lines :: "byte list \<Rightarrow> byte list \<Rightarrow> byte list" where
  "qp_lines buf [] = qp_scan buf"
| "qp_lines buf (c # t) =
     (if c = NL then qp_scan (buf @ [NL]) @ qp_lines [] t else qp_lines (buf @ [c]) t)"

fun lines_within :: "nat \<Rightarrow> nat \<Rightarrow> byte list \<Rightarrow> bool" where
  "lines_within m n [] \<longleftrightarrow> n \<le> m"
| "lines_within m n (c # t) \<longleftrightarrow> n \<le> m \<and> lines_within m (if c = NL then 0 else n + 1) t"

lemma lines_within_le: "lines_within m n t \<Longrightarrow> n \<le> m"
  by (cases t) auto

lemma qp_lines_no_NL: "NL \<notin> set x \<Longrightarrow> qp_lines buf (x @ f) = qp_lines (buf @ x) f"
  by (induction x arbitrary: buf) auto

lemma lines_within_no_NL: "NL \<notin> set x \<Longrightarrow> lines_within m n (x @ f) \<Longrightarrow> lines_within m (n + length x) f"
proof (induction x arbitrary: n)
  case (Cons c x)
  from Cons.prems Cons.IH [of "n + 1"] show ?case by auto
qed simp

lemma decode_qp_loop_no_NL:
  "NL \<notin> set x \<Longrightarrow> decode_qp_loop cb x (p, s) =
     (if x = [] then (0, (p, s)) else qp_long_line cb (rfc2045_add_workbuf p x, s))"
proof -
  assume "NL \<notin> set x"
  then have all: "takeWhile (\<lambda>c. c \<noteq> NL) x = x" by (auto simp: takeWhile_eq_all_conv)
  show ?thesis by (subst decode_qp_loop.simps) (simp add: all Let_def del: NL_def)
qed

lemma decode_qp_loop_NL:
  "NL \<notin> set line \<Longrightarrow> decode_qp_loop cb (line @ NL # r) (p, s) =
     rc_then (do_decode_qp cb (rfc2045_add_workbuf p (line @ [NL]), s))
       (\<lambda>st. rc_then (qp_long_line cb st) (\<lambda>st. decode_qp_loop cb r st))"
proof -
  assume "NL \<notin> set line"
  then have "takeWhile (\<lambda>c. c \<noteq> NL) (line @ NL # r) = line"
    by (subst takeWhile_append2) auto
  then show ?thesis
    by (simp add: decode_qp_loop.simps [of cb "line @ NL # r"] Let_def rfc2045_add_workbufch_def
        rfc2045_add_workbuf_def del: NL_def)
qed

context sink begin

lemma do_decode_qp_out:
  "do_decode_qp put (p, s) = (0, (p', s')) \<Longrightarrow>
   out s' = out s @ flt (qp_scan (workbuf p)) \<and> p' = p\<lparr>workbuf := []\<rparr>"
  by (auto simp: do_decode_qp_def split: prod.splits dest: put_out)

lemma decode_qp_loop_out:
  "decode_qp_loop put x (p, s) = (0, (p', s')) \<Longrightarrow>
   lines_within 1024 (length (workbuf p)) (x @ f) \<Longrightarrow>
   out s' @ flt (qp_lines (workbuf p') f) = out s @ flt (qp_lines (workbuf p) (x @ f)) \<and>
   lines_within 1024 (length (workbuf p')) f \<and> decode_func p' = decode_func p"
proof (induction x arbitrary: p s rule: length_induct)
  case (1 x)
  show ?case
  proof (cases "NL \<in> set x")
    case False
    with "1.prems"(2) have w: "lines_within 1024 (length (workbuf p @ x)) f"
      using lines_within_no_NL by simp
    with lines_within_le [OF this] "1.prems"(1) False have "p' = rfc2045_add_workbuf p x" "s' = s"
      by (auto simp: decode_qp_loop_no_NL qp_long_line_def rfc2045_add_workbuf_def split: if_splits
          simp del: NL_def)
    with w False show ?thesis
      by (simp add: rfc2045_add_workbuf_def qp_lines_no_NL del: NL_def)
  next
    case True
    then obtain line r where x: "x = line @ NL # r" and nl: "NL \<notin> set line"
      by (metis split_list_first)
    have w: "lines_within 1024 0 (r @ f)"
      using "1.prems"(2) lines_within_no_NL [OF nl] by (fastforce simp: x)
    from "1.prems"(1) obtain p2 s2 st2 where
      d: "do_decode_qp put (rfc2045_add_workbuf p (line @ [NL]), s) = (0, (p2, s2))"
      and l: "qp_long_line put (p2, s2) = (0, st2)" and r: "decode_qp_loop put r st2 = (0, (p', s'))"
      by (auto simp: x decode_qp_loop_NL [OF nl] rc_then_0 simp del: NL_def)
    from do_decode_qp_out [OF d] have d2: "out s2 = out s @ flt (qp_scan (workbuf p @ line @ [NL]))"
      "workbuf p2 = []" "decode_func p2 = decode_func p"
      by (simp_all add: rfc2045_add_workbuf_def)
    with l r have "decode_qp_loop put r (p2, s2) = (0, (p', s'))"
      by (simp add: qp_long_line_def)
    moreover have "length r < length x" by (simp add: x)
    ultimately have "out s' @ flt (qp_lines (workbuf p') f) = out s2 @ flt (qp_lines [] (r @ f)) \<and>
        lines_within 1024 (length (workbuf p')) f \<and> decode_func p' = decode_func p2"
      using "1.IH" d2 w by fastforce
    moreover have "qp_lines (workbuf p) (x @ f) =
        qp_scan (workbuf p @ line @ [NL]) @ qp_lines [] (r @ f)"
      using qp_lines_no_NL [OF nl, of "workbuf p" "NL # r @ f"] by (simp add: x)
    ultimately show ?thesis
      by (simp add: d2 flt_append)
  qed
qed

end

subsection \<open>Decoding quoted-printable text\<close>

lemma xdigit_props: "distinct xdigit" "0 \<notin> set xdigit" "length xdigit = 16" "\<forall>c \<in> set xdigit. \<not> isspace c"
  by (simp_all add: xdigit_def isspace_def)

lemma strchr_xdigit: "unat x < 16 \<Longrightarrow> strchr xdigit (xdigit ! unat x) = Some (unat x)"
  by (simp add: strchr_nth xdigit_props)

lemma xdigit_nth: "unat x < 16 \<Longrightarrow> xdigit ! unat x \<noteq> 0 \<and> \<not> isspace (xdigit ! unat x)"
  using xdigit_props by (metis nth_mem)

lemma nibble_bounds: "unat (drop_bit 4 c AND (15::byte)) < 16" "unat (c AND (15::byte)) < 16"
  by (rule unat_lt_16, auto simp: byte_bits)+

lemma nibbles_join: "of_nat (unat (drop_bit 4 c AND (15::byte)) * 16 + unat (c AND 15)) = c"
proof -
  have "of_nat (unat (drop_bit 4 c AND (15::byte)) * 16 + unat (c AND 15)) =
      push_bit 4 (drop_bit 4 c AND 15) + (c AND 15)"
    by (simp add: push_bit_eq_mult)
  also have "\<dots> = push_bit 4 (drop_bit 4 c AND 15) OR (c AND 15)"
    by (rule disjunctive_add) (auto simp: byte_bits)
  also have "\<dots> = c"
    by (rule bit_word_eqI) (auto simp: byte_bits dest: bit_shift_less)
  finally show ?thesis .
qed

text \<open>A buffer that does not end inside an escape sequence decodes independently of what follows.\<close>

definition qp_whole :: "byte list \<Rightarrow> bool" where
  "qp_whole b \<longleftrightarrow> (\<forall>r. qp_scan (b @ r) = qp_scan b @ qp_scan r)"

lemma qp_scan_escape:
  "qp_scan (61 # xdigit ! unat (drop_bit 4 c AND 15) # xdigit ! unat (c AND 15) # r) = c # qp_scan r"
  using xdigit_nth [OF nibble_bounds(1) [of c]] xdigit_nth [OF nibble_bounds(2) [of c]]
    strchr_xdigit [OF nibble_bounds(1) [of c]] strchr_xdigit [OF nibble_bounds(2) [of c]]
    nibbles_join [of c]
  by simp

lemma qp_whole_Nil [simp]: "qp_whole []"
  by (simp add: qp_whole_def)

lemma qp_whole_plain: "qp_whole b \<Longrightarrow> c \<noteq> 61 \<Longrightarrow> qp_whole (b @ [c])"
  by (simp add: qp_whole_def)

lemma qp_whole_escape:
  "qp_whole b \<Longrightarrow> qp_whole (b @ [61, xdigit ! unat (drop_bit 4 (c::byte) AND 15), xdigit ! unat (c AND 15)])"
  by (simp add: qp_whole_def qp_scan_escape del: qp_scan.simps(2))

lemma xdigit_nth_NL: "unat x < 16 \<Longrightarrow> xdigit ! unat x \<noteq> NL"
  using xdigit_nth by (fastforce simp: isspace_def)

lemma qp_lines_qp_text:
  "qp_whole b \<Longrightarrow> qp_lines b (qp_text n x) = qp_scan b @ x"
proof (induction x arbitrary: b n)
  case Nil
  then show ?case by simp
next
  case (Cons c x)
  let ?e = "[61, xdigit ! unat (drop_bit 4 c AND 15), xdigit ! unat (c AND 15)]"
  let ?t = "\<lambda>n. if c = NL then NL # qp_text 0 x
       else if qp_escapes c then ?e @ qp_text (n + 3) x else c # qp_text (n + 1) x"
  have step: "qp_lines b (?t n) = qp_scan b @ c # x" if b: "qp_whole b" for b n
  proof -
    consider "c = NL" | "c \<noteq> NL" "qp_escapes c" | "c \<noteq> NL" "\<not> qp_escapes c" by blast
    then show ?thesis
    proof cases
      case 1
      have "qp_scan (b @ [NL]) = qp_scan b @ [NL]" using b by (simp add: qp_whole_def)
      with 1 Cons.IH [of "[]" 0] show ?thesis by simp
    next
      case 2
      have "qp_lines b (?e @ qp_text (n + 3) x) = qp_lines (b @ ?e) (qp_text (n + 3) x)"
        by (rule qp_lines_no_NL) (simp add: xdigit_nth_NL [simplified] nibble_bounds)
      also have "\<dots> = qp_scan (b @ ?e) @ x" by (rule Cons.IH [OF qp_whole_escape [OF b]])
      also have "qp_scan (b @ ?e) = qp_scan b @ [c]"
        using b qp_scan_escape [of c "[]"] by (simp add: qp_whole_def del: qp_scan.simps(2))
      finally show ?thesis using 2 by simp
    next
      case 3
      then have "c \<noteq> 61" by (auto simp: qp_escapes_def)
      with 3 b Cons.IH [OF qp_whole_plain [OF b this], of "n + 1"] show ?thesis
        by (simp add: qp_whole_def)
    qed
  qed
  show ?case
  proof (cases "72 < n \<and> c \<noteq> NL")
    case False
    then have "qp_text n (c # x) = ?t n" by (simp add: Let_def)
    with step [OF Cons.prems] show ?thesis by simp
  next
    case True
    then have "qp_text n (c # x) = 61 # NL # ?t 0" by (simp add: Let_def)
    moreover have "qp_scan (b @ [61, NL]) = qp_scan b"
      using Cons.prems by (simp add: qp_whole_def isspace_def)
    ultimately show ?thesis using step [of "[]" 0] by simp
  qed
qed

lemma lines_within_qp_text:
  "m \<le> n \<Longrightarrow> n \<le> 75 \<Longrightarrow> lines_within 76 m (qp_text n x)"
proof (induction x arbitrary: m n)
  case Nil
  then show ?case by simp
next
  case (Cons c x)
  have hex: "xdigit ! unat (drop_bit 4 c AND 15) \<noteq> 10" "xdigit ! unat (c AND 15) \<noteq> 10"
    using xdigit_nth_NL [OF nibble_bounds(1) [of c]] xdigit_nth_NL [OF nibble_bounds(2) [of c]]
    by simp_all
  show ?case
    using Cons.prems Cons.IH [of 0 0] Cons.IH [of 3 3] Cons.IH [of 1 1] Cons.IH [of "m + 3" "n + 3"]
      Cons.IH [of "m + 1" "n + 1"]
    by (auto simp: Let_def hex numeral_3_eq_3)
qed

lemma lines_within_mono: "lines_within m n t \<Longrightarrow> m \<le> m' \<Longrightarrow> lines_within m' n t"
  by (induction t arbitrary: n) auto

subsection \<open>Decoding base64 text\<close>

lemma fold_update_nth:
  "distinct (map g xs) \<Longrightarrow> k < length t \<Longrightarrow>
   fold (\<lambda>i t. t[g i := v i]) xs t ! k = (case find (\<lambda>i. g i = k) xs of None \<Rightarrow> t ! k | Some i \<Rightarrow> v i)"
proof (induction xs arbitrary: t)
  case Nil
  then show ?case by simp
next
  case (Cons a xs)
  show ?case
  proof (cases "g a = k")
    case True
    with Cons.prems have "find (\<lambda>i. g i = k) xs = None" by (auto simp: find_None_iff rev_image_eqI)
    with True Cons show ?thesis by simp
  next
    case False
    with Cons show ?thesis by (simp split: option.split)
  qed
qed

lemma length_fold_update: "length (fold (\<lambda>i t. t[g i := v i]) xs t) = length t"
  by (induction xs arbitrary: t) simp_all

lemma unat_byte_256: "unat (c::byte) < 256"
  using unsigned_less [of c] by simp

lemma unat_eq_unat: "unat (x::byte) = unat y \<longleftrightarrow> x = y"
  by (metis word_unat_eq_iff)

lemma distinct_base64tab_unat: "distinct (map (\<lambda>i. unat (base64tab ! i)) [0..<64])"
  using distinct_base64tab by (simp add: distinct_conv_nth unat_eq_unat)

lemma dec64_eq: "dec64 c = (if c = 61 then 99 else case find (\<lambda>i. base64tab ! i = c) [0..<64] of
    None \<Rightarrow> 100 | Some i \<Rightarrow> i)"
proof -
  define t :: "nat list" where
    "t = fold (\<lambda>i t. t[unat (base64tab ! i) := i]) [0..<64] (replicate 256 100)"
  have l: "length t = 256" unfolding t_def by (simp only: length_fold_update length_replicate)
  have "t ! unat c = (case find (\<lambda>i. base64tab ! i = c) [0..<64] of None \<Rightarrow> 100 | Some i \<Rightarrow> i)"
    unfolding t_def
    by (subst fold_update_nth [OF distinct_base64tab_unat])
      (simp_all add: unat_byte_256 unat_eq_unat split: option.split)
  moreover have "unat c = 61 \<longleftrightarrow> c = 61" using unat_eq_unat [of c 61] by simp
  ultimately show ?thesis
    unfolding dec64_def decode64tab_def t_def [symmetric] using l by auto
qed

lemma dec64_tab: "i < 64 \<Longrightarrow> dec64 (base64tab ! i) = i"
proof -
  assume i: "i < 64"
  then obtain j where j: "find (\<lambda>k. base64tab ! k = base64tab ! i) [0..<64] = Some j"
    by (metis (mono_tags, lifting) atLeastLessThan_iff find_None_iff not_None_eq set_upt zero_le)
  then have "base64tab ! j = base64tab ! i" "j < 64"
    by (auto simp: find_Some_iff)
  with i have "j = i" using distinct_base64tab by (simp add: nth_eq_iff_index_eq)
  with i j show ?thesis by (simp add: dec64_eq)
qed

lemma dec64_pad: "dec64 61 = 99" and dec64_NL: "dec64 10 = 100"
  using base64tab_neq by (auto simp: dec64_eq find_Some_iff in_set_conv_nth split: option.split)

abbreviation keep64 :: "byte list \<Rightarrow> byte list" where
  "keep64 \<equiv> filter (\<lambda>c. dec64 c < 100)"

lemma decode64_quads_append:
  "fst (decode64_quads (x @ y)) = fst (decode64_quads x) @ fst (decode64_quads (snd (decode64_quads x) @ y))"
  by (induction x rule: decode64_quads.induct) (simp_all add: Let_def split_beta)

lemma set_decode64_left: "set (snd (decode64_quads x)) \<subseteq> set x"
proof (induction x rule: decode64_quads.induct)
  case (1 cw cx cy cz rest)
  from "1.IH" [OF refl refl refl refl refl refl refl] show ?case by (auto simp: Let_def split_beta)
qed simp_all

lemma keep64_left: "keep64 (snd (decode64_quads (keep64 x))) = snd (decode64_quads (keep64 x))"
  using set_decode64_left [of "keep64 x"] by (auto simp: filter_id_conv)

definition decoded64 :: "byte list \<Rightarrow> byte list" where
  "decoded64 x = fst (decode64_quads (keep64 x))"

lemma dec64_word: "unat w < 64 \<Longrightarrow> (word_of_nat (dec64 (base64tab ! unat w)) :: byte) = w"
  by (simp add: dec64_tab)

lemma decode64_quads_Cons:
  "decode64_quads (cw # cx # cy # cz # v) =
     ((push_bit 2 (of_nat (dec64 cw)) OR drop_bit 4 (of_nat (dec64 cx))) #
      (if cy \<noteq> 61 then [push_bit 4 (of_nat (dec64 cx)) OR drop_bit 2 (of_nat (dec64 cy))] else []) @
      (if cz \<noteq> 61 then [push_bit 6 (of_nat (dec64 cy)) OR of_nat (dec64 cz)] else []) @
      fst (decode64_quads v), snd (decode64_quads v))"
  by (simp add: Let_def split_beta)

lemma decode64_quads_shapes:
  assumes "unat w < 64" and "unat x < 64"
  shows "decode64_quads (base64tab ! unat w # base64tab ! unat x # 61 # 61 # v) =
      ((push_bit 2 w OR drop_bit 4 x) # fst (decode64_quads v), snd (decode64_quads v))"
    and "unat y < 64 \<Longrightarrow> decode64_quads (base64tab ! unat w # base64tab ! unat x # base64tab ! unat y # 61 # v) =
      ((push_bit 2 w OR drop_bit 4 x) # (push_bit 4 x OR drop_bit 2 y) #
       fst (decode64_quads v), snd (decode64_quads v))"
    and "unat y < 64 \<Longrightarrow> unat z < 64 \<Longrightarrow>
      decode64_quads (base64tab ! unat w # base64tab ! unat x # base64tab ! unat y # base64tab ! unat z # v) =
      ((push_bit 2 w OR drop_bit 4 x) # (push_bit 4 x OR drop_bit 2 y) # (push_bit 6 y OR z) #
       fst (decode64_quads v), snd (decode64_quads v))"
  unfolding decode64_quads_Cons
  by (simp_all only: dec64_word assms base64tab_nth_neq not_False_eq_True if_True if_False
      refl simp_thms append.simps)

lemma decode64_quads_steps:
  "decode64_quads (base64tab ! unat (sextet1 a) # base64tab ! unat (sextet2 a 0) # 61 # 61 # v) =
     (a # fst (decode64_quads v), snd (decode64_quads v))"
  "decode64_quads (base64tab ! unat (sextet1 a) # base64tab ! unat (sextet2 a b) # base64tab ! unat (sextet3 b 0) # 61 # v) =
     (a # b # fst (decode64_quads v), snd (decode64_quads v))"
  "decode64_quads (base64tab ! unat (sextet1 a) # base64tab ! unat (sextet2 a b) #
      base64tab ! unat (sextet3 b c) # base64tab ! unat (sextet4 c) # v) =
     (a # b # c # fst (decode64_quads v), snd (decode64_quads v))"
  by (simp_all only: decode64_quads_shapes sextet_bounds sextets_join)

lemma sextet_lt_100 [simp]: "unat (sextet1 a) < 100" "unat (sextet2 a b) < 100"
    "unat (sextet3 b c) < 100" "unat (sextet4 c) < 100"
  by (rule less_trans [OF sextet_bounds(1)], simp)
    (rule less_trans [OF sextet_bounds(2)], simp, rule less_trans [OF sextet_bounds(3)], simp,
      rule less_trans [OF sextet_bounds(4)], simp)

lemma decoded64_quads: "decode64_quads (keep64 (base64_quads x @ v)) =
   (x @ fst (decode64_quads (keep64 v)), snd (decode64_quads (keep64 v)))"
proof (induction x rule: base64_quads_cases)
  case 1
  show ?case by simp
next
  case (2 a)
  show ?case
    by (simp add: base64_quads_shapes dec64_tab dec64_pad decode64_quads_steps
        del: base64_quads.simps(2) decode64_quads.simps)
next
  case (3 a b)
  show ?case
    by (simp add: base64_quads_shapes dec64_tab dec64_pad decode64_quads_steps
        del: base64_quads.simps(2) decode64_quads.simps)
next
  case (4 a b c r)
  then show ?case
    by (simp add: base64_quads_shapes dec64_tab decode64_quads_steps
        del: base64_quads.simps(2) decode64_quads.simps)
qed

lemma decoded64_b64_lines: "decoded64 (b64_lines x) = x"
proof (induction x rule: b64_lines.induct)
  case (1 x)
  show ?case
  proof (cases "x = []")
    case True
    then show ?thesis by (simp add: decoded64_def)
  next
    case False
    with "1.IH" have "fst (decode64_quads (keep64 (NL # b64_lines (drop INBUFSIZ x)))) = drop INBUFSIZ x"
      by (simp add: decoded64_def dec64_NL)
    with False show ?thesis
      by (subst b64_lines.simps) (simp only: decoded64_def decoded64_quads if_False append_Cons
          append_Nil fst_conv append_take_drop_id)
  qed
qed

subsection \<open>Whole messages\<close>

text \<open>What each decoder owes for the text still to come.\<close>

definition dec_owed :: "rfc2045_dec \<Rightarrow> byte list \<Rightarrow> byte list" where
  "dec_owed p f = (case decode_func p of
     Decode_raw \<Rightarrow> f
   | Decode_qp \<Rightarrow> qp_lines (workbuf p) f
   | Decode_base64 \<Rightarrow> decoded64 (workbuf p @ f))"

definition dec_ok :: "rfc2045_dec \<Rightarrow> byte list \<Rightarrow> bool" where
  "dec_ok p f \<longleftrightarrow> (decode_func p = Decode_qp \<longrightarrow> lines_within 1024 (length (workbuf p)) f)"

context reliable_sink begin

lemma put_0: "put bs s = (rc, s') \<Longrightarrow> rc = 0"
  using put_rc [of bs s] by simp

lemma put_outs: "put bs s = (rc, s') \<Longrightarrow> out s' = out s @ flt bs"
  using put_0 [of bs s] put_out by blast

lemma do_decode_base64_out:
  assumes "do_decode_base64 put (p, s) = (rc, (p', s'))"
  shows "out s' @ flt (decoded64 (workbuf p' @ f)) = out s @ flt (decoded64 (workbuf p @ f))"
    and "out s' = out s @ flt (decoded64 (workbuf p))" and "decode_func p' = decode_func p" and "rc = 0"
proof -
  obtain dn lf where d: "decode64_quads (keep64 (workbuf p)) = (dn, lf)" by (metis surj_pair)
  with assms have o: "out s' = out s @ flt dn" and w: "workbuf p' = lf"
    and "decode_func p' = decode_func p" "rc = 0"
    by (auto simp: do_decode_base64_def dest: put_outs split: prod.splits)
  then show "out s' = out s @ flt (decoded64 (workbuf p))" "decode_func p' = decode_func p" "rc = 0"
    using d by (simp_all add: decoded64_def)
  have "keep64 lf = lf" using keep64_left [of "workbuf p"] d by simp
  with d have "decoded64 (workbuf p @ f) = dn @ decoded64 (lf @ f)"
    using decode64_quads_append [of "keep64 (workbuf p)" "keep64 f"] by (simp add: decoded64_def)
  with o w show "out s' @ flt (decoded64 (workbuf p' @ f)) = out s @ flt (decoded64 (workbuf p @ f))"
    by (simp add: flt_append)
qed

lemma cdecode_out:
  assumes "rfc2045_cdecode put x (p, s) = (0, (p', s'))" and ok: "dec_ok p (x @ f)"
  shows "out s' @ flt (dec_owed p' f) = out s @ flt (dec_owed p (x @ f)) \<and> dec_ok p' f"
proof (cases "x = []")
  case True
  with assms show ?thesis by (simp add: rfc2045_cdecode_def)
next
  case False
  with assms(1) have d: "decoding_step put (Some x) (p, s) = (0, (p', s'))"
    by (simp add: rfc2045_cdecode_def)
  show ?thesis
  proof (cases "decode_func p")
    case Decode_raw
    with d False show ?thesis
      by (auto simp: decoding_step_def decode_raw_def dec_owed_def dec_ok_def flt_append
          split: prod.splits dest!: put_out)
  next
    case Decode_qp
    with d have "decode_qp_loop put x (p, s) = (0, (p', s'))"
      by (simp add: decoding_step_def decode_qp_def)
    from decode_qp_loop_out [OF this] ok Decode_qp show ?thesis
      by (simp add: dec_ok_def dec_owed_def)
  next
    case Decode_base64
    define p1 where "p1 = rfc2045_add_workbuf p x"
    then have p1: "workbuf p1 = workbuf p @ x" "decode_func p1 = decode_func p"
      by (simp_all add: rfc2045_add_workbuf_def)
    from d Decode_base64 have "(if 256 < length (workbuf p1) then do_decode_base64 put (p1, s)
        else (0, (p1, s))) = (0, (p', s'))"
      by (simp add: decoding_step_def decode_base64_def p1_def Let_def split: if_splits)
    with do_decode_base64_out(1,3) [of p1 s 0 p' s'] Decode_base64 p1 show ?thesis
      by (auto simp: dec_owed_def dec_ok_def split: if_splits)
  qed
qed

lemma cdecode_end_out:
  assumes "rfc2045_cdecode_end put (p, s) = (0, (p', s'))"
  shows "out s' = out s @ flt (dec_owed p [])"
proof (cases "decode_func p")
  case Decode_raw
  with assms show ?thesis
    by (simp add: rfc2045_cdecode_end_def decoding_step_def decode_raw_def dec_owed_def)
next
  case Decode_qp
  with assms have "do_decode_qp put (p, s) = (0, (p', s'))"
    by (simp add: rfc2045_cdecode_end_def decoding_step_def decode_qp_def)
  from do_decode_qp_out [OF this] Decode_qp show ?thesis by (simp add: dec_owed_def)
next
  case Decode_base64
  with assms have "do_decode_base64 put (p, s) = (0, (p', s'))"
    by (simp add: rfc2045_cdecode_end_def decoding_step_def decode_base64_def)
  from do_decode_base64_out(2) [OF this] Decode_base64 show ?thesis by (simp add: dec_owed_def)
qed

lemma cdecode_pieces_out:
  "cdecode_pieces put ps (p, s) = (0, (p', s')) \<Longrightarrow> dec_ok p (concat ps) \<Longrightarrow>
   out s' = out s @ flt (dec_owed p (concat ps))"
proof (induction ps arbitrary: p s)
  case Nil
  then show ?case using cdecode_end_out by simp
next
  case (Cons x ps)
  then obtain p1 s1 where d: "rfc2045_cdecode put x (p, s) = (0, (p1, s1))"
    and r: "cdecode_pieces put ps (p1, s1) = (0, (p', s'))"
    by (auto simp: rc_then_0)
  from cdecode_out [OF d, of "concat ps"] Cons.prems(2) Cons.IH [OF r] show ?case by simp
qed

end

text \<open>Codes the decoder returns: 0 or one of the callback's.\<close>

lemma do_decode_qp_code: "fst (do_decode_qp cb st) \<in> codes cb"
  by (cases st) (auto simp: do_decode_qp_def split: prod.splits intro: codes_cb_eq)

lemma do_decode_base64_code: "fst (do_decode_base64 cb st) = 0"
  by (cases st) (auto simp: do_decode_base64_def split: prod.splits)

lemma qp_long_line_code: "fst (qp_long_line cb st) \<in> codes cb"
  by (cases st) (auto simp: qp_long_line_def split: prod.splits intro!: codes_rc_then do_decode_qp_code)

lemma decode_qp_loop_code: "fst (decode_qp_loop cb x st) \<in> codes cb"
proof (induction x arbitrary: st rule: length_induct)
  case (1 x)
  obtain p s where st: "st = (p, s)" by (metis surj_pair)
  show ?case
  proof (cases "NL \<in> set x")
    case False
    then show ?thesis unfolding st decode_qp_loop_no_NL [OF False] by (simp add: qp_long_line_code)
  next
    case True
    then obtain line r where x: "x = line @ NL # r" and nl: "NL \<notin> set line"
      by (metis split_list_first)
    then have "fst (decode_qp_loop cb r st) \<in> codes cb" for st
      using "1.IH" by (cases st) simp
    then show ?thesis unfolding st x decode_qp_loop_NL [OF nl]
      by (intro codes_rc_then do_decode_qp_code qp_long_line_code)
  qed
qed

lemma decoding_step_code: "fst (decoding_step cb x st) \<in> codes cb"
proof (cases st)
  case (Pair p s)
  then show ?thesis
    by (auto simp: decoding_step_def decode_raw_def decode_qp_def decode_base64_def Let_def
        do_decode_qp_code decode_qp_loop_code do_decode_base64_code
        split: decoding.split option.split prod.splits intro: codes_cb_eq)
qed

lemma cdecode_pieces_code: "fst (cdecode_pieces cb ps st) \<in> codes cb"
  by (induction ps arbitrary: st)
    (auto simp: rfc2045_cdecode_end_def rfc2045_cdecode_def decoding_step_code
      intro!: codes_rc_then)

context reliable_sink begin

lemma cdecode_message_total:
  assumes "dec_ok (rfc2045_cdecode_start p) (concat ps)"
  shows "\<exists>s'. cdecode_message put p ps s = (0, s') \<and>
    out s' = out s @ flt (dec_owed (rfc2045_cdecode_start p) (concat ps))"
proof -
  obtain rc p' s' where d: "cdecode_pieces put ps (rfc2045_cdecode_start p, s) = (rc, (p', s'))"
    by (metis prod_cases3)
  with cdecode_pieces_code [of put ps "(rfc2045_cdecode_start p, s)"] have "rc = 0"
    by (simp add: codes_put)
  with d cdecode_pieces_out [OF _ assms] show ?thesis by (simp add: cdecode_message_def)
qed

end

lemma dec_owed_encoded:
  assumes "encoding_func (rfc2045_encode_start te) =
      (if te = asc ''quoted-printable'' then Quoted_printable
       else if te = asc ''base64'' then Base64 else Eflush)"
  shows "dec_owed (rfc2045_cdecode_start (p\<lparr>content_transfer_encoding := Some te\<rparr>))
      (encoded (encoding_func (rfc2045_encode_start te)) x) = x \<and>
    dec_ok (rfc2045_cdecode_start (p\<lparr>content_transfer_encoding := Some te\<rparr>))
      (encoded (encoding_func (rfc2045_encode_start te)) x)"
proof -
  have "lines_within 1024 0 (qp_text 0 x)"
    by (rule lines_within_mono [OF lines_within_qp_text]) simp_all
  then show ?thesis
    using qp_lines_qp_text [of "[]" 0 x]
    by (simp add: assms dec_owed_def dec_ok_def rfc2045_cdecode_start_def decoded64_b64_lines)
qed

subsection \<open>Properties\<close>

text \<open>
  C18. Decoding what was encoded: for the transfer encodings the encoder chooses
  (\<open>quoted-printable\<close>, \<open>base64\<close>, \<open>7bit\<close> and \<open>8bit\<close>), the encoder's output, however the
  message is cut going in and however the text is cut for the decoder, decodes to the message.
\<close>

theorem cdecode_encode:
  assumes "te \<in> {asc ''quoted-printable'', asc ''base64'', asc ''7bit'', asc ''8bit''}"
  shows "\<exists>txt. encode_message save_str te xs [] = (0, txt) \<and>
    (\<forall>ps. concat ps = txt \<longrightarrow>
       cdecode_message save_str (p\<lparr>content_transfer_encoding := Some te\<rparr>) ps [] = (0, concat xs))"
proof -
  have e: "encoding_func (rfc2045_encode_start te) =
      (if te = asc ''quoted-printable'' then Quoted_printable
       else if te = asc ''base64'' then Base64 else Eflush)"
    using assms by (auto simp: rfc2045_encode_start_def)
  from dec_owed_encoded [OF e, of p "concat xs"] saved.encode_message_total [of te xs "[]"]
    saved.cdecode_message_total [of "p\<lparr>content_transfer_encoding := Some te\<rparr>" _ "[]"]
  show ?thesis by fastforce
qed

theorem cdecode_encode_witness:
  "\<exists>txt. encode_message save_str (asc ''base64'') [[1, 2], [3]] [] = (0, txt) \<and>
    (\<forall>ps. concat ps = txt \<longrightarrow>
       cdecode_message save_str \<lparr>content_transfer_encoding = Some (asc ''base64''),
          workbuf = [], decode_func = Decode_raw\<rparr> ps [] = (0, [1, 2, 3]))"
  using cdecode_encode [of "asc ''base64''" "[[1, 2], [3]]"
      "\<lparr>content_transfer_encoding = None, workbuf = [], decode_func = Decode_raw\<rparr>"]
  by simp

text \<open>
  The base64 decoder loses its callback's errors: whatever the callback returns, decoding
  and finishing report success, while the quoted-printable decoder hands the code on.
\<close>

theorem cdecode_base64_no_error:
  "decode_func p = Decode_base64 \<Longrightarrow>
     fst (rfc2045_cdecode cb x (p, s)) = 0 \<and> fst (rfc2045_cdecode_end cb (p, s)) = 0"
  by (auto simp: rfc2045_cdecode_def rfc2045_cdecode_end_def decoding_step_def decode_base64_def
      do_decode_base64_code Let_def)

theorem cdecode_base64_no_error_witness:
  "fst (rfc2045_cdecode_end (\<lambda>bs n. (-1, n + length bs))
     (\<lparr>content_transfer_encoding = None, workbuf = asc ''AQID'', decode_func = Decode_base64\<rparr>, 0)) = 0"
  using cdecode_base64_no_error [of "\<lparr>content_transfer_encoding = None, workbuf = asc ''AQID'',
      decode_func = Decode_base64\<rparr>" "\<lambda>bs n. (-1, n + length bs)" "[]" 0] by simp

end
