(* ===== verification/Md_Stream.thy ===== *)
theory Md_Stream imports Prelude begin

text \<open>
  The streaming part that \<open>wmail/md5/md5.c\<close> and \<open>wmail/sha1/sha1.c\<close> share, line for line: a
  context holds the chaining value and the first \<open>blk_ptr\<close> bytes of a 64-byte block;
  \<open>hashstream\<close> feeds bytes, \<open>endstream\<close> pads. The two files instantiate it with their block
  functions and length fields. The lemmas show that only the concatenation of what is fed counts.
\<close>

subsection \<open>Definitions\<close>

record 'h md_context =
  chain :: 'h
  blk :: "byte list"

definition BLOCK_SIZE :: nat where "BLOCK_SIZE = 64"

definition md_room :: "byte list \<Rightarrow> byte list \<Rightarrow> nat" where
  "md_room b p = room BLOCK_SIZE (length b) (length p)"

text \<open>One round of the loop of \<open>hashstream\<close>: the new context and the bytes that remain.\<close>

definition hashstream_step :: "('h \<Rightarrow> byte list \<Rightarrow> 'h) \<Rightarrow> 'h md_context \<Rightarrow> byte list
    \<Rightarrow> 'h md_context \<times> byte list" where
  "hashstream_step hash c cp =
     (if blk c = [] \<and> BLOCK_SIZE \<le> length cp
      then (c\<lparr>chain := hash (chain c) (take BLOCK_SIZE cp)\<rparr>, drop BLOCK_SIZE cp)
      else let ll = md_room (blk c) cp; b = blk c @ take ll cp in
        (if BLOCK_SIZE \<le> length b then c\<lparr>chain := hash (chain c) b, blk := []\<rparr> else c\<lparr>blk := b\<rparr>,
         drop ll cp))"

function hashstream :: "('h \<Rightarrow> byte list \<Rightarrow> 'h) \<Rightarrow> 'h md_context \<Rightarrow> byte list \<Rightarrow> 'h md_context" where
  "hashstream hash c cp =
     (if cp = [] then c
      else case hashstream_step hash c cp of (c', cp') \<Rightarrow> hashstream hash c' cp')"
  by pat_completeness auto
termination
  by (relation "measure (\<lambda>(hash, c, cp). 2 * length cp + (if blk c = [] then 0 else 1))")
    (auto simp: hashstream_step_def md_room_def room_def BLOCK_SIZE_def Let_def neq_Nil_conv
      split: if_splits)

declare hashstream.simps [simp del]

lemma hashstream_Nil [simp]: "hashstream hash c [] = c"
  by (simp add: hashstream.simps)

subsection \<open>What a context has absorbed\<close>

text \<open>The chaining value after all full blocks of a message, and the bytes left over.\<close>

function absorb :: "('h \<Rightarrow> byte list \<Rightarrow> 'h) \<Rightarrow> 'h \<Rightarrow> byte list \<Rightarrow> 'h \<times> byte list" where
  "absorb hash h m =
     (if length m < BLOCK_SIZE then (h, m)
      else absorb hash (hash h (take BLOCK_SIZE m)) (drop BLOCK_SIZE m))"
  by pat_completeness auto
termination
  by (relation "measure (\<lambda>(hash, h, m). length m)") (auto simp: BLOCK_SIZE_def)

declare absorb.simps [simp del]

lemma absorb_short: "length m < BLOCK_SIZE \<Longrightarrow> absorb hash h m = (h, m)"
  by (simp add: absorb.simps)

lemma absorb_block:
  "length b = BLOCK_SIZE \<Longrightarrow> absorb hash h (b @ m) = absorb hash (hash h b) m"
  by (subst absorb.simps) (simp add: BLOCK_SIZE_def)

lemma absorb_append:
  "absorb hash h (m @ m') = (case absorb hash h m of (h', r) \<Rightarrow> absorb hash h' (r @ m'))"
proof (induction hash h m rule: absorb.induct)
  case (1 hash h m)
  show ?case
  proof (cases "length m < BLOCK_SIZE")
    case True
    then show ?thesis by (simp add: absorb_short)
  next
    case False
    then have m: "m = take BLOCK_SIZE m @ drop BLOCK_SIZE m"
      and l: "length (take BLOCK_SIZE m) = BLOCK_SIZE" by simp_all
    from 1 [OF False] show ?thesis
      using absorb_block [OF l] by (metis append.assoc m)
  qed
qed

lemma length_absorb: "length (snd (absorb hash h m)) = length m mod BLOCK_SIZE"
proof (induction hash h m rule: absorb.induct)
  case (1 hash h m)
  then show ?case
    by (cases "length m < BLOCK_SIZE") (simp_all add: absorb.simps [of hash h m] le_mod_geq)
qed

lemma length_absorb_less: "length (snd (absorb hash h m)) < BLOCK_SIZE"
  by (simp add: length_absorb BLOCK_SIZE_def)

definition context_of :: "'h \<times> byte list \<Rightarrow> 'h md_context" where
  "context_of = (\<lambda>(h, r). \<lparr>chain = h, blk = r\<rparr>)"

lemma hashstream_step_absorb:
  assumes "hashstream_step hash c cp = (c', cp')" and "length (blk c) < BLOCK_SIZE"
  shows "absorb hash (chain c') (blk c' @ cp') = absorb hash (chain c) (blk c @ cp)"
    and "length (blk c') < BLOCK_SIZE"
proof -
  consider (full) "blk c = []" "BLOCK_SIZE \<le> length cp"
    | (part) "\<not> (blk c = [] \<and> BLOCK_SIZE \<le> length cp)" by blast
  then have "absorb hash (chain c') (blk c' @ cp') = absorb hash (chain c) (blk c @ cp) \<and>
    length (blk c') < BLOCK_SIZE"
  proof cases
    case full
    with assms show ?thesis
      by (auto simp: hashstream_step_def absorb.simps [of hash "chain c" cp])
  next
    case part
    define ll where "ll = md_room (blk c) cp"
    define b where "b = blk c @ take ll cp"
    have e: "b @ drop ll cp = blk c @ cp" by (simp add: b_def)
    from assms part have c': "c' = (if BLOCK_SIZE \<le> length b
        then c\<lparr>chain := hash (chain c) b, blk := []\<rparr> else c\<lparr>blk := b\<rparr>)" "cp' = drop ll cp"
      by (auto simp: hashstream_step_def ll_def b_def Let_def)
    have "length b \<le> BLOCK_SIZE"
      using assms(2) by (simp add: b_def ll_def md_room_def room_def)
    with c' e absorb_block [of b hash "chain c" "drop ll cp"] show ?thesis
      by (auto simp: BLOCK_SIZE_def)
  qed
  then show "absorb hash (chain c') (blk c' @ cp') = absorb hash (chain c) (blk c @ cp)"
    and "length (blk c') < BLOCK_SIZE" by auto
qed

lemma hashstream_absorb:
  "length (blk c) < BLOCK_SIZE \<Longrightarrow>
   hashstream hash c cp = context_of (absorb hash (chain c) (blk c @ cp))"
proof (induction hash c cp rule: hashstream.induct)
  case (1 hash c cp)
  show ?case
  proof (cases "cp = []")
    case True
    with "1.prems" show ?thesis
      by (cases c) (simp add: absorb_short context_of_def)
  next
    case False
    obtain c' cp' where s: "hashstream_step hash c cp = (c', cp')" by (metis surj_pair)
    note st = hashstream_step_absorb [OF s "1.prems"]
    have "hashstream hash c' cp' = context_of (absorb hash (chain c') (blk c' @ cp'))"
      using "1.IH" False s st(2) by simp
    then show ?thesis
      using False s st(1) by (simp add: hashstream.simps [of hash c cp])
  qed
qed

lemma hashstream_short:
  "length (blk c) < BLOCK_SIZE \<Longrightarrow> length (blk (hashstream hash c cp)) < BLOCK_SIZE"
  using length_absorb_less [of hash "chain c" "blk c @ cp"]
  by (simp add: hashstream_absorb context_of_def split_beta)

lemma hashstream_append:
  "length (blk c) < BLOCK_SIZE \<Longrightarrow>
   hashstream hash (hashstream hash c p) q = hashstream hash c (p @ q)"
  using absorb_append [of hash "chain c" "blk c @ p" q] hashstream_short [of c hash p]
  by (simp add: hashstream_absorb context_of_def split_beta)

lemma blk_hashstream:
  "length (blk c) < BLOCK_SIZE \<Longrightarrow>
   length (blk (hashstream hash c p)) = (length (blk c) + length p) mod BLOCK_SIZE"
  using length_absorb [of hash "chain c" "blk c @ p"]
  by (simp add: hashstream_absorb context_of_def split_beta)

subsection \<open>Padding\<close>

text \<open>
  The padding loop of \<open>endstream\<close>: zeros until 8 bytes are missing to a block. Between calls
  \<open>blk_ptr\<close> is below 64 (\<open>hashstream_short\<close>); the first line is there for totality only.
\<close>

function pad_loop :: "('h \<Rightarrow> byte list \<Rightarrow> 'h) \<Rightarrow> 'h md_context \<Rightarrow> 'h md_context" where
  "pad_loop hash c =
     (if BLOCK_SIZE \<le> length (blk c) then c
      else if length (blk c) = BLOCK_SIZE - 8 then c
      else if BLOCK_SIZE - 8 < length (blk c)
        then pad_loop hash (hashstream hash c (replicate (BLOCK_SIZE - length (blk c)) 0))
      else pad_loop hash (hashstream hash c (replicate (BLOCK_SIZE - 8 - length (blk c)) 0)))"
  by pat_completeness auto
termination
  by (relation "measure (\<lambda>(hash, c). if length (blk c) = BLOCK_SIZE - 8 then 0
       else if BLOCK_SIZE - 8 < length (blk c) then 2 else 1)")
    (auto simp: blk_hashstream BLOCK_SIZE_def)

declare pad_loop.simps [simp del]

text \<open>How many zeros the loop adds after a message of \<open>n\<close> bytes.\<close>

definition pad_zeros :: "nat \<Rightarrow> nat" where
  "pad_zeros n = (2 * BLOCK_SIZE - 8 - n mod BLOCK_SIZE) mod BLOCK_SIZE"

lemma pad_loop_zeros:
  assumes "length (blk c) < BLOCK_SIZE"
  shows "pad_loop hash c = hashstream hash c (replicate (pad_zeros (length (blk c))) 0)"
proof -
  have stop: "pad_loop hash c = c" if "length (blk c) = BLOCK_SIZE - 8" for c
    using that by (simp add: pad_loop.simps)
  have less: "pad_loop hash c = hashstream hash c (replicate (BLOCK_SIZE - 8 - length (blk c)) 0)"
    if "length (blk c) < BLOCK_SIZE - 8" for c
    using that by (subst pad_loop.simps) (auto simp: stop blk_hashstream BLOCK_SIZE_def)
  consider "length (blk c) = BLOCK_SIZE - 8" | "length (blk c) < BLOCK_SIZE - 8"
    | "BLOCK_SIZE - 8 < length (blk c)" by linarith
  then show ?thesis
  proof cases
    case 1
    then show ?thesis by (simp add: stop pad_zeros_def BLOCK_SIZE_def hashstream.simps)
  next
    case 2
    then have "pad_zeros (length (blk c)) = BLOCK_SIZE - 8 - length (blk c)"
      by (simp add: pad_zeros_def BLOCK_SIZE_def mod_if)
    with 2 show ?thesis by (simp add: less)
  next
    case 3
    let ?c = "hashstream hash c (replicate (BLOCK_SIZE - length (blk c)) 0)"
    have z: "length (blk ?c) = 0"
      using assms by (simp add: blk_hashstream)
    have "pad_loop hash c = pad_loop hash ?c"
      using 3 assms by (subst pad_loop.simps) simp
    also have "\<dots> = hashstream hash ?c (replicate (BLOCK_SIZE - 8) 0)"
      using z by (subst less) (simp_all add: BLOCK_SIZE_def)
    also have "\<dots> = hashstream hash c (replicate (BLOCK_SIZE - length (blk c) + (BLOCK_SIZE - 8)) 0)"
      using assms by (simp add: hashstream_append replicate_add [symmetric] del: Nat.diff_add_assoc2)
    also have "BLOCK_SIZE - length (blk c) + (BLOCK_SIZE - 8) = pad_zeros (length (blk c))"
      using 3 assms by (simp add: pad_zeros_def BLOCK_SIZE_def)
    finally show ?thesis .
  qed
qed

text \<open>
  Padding a message as the standards say: a one bit, zeros, and the length field \<open>len\<close>, so that
  the whole is a number of blocks.
\<close>

definition padded :: "byte list \<Rightarrow> byte list \<Rightarrow> byte list" where
  "padded m len = m @ 0x80 # replicate (pad_zeros (Suc (length m))) 0 @ len"

lemma pad_zeros_56: "(n + pad_zeros n) mod 64 = 56"
proof -
  define q r where "q = n div 64" and "r = n mod 64"
  have n: "n = 64 * q + r" and r: "r < 64" by (simp_all add: q_def r_def)
  have pz: "pad_zeros n = (120 - r) mod 64"
    by (simp add: pad_zeros_def BLOCK_SIZE_def r_def)
  show ?thesis
  proof (cases "r \<le> 56")
    case True
    then have "120 - r = (56 - r) + 64" by simp
    then have "pad_zeros n = 56 - r" unfolding pz by (simp only: mod_add_self2) simp
    with n True show ?thesis by simp
  next
    case False
    with r have "pad_zeros n = 120 - r" unfolding pz by simp
    moreover have "n + (120 - r) = 56 + 64 * (q + 1)" using n r by simp
    ultimately show ?thesis by (simp only: mod_mult_self2) simp
  qed
qed

lemma length_padded: "length len = 8 \<Longrightarrow> length (padded m len) mod BLOCK_SIZE = 0"
  using pad_zeros_56 [of "Suc (length m)"]
    mod_add_left_eq [of "Suc (length m) + pad_zeros (Suc (length m))" 64 8]
  by (simp add: padded_def BLOCK_SIZE_def ac_simps)

lemma pad_zeros_mod: "pad_zeros (n mod BLOCK_SIZE) = pad_zeros n"
  by (simp add: pad_zeros_def)

text \<open>What \<open>endstream\<close> computes on a context that has absorbed a message.\<close>

lemma endstream_padded:
  assumes "c = context_of (absorb hash h m)"
  shows "hashstream hash (pad_loop hash (hashstream hash c [0x80])) len = context_of (absorb hash h (padded m len))"
proof -
  let ?c0 = "\<lparr>chain = h, blk = []\<rparr>"
  have c0: "length (blk ?c0) < BLOCK_SIZE" by (simp add: BLOCK_SIZE_def)
  have "c = hashstream hash ?c0 m" using assms hashstream_absorb [OF c0, of hash m] by simp
  then have c1: "hashstream hash c [0x80] = hashstream hash ?c0 (m @ [0x80])" (is "_ = ?c1")
    by (simp add: hashstream_append [OF c0])
  have "length (blk ?c1) = Suc (length m) mod BLOCK_SIZE" by (simp add: blk_hashstream [OF c0])
  then have "pad_loop hash ?c1 = hashstream hash ?c1 (replicate (pad_zeros (Suc (length m))) 0)"
    using pad_loop_zeros [OF hashstream_short [OF c0]] by (simp add: pad_zeros_mod)
  then have "hashstream hash (pad_loop hash ?c1) len = hashstream hash ?c0 (padded m len)"
    by (simp add: hashstream_append [OF c0] padded_def)
  then show ?thesis by (simp add: c1 hashstream_absorb [OF c0])
qed

end
