(* ===== verification/Md5.thy ===== *)
theory Md5 imports Md_Stream begin

text \<open>
  The MD5 digest \<open>wmail/md5/md5.c\<close>: the block function as the source unrolls it, the digest over
  the streaming part of \<open>Md_Stream\<close>, and the save and restore of a chaining value that HMAC uses.
  The reference is the algorithm of RFC 1321: the 64 steps as a loop with their index formulas,
  and the padded message. Lengths passed as \<open>unsigned\<close> are below \<open>2 ^ 32\<close>.
\<close>

subsection \<open>Definitions\<close>

record md5_regs =
  regA :: u32
  regB :: u32
  regC :: u32
  regD :: u32

type_synonym MD5_CONTEXT = "md5_regs md_context"

definition MD5_ROL :: "u32 \<Rightarrow> nat \<Rightarrow> u32" where
  "MD5_ROL w n = push_bit n w OR drop_bit (32 - n) w"

definition MD5_T :: "u32 list" where
  "MD5_T = [
    0xd76aa478, 0xe8c7b756, 0x242070db, 0xc1bdceee,
    0xf57c0faf, 0x4787c62a, 0xa8304613, 0xfd469501,
    0x698098d8, 0x8b44f7af, 0xffff5bb1, 0x895cd7be,
    0x6b901122, 0xfd987193, 0xa679438e, 0x49b40821,
    0xf61e2562, 0xc040b340, 0x265e5a51, 0xe9b6c7aa,
    0xd62f105d, 0x2441453, 0xd8a1e681, 0xe7d3fbc8,
    0x21e1cde6, 0xc33707d6, 0xf4d50d87, 0x455a14ed,
    0xa9e3e905, 0xfcefa3f8, 0x676f02d9, 0x8d2a4c8a,
    0xfffa3942, 0x8771f681, 0x6d9d6122, 0xfde5380c,
    0xa4beea44, 0x4bdecfa9, 0xf6bb4b60, 0xbebfbc70,
    0x289b7ec6, 0xeaa127fa, 0xd4ef3085, 0x4881d05,
    0xd9d4d039, 0xe6db99e5, 0x1fa27cf8, 0xc4ac5665,
    0xf4292244, 0x432aff97, 0xab9423a7, 0xfc93a039,
    0x655b59c3, 0x8f0ccc92, 0xffeff47d, 0x85845dd1,
    0x6fa87e4f, 0xfe2ce6e0, 0xa3014314, 0x4e0811a1,
    0xf7537e82, 0xbd3af235, 0x2ad7d2bb, 0xeb86d391]"

definition md5_init_regs :: md5_regs where
  "md5_init_regs = \<lparr>regA = 0x67452301, regB = 0xefcdab89, regC = 0x98badcfe, regD = 0x10325476\<rparr>"

definition md5_context_init :: MD5_CONTEXT where
  "md5_context_init = \<lparr>chain = md5_init_regs, blk = []\<rparr>"

definition MD5_F :: "u32 \<Rightarrow> u32 \<Rightarrow> u32 \<Rightarrow> u32" where "MD5_F x y z = (x AND y) OR (NOT x AND z)"
definition MD5_G :: "u32 \<Rightarrow> u32 \<Rightarrow> u32 \<Rightarrow> u32" where "MD5_G x y z = (x AND z) OR (y AND NOT z)"
definition MD5_H :: "u32 \<Rightarrow> u32 \<Rightarrow> u32 \<Rightarrow> u32" where "MD5_H x y z = x XOR y XOR z"
definition MD5_I :: "u32 \<Rightarrow> u32 \<Rightarrow> u32 \<Rightarrow> u32" where "MD5_I x y z = y XOR (x OR NOT z)"

text \<open>The sixteen words of a block, little endian.\<close>

definition le_word :: "byte \<Rightarrow> byte \<Rightarrow> byte \<Rightarrow> byte \<Rightarrow> u32" where
  "le_word b0 b1 b2 b3 =
     wide b0 OR push_bit 8 (wide b1) OR push_bit 16 (wide b2) OR
     push_bit 24 (wide b3)"

definition md5_words :: "byte list \<Rightarrow> u32 list" where
  "md5_words b = map (\<lambda>i. le_word (b ! (4 * i)) (b ! (4 * i + 1)) (b ! (4 * i + 2)) (b ! (4 * i + 3))) [0..<16]"

definition ROUND1 :: "u32 list \<Rightarrow> u32 \<Rightarrow> u32 \<Rightarrow> u32 \<Rightarrow> u32 \<Rightarrow> nat \<Rightarrow> nat \<Rightarrow> nat \<Rightarrow> u32" where
  "ROUND1 x a b c d k s i = (let zz = a + MD5_F b c d + x ! k + MD5_T ! i in b + MD5_ROL zz s)"

definition ROUND2 :: "u32 list \<Rightarrow> u32 \<Rightarrow> u32 \<Rightarrow> u32 \<Rightarrow> u32 \<Rightarrow> nat \<Rightarrow> nat \<Rightarrow> nat \<Rightarrow> u32" where
  "ROUND2 x a b c d k s i = (let zz = a + MD5_G b c d + x ! k + MD5_T ! i in b + MD5_ROL zz s)"

definition ROUND3 :: "u32 list \<Rightarrow> u32 \<Rightarrow> u32 \<Rightarrow> u32 \<Rightarrow> u32 \<Rightarrow> nat \<Rightarrow> nat \<Rightarrow> nat \<Rightarrow> u32" where
  "ROUND3 x a b c d k s i = (let zz = a + MD5_H b c d + x ! k + MD5_T ! i in b + MD5_ROL zz s)"

definition ROUND4 :: "u32 list \<Rightarrow> u32 \<Rightarrow> u32 \<Rightarrow> u32 \<Rightarrow> u32 \<Rightarrow> nat \<Rightarrow> nat \<Rightarrow> nat \<Rightarrow> u32" where
  "ROUND4 x a b c d k s i = (let zz = a + MD5_I b c d + x ! k + MD5_T ! i in b + MD5_ROL zz s)"

definition md5_round1 :: "u32 list \<Rightarrow> u32 \<times> u32 \<times> u32 \<times> u32 \<Rightarrow> u32 \<times> u32 \<times> u32 \<times> u32" where
  "md5_round1 x = (\<lambda>(a, b, c, d).
     let a = ROUND1 x a b c d 0 7 0;
         d = ROUND1 x d a b c 1 12 1;
         c = ROUND1 x c d a b 2 17 2;
         b = ROUND1 x b c d a 3 22 3;
         a = ROUND1 x a b c d 4 7 4;
         d = ROUND1 x d a b c 5 12 5;
         c = ROUND1 x c d a b 6 17 6;
         b = ROUND1 x b c d a 7 22 7;
         a = ROUND1 x a b c d 8 7 8;
         d = ROUND1 x d a b c 9 12 9;
         c = ROUND1 x c d a b 10 17 10;
         b = ROUND1 x b c d a 11 22 11;
         a = ROUND1 x a b c d 12 7 12;
         d = ROUND1 x d a b c 13 12 13;
         c = ROUND1 x c d a b 14 17 14;
         b = ROUND1 x b c d a 15 22 15
     in (a, b, c, d))"

definition md5_round2 :: "u32 list \<Rightarrow> u32 \<times> u32 \<times> u32 \<times> u32 \<Rightarrow> u32 \<times> u32 \<times> u32 \<times> u32" where
  "md5_round2 x = (\<lambda>(a, b, c, d).
     let a = ROUND2 x a b c d 1 5 16;
         d = ROUND2 x d a b c 6 9 17;
         c = ROUND2 x c d a b 11 14 18;
         b = ROUND2 x b c d a 0 20 19;
         a = ROUND2 x a b c d 5 5 20;
         d = ROUND2 x d a b c 10 9 21;
         c = ROUND2 x c d a b 15 14 22;
         b = ROUND2 x b c d a 4 20 23;
         a = ROUND2 x a b c d 9 5 24;
         d = ROUND2 x d a b c 14 9 25;
         c = ROUND2 x c d a b 3 14 26;
         b = ROUND2 x b c d a 8 20 27;
         a = ROUND2 x a b c d 13 5 28;
         d = ROUND2 x d a b c 2 9 29;
         c = ROUND2 x c d a b 7 14 30;
         b = ROUND2 x b c d a 12 20 31
     in (a, b, c, d))"

definition md5_round3 :: "u32 list \<Rightarrow> u32 \<times> u32 \<times> u32 \<times> u32 \<Rightarrow> u32 \<times> u32 \<times> u32 \<times> u32" where
  "md5_round3 x = (\<lambda>(a, b, c, d).
     let a = ROUND3 x a b c d 5 4 32;
         d = ROUND3 x d a b c 8 11 33;
         c = ROUND3 x c d a b 11 16 34;
         b = ROUND3 x b c d a 14 23 35;
         a = ROUND3 x a b c d 1 4 36;
         d = ROUND3 x d a b c 4 11 37;
         c = ROUND3 x c d a b 7 16 38;
         b = ROUND3 x b c d a 10 23 39;
         a = ROUND3 x a b c d 13 4 40;
         d = ROUND3 x d a b c 0 11 41;
         c = ROUND3 x c d a b 3 16 42;
         b = ROUND3 x b c d a 6 23 43;
         a = ROUND3 x a b c d 9 4 44;
         d = ROUND3 x d a b c 12 11 45;
         c = ROUND3 x c d a b 15 16 46;
         b = ROUND3 x b c d a 2 23 47
     in (a, b, c, d))"

definition md5_round4 :: "u32 list \<Rightarrow> u32 \<times> u32 \<times> u32 \<times> u32 \<Rightarrow> u32 \<times> u32 \<times> u32 \<times> u32" where
  "md5_round4 x = (\<lambda>(a, b, c, d).
     let a = ROUND4 x a b c d 0 6 48;
         d = ROUND4 x d a b c 7 10 49;
         c = ROUND4 x c d a b 14 15 50;
         b = ROUND4 x b c d a 5 21 51;
         a = ROUND4 x a b c d 12 6 52;
         d = ROUND4 x d a b c 3 10 53;
         c = ROUND4 x c d a b 10 15 54;
         b = ROUND4 x b c d a 1 21 55;
         a = ROUND4 x a b c d 8 6 56;
         d = ROUND4 x d a b c 15 10 57;
         c = ROUND4 x c d a b 6 15 58;
         b = ROUND4 x b c d a 13 21 59;
         a = ROUND4 x a b c d 4 6 60;
         d = ROUND4 x d a b c 11 10 61;
         c = ROUND4 x c d a b 2 15 62;
         b = ROUND4 x b c d a 9 21 63
     in (a, b, c, d))"

definition md5_context_hash :: "md5_regs \<Rightarrow> byte list \<Rightarrow> md5_regs" where
  "md5_context_hash c block =
     (let x = md5_words block;
          (a, b, c', d) = md5_round4 x (md5_round3 x (md5_round2 x (md5_round1 x (regA c, regB c, regC c, regD c))))
      in \<lparr>regA = regA c + a, regB = regB c + b, regC = regC c + c', regD = regD c + d\<rparr>)"

definition md5_context_hashstream :: "MD5_CONTEXT \<Rightarrow> byte list \<Rightarrow> MD5_CONTEXT" where
  "md5_context_hashstream c p = hashstream md5_context_hash c p"

text \<open>The bytes of a word as successive assignments to \<open>unsigned char\<close> and shifts by 8 give them.\<close>

definition low_bytes :: "u32 \<Rightarrow> byte list" where
  "low_bytes l = [low8 l, low8 (drop_bit 8 l),
     low8 (drop_bit 16 l), low8 (drop_bit 24 l)]"

text \<open>\<open>ll\<close> is an \<open>unsigned long\<close>; the source takes it down to a 32-bit word before it shifts.\<close>

definition md5_length_field :: "u64 \<Rightarrow> byte list" where
  "md5_length_field ll =
     low_bytes (push_bit 3 (low32 ll)) @ low_bytes (drop_bit 29 (low32 ll))"

definition md5_context_endstream :: "MD5_CONTEXT \<Rightarrow> u64 \<Rightarrow> MD5_CONTEXT" where
  "md5_context_endstream c ll =
     (let c = md5_context_hashstream c [0x80];
          c = pad_loop md5_context_hash c
      in md5_context_hashstream c (md5_length_field ll))"

definition md5_context_digest :: "MD5_CONTEXT \<Rightarrow> byte list" where
  "md5_context_digest c = low_bytes (regA (chain c)) @ low_bytes (regB (chain c)) @
     low_bytes (regC (chain c)) @ low_bytes (regD (chain c))"

text \<open>\<open>GET\<close>: four bytes read backwards from \<open>dp\<close>.\<close>

definition md5_get :: "byte list \<Rightarrow> nat \<Rightarrow> u32" where
  "md5_get d dp =
     (let w = wide (d ! (dp - 1));
          w = push_bit 8 w OR wide (d ! (dp - 2));
          w = push_bit 8 w OR wide (d ! (dp - 3))
      in push_bit 8 w OR wide (d ! (dp - 4)))"

definition md5_context_restore :: "byte list \<Rightarrow> MD5_CONTEXT" where
  "md5_context_restore d =
     \<lparr>chain = \<lparr>regA = md5_get d 4, regB = md5_get d 8, regC = md5_get d 12, regD = md5_get d 16\<rparr>, blk = []\<rparr>"

definition md5_digest :: "byte list \<Rightarrow> byte list" where
  "md5_digest msg =
     (let c = md5_context_init;
          c = md5_context_hashstream c msg;
          c = md5_context_endstream c (of_nat (length msg))
      in md5_context_digest c)"

subsection \<open>The reference: the steps of RFC 1321\<close>

definition rfc_aux :: "nat \<Rightarrow> u32 \<Rightarrow> u32 \<Rightarrow> u32 \<Rightarrow> u32" where
  "rfc_aux i = (if i < 16 then MD5_F else if i < 32 then MD5_G else if i < 48 then MD5_H else MD5_I)"

definition rfc_index :: "nat \<Rightarrow> nat" where
  "rfc_index i = (if i < 16 then i else if i < 32 then (5 * i + 1) mod 16
     else if i < 48 then (3 * i + 5) mod 16 else 7 * i mod 16)"

definition rfc_shift :: "nat \<Rightarrow> nat" where
  "rfc_shift i = [[7, 12, 17, 22], [5, 9, 14, 20], [4, 11, 16, 23], [6, 10, 15, 21]] ! (i div 16) ! (i mod 4)"

text \<open>One step: the new value takes the second place, the others move on by one.\<close>

definition rfc_step :: "u32 list \<Rightarrow> nat \<Rightarrow> u32 \<times> u32 \<times> u32 \<times> u32 \<Rightarrow> u32 \<times> u32 \<times> u32 \<times> u32" where
  "rfc_step x i = (\<lambda>(a, b, c, d).
     (d, b + MD5_ROL (a + rfc_aux i b c d + x ! rfc_index i + MD5_T ! i) (rfc_shift i), b, c))"

definition rfc1321_block :: "md5_regs \<Rightarrow> byte list \<Rightarrow> md5_regs" where
  "rfc1321_block c block =
     (case fold (rfc_step (md5_words block)) [0..<64] (regA c, regB c, regC c, regD c) of
        (a, b, c', d) \<Rightarrow> \<lparr>regA = regA c + a, regB = regB c + b, regC = regC c + c', regD = regD c + d\<rparr>)"


subsection \<open>The block function is that of the reference\<close>

text \<open>Four steps of a round, in the order in which the registers change.\<close>

definition round_quad :: "(u32 \<Rightarrow> u32 \<Rightarrow> u32 \<Rightarrow> u32 \<Rightarrow> nat \<Rightarrow> nat \<Rightarrow> nat \<Rightarrow> u32) \<Rightarrow>
    (nat \<times> nat \<times> nat) \<Rightarrow> (nat \<times> nat \<times> nat) \<Rightarrow> (nat \<times> nat \<times> nat) \<Rightarrow> (nat \<times> nat \<times> nat) \<Rightarrow>
    u32 \<times> u32 \<times> u32 \<times> u32 \<Rightarrow> u32 \<times> u32 \<times> u32 \<times> u32" where
  "round_quad R = (\<lambda>(k0, s0, i0) (k1, s1, i1) (k2, s2, i2) (k3, s3, i3) (a, b, c, d).
     let a = R a b c d k0 s0 i0; d = R d a b c k1 s1 i1; c = R c d a b k2 s2 i2; b = R b c d a k3 s3 i3
     in (a, b, c, d))"

lemma round_quad_Let:
  "round_quad R q0 q1 q2 q3 (Let t f) = Let t (\<lambda>v. round_quad R q0 q1 q2 q3 (f v))"
  by (simp add: Let_def)

lemma round_quad_tuple:
  "round_quad R (k0, s0, i0) (k1, s1, i1) (k2, s2, i2) (k3, s3, i3) (a, b, c, d) =
     (let a = R a b c d k0 s0 i0; d = R d a b c k1 s1 i1; c = R c d a b k2 s2 i2; b = R b c d a k3 s3 i3
      in (a, b, c, d))"
  by (simp add: round_quad_def)

lemma md5_round1_quads: "md5_round1 x st =
       (round_quad (ROUND1 x) (12, 7, 12) (13, 12, 13) (14, 17, 14) (15, 22, 15)
        (round_quad (ROUND1 x) (8, 7, 8) (9, 12, 9) (10, 17, 10) (11, 22, 11)
        (round_quad (ROUND1 x) (4, 7, 4) (5, 12, 5) (6, 17, 6) (7, 22, 7)
        (round_quad (ROUND1 x) (0, 7, 0) (1, 12, 1) (2, 17, 2) (3, 22, 3)
        st))))"
  by (cases st) (simp only: md5_round1_def prod.case round_quad_tuple round_quad_Let)

lemma md5_round2_quads: "md5_round2 x st =
       (round_quad (ROUND2 x) (13, 5, 28) (2, 9, 29) (7, 14, 30) (12, 20, 31)
        (round_quad (ROUND2 x) (9, 5, 24) (14, 9, 25) (3, 14, 26) (8, 20, 27)
        (round_quad (ROUND2 x) (5, 5, 20) (10, 9, 21) (15, 14, 22) (4, 20, 23)
        (round_quad (ROUND2 x) (1, 5, 16) (6, 9, 17) (11, 14, 18) (0, 20, 19)
        st))))"
  by (cases st) (simp only: md5_round2_def prod.case round_quad_tuple round_quad_Let)

lemma md5_round3_quads: "md5_round3 x st =
       (round_quad (ROUND3 x) (9, 4, 44) (12, 11, 45) (15, 16, 46) (2, 23, 47)
        (round_quad (ROUND3 x) (13, 4, 40) (0, 11, 41) (3, 16, 42) (6, 23, 43)
        (round_quad (ROUND3 x) (1, 4, 36) (4, 11, 37) (7, 16, 38) (10, 23, 39)
        (round_quad (ROUND3 x) (5, 4, 32) (8, 11, 33) (11, 16, 34) (14, 23, 35)
        st))))"
  by (cases st) (simp only: md5_round3_def prod.case round_quad_tuple round_quad_Let)

lemma md5_round4_quads: "md5_round4 x st =
       (round_quad (ROUND4 x) (4, 6, 60) (11, 10, 61) (2, 15, 62) (9, 21, 63)
        (round_quad (ROUND4 x) (8, 6, 56) (15, 10, 57) (6, 15, 58) (13, 21, 59)
        (round_quad (ROUND4 x) (12, 6, 52) (3, 10, 53) (10, 15, 54) (1, 21, 55)
        (round_quad (ROUND4 x) (0, 6, 48) (7, 10, 49) (14, 15, 50) (5, 21, 51)
        st))))"
  by (cases st) (simp only: md5_round4_def prod.case round_quad_tuple round_quad_Let)

lemmas round_defs = ROUND1_def ROUND2_def ROUND3_def ROUND4_def

lemma rfc_steps_quad:
  assumes "rfc_aux i0 = f" "rfc_aux i1 = f" "rfc_aux i2 = f" "rfc_aux i3 = f"
  shows "fold (rfc_step x) [i0, i1, i2, i3] st =
    round_quad (\<lambda>a b c d k s i. b + MD5_ROL (a + f b c d + x ! k + MD5_T ! i) s)
      (rfc_index i0, rfc_shift i0, i0) (rfc_index i1, rfc_shift i1, i1)
      (rfc_index i2, rfc_shift i2, i2) (rfc_index i3, rfc_shift i3, i3) st"
  by (cases st) (simp add: rfc_step_def round_quad_tuple assms Let_def)

lemma ROUNDs: "ROUND1 x = (\<lambda>a b c d k s i. b + MD5_ROL (a + MD5_F b c d + x ! k + MD5_T ! i) s)"
  "ROUND2 x = (\<lambda>a b c d k s i. b + MD5_ROL (a + MD5_G b c d + x ! k + MD5_T ! i) s)"
  "ROUND3 x = (\<lambda>a b c d k s i. b + MD5_ROL (a + MD5_H b c d + x ! k + MD5_T ! i) s)"
  "ROUND4 x = (\<lambda>a b c d k s i. b + MD5_ROL (a + MD5_I b c d + x ! k + MD5_T ! i) s)"
  by (simp_all add: round_defs fun_eq_iff)

lemma md5_round1_rfc: "md5_round1 x st = (fold (rfc_step x) [12, 13, 14, 15] (fold (rfc_step x) [8, 9, 10, 11] (fold (rfc_step x) [4, 5, 6, 7] (fold (rfc_step x) [0, 1, 2, 3] st))))"
  unfolding md5_round1_quads ROUNDs
  by (subst (1 2 3 4) rfc_steps_quad [where f = MD5_F]) (simp_all add: rfc_aux_def rfc_index_def rfc_shift_def)

lemma md5_round2_rfc: "md5_round2 x st = (fold (rfc_step x) [28, 29, 30, 31] (fold (rfc_step x) [24, 25, 26, 27] (fold (rfc_step x) [20, 21, 22, 23] (fold (rfc_step x) [16, 17, 18, 19] st))))"
  unfolding md5_round2_quads ROUNDs
  by (subst (1 2 3 4) rfc_steps_quad [where f = MD5_G]) (simp_all add: rfc_aux_def rfc_index_def rfc_shift_def)

lemma md5_round3_rfc: "md5_round3 x st = (fold (rfc_step x) [44, 45, 46, 47] (fold (rfc_step x) [40, 41, 42, 43] (fold (rfc_step x) [36, 37, 38, 39] (fold (rfc_step x) [32, 33, 34, 35] st))))"
  unfolding md5_round3_quads ROUNDs
  by (subst (1 2 3 4) rfc_steps_quad [where f = MD5_H]) (simp_all add: rfc_aux_def rfc_index_def rfc_shift_def)

lemma md5_round4_rfc: "md5_round4 x st = (fold (rfc_step x) [60, 61, 62, 63] (fold (rfc_step x) [56, 57, 58, 59] (fold (rfc_step x) [52, 53, 54, 55] (fold (rfc_step x) [48, 49, 50, 51] st))))"
  unfolding md5_round4_quads ROUNDs
  by (subst (1 2 3 4) rfc_steps_quad [where f = MD5_I]) (simp_all add: rfc_aux_def rfc_index_def rfc_shift_def)

lemma upt_64: "[0..<64] =
    [0, 1, 2, 3] @
    [4, 5, 6, 7] @
    [8, 9, 10, 11] @
    [12, 13, 14, 15] @
    [16, 17, 18, 19] @
    [20, 21, 22, 23] @
    [24, 25, 26, 27] @
    [28, 29, 30, 31] @
    [32, 33, 34, 35] @
    [36, 37, 38, 39] @
    [40, 41, 42, 43] @
    [44, 45, 46, 47] @
    [48, 49, 50, 51] @
    [52, 53, 54, 55] @
    [56, 57, 58, 59] @
    [60, 61, 62, 63]"
  by (simp add: upt_rec)

lemma md5_rounds_rfc:
  "md5_round4 x (md5_round3 x (md5_round2 x (md5_round1 x st))) = fold (rfc_step x) [0..<64] st"
  by (simp only: upt_64 fold_append comp_def md5_round1_rfc md5_round2_rfc md5_round3_rfc md5_round4_rfc)

lemma md5_context_hash_rfc: "md5_context_hash = rfc1321_block"
  by (intro ext) (simp add: md5_context_hash_def rfc1321_block_def md5_rounds_rfc)

subsection \<open>Bytes of words\<close>

lemma bit_low8: "bit (low8 w) n \<longleftrightarrow> n < 8 \<and> bit w n"
  by (auto simp: bit_simps)

lemma bit_wide: "bit (wide b) n \<longleftrightarrow> bit b n"
  by (auto simp: bit_simps byte_bit_ge dest: bit_imp_le_length)

lemma u32_bit_ge: "32 \<le> n \<Longrightarrow> \<not> bit (x::u32) n"
  using bit_imp_le_length [of x n] by auto

lemma le_word_low_bytes:
  "le_word (low8 w) (low8 (drop_bit 8 w)) (low8 (drop_bit 16 w)) (low8 (drop_bit 24 w)) = w"
proof (rule bit_word_eqI)
  fix n
  assume "n < LENGTH(32)"
  then consider "n < 8" | "8 \<le> n" "n < 16" | "16 \<le> n" "n < 24" | "24 \<le> n" "n < 32" by fastforce
  then show "bit (le_word (low8 w) (low8 (drop_bit 8 w)) (low8 (drop_bit 16 w)) (low8 (drop_bit 24 w))) n =
      bit w n"
    by cases (auto simp: le_word_def bit_or_iff bit_push_bit_iff bit_wide bit_low8 bit_drop_bit_eq)
qed

lemma md5_get_le_word:
  "md5_get d dp = le_word (d ! (dp - 4)) (d ! (dp - 3)) (d ! (dp - 2)) (d ! (dp - 1))"
proof (rule bit_word_eqI)
  fix n
  assume "n < LENGTH(32)"
  then consider "n < 8" | "8 \<le> n" "n < 16" | "16 \<le> n" "n < 24" | "24 \<le> n" "n < 32" by fastforce
  then show "bit (md5_get d dp) n =
      bit (le_word (d ! (dp - 4)) (d ! (dp - 3)) (d ! (dp - 2)) (d ! (dp - 1))) n"
    by cases (auto simp: le_word_def md5_get_def Let_def bit_or_iff bit_push_bit_iff bit_wide byte_bit_ge)
qed

lemma length_low_bytes [simp]: "length (low_bytes w) = 4"
  by (simp add: low_bytes_def)

text \<open>The 64-bit length of a message in bits, little endian.\<close>

definition le_bytes64 :: "u64 \<Rightarrow> byte list" where
  "le_bytes64 w = map (\<lambda>i. ucast (drop_bit (8 * i) w)) [0..<8]"

lemma md5_length_field_le:
  assumes "n < 2 ^ 32"
  shows "md5_length_field (of_nat n) = le_bytes64 (of_nat (8 * n))"
proof -
  define ll :: u64 where "ll = of_nat n"
  have w: "(of_nat (8 * n) :: u64) = push_bit 3 ll"
    by (simp add: ll_def push_bit_eq_mult)
  have "unat ll < 2 ^ 32" using assms by (simp add: ll_def unat_of_nat take_bit_nat_eq_self)
  then have t: "take_bit 32 (unat ll) = unat ll" by (rule take_bit_nat_eq_self)
  have hi: "\<not> bit ll i" if "32 \<le> i" for i
  proof
    assume "bit ll i"
    then have "bit (unat ll) i" by (simp add: bit_unsigned_iff bit_imp_le_length)
    then have "bit (take_bit 32 (unat ll)) i" by (simp only: t)
    with that show False by (simp add: bit_take_bit_iff)
  qed
  have hi': "i < 32" if "bit ll i" for i
    using hi [of i] that by (cases "i < 32") auto
  have hi29: "i < 3" if "bit ll (29 + i)" for i
    using hi' [OF that] by simp
  have "[0..<8] = [0, 1, 2, 3, 4, 5, 6, 7::nat]" by (simp add: upt_rec)
  then show ?thesis
    unfolding w md5_length_field_def le_bytes64_def low_bytes_def
    by (auto simp flip: ll_def intro!: bit_word_eqI
        simp: bit_simps hi intro: hi29)
qed

lemma md5_restore_digest:
  "md5_context_restore (md5_context_digest c) = c\<lparr>blk := []\<rparr>"
proof (cases c)
  case (fields h b)
  have "md5_get (md5_context_digest c) 4 = regA h" "md5_get (md5_context_digest c) 8 = regB h"
    "md5_get (md5_context_digest c) 12 = regC h" "md5_get (md5_context_digest c) 16 = regD h"
    unfolding md5_get_le_word using fields
    by (simp_all add: md5_context_digest_def low_bytes_def le_word_low_bytes)
  with fields show ?thesis by (simp add: md5_context_restore_def)
qed

lemma length_md5_context_digest [simp]: "length (md5_context_digest c) = 16"
  by (simp add: md5_context_digest_def)

lemma md5_stream_append:
  "length (blk c) < BLOCK_SIZE \<Longrightarrow>
   md5_context_hashstream (md5_context_hashstream c p) q = md5_context_hashstream c (p @ q)"
  by (simp add: md5_context_hashstream_def hashstream_append)

lemma md5_endstream_padded:
  "c = context_of (absorb md5_context_hash h m) \<Longrightarrow>
   md5_context_endstream c ll = context_of (absorb md5_context_hash h (padded m (md5_length_field ll)))"
  by (simp add: md5_context_endstream_def md5_context_hashstream_def Let_def endstream_padded)

lemma md5_init_absorb: "md5_context_hashstream md5_context_init m =
    context_of (absorb md5_context_hash md5_init_regs m)"
  by (simp add: md5_context_hashstream_def md5_context_init_def hashstream_absorb BLOCK_SIZE_def)

text \<open>The digest of RFC 1321: the padded message, block by block.\<close>

definition rfc1321 :: "byte list \<Rightarrow> byte list" where
  "rfc1321 msg = md5_context_digest (context_of
     (absorb rfc1321_block md5_init_regs (padded msg (le_bytes64 (of_nat (8 * length msg))))))"

lemma md5_digest_rfc: "length msg < 2 ^ 32 \<Longrightarrow> md5_digest msg = rfc1321 msg"
  using md5_endstream_padded [OF md5_init_absorb, of msg "of_nat (length msg)"]
  by (simp add: md5_digest_def rfc1321_def Let_def md5_length_field_le flip: md5_context_hash_rfc)

subsection \<open>Properties\<close>

text \<open>
  C35. For every message whose length an \<open>unsigned int\<close> holds, \<open>md5_digest\<close> is the digest RFC 1321
  defines: the unrolled rounds are its 64 steps, the streaming loop and the padding loop
  absorb the padded message block by block, the length field is the 64-bit count of bits.
\<close>

theorem md5_digest_correct:
  "length msg < 2 ^ 32 \<Longrightarrow> md5_digest msg = rfc1321 msg \<and> length (md5_digest msg) = 16"
  using md5_digest_rfc [of msg] by (simp add: rfc1321_def)

theorem md5_digest_correct_witness:
  "md5_digest (asc ''abc'') = rfc1321 (asc ''abc'') \<and> length (md5_digest (asc ''abc'')) = 16"
  by (rule md5_digest_correct) simp

text \<open>
  A digest in the middle of a stream is a complete saved state: after a whole number of
  blocks, \<open>md5_context_restore\<close> of \<open>md5_context_digest\<close> gives back the context, so that the
  stream goes on as if it had not been interrupted.
\<close>

theorem md5_restore_resumes:
  assumes "length m mod BLOCK_SIZE = 0"
  shows "md5_context_hashstream (md5_context_restore (md5_context_digest
           (md5_context_hashstream md5_context_init m))) p =
         md5_context_hashstream md5_context_init (m @ p)"
proof -
  let ?c = "md5_context_hashstream md5_context_init m"
  have "length (blk ?c) = 0"
    using assms by (simp add: md5_context_hashstream_def md5_context_init_def blk_hashstream BLOCK_SIZE_def)
  then have "?c\<lparr>blk := []\<rparr> = ?c" by simp
  moreover have "length (blk md5_context_init) < BLOCK_SIZE"
    by (simp add: md5_context_init_def BLOCK_SIZE_def)
  ultimately show ?thesis
    by (simp add: md5_restore_digest md5_stream_append)
qed

theorem md5_restore_resumes_witness:
  "md5_context_hashstream (md5_context_restore (md5_context_digest
     (md5_context_hashstream md5_context_init (replicate 64 54)))) [1, 2, 3] =
   md5_context_hashstream md5_context_init (replicate 64 54 @ [1, 2, 3])"
  by (rule md5_restore_resumes) (simp add: BLOCK_SIZE_def)

end
