(* ===== verification/Md5c.thy ===== *)
theory Md5c imports Md5 Base64_Decode begin

text \<open>
  The second MD5 of the repository, RSA's reference code in \<open>License/md5/md5c.c\<close>, and its driver
  \<open>License/md5/mddriver.c\<close>, which the licence check uses. Its context counts bits in two words
  and keeps a full 64-byte buffer, into which it copies at the index the count gives. The lemmas
  show that it computes what \<open>md5_digest\<close> computes, whatever the pieces it is fed.

  \<open>UINT4\<close> is taken to be the four byte word its comment says (an \<open>unsigned long\<close> has four bytes
  where the program was built). Input lengths are below \<open>2 ^ 32 - 63\<close>, so that \<open>i + 63\<close> does not
  wrap.
\<close>

subsection \<open>Definitions\<close>

record MD5_CTX =
  state :: md5_regs
  count0 :: u32
  count1 :: u32
  buffer :: "byte list"

definition S11 :: nat where "S11 = 7"
definition S12 :: nat where "S12 = 12"
definition S13 :: nat where "S13 = 17"
definition S14 :: nat where "S14 = 22"
definition S21 :: nat where "S21 = 5"
definition S22 :: nat where "S22 = 9"
definition S23 :: nat where "S23 = 14"
definition S24 :: nat where "S24 = 20"
definition S31 :: nat where "S31 = 4"
definition S32 :: nat where "S32 = 11"
definition S33 :: nat where "S33 = 16"
definition S34 :: nat where "S34 = 23"
definition S41 :: nat where "S41 = 6"
definition S42 :: nat where "S42 = 10"
definition S43 :: nat where "S43 = 15"
definition S44 :: nat where "S44 = 21"

definition PADDING :: "byte list" where
  "PADDING = 0x80 # replicate 63 0"

definition ROTATE_LEFT :: "u32 \<Rightarrow> nat \<Rightarrow> u32" where
  "ROTATE_LEFT x n = push_bit n x OR drop_bit (32 - n) x"

definition FF :: "u32 \<Rightarrow> u32 \<Rightarrow> u32 \<Rightarrow> u32 \<Rightarrow> u32 \<Rightarrow> nat \<Rightarrow> u32 \<Rightarrow> u32" where
  "FF a b c d x s ac =
     (let a = a + (MD5_F b c d + x + ac); a = ROTATE_LEFT a s in a + b)"

definition GG :: "u32 \<Rightarrow> u32 \<Rightarrow> u32 \<Rightarrow> u32 \<Rightarrow> u32 \<Rightarrow> nat \<Rightarrow> u32 \<Rightarrow> u32" where
  "GG a b c d x s ac =
     (let a = a + (MD5_G b c d + x + ac); a = ROTATE_LEFT a s in a + b)"

definition HH :: "u32 \<Rightarrow> u32 \<Rightarrow> u32 \<Rightarrow> u32 \<Rightarrow> u32 \<Rightarrow> nat \<Rightarrow> u32 \<Rightarrow> u32" where
  "HH a b c d x s ac =
     (let a = a + (MD5_H b c d + x + ac); a = ROTATE_LEFT a s in a + b)"

definition II :: "u32 \<Rightarrow> u32 \<Rightarrow> u32 \<Rightarrow> u32 \<Rightarrow> u32 \<Rightarrow> nat \<Rightarrow> u32 \<Rightarrow> u32" where
  "II a b c d x s ac =
     (let a = a + (MD5_I b c d + x + ac); a = ROTATE_LEFT a s in a + b)"

text \<open>\<open>Encode\<close> and \<open>Decode\<close>: words to bytes and back, for whole words.\<close>

definition Encode :: "u32 list \<Rightarrow> byte list" where
  "Encode ws = concat (map (\<lambda>w. [low8 (w AND 0xff), low8 (drop_bit 8 w AND 0xff),
     low8 (drop_bit 16 w AND 0xff), low8 (drop_bit 24 w AND 0xff)]) ws)"

definition Decode :: "byte list \<Rightarrow> u32 list" where
  "Decode b = map (\<lambda>i. let j = 4 * i in wide (b ! j) OR push_bit 8 (wide (b ! (j + 1))) OR
     push_bit 16 (wide (b ! (j + 2))) OR push_bit 24 (wide (b ! (j + 3)))) [0..<16]"

definition transform_round1 :: "u32 list \<Rightarrow> u32 \<times> u32 \<times> u32 \<times> u32 \<Rightarrow> u32 \<times> u32 \<times> u32 \<times> u32" where
  "transform_round1 x = (\<lambda>(a, b, c, d).
     let a = FF a b c d (x ! 0) S11 0xd76aa478;
         d = FF d a b c (x ! 1) S12 0xe8c7b756;
         c = FF c d a b (x ! 2) S13 0x242070db;
         b = FF b c d a (x ! 3) S14 0xc1bdceee;
         a = FF a b c d (x ! 4) S11 0xf57c0faf;
         d = FF d a b c (x ! 5) S12 0x4787c62a;
         c = FF c d a b (x ! 6) S13 0xa8304613;
         b = FF b c d a (x ! 7) S14 0xfd469501;
         a = FF a b c d (x ! 8) S11 0x698098d8;
         d = FF d a b c (x ! 9) S12 0x8b44f7af;
         c = FF c d a b (x ! 10) S13 0xffff5bb1;
         b = FF b c d a (x ! 11) S14 0x895cd7be;
         a = FF a b c d (x ! 12) S11 0x6b901122;
         d = FF d a b c (x ! 13) S12 0xfd987193;
         c = FF c d a b (x ! 14) S13 0xa679438e;
         b = FF b c d a (x ! 15) S14 0x49b40821
     in (a, b, c, d))"

definition transform_round2 :: "u32 list \<Rightarrow> u32 \<times> u32 \<times> u32 \<times> u32 \<Rightarrow> u32 \<times> u32 \<times> u32 \<times> u32" where
  "transform_round2 x = (\<lambda>(a, b, c, d).
     let a = GG a b c d (x ! 1) S21 0xf61e2562;
         d = GG d a b c (x ! 6) S22 0xc040b340;
         c = GG c d a b (x ! 11) S23 0x265e5a51;
         b = GG b c d a (x ! 0) S24 0xe9b6c7aa;
         a = GG a b c d (x ! 5) S21 0xd62f105d;
         d = GG d a b c (x ! 10) S22 0x2441453;
         c = GG c d a b (x ! 15) S23 0xd8a1e681;
         b = GG b c d a (x ! 4) S24 0xe7d3fbc8;
         a = GG a b c d (x ! 9) S21 0x21e1cde6;
         d = GG d a b c (x ! 14) S22 0xc33707d6;
         c = GG c d a b (x ! 3) S23 0xf4d50d87;
         b = GG b c d a (x ! 8) S24 0x455a14ed;
         a = GG a b c d (x ! 13) S21 0xa9e3e905;
         d = GG d a b c (x ! 2) S22 0xfcefa3f8;
         c = GG c d a b (x ! 7) S23 0x676f02d9;
         b = GG b c d a (x ! 12) S24 0x8d2a4c8a
     in (a, b, c, d))"

definition transform_round3 :: "u32 list \<Rightarrow> u32 \<times> u32 \<times> u32 \<times> u32 \<Rightarrow> u32 \<times> u32 \<times> u32 \<times> u32" where
  "transform_round3 x = (\<lambda>(a, b, c, d).
     let a = HH a b c d (x ! 5) S31 0xfffa3942;
         d = HH d a b c (x ! 8) S32 0x8771f681;
         c = HH c d a b (x ! 11) S33 0x6d9d6122;
         b = HH b c d a (x ! 14) S34 0xfde5380c;
         a = HH a b c d (x ! 1) S31 0xa4beea44;
         d = HH d a b c (x ! 4) S32 0x4bdecfa9;
         c = HH c d a b (x ! 7) S33 0xf6bb4b60;
         b = HH b c d a (x ! 10) S34 0xbebfbc70;
         a = HH a b c d (x ! 13) S31 0x289b7ec6;
         d = HH d a b c (x ! 0) S32 0xeaa127fa;
         c = HH c d a b (x ! 3) S33 0xd4ef3085;
         b = HH b c d a (x ! 6) S34 0x4881d05;
         a = HH a b c d (x ! 9) S31 0xd9d4d039;
         d = HH d a b c (x ! 12) S32 0xe6db99e5;
         c = HH c d a b (x ! 15) S33 0x1fa27cf8;
         b = HH b c d a (x ! 2) S34 0xc4ac5665
     in (a, b, c, d))"

definition transform_round4 :: "u32 list \<Rightarrow> u32 \<times> u32 \<times> u32 \<times> u32 \<Rightarrow> u32 \<times> u32 \<times> u32 \<times> u32" where
  "transform_round4 x = (\<lambda>(a, b, c, d).
     let a = II a b c d (x ! 0) S41 0xf4292244;
         d = II d a b c (x ! 7) S42 0x432aff97;
         c = II c d a b (x ! 14) S43 0xab9423a7;
         b = II b c d a (x ! 5) S44 0xfc93a039;
         a = II a b c d (x ! 12) S41 0x655b59c3;
         d = II d a b c (x ! 3) S42 0x8f0ccc92;
         c = II c d a b (x ! 10) S43 0xffeff47d;
         b = II b c d a (x ! 1) S44 0x85845dd1;
         a = II a b c d (x ! 8) S41 0x6fa87e4f;
         d = II d a b c (x ! 15) S42 0xfe2ce6e0;
         c = II c d a b (x ! 6) S43 0xa3014314;
         b = II b c d a (x ! 13) S44 0x4e0811a1;
         a = II a b c d (x ! 4) S41 0xf7537e82;
         d = II d a b c (x ! 11) S42 0xbd3af235;
         c = II c d a b (x ! 2) S43 0x2ad7d2bb;
         b = II b c d a (x ! 9) S44 0xeb86d391
     in (a, b, c, d))"

definition MD5Transform :: "md5_regs \<Rightarrow> byte list \<Rightarrow> md5_regs" where
  "MD5Transform st block =
     (let x = Decode block;
          (a, b, c, d) = transform_round4 x (transform_round3 x (transform_round2 x
             (transform_round1 x (regA st, regB st, regC st, regD st))))
      in \<lparr>regA = regA st + a, regB = regB st + b, regC = regC st + c, regD = regD st + d\<rparr>)"

text \<open>A new context; the buffer keeps whatever memory it lies in.\<close>

definition MD5Init :: "byte list \<Rightarrow> MD5_CTX" where
  "MD5Init mem = \<lparr>state = \<lparr>regA = 0x67452301, regB = 0xefcdab89, regC = 0x98badcfe, regD = 0x10325476\<rparr>,
     count0 = 0, count1 = 0, buffer = mem\<rparr>"

text \<open>Copying \<open>input\<close> to \<open>&output[i]\<close>.\<close>

definition MD5_memcpy :: "byte list \<Rightarrow> nat \<Rightarrow> byte list \<Rightarrow> byte list" where
  "MD5_memcpy output i input = take i output @ input @ drop (i + length input) output"

definition count_index :: "MD5_CTX \<Rightarrow> nat" where
  "count_index context = unat (drop_bit 3 (count0 context) AND 0x3F)"

definition add_count :: "MD5_CTX \<Rightarrow> nat \<Rightarrow> MD5_CTX" where
  "add_count context inputLen =
     (let bits = push_bit 3 (of_nat inputLen);
          c0 = count0 context + bits;
          c1 = (if c0 < bits then count1 context + 1 else count1 context)
      in context\<lparr>count0 := c0, count1 := c1 + drop_bit 29 (of_nat inputLen)\<rparr>)"

text \<open>The loop over whole blocks of the input; it gives the state and the index it stops at.\<close>

function transform_loop :: "md5_regs \<Rightarrow> byte list \<Rightarrow> nat \<Rightarrow> md5_regs \<times> nat" where
  "transform_loop st input i =
     (if i + 63 < length input
      then transform_loop (MD5Transform st (take 64 (drop i input))) input (i + 64)
      else (st, i))"
  by pat_completeness auto
termination
  by (relation "measure (\<lambda>(st, input, i). length input - i)") auto

declare transform_loop.simps [simp del]

definition MD5Update :: "MD5_CTX \<Rightarrow> byte list \<Rightarrow> MD5_CTX" where
  "MD5Update context input =
     (let index = count_index context;
          context = add_count context (length input);
          partLen = 64 - index
      in if partLen \<le> length input
         then (let buf = MD5_memcpy (buffer context) index (take partLen input);
                   (st, i) = transform_loop (MD5Transform (state context) buf) input partLen
               in context\<lparr>state := st, buffer := MD5_memcpy buf 0 (drop i input)\<rparr>)
         else context\<lparr>buffer := MD5_memcpy (buffer context) index input\<rparr>)"

definition zeroed :: MD5_CTX where
  "zeroed = \<lparr>state = \<lparr>regA = 0, regB = 0, regC = 0, regD = 0\<rparr>, count0 = 0, count1 = 0, buffer = replicate 64 0\<rparr>"

definition MD5Final :: "MD5_CTX \<Rightarrow> byte list \<times> MD5_CTX" where
  "MD5Final context =
     (let bits = Encode [count0 context, count1 context];
          index = count_index context;
          padLen = (if index < 56 then 56 - index else 120 - index);
          context = MD5Update context (take padLen PADDING);
          context = MD5Update context bits;
          st = state context;
          digest = Encode [regA st, regB st, regC st, regD st]
      in (digest, zeroed))"

subsection \<open>The driver\<close>

text \<open>\<open>mem\<close> is the memory of the local context.\<close>

definition mddriver_md5_digest :: "byte list \<Rightarrow> byte list \<Rightarrow> byte list" where
  "mddriver_md5_digest mem string =
     (let context = MD5Update (MD5Init mem) string in fst (MD5Final context))"

definition hexdigits :: "byte list" where
  "hexdigits = asc ''0123456789abcdef''"

fun hex_16 :: "byte list \<Rightarrow> byte list" where
  "hex_16 [] = []"
| "hex_16 (c # from) = hexdigits ! unat (drop_bit 4 c) # hexdigits ! unat (c AND 0x0F) # hex_16 from"

text \<open>
  \<open>base64_16\<close> leaves its loop when the input ends after the first byte of a group, which is where
  16 bytes end; other lengths would make it run past the end.
\<close>

fun base64_16 :: "byte list \<Rightarrow> byte list" where
  "base64_16 [c1] = [base64tab ! unat (drop_bit 2 c1), base64tab ! unat (push_bit 4 (c1 AND 0x3))]"
| "base64_16 (c1 # c2 # c3 # from) =
     base64tab ! unat (drop_bit 2 c1) #
     base64tab ! unat (push_bit 4 (c1 AND 0x3) OR drop_bit 4 (c2 AND 0xF0)) #
     base64tab ! unat (push_bit 2 (c2 AND 0xF) OR drop_bit 6 (c3 AND 0xC0)) #
     base64tab ! unat (c3 AND 0x3F) # base64_16 from"
| "base64_16 _ = []"

definition md5_hex :: "byte list \<Rightarrow> byte list \<Rightarrow> byte list" where
  "md5_hex mem string = hex_16 (mddriver_md5_digest mem string)"

definition md5_base64 :: "byte list \<Rightarrow> byte list \<Rightarrow> byte list" where
  "md5_base64 mem string = base64_16 (mddriver_md5_digest mem string)"

text \<open>\<open>MDFile\<close>: the digest of a file read in chunks.\<close>

definition MDFile :: "byte list \<Rightarrow> byte list list \<Rightarrow> byte list" where
  "MDFile mem chunks = fst (MD5Final (foldl MD5Update (MD5Init mem) chunks))"

subsection \<open>The block function\<close>

lemma ROTATE_LEFT_eq: "ROTATE_LEFT = MD5_ROL"
  by (simp add: fun_eq_iff ROTATE_LEFT_def MD5_ROL_def)

lemma FF_ROUND: "ROUND1 x a b c d k s i = FF a b c d (x ! k) s (MD5_T ! i)"
  "ROUND2 x a b c d k s i = GG a b c d (x ! k) s (MD5_T ! i)"
  "ROUND3 x a b c d k s i = HH a b c d (x ! k) s (MD5_T ! i)"
  "ROUND4 x a b c d k s i = II a b c d (x ! k) s (MD5_T ! i)"
  by (simp_all add: round_defs FF_def GG_def HH_def II_def Let_def ROTATE_LEFT_eq ac_simps)

lemma MD5_T_nths:
  "MD5_T ! 0 = 0xd76aa478"
  "MD5_T ! 1 = 0xe8c7b756"
  "MD5_T ! 2 = 0x242070db"
  "MD5_T ! 3 = 0xc1bdceee"
  "MD5_T ! 4 = 0xf57c0faf"
  "MD5_T ! 5 = 0x4787c62a"
  "MD5_T ! 6 = 0xa8304613"
  "MD5_T ! 7 = 0xfd469501"
  "MD5_T ! 8 = 0x698098d8"
  "MD5_T ! 9 = 0x8b44f7af"
  "MD5_T ! 10 = 0xffff5bb1"
  "MD5_T ! 11 = 0x895cd7be"
  "MD5_T ! 12 = 0x6b901122"
  "MD5_T ! 13 = 0xfd987193"
  "MD5_T ! 14 = 0xa679438e"
  "MD5_T ! 15 = 0x49b40821"
  "MD5_T ! 16 = 0xf61e2562"
  "MD5_T ! 17 = 0xc040b340"
  "MD5_T ! 18 = 0x265e5a51"
  "MD5_T ! 19 = 0xe9b6c7aa"
  "MD5_T ! 20 = 0xd62f105d"
  "MD5_T ! 21 = 0x2441453"
  "MD5_T ! 22 = 0xd8a1e681"
  "MD5_T ! 23 = 0xe7d3fbc8"
  "MD5_T ! 24 = 0x21e1cde6"
  "MD5_T ! 25 = 0xc33707d6"
  "MD5_T ! 26 = 0xf4d50d87"
  "MD5_T ! 27 = 0x455a14ed"
  "MD5_T ! 28 = 0xa9e3e905"
  "MD5_T ! 29 = 0xfcefa3f8"
  "MD5_T ! 30 = 0x676f02d9"
  "MD5_T ! 31 = 0x8d2a4c8a"
  "MD5_T ! 32 = 0xfffa3942"
  "MD5_T ! 33 = 0x8771f681"
  "MD5_T ! 34 = 0x6d9d6122"
  "MD5_T ! 35 = 0xfde5380c"
  "MD5_T ! 36 = 0xa4beea44"
  "MD5_T ! 37 = 0x4bdecfa9"
  "MD5_T ! 38 = 0xf6bb4b60"
  "MD5_T ! 39 = 0xbebfbc70"
  "MD5_T ! 40 = 0x289b7ec6"
  "MD5_T ! 41 = 0xeaa127fa"
  "MD5_T ! 42 = 0xd4ef3085"
  "MD5_T ! 43 = 0x4881d05"
  "MD5_T ! 44 = 0xd9d4d039"
  "MD5_T ! 45 = 0xe6db99e5"
  "MD5_T ! 46 = 0x1fa27cf8"
  "MD5_T ! 47 = 0xc4ac5665"
  "MD5_T ! 48 = 0xf4292244"
  "MD5_T ! 49 = 0x432aff97"
  "MD5_T ! 50 = 0xab9423a7"
  "MD5_T ! 51 = 0xfc93a039"
  "MD5_T ! 52 = 0x655b59c3"
  "MD5_T ! 53 = 0x8f0ccc92"
  "MD5_T ! 54 = 0xffeff47d"
  "MD5_T ! 55 = 0x85845dd1"
  "MD5_T ! 56 = 0x6fa87e4f"
  "MD5_T ! 57 = 0xfe2ce6e0"
  "MD5_T ! 58 = 0xa3014314"
  "MD5_T ! 59 = 0x4e0811a1"
  "MD5_T ! 60 = 0xf7537e82"
  "MD5_T ! 61 = 0xbd3af235"
  "MD5_T ! 62 = 0x2ad7d2bb"
  "MD5_T ! 63 = 0xeb86d391"
  by (simp_all add: MD5_T_def)

lemmas shift_defs = S11_def S12_def S13_def S14_def S21_def S22_def S23_def S24_def S31_def S32_def S33_def S34_def S41_def S42_def S43_def S44_def

lemma transform_rounds: "transform_round1 = md5_round1" "transform_round2 = md5_round2"
  "transform_round3 = md5_round3" "transform_round4 = md5_round4"
  subgoal by (intro ext) (simp only: transform_round1_def md5_round1_def FF_ROUND MD5_T_nths shift_defs)
  subgoal by (intro ext) (simp only: transform_round2_def md5_round2_def FF_ROUND MD5_T_nths shift_defs)
  subgoal by (intro ext) (simp only: transform_round3_def md5_round3_def FF_ROUND MD5_T_nths shift_defs)
  subgoal by (intro ext) (simp only: transform_round4_def md5_round4_def FF_ROUND MD5_T_nths shift_defs)
  done

lemma Decode_md5_words: "Decode = md5_words"
  by (simp add: fun_eq_iff Decode_def md5_words_def le_word_def Let_def)

lemma MD5Transform_eq: "MD5Transform = md5_context_hash"
  by (simp add: fun_eq_iff MD5Transform_def md5_context_hash_def transform_rounds Decode_md5_words)

subsection \<open>The count\<close>

lemma of_nat_8: "(of_nat (8 * n) :: 'a::len word) = push_bit 3 (of_nat n)"
  by (simp add: push_bit_eq_mult)

lemma count_index_mod:
  assumes "count0 c = of_nat (8 * n)"
  shows "count_index c = n mod 64"
proof -
  have "drop_bit 3 (push_bit 3 (of_nat n)) AND (0x3F::u32) = take_bit 6 (of_nat n)"
  proof -
    have m: "(0x3F::u32) = mask 6" by (simp add: mask_eq_exp_minus_1)
    show ?thesis unfolding m by (rule bit_word_eqI) (auto simp: bit_simps)
  qed
  then have "count_index c = unat (take_bit 6 (of_nat n) :: u32)"
    by (simp only: count_index_def assms of_nat_8)
  also have "\<dots> = take_bit 6 n"
    by (simp only: unsigned_take_bit_eq unsigned_of_nat take_bit_take_bit) simp
  finally show ?thesis by (simp add: take_bit_eq_mod)
qed

lemma u32_carry: "(a::u32) + b < b \<longleftrightarrow> 2 ^ 32 \<le> unat a + unat b"
proof -
  have ab: "unat a < 2 ^ 32" "unat b < 2 ^ 32"
    using unsigned_less [of a] unsigned_less [of b] by simp_all
  have s: "unat (a + b) = (unat a + unat b) mod 2 ^ 32"
    by (simp add: unat_word_ariths)
  show ?thesis
  proof (cases "unat a + unat b < 2 ^ 32")
    case True
    with s show ?thesis by (simp add: word_less_nat_alt)
  next
    case False
    with s ab have "unat (a + b) = unat a + unat b - 2 ^ 32" by (simp add: le_mod_geq)
    with False ab show ?thesis by (simp add: word_less_nat_alt)
  qed
qed

definition counts :: "MD5_CTX \<Rightarrow> nat \<Rightarrow> bool" where
  "counts c n \<longleftrightarrow> count0 c = of_nat (8 * n) \<and> count1 c = of_nat (8 * n div 2 ^ 32)"

lemma add_count_counts:
  assumes "counts c n" and k: "k < 2 ^ 32"
  shows "counts (add_count c k) (n + k)"
proof -
  let ?M = "2 ^ 32 :: nat"
  have c: "count0 c = of_nat (8 * n)" "count1 c = of_nat (8 * n div ?M)"
    using assms(1) by (simp_all add: counts_def)
  have uk: "unat (of_nat k :: u32) = k" using k by (simp add: unat_of_nat take_bit_nat_eq_self)
  have ck: "(drop_bit 29 (of_nat k) :: u32) = of_nat (8 * k div ?M)"
  proof -
    have "(drop_bit 29 (of_nat k) :: u32) = of_nat (unat (of_nat k :: u32) div 2 ^ 29)"
      by (metis drop_bit_eq_div of_nat_unat ucast_id unsigned_drop_bit_eq unat_drop_bit_eq)
    then show ?thesis by (simp add: uk)
  qed
  have carry: "(of_nat (8 * n) + of_nat (8 * k) < (of_nat (8 * k) :: u32)) \<longleftrightarrow>
      ?M \<le> 8 * n mod ?M + 8 * k mod ?M"
  proof -
    have u: "unat (of_nat x :: u32) = x mod ?M" for x
      by (simp add: unat_of_nat take_bit_eq_mod)
    show ?thesis by (simp only: u32_carry u)
  qed
  have "8 * n mod ?M < ?M" "8 * k mod ?M < ?M" by simp_all
  then have "(8 * n mod ?M + 8 * k mod ?M) div ?M = (if ?M \<le> 8 * n mod ?M + 8 * k mod ?M then 1 else 0)"
    by (simp add: div_nat_eqI)
  then have sum: "8 * (n + k) div ?M = 8 * n div ?M + 8 * k div ?M +
      (if ?M \<le> 8 * n mod ?M + 8 * k mod ?M then 1 else 0)"
    using div_add1_eq [of "8 * n" "8 * k" ?M] by (simp add: distrib_left)
  have "count0 (add_count c k) = of_nat (8 * (n + k))"
    by (simp add: add_count_def Let_def c of_nat_8 distrib_left push_bit_eq_mult)
  moreover have "count1 (add_count c k) = of_nat (8 * n div ?M) +
      (if ?M \<le> 8 * n mod ?M + 8 * k mod ?M then 1 else 0) + of_nat (8 * k div ?M)"
    by (simp only: add_count_def Let_def c carry flip: of_nat_8) (simp add: ck)
  ultimately show ?thesis
    unfolding counts_def sum by (simp split: if_split)
qed

subsection \<open>Updating absorbs\<close>

text \<open>A context that has been fed the message \<open>m\<close>.\<close>

definition fed :: "MD5_CTX \<Rightarrow> byte list \<Rightarrow> bool" where
  "fed c m \<longleftrightarrow> counts c (length m) \<and> length (buffer c) = 64 \<and>
     (case absorb md5_context_hash md5_init_regs m of (h, r) \<Rightarrow>
        state c = h \<and> take (length r) (buffer c) = r)"

lemma transform_loop_absorb:
  "i \<le> length input \<Longrightarrow> transform_loop st input i = (st', i') \<Longrightarrow>
   absorb md5_context_hash st (drop i input) = (st', drop i' input) \<and> i' \<le> length input"
proof (induction st input i rule: transform_loop.induct)
  case (1 st input i)
  show ?case
  proof (cases "i + 63 < length input")
    case True
    then have "\<not> length (drop i input) < 64" by simp
    then have "absorb md5_context_hash st (drop i input) =
        absorb md5_context_hash (md5_context_hash st (take 64 (drop i input))) (drop (i + 64) input)"
      by (subst absorb.simps) (simp add: BLOCK_SIZE_def add.commute del: length_drop)
    with True "1.IH" [OF True] "1.prems"(2) show ?thesis
      by (simp add: transform_loop.simps [of st input i] MD5Transform_eq)
  next
    case False
    with "1.prems" show ?thesis
      by (auto simp: transform_loop.simps [of st input i] absorb_short BLOCK_SIZE_def)
  qed
qed

lemma MD5Update_fed:
  assumes fd: "fed c m" and len: "length p < 2 ^ 32"
  shows "fed (MD5Update c p) (m @ p)"
proof -
  obtain h r where a: "absorb md5_context_hash md5_init_regs m = (h, r)" by (metis surj_pair)
  have lr: "length r = length m mod 64"
    using length_absorb [of md5_context_hash md5_init_regs m] a by (simp add: BLOCK_SIZE_def)
  have f: "counts c (length m)" "length (buffer c) = 64" "state c = h" "take (length r) (buffer c) = r"
    using fd a by (simp_all add: fed_def)
  have ix: "count_index c = length r"
    using count_index_mod f(1) lr by (simp add: counts_def)
  define c1 where "c1 = add_count c (length p)"
  have c1: "counts c1 (length (m @ p))" "buffer c1 = buffer c" "state c1 = h"
    using add_count_counts [OF f(1) len] f(3) by (simp_all add: c1_def add_count_def Let_def)
  have ab: "absorb md5_context_hash md5_init_regs (m @ p) = absorb md5_context_hash h (r @ p)"
    using absorb_append [of md5_context_hash md5_init_regs m p] a by simp
  show ?thesis
  proof (cases "64 - length r \<le> length p")
    case False
    then have "absorb md5_context_hash h (r @ p) = (h, r @ p)"
      by (simp add: absorb_short BLOCK_SIZE_def)
    with False ab c1 f show ?thesis
      by (simp add: fed_def MD5Update_def Let_def ix MD5_memcpy_def counts_def flip: c1_def)
  next
    case True
    define q where "q = 64 - length r"
    define buf where "buf = r @ take q p"
    have lb: "length buf = BLOCK_SIZE" using True lr by (simp add: buf_def q_def BLOCK_SIZE_def)
    have mc: "MD5_memcpy (buffer c) (length r) (take q p) = buf"
      using True f(2,4) lr by (simp add: MD5_memcpy_def buf_def q_def)
    obtain h' i where l: "transform_loop (md5_context_hash h buf) p q = (h', i)" by (metis surj_pair)
    have "r @ p = buf @ drop q p" by (simp add: buf_def)
    with transform_loop_absorb [OF _ l] True
    have ab2: "absorb md5_context_hash h (r @ p) = (h', drop i p)" "i \<le> length p"
      by (simp_all add: absorb_block [OF lb] q_def)
    then have "length (drop i p) < 64"
      using length_absorb_less [of md5_context_hash h "r @ p"] by (simp add: BLOCK_SIZE_def)
    moreover have "MD5Update c p = c1\<lparr>state := h', buffer := MD5_memcpy buf 0 (drop i p)\<rparr>"
      using True l c1 mc by (simp add: MD5Update_def Let_def ix MD5Transform_eq flip: c1_def q_def)
    ultimately show ?thesis
      using ab ab2 c1(1) lb by (simp add: fed_def MD5_memcpy_def counts_def BLOCK_SIZE_def)
  qed
qed

lemma MD5Init_fed: "length mem = 64 \<Longrightarrow> fed (MD5Init mem) []"
  by (simp add: fed_def counts_def MD5Init_def md5_init_regs_def absorb_short BLOCK_SIZE_def)

lemma MD5Updates_fed:
  "fed c m \<Longrightarrow> (\<And>p. p \<in> set ps \<Longrightarrow> length p < 2 ^ 32) \<Longrightarrow> fed (foldl MD5Update c ps) (m @ concat ps)"
proof (induction ps arbitrary: c m)
  case (Cons p ps)
  then show ?case using MD5Update_fed [of c m p] by (simp flip: append_assoc)
qed simp

subsection \<open>The digest\<close>

lemma low8_mask: "low8 (w AND 0xff) = low8 w"
proof -
  have m: "(0xff::u32) = mask 8" by (simp add: mask_eq_exp_minus_1)
  show ?thesis unfolding m by (rule bit_word_eqI) (auto simp: bit_simps)
qed

lemma Encode_low_bytes: "Encode ws = concat (map low_bytes ws)"
  by (induction ws) (simp_all add: Encode_def low_bytes_def low8_mask)

lemma counts_bytes:
  assumes "counts c n"
  shows "Encode [count0 c, count1 c] = le_bytes64 (of_nat (8 * n))"
proof -
  define w :: u64 where "w = of_nat (8 * n)"
  have c0: "count0 c = low32 w"
    using assms unfolding counts_def w_def
    by (auto intro!: bit_word_eqI simp: bit_simps bit_word_of_nat simp del: of_nat_mult)
  have "(of_nat (8 * n div 2 ^ 32) :: u32) = low32 (drop_bit 32 w)"
  proof (rule bit_word_eqI)
    fix i
    assume "i < LENGTH(32)"
    moreover have "8 * n div 2 ^ 32 = drop_bit 32 (8 * n)" by (simp add: drop_bit_eq_div)
    ultimately show "bit (of_nat (8 * n div 2 ^ 32) :: u32) i \<longleftrightarrow> bit (low32 (drop_bit 32 w)) i"
      by (simp add: w_def bit_word_of_nat bit_drop_bit_eq bit_ucast_iff del: of_nat_mult)
  qed
  then have c1: "count1 c = low32 (drop_bit 32 w)"
    using assms by (simp add: counts_def)
  have "[0..<8] = [0, 1, 2, 3, 4, 5, 6, 7::nat]" by (simp add: upt_rec)
  then show ?thesis
    unfolding Encode_low_bytes c0 c1 w_def [symmetric] le_bytes64_def low_bytes_def
    by (auto intro!: bit_word_eqI simp: bit_simps)
qed

lemma padLen_zeros:
  "(if n mod 64 < 56 then 56 - n mod 64 else 120 - n mod 64) = Suc (pad_zeros (Suc n))"
proof -
  define r where "r = n mod 64"
  have r: "r < 64" by (simp add: r_def)
  have pz: "pad_zeros (Suc n) = (if r = 63 then 56 else (119 - r) mod 64)"
    by (simp add: pad_zeros_def BLOCK_SIZE_def mod_Suc r_def)
  consider "r = 63" | "r < 56" | "56 \<le> r" "r < 63" using r by linarith
  then show ?thesis
  proof cases
    case 2
    then have "119 - r = (55 - r) + 64" by simp
    then have "(119 - r) mod 64 = 55 - r" by (simp only: mod_add_self2) simp
    with 2 pz show ?thesis by (simp flip: r_def)
  qed (use pz in \<open>simp_all flip: r_def\<close>)
qed

lemma MD5Final_fed:
  assumes "fed c m"
  shows "fst (MD5Final c) = rfc1321 m"
proof -
  let ?n = "length m"
  define padLen where "padLen = (if count_index c < 56 then 56 - count_index c else 120 - count_index c)"
  define c1 where "c1 = MD5Update c (take padLen PADDING)"
  define c2 where "c2 = MD5Update c1 (Encode [count0 c, count1 c])"
  have cn: "counts c ?n" using assms by (simp add: fed_def)
  then have ix: "count_index c = ?n mod 64" by (simp add: counts_def count_index_mod)
  have pl: "padLen = Suc (pad_zeros (Suc ?n))"
    unfolding padLen_def ix by (rule padLen_zeros)
  have pz: "pad_zeros (Suc ?n) < 64" by (simp add: pad_zeros_def BLOCK_SIZE_def)
  then have pad: "take padLen PADDING = 0x80 # replicate (pad_zeros (Suc ?n)) 0"
    unfolding pl by (simp add: PADDING_def)
  have "fed c1 (m @ 0x80 # replicate (pad_zeros (Suc ?n)) 0)"
    using MD5Update_fed [OF assms, of "take padLen PADDING"] pz
    unfolding c1_def pad by simp
  from MD5Update_fed [OF this, of "Encode [count0 c, count1 c]"]
  have "fed c2 (padded m (le_bytes64 (of_nat (8 * ?n))))"
    by (simp add: c2_def counts_bytes [OF cn] padded_def le_bytes64_def)
  moreover have "fst (MD5Final c) = low_bytes (regA (state c2)) @ low_bytes (regB (state c2)) @
      low_bytes (regC (state c2)) @ low_bytes (regD (state c2))"
    by (simp add: MD5Final_def Let_def Encode_low_bytes flip: padLen_def) 
      (simp add: c2_def c1_def Encode_low_bytes)
  ultimately show ?thesis
    by (simp add: rfc1321_def fed_def md5_context_digest_def context_of_def md5_context_hash_rfc
        split: prod.splits)
qed

lemma mddriver_md5_digest_rfc:
  "length mem = 64 \<Longrightarrow> length s < 2 ^ 32 \<Longrightarrow> mddriver_md5_digest mem s = rfc1321 s"
  using MD5Final_fed [OF MD5Update_fed [OF MD5Init_fed]]
  by (simp add: mddriver_md5_digest_def Let_def)

subsection \<open>Printing the digest\<close>

lemma hex_16_nibbles:
  "length (hex_16 d) = 2 * length d \<and> set (hex_16 d) \<subseteq> set hexdigits"
proof (induction d)
  case Nil
  show ?case by simp
next
  case (Cons c d)
  have "unat (drop_bit 4 c) < 16" "unat (c AND 0x0F) < 16"
    by (rule unat_lt_16, auto simp: byte_bits)+
  moreover have "length hexdigits = 16" by (simp add: hexdigits_def)
  ultimately show ?case using Cons by (auto simp: nth_mem)
qed

lemma sextet_masks: "drop_bit 4 (c AND 0xF0) = drop_bit 4 (c::byte)" "drop_bit 6 (c AND 0xC0) = drop_bit 6 (c::byte)"
proof -
  have m: "(0xF0::byte) = push_bit 4 (mask 4)" "(0xC0::byte) = push_bit 6 (mask 2)"
    by (simp_all add: mask_eq_exp_minus_1 push_bit_eq_mult)
  show "drop_bit 4 (c AND 0xF0) = drop_bit 4 (c::byte)" "drop_bit 6 (c AND 0xC0) = drop_bit 6 (c::byte)"
    unfolding m by (rule bit_word_eqI, auto simp: bit_simps dest: bit_imp_le_length)+
qed

text \<open>\<open>base64_16\<close> is the base64 of the mail code without its padding.\<close>

lemma base64_16_quads:
  "length d mod 3 = 1 \<Longrightarrow> base64_quads d = base64_16 d @ asc ''==''"
proof (induction d rule: base64_16.induct)
  case (1 c1)
  show ?case by (simp add: base64_quads_shapes sextet_defs del: base64_quads.simps)
next
  case (2 c1 c2 c3 rst)
  then have "base64_quads rst = base64_16 rst @ asc ''==''" by (simp add: mod_Suc split: if_splits)
  moreover have "base64_quads (c1 # c2 # c3 # rst) =
      base64tab ! unat (sextet1 c1) # base64tab ! unat (sextet2 c1 c2) #
      base64tab ! unat (sextet3 c2 c3) # base64tab ! unat (sextet4 c3) # base64_quads rst"
    by (rule base64_quads_shapes)
  ultimately show ?case by (simp only: sextet_defs sextet_masks base64_16.simps append_Cons)
qed simp_all

subsection \<open>Properties\<close>

text \<open>
  C36. The two MD5 implementations agree: RSA's context, fed any pieces, and the streaming code
  of \<open>wmail/md5\<close> on the whole message give the same digest.
\<close>

theorem md5c_equals_md5:
  assumes "length mem = 64" and "length (concat ps) < 2 ^ 32 - 63"
  shows "fst (MD5Final (foldl MD5Update (MD5Init mem) ps)) = md5_digest (concat ps)"
proof -
  have "length p < 2 ^ 32" if "p \<in> set ps" for p
    using that assms(2) by (induction ps) auto
  from MD5Final_fed [OF MD5Updates_fed [OF MD5Init_fed [OF assms(1)] this]] assms(2)
  show ?thesis by (simp add: md5_digest_rfc)
qed

theorem md5c_equals_md5_witness:
  "fst (MD5Final (foldl MD5Update (MD5Init (replicate 64 7)) [[1, 2], [], [3]])) = md5_digest [1, 2, 3]"
  using md5c_equals_md5 [of "replicate 64 7" "[[1, 2], [], [3]]"] by simp

text \<open>
  \<open>md5_hex\<close> writes 32 lowercase hexadecimal digits, \<open>md5_base64\<close> the base64 text of the
  digest that the mail code writes, less its padding; both are of the RFC 1321 digest.
\<close>

theorem md5_text_forms:
  assumes "length mem = 64" and "length s < 2 ^ 32 - 63"
  shows "md5_hex mem s = hex_16 (rfc1321 s) \<and> length (md5_hex mem s) = 32 \<and>
    set (md5_hex mem s) \<subseteq> set hexdigits \<and> md5_base64 mem s @ asc ''=='' = base64_quads (rfc1321 s)"
proof -
  have d: "mddriver_md5_digest mem s = rfc1321 s" using assms by (simp add: mddriver_md5_digest_rfc)
  have "length (rfc1321 s) = 16" by (simp add: rfc1321_def)
  then show ?thesis
    using hex_16_nibbles [of "rfc1321 s"] base64_16_quads [of "rfc1321 s"]
    by (simp add: md5_hex_def md5_base64_def d)
qed

theorem md5_text_forms_witness:
  "md5_hex (replicate 64 0) (asc ''00:0C'') = hex_16 (rfc1321 (asc ''00:0C'')) \<and>
   length (md5_hex (replicate 64 0) (asc ''00:0C'')) = 32 \<and>
   set (md5_hex (replicate 64 0) (asc ''00:0C'')) \<subseteq> set hexdigits \<and>
   md5_base64 (replicate 64 0) (asc ''00:0C'') @ asc ''=='' = base64_quads (rfc1321 (asc ''00:0C''))"
  by (rule md5_text_forms) simp_all

end
