(* ===== verification/License.thy ===== *)
theory License imports Md5c "HOL-Library.Monad_Syntax" begin

text \<open>
  The licence check, \<open>License/license.c\<close>, and the generator of licences, \<open>License/MakeLicense.pl\<close>.
  A licence file is text; its line \<open>ProductLicense\<close> is a hash of the machine's serial numbers, its
  line \<open>ProductLicenseExt\<close>, where reading ends, a hash of the text before it.

  The hardware, the file and what uninitialised arrays hold are arguments. \<open>None\<close> is a run whose
  behaviour C does not define: a write outside an array, or a copy from a null pointer.
\<close>

subsection \<open>Serial numbers\<close>

text \<open>An interface with its name and, when it can be asked for, its hardware address.\<close>

record nic =
  ifr_name :: "byte list"
  ifr_hwaddr :: "byte list option"

text \<open>The interfaces and the serial number of the disk; \<open>None\<close> is a failing call.\<close>

record hardware =
  interfaces :: "nic list option"
  serial_no :: "byte list option"

definition sprintf_02x :: "byte \<Rightarrow> byte list" where
  "sprintf_02x c = [hexdigits ! unat (drop_bit 4 c), hexdigits ! unat (c AND 15)]"

text \<open>The loop goes over the interfaces from the last one, for two of them at most.\<close>

fun mac_loop :: "nic list \<Rightarrow> nat \<Rightarrow> byte list \<Rightarrow> byte list" where
  "mac_loop [] count result = result"
| "mac_loop (b # bs) count result =
     (if count < 2
      then mac_loop bs (count + 1)
        (if ifr_name b = asc ''lo'' then result
         else case ifr_hwaddr b of
           None \<Rightarrow> result
         | Some a \<Rightarrow> result @ take 12 (concat (map (\<lambda>i. sprintf_02x (at a i)) [0..<6])))
      else result)"

definition get_mac_serial :: "hardware \<Rightarrow> byte list" where
  "get_mac_serial hw = (case interfaces hw of None \<Rightarrow> [] | Some buf \<Rightarrow> mac_loop (rev (take 16 buf)) 0 [])"

definition sealcode :: "byte list" where
  "sealcode = asc ''IENCOASI2304KJASDIWE234984ALSKDWMZXOIUDWD''"

text \<open>What \<open>result\<close> holds afterwards: an error leaves it and its message is returned elsewhere.\<close>

definition get_hd_serial :: "hardware \<Rightarrow> byte list \<Rightarrow> byte list" where
  "get_hd_serial hw result =
     (case serial_no hw of
        None \<Rightarrow> result
      | Some s \<Rightarrow> concat (map (\<lambda>i. if at s i \<noteq> 0 then sprintf_02x (at s i) else sprintf_02x (at sealcode i)) [0..<20]))"

definition get_prodno :: "byte list \<Rightarrow> hardware \<Rightarrow> byte list" where
  "get_prodno mem hw =
     (let result = get_mac_serial hw;
          serial_orig = take 24 result;
          result = get_hd_serial hw result
      in md5_hex mem (serial_orig @ take 40 result))"

subsection \<open>Hashes\<close>

definition get_license_ex :: "byte list \<Rightarrow> byte list \<Rightarrow> byte list option" where
  "get_license_ex mem license_dat =
     (let license_ex_orig = asc ''zixia'' @ license_dat @ asc ''K12'' @ license_dat @ asc ''wMail''
      in if 40960 \<le> length license_ex_orig then None else Some (md5_base64 mem license_ex_orig))"

definition get_license :: "byte list \<Rightarrow> byte list \<Rightarrow> byte list option" where
  "get_license mem prodno =
     (let license_orig = asc ''zixia'' @ prodno @ asc ''K12'' @ prodno @ asc ''wMail''
      in if 1024 \<le> length license_orig then None else Some (md5_hex mem license_orig))"

definition check_license_match :: "byte list \<Rightarrow> hardware \<Rightarrow> byte list \<Rightarrow> int option" where
  "check_license_match mem hw license =
     (case get_license mem (get_prodno mem hw) of
        None \<Rightarrow> None
      | Some right_license \<Rightarrow> Some (if strcmp right_license license = 0 then 0 else -1))"

definition check_license_ex_match :: "byte list \<Rightarrow> byte list \<Rightarrow> byte list \<Rightarrow> int option" where
  "check_license_ex_match mem license_file license_ex =
     (case get_license_ex mem license_file of
        None \<Rightarrow> None
      | Some right_license_ex \<Rightarrow> Some (if strcmp right_license_ex license_ex = 0 then 0 else -1))"

subsection \<open>Reading the file\<close>

text \<open>One call of \<open>fgets (buf, n, fp)\<close>: at most \<open>n - 1\<close> bytes, up to the end of a line.\<close>

definition fgets :: "nat \<Rightarrow> byte list \<Rightarrow> byte list \<times> byte list" where
  "fgets n s =
     (let l = length (takeWhile (\<lambda>c. c \<noteq> NL) s) + 1; l = min l (n - 1) in (take l s, drop l s))"

text \<open>One call of \<open>strtok\<close> with one separator: the token, if any, and what is left.\<close>

definition strtok_sep :: "byte list \<Rightarrow> byte \<Rightarrow> byte list option \<times> byte list" where
  "strtok_sep s d =
     (let s = dropWhile (\<lambda>c. c = d) s
      in if s = [] then (None, [])
         else (Some (takeWhile (\<lambda>c. c \<noteq> d) s), drop 1 (dropWhile (\<lambda>c. c \<noteq> d) s)))"

definition EQ :: byte where "EQ = ch CHR ''=''"

record license_state =
  license_file :: "byte list"
  ProductLicense :: "byte list"
  ProductLicenseExt :: "byte list"

text \<open>What the loop does with a line: undefined, go on, or the \<open>break\<close>.\<close>

datatype line_result = Undefined | Continue license_state | Break license_state

definition read_line :: "byte list \<Rightarrow> license_state \<Rightarrow> line_result" where
  "read_line buf st =
     (case strtok_sep buf EQ of (key, rest) \<Rightarrow>
      case strtok_sep rest EQ of (val, _) \<Rightarrow>
        if key = Some (asc ''ProductLicenseExt'')
        then (case val of
                None \<Rightarrow> Undefined
              | Some v \<Rightarrow> if 128 \<le> length v then Undefined else Break (st\<lparr>ProductLicenseExt := v\<rparr>))
        else if 32768 \<le> length (license_file st @ buf) then Undefined
        else let st = st\<lparr>license_file := license_file st @ buf\<rparr> in
          case (key, val) of
            (Some k, Some v) \<Rightarrow>
              if k = asc ''ProductLicense''
              then if 128 \<le> length v then Undefined else Continue (st\<lparr>ProductLicense := v\<rparr>)
              else Continue st
          | _ \<Rightarrow> Continue st)"

function read_license :: "byte list \<Rightarrow> license_state \<Rightarrow> license_state option" where
  "read_license s st =
     (if s = [] then Some st
      else case fgets 4096 s of (buf, s) \<Rightarrow>
        case read_line (cstr buf) st of
          Undefined \<Rightarrow> None
        | Break st \<Rightarrow> Some st
        | Continue st \<Rightarrow> read_license s st)"
  by pat_completeness auto
termination
  by (relation "measure (\<lambda>(s, st). length s)") (auto simp: fgets_def Let_def)

declare read_license.simps [simp del]

text \<open>Cutting off the last character; on an empty string the write is in front of the array.\<close>

definition chop :: "byte list \<Rightarrow> byte list option" where
  "chop s = (if s = [] then None else Some (butlast s))"

text \<open>
  \<open>content\<close> is the file's, if it can be opened; \<open>st\<close> is what the three arrays hold as strings when
  the function starts.
\<close>

definition check_license_file :: "byte list \<Rightarrow> hardware \<Rightarrow> license_state \<Rightarrow> byte list option \<Rightarrow> int option" where
  "check_license_file mem hw st content =
     (case content of
        None \<Rightarrow> Some (-1)
      | Some s \<Rightarrow> do {
          st \<leftarrow> read_license s st;
          license \<leftarrow> chop (ProductLicense st);
          license_ex \<leftarrow> chop (ProductLicenseExt st);
          file \<leftarrow> chop (license_file st);
          r \<leftarrow> check_license_match mem hw license;
          if r = -1 then Some (-1)
          else do {
            r \<leftarrow> check_license_ex_match mem file license_ex;
            if r = -1 then Some (-1) else Some 0
          }
        })"

subsection \<open>Generating a licence\<close>

text \<open>The two functions of Perl's \<open>Digest::MD5\<close> are arguments.\<close>

definition get_valid_license :: "(byte list \<Rightarrow> byte list) \<Rightarrow> byte list \<Rightarrow> byte list" where
  "get_valid_license perl_md5_hex prod_no = perl_md5_hex (asc ''zixia'' @ prod_no @ asc ''K12'' @ prod_no @ asc ''wMail'')"

definition get_checksum :: "(byte list \<Rightarrow> byte list) \<Rightarrow> byte list \<Rightarrow> byte list" where
  "get_checksum perl_md5_base64 license_dat =
     perl_md5_base64 (asc ''zixia'' @ license_dat @ asc ''K12'' @ license_dat @ asc ''wMail'')"

definition make_license :: "(byte list \<Rightarrow> byte list) \<Rightarrow> (byte list \<Rightarrow> byte list) \<Rightarrow> byte list \<Rightarrow> byte list \<Rightarrow> byte list" where
  "make_license perl_md5_hex perl_md5_base64 license_orig prodno =
     (let license_ret = license_orig @ [NL] @ asc ''ProductLicense='' @ get_valid_license perl_md5_hex prodno
      in license_ret @ [NL] @ asc ''ProductLicenseExt='' @ get_checksum perl_md5_base64 license_ret)"

text \<open>The text the generator starts with, and its output.\<close>

definition MakeLicense :: "(byte list \<Rightarrow> byte list) \<Rightarrow> (byte list \<Rightarrow> byte list) \<Rightarrow> byte list \<Rightarrow> byte list \<Rightarrow> byte list" where
  "MakeLicense perl_md5_hex perl_md5_base64 now prodno =
     make_license perl_md5_hex perl_md5_base64
       (asc ''ForSell=No'' @ [NL] @ asc ''GenerateDate='' @ now @ [NL, NL] @ asc ''FactoryName=K12'' @ [NL] @
        asc ''ProductName=WebMail'' @ [NL] @ asc ''ProductSN='' @ prodno @ [NL, NL]) prodno @ [NL]"

subsection \<open>Reading a line\<close>

lemma fgets_line:
  assumes "NL \<notin> set l" "length l < 4095"
  shows "fgets 4096 (l @ NL # s) = (l @ [NL], s)"
proof -
  have "takeWhile (\<lambda>c. c \<noteq> NL) (l @ NL # s) = l" using assms(1) by (simp add: takeWhile_append del: NL_def)
  then show ?thesis using assms(2) by (simp add: fgets_def Let_def)
qed

text \<open>A line with a key that the loop does not look for.\<close>

definition other_line :: "byte list \<Rightarrow> bool" where
  "other_line l \<longleftrightarrow> NL \<notin> set l \<and> 0 \<notin> set l \<and> length l < 4095 \<and>
     fst (strtok_sep (l @ [NL]) EQ) \<notin> {Some (asc ''ProductLicense''), Some (asc ''ProductLicenseExt'')}"

definition unlines :: "byte list list \<Rightarrow> byte list" where
  "unlines ls = concat (map (\<lambda>l. l @ [NL]) ls)"

lemma read_license_line:
  assumes "NL \<notin> set l" "0 \<notin> set l" "length l < 4095"
  shows "read_license (l @ NL # s) st =
    (case read_line (l @ [NL]) st of Undefined \<Rightarrow> None | Break st \<Rightarrow> Some st | Continue st \<Rightarrow> read_license s st)"
proof -
  have "cstr (l @ [NL]) = l @ [NL]" by (rule cstr_id) (use assms(2) in auto)
  then show ?thesis
    by (subst read_license.simps) (simp only: fgets_line [OF assms(1,3)] split_beta fst_conv snd_conv append_is_Nil_conv list.distinct if_False simp_thms)
qed

lemma read_other_line:
  assumes "other_line l" "length (license_file st) + length l + 1 < 32768"
  shows "read_line (l @ [NL]) st = Continue (st\<lparr>license_file := license_file st @ l @ [NL]\<rparr>)"
proof -
  obtain k r where "strtok_sep (l @ [NL]) EQ = (k, r)" by fastforce
  then show ?thesis
    using assms by (auto simp: read_line_def other_line_def Let_def split: prod.splits option.splits)
qed

lemma read_other_lines:
  "\<forall>l\<in>set ls. other_line l \<Longrightarrow> length (license_file st) + length (unlines ls) < 32768 \<Longrightarrow>
    read_license (unlines ls @ s) st = read_license s (st\<lparr>license_file := license_file st @ unlines ls\<rparr>)"
proof (induction ls arbitrary: st)
  case Nil
  then show ?case by (simp add: unlines_def)
next
  case (Cons l ls)
  have l: "other_line l" "length (license_file st) + length l + 1 < 32768"
    using Cons(2,3) by (auto simp: unlines_def)
  have "read_license (l @ NL # unlines ls @ s) st =
      read_license (unlines ls @ s) (st\<lparr>license_file := license_file st @ l @ [NL]\<rparr>)"
    using l(1) read_other_line [OF l] by (subst read_license_line) (auto simp: other_line_def)
  also have "\<dots> = read_license s (st\<lparr>license_file := license_file st @ l @ NL # unlines ls\<rparr>)"
    using Cons by (subst Cons(1)) (auto simp: unlines_def)
  finally show ?case by (simp add: unlines_def)
qed

text \<open>A line of one of the two keys.\<close>

lemma strtok_key:
  assumes "EQ \<notin> set k" "k \<noteq> []"
  shows "strtok_sep (k @ EQ # r) EQ = (Some k, r)"
proof -
  have "dropWhile (\<lambda>c. c = EQ) (k @ EQ # r) = k @ EQ # r" using assms by (cases k) auto
  then show ?thesis using assms(1) by (simp add: strtok_sep_def takeWhile_append dropWhile_append)
qed

lemma strtok_value:
  assumes "EQ \<notin> set v"
  shows "strtok_sep (v @ [NL]) EQ = (Some (v @ [NL]), [])"
proof -
  have NL: "NL \<noteq> EQ" by (simp add: EQ_def)
  have "dropWhile (\<lambda>c. c = EQ) (v @ [NL]) = v @ [NL]"
    using assms NL by (cases v) (auto simp del: NL_def)
  moreover have "takeWhile (\<lambda>c. c \<noteq> EQ) (v @ [NL]) = v @ [NL]" "dropWhile (\<lambda>c. c \<noteq> EQ) (v @ [NL]) = []"
    using assms NL by (auto simp: takeWhile_append dropWhile_append simp del: NL_def)
  ultimately show ?thesis by (simp add: strtok_sep_def del: NL_def takeWhile_eq_all_conv)
qed

definition value_ok :: "byte list \<Rightarrow> bool" where
  "value_ok v \<longleftrightarrow> EQ \<notin> set v \<and> NL \<notin> set v \<and> 0 \<notin> set v \<and> length v < 127"

lemma key_chars:
  "EQ \<notin> set (asc ''ProductLicense'')" "NL \<notin> set (asc ''ProductLicense'')" "0 \<notin> set (asc ''ProductLicense'')"
  "EQ \<notin> set (asc ''ProductLicenseExt'')" "NL \<notin> set (asc ''ProductLicenseExt'')" "0 \<notin> set (asc ''ProductLicenseExt'')"
  "asc ''ProductLicense'' \<noteq> []" "asc ''ProductLicenseExt'' \<noteq> []"
  by (simp_all add: EQ_def)

lemma key_line:
  assumes "EQ \<notin> set k" "k \<noteq> []" "value_ok v"
  shows "strtok_sep ((k @ EQ # v) @ [NL]) EQ = (Some k, v @ [NL])" "strtok_sep (v @ [NL]) EQ = (Some (v @ [NL]), [])"
  using strtok_key [OF assms(1,2), of "v @ [NL]"] strtok_value [of v] assms(3) by (simp_all add: value_ok_def)

lemma read_license_key:
  assumes "value_ok v" "length (license_file st) + length v + 16 < 32768"
  shows "read_license (asc ''ProductLicense'' @ EQ # v @ NL # s) st =
    read_license s (st\<lparr>license_file := license_file st @ asc ''ProductLicense'' @ EQ # v @ [NL], ProductLicense := v @ [NL]\<rparr>)"
proof -
  let ?l = "asc ''ProductLicense'' @ EQ # v"
  have "read_line (?l @ [NL]) st =
      Continue (st\<lparr>license_file := license_file st @ ?l @ [NL], ProductLicense := v @ [NL]\<rparr>)"
    unfolding read_line_def key_line [OF key_chars(1,7) assms(1)] prod.case
    using assms by (simp add: value_ok_def Let_def)
  moreover have "NL \<notin> set ?l" "0 \<notin> set ?l" "length ?l < 4095"
    using assms(1) by (auto simp: value_ok_def EQ_def)
  ultimately show ?thesis using read_license_line [of ?l s st] by simp
qed

lemma read_license_ext:
  assumes "value_ok v"
  shows "read_license (asc ''ProductLicenseExt'' @ EQ # v @ NL # s) st = Some (st\<lparr>ProductLicenseExt := v @ [NL]\<rparr>)"
proof -
  let ?l = "asc ''ProductLicenseExt'' @ EQ # v"
  have "read_line (?l @ [NL]) st = Break (st\<lparr>ProductLicenseExt := v @ [NL]\<rparr>)"
    unfolding read_line_def key_line [OF key_chars(4,8) assms(1)] prod.case
    using assms by (simp add: value_ok_def Let_def)
  moreover have "NL \<notin> set ?l" "0 \<notin> set ?l" "length ?l < 4095"
    using assms(1) by (auto simp: value_ok_def EQ_def)
  ultimately show ?thesis using read_license_line [of ?l s st] by simp
qed

subsection \<open>The check\<close>

lemma md5_hex_length: "length mem = 64 \<Longrightarrow> length s < 2 ^ 32 - 63 \<Longrightarrow> length (md5_hex mem s) = 32"
  using hex_16_nibbles [of "rfc1321 s"] by (simp add: md5_hex_def mddriver_md5_digest_rfc rfc1321_def)

lemma get_prodno_length: "length mem = 64 \<Longrightarrow> length (get_prodno mem hw) = 32"
  unfolding get_prodno_def Let_def by (rule md5_hex_length) auto

lemma get_license_defined:
  "length mem = 64 \<Longrightarrow> get_license mem (get_prodno mem hw) =
    Some (md5_hex mem (asc ''zixia'' @ get_prodno mem hw @ asc ''K12'' @ get_prodno mem hw @ asc ''wMail''))"
  by (simp add: get_license_def get_prodno_length Let_def)

text \<open>A licence file: its text up to the last key, and what follows.\<close>

definition license_text :: "byte list list \<Rightarrow> byte list \<Rightarrow> byte list list \<Rightarrow> byte list" where
  "license_text pre lic post = unlines pre @ asc ''ProductLicense'' @ EQ # lic @ NL # unlines post"

definition ext_line :: "byte list \<Rightarrow> byte list" where
  "ext_line ext = asc ''ProductLicenseExt'' @ EQ # ext @ [NL]"

lemma read_license_file:
  assumes "\<forall>l\<in>set pre \<union> set post. other_line l" "value_ok lic" "value_ok ext"
    "length (license_file st) + length (license_text pre lic post) < 32768"
  shows "read_license (license_text pre lic post @ ext_line ext @ s) st =
    Some (st\<lparr>license_file := license_file st @ license_text pre lic post, ProductLicense := lic @ [NL],
      ProductLicenseExt := ext @ [NL]\<rparr>)"
proof -
  let ?st1 = "st\<lparr>license_file := license_file st @ unlines pre\<rparr>"
  let ?st2 = "?st1\<lparr>license_file := license_file ?st1 @ asc ''ProductLicense'' @ EQ # lic @ [NL], ProductLicense := lic @ [NL]\<rparr>"
  have len: "length (license_file st) + length (unlines pre) + 16 + length lic + length (unlines post) < 32768"
    using assms(4) by (simp add: license_text_def)
  have "read_license (license_text pre lic post @ ext_line ext @ s) st =
      read_license (asc ''ProductLicense'' @ EQ # lic @ NL # (unlines post @ ext_line ext @ s)) ?st1"
    unfolding license_text_def append_assoc append_Cons
    by (rule read_other_lines) (use assms(1) len in auto)
  also have "\<dots> = read_license (unlines post @ ext_line ext @ s) ?st2"
    by (rule read_license_key) (use assms(2) len in auto)
  also have "\<dots> = read_license (ext_line ext @ s) (?st2\<lparr>license_file := license_file ?st2 @ unlines post\<rparr>)"
    by (rule read_other_lines) (use assms(1) len in \<open>auto simp: unlines_def\<close>)
  also have "\<dots> = Some (?st2\<lparr>license_file := license_file ?st2 @ unlines post, ProductLicenseExt := ext @ [NL]\<rparr>)"
    using read_license_ext [OF assms(3), of s] by (simp add: ext_line_def)
  finally show ?thesis by (simp add: license_text_def)
qed

lemma chop_line: "chop (v @ [c]) = Some v"
  by (simp add: chop_def)

lemma license_text_chop: "chop (g @ license_text pre lic post) = Some (butlast (g @ license_text pre lic post))"
  by (simp add: chop_def license_text_def)

lemma check_license_eq:
  assumes "length mem = 64" "\<forall>l\<in>set pre \<union> set post. other_line l" "value_ok lic" "value_ok ext"
    "length (license_file st) + length (license_text pre lic post) < 20000"
  shows "check_license_file mem hw st (Some (license_text pre lic post @ ext_line ext @ s)) =
    Some (if get_license mem (get_prodno mem hw) = Some lic \<and>
             get_license_ex mem (butlast (license_file st @ license_text pre lic post)) = Some ext then 0 else -1)"
proof -
  have r: "read_license (license_text pre lic post @ ext_line ext @ s) st =
    Some (st\<lparr>license_file := license_file st @ license_text pre lic post, ProductLicense := lic @ [NL],
      ProductLicenseExt := ext @ [NL]\<rparr>)"
    by (rule read_license_file) (use assms in auto)
  have ex: "get_license_ex mem (butlast (license_file st @ license_text pre lic post)) \<noteq> None"
    using assms(5) by (auto simp: get_license_ex_def Let_def)
  then obtain x where x: "get_license_ex mem (butlast (license_file st @ license_text pre lic post)) = Some x" by blast
  obtain l where l: "get_license mem (get_prodno mem hw) = Some l" using get_license_defined [OF assms(1)] by blast
  show ?thesis
    by (simp add: check_license_file_def r chop_line license_text_chop check_license_match_def check_license_ex_match_def x l
        del: append_assoc)
qed

text \<open>
  C6. A licence file is accepted exactly if its \<open>ProductLicense\<close> is the hash of the machine's product
  number and its \<open>ProductLicenseExt\<close> is the hash of everything before that line; otherwise the result
  is -1, and no array is overrun while the text has less than 20000 bytes. Lines with other keys
  may stand anywhere, and what follows the last key is not read. The text that is hashed begins
  with whatever the array held before, which nothing clears.
\<close>

theorem check_license_exact:
  assumes "length mem = 64" "\<forall>l\<in>set pre \<union> set post. other_line l" "value_ok lic" "value_ok ext"
    "length (license_file st) + length (license_text pre lic post) < 20000"
  shows "check_license_file mem hw st (Some (license_text pre lic post @ ext_line ext @ s)) =
    Some (if get_license mem (get_prodno mem hw) = Some lic \<and>
             get_license_ex mem (butlast (license_file st @ license_text pre lic post)) = Some ext then 0 else -1)"
  using assms by (rule check_license_eq)

definition no_state :: license_state where
  "no_state = \<lparr>license_file = [], ProductLicense = [], ProductLicenseExt = []\<rparr>"

definition some_hardware :: hardware where
  "some_hardware = \<lparr>interfaces = Some [\<lparr>ifr_name = asc ''lo'', ifr_hwaddr = None\<rparr>,
     \<lparr>ifr_name = asc ''eth0'', ifr_hwaddr = Some [0, 12, 41, 170, 187, 204]\<rparr>], serial_no = None\<rparr>"

theorem check_license_exact_witness:
  "check_license_file (replicate 64 0) some_hardware no_state
     (Some (license_text [asc ''ForSell=No''] (asc ''abc'') [] @ ext_line (asc ''def''))) = Some (-1)"
proof -
  have "other_line (asc ''ForSell=No'')" by code_simp
  moreover have "value_ok (asc ''abc'')" "value_ok (asc ''def'')" by code_simp+
  moreover have "length (license_file no_state) + length (license_text [asc ''ForSell=No''] (asc ''abc'') []) < 20000"
    by code_simp
  moreover have "get_license (replicate 64 0) (get_prodno (replicate 64 0) some_hardware) \<noteq> Some (asc ''abc'')"
  proof
    assume "get_license (replicate 64 0) (get_prodno (replicate 64 0) some_hardware) = Some (asc ''abc'')"
    then have "length (md5_hex (replicate 64 0) (asc ''zixia'' @ get_prodno (replicate 64 0) some_hardware @ asc ''K12'' @
        get_prodno (replicate 64 0) some_hardware @ asc ''wMail'')) = 3"
      using get_license_defined [of "replicate 64 0" some_hardware] by simp
    moreover have "length (md5_hex (replicate 64 0) (asc ''zixia'' @ get_prodno (replicate 64 0) some_hardware @ asc ''K12'' @
        get_prodno (replicate 64 0) some_hardware @ asc ''wMail'')) = 32"
      by (rule md5_hex_length) (simp_all add: get_prodno_length)
    ultimately show False by simp
  qed
  ultimately show ?thesis
    using check_license_exact [of "replicate 64 0" "[asc ''ForSell=No'']" "[]" "asc ''abc''" "asc ''def''" no_state some_hardware "[]"]
    by simp
qed

subsection \<open>Licences that are generated\<close>

lemma base64_16_tab: "set (base64_16 d) \<subseteq> set base64tab"
proof (induction d rule: base64_16.induct)
  case (1 c)
  have "unat (drop_bit 2 c) < 64" "unat (push_bit 4 (c AND 0x3)) < 64"
    by (rule unat_lt_64; auto simp: byte_bits)+
  then show ?case by (simp add: nth_mem)
next
  case (2 a b c d)
  have "unat (drop_bit 2 a) < 64" "unat (push_bit 4 (a AND 0x3) OR drop_bit 4 (b AND 0xF0)) < 64"
    "unat (push_bit 2 (b AND 0xF) OR drop_bit 6 (c AND 0xC0)) < 64" "unat (c AND 0x3F) < 64"
    by (rule unat_lt_64; auto simp: byte_bits)+
  with 2 show ?case by (simp add: nth_mem)
qed simp_all

lemma base64_16_length: "length (base64_16 d) \<le> 2 * length d"
  by (induction d rule: base64_16.induct) auto

lemma hex_value_ok: "length d = 16 \<Longrightarrow> value_ok (hex_16 d)"
proof -
  have "EQ \<notin> set hexdigits \<and> NL \<notin> set hexdigits \<and> 0 \<notin> set hexdigits" by code_simp
  then show "length d = 16 \<Longrightarrow> ?thesis" using hex_16_nibbles [of d] by (auto simp: value_ok_def)
qed

lemma base64_value_ok: "length d = 16 \<Longrightarrow> value_ok (base64_16 d)"
  using base64_16_tab [of d] base64_16_length [of d] base64tab_neq by (auto simp: value_ok_def EQ_def)

text \<open>
  What the generator relies on: Perl's \<open>md5_hex\<close> is the digest of RFC 1321 in hexadecimal,
  \<open>md5_base64\<close> its base64 form without the padding.
\<close>

definition perl_digests :: "(byte list \<Rightarrow> byte list) \<Rightarrow> (byte list \<Rightarrow> byte list) \<Rightarrow> bool" where
  "perl_digests perl_md5_hex perl_md5_base64 \<longleftrightarrow> (\<forall>s. length s < 2 ^ 32 - 63 \<longrightarrow> perl_md5_hex s = hex_16 (rfc1321 s) \<and>
     perl_md5_base64 s @ asc ''=='' = base64_quads (rfc1321 s))"

lemma perl_digests_eq:
  assumes "perl_digests H B" "length mem = 64" "length s < 2 ^ 32 - 63"
  shows "H s = md5_hex mem s" "B s = md5_base64 mem s" "value_ok (H s)" "value_ok (B s)"
proof -
  have d: "mddriver_md5_digest mem s = rfc1321 s" using assms(2,3) by (simp add: mddriver_md5_digest_rfc)
  have l: "length (rfc1321 s) = 16" by (simp add: rfc1321_def)
  show h: "H s = md5_hex mem s" using assms(1,3) by (simp add: perl_digests_def md5_hex_def d)
  have "B s @ asc ''=='' = base64_16 (rfc1321 s) @ asc ''==''"
    using assms(1,3) base64_16_quads [of "rfc1321 s"] l by (simp add: perl_digests_def)
  then show b: "B s = md5_base64 mem s" by (simp add: md5_base64_def d)
  show "value_ok (H s)" "value_ok (B s)"
    using hex_value_ok [OF l] base64_value_ok [OF l] by (simp_all add: h b md5_hex_def md5_base64_def d)
qed

text \<open>The lines of the generator's text.\<close>

definition license_lines :: "byte list \<Rightarrow> byte list \<Rightarrow> byte list list" where
  "license_lines now prodno = [asc ''ForSell=No'', asc ''GenerateDate'' @ EQ # now, [], asc ''FactoryName=K12'',
     asc ''ProductName=WebMail'', asc ''ProductSN'' @ EQ # prodno, [], []]"

lemma MakeLicense_text:
  "MakeLicense H B now prodno =
    license_text (license_lines now prodno) (get_valid_license H prodno) [] @
    ext_line (get_checksum B (butlast (license_text (license_lines now prodno) (get_valid_license H prodno) [])))"
  by (simp add: MakeLicense_def make_license_def license_text_def ext_line_def license_lines_def unlines_def Let_def EQ_def
      butlast_append del: NL_def)

lemma other_line_key:
  assumes "EQ \<notin> set k" "k \<noteq> []" "k \<noteq> asc ''ProductLicense''" "k \<noteq> asc ''ProductLicenseExt''"
    "NL \<notin> set (k @ v)" "0 \<notin> set (k @ v)" "length (k @ v) < 4000"
  shows "other_line (k @ EQ # v)"
  unfolding other_line_def append_assoc append_Cons strtok_key [OF assms(1,2)]
  using assms by (simp add: EQ_def)

lemma license_lines_other:
  assumes "NL \<notin> set now" "0 \<notin> set now" "length now < 1000" "NL \<notin> set p" "0 \<notin> set p" "length p < 1000"
  shows "\<forall>l\<in>set (license_lines now p). other_line l"
proof -
  have "other_line (asc ''ForSell=No'')" "other_line []" "other_line (asc ''FactoryName=K12'')"
    "other_line (asc ''ProductName=WebMail'')" by code_simp+
  moreover have "other_line (asc ''GenerateDate'' @ EQ # now)" "other_line (asc ''ProductSN'' @ EQ # p)"
    by (rule other_line_key; use assms in \<open>simp add: EQ_def\<close>)+
  ultimately show ?thesis by (simp add: license_lines_def)
qed

lemma prodno_chars: "length mem = 64 \<Longrightarrow> value_ok (get_prodno mem hw)"
  unfolding get_prodno_def Let_def md5_hex_def
  by (rule hex_value_ok) (subst mddriver_md5_digest_rfc, auto simp: rfc1321_def)

text \<open>The text in front of the line of the second key, without its last line end.\<close>

definition licensed_text :: "(byte list \<Rightarrow> byte list) \<Rightarrow> byte list \<Rightarrow> byte list \<Rightarrow> byte list" where
  "licensed_text H now prodno = butlast (license_text (license_lines now prodno) (get_valid_license H prodno) [])"

text \<open>
  C5. With Perl modules that compute MD5 as documented, a licence that \<open>MakeLicense.pl\<close> makes for the product number of a machine is accepted on a machine
  exactly if that machine has the same licence code and the licence's text has the same MD5 with what
  the array \<open>license_file\<close> held before in front of it as without: nothing clears the array. On the
  machine it was made for it is accepted if that array starts empty, whatever the two others hold.
\<close>

theorem generated_license_accepted:
  assumes "length mem = 64" "perl_digests H B" "NL \<notin> set now" "0 \<notin> set now" "length now < 1000"
    "length (license_file st) < 10000"
  shows "check_license_file mem hw2 st (Some (MakeLicense H B now (get_prodno mem hw))) =
      Some (if get_license mem (get_prodno mem hw2) = get_license mem (get_prodno mem hw) \<and>
               get_license_ex mem (license_file st @ licensed_text H now (get_prodno mem hw)) =
               get_license_ex mem (licensed_text H now (get_prodno mem hw)) then 0 else -1) \<and>
    (license_file st = [] \<longrightarrow> check_license_file mem hw st (Some (MakeLicense H B now (get_prodno mem hw))) = Some 0)"
proof -
  let ?p = "get_prodno mem hw"
  let ?lic = "get_valid_license H ?p"
  let ?text = "license_text (license_lines now ?p) ?lic []"
  let ?ext = "get_checksum B (butlast ?text)"
  have p: "value_ok ?p" "length ?p = 32" using prodno_chars get_prodno_length assms(1) by blast+
  note lic = perl_digests_eq [OF assms(2,1), of "asc ''zixia'' @ ?p @ asc ''K12'' @ ?p @ asc ''wMail''"]
  have lic_ok: "value_ok ?lic" "get_license mem ?p = Some ?lic"
    using lic(1,3) p(2) get_license_defined [OF assms(1)] by (simp_all add: get_valid_license_def)
  have others: "\<forall>l\<in>set (license_lines now ?p) \<union> set []. other_line l"
    using license_lines_other [OF assms(3-5), of ?p] p by (simp add: value_ok_def)
  have "length ?lic < 127" using lic_ok(1) by (simp add: value_ok_def)
  then have len: "length ?text < 3000"
    using assms(5) p(2) by (simp add: license_text_def license_lines_def unlines_def)
  then have orig: "length (asc ''zixia'' @ butlast ?text @ asc ''K12'' @ butlast ?text @ asc ''wMail'') < 2 ^ 32 - 63"
    by simp
  note ext = perl_digests_eq [OF assms(2,1) orig]
  have ext_ok: "value_ok ?ext" "get_license_ex mem (butlast ?text) = Some ?ext"
    using ext(2,4) len by (simp_all add: get_checksum_def get_license_ex_def Let_def)
  have ne: "?text \<noteq> []" by (simp add: license_text_def)
  have sum: "length (license_file st) + length ?text < 20000" using len assms(6) by simp
  have "check_license_file mem h st (Some (MakeLicense H B now ?p)) =
      Some (if get_license mem (get_prodno mem h) = Some ?lic \<and>
        get_license_ex mem (license_file st @ butlast ?text) = Some ?ext then 0 else -1)" for h
    using check_license_eq [OF assms(1) others lic_ok(1) ext_ok(1) sum, of h "[]"] ne
    by (simp add: MakeLicense_text butlast_append)
  then show ?thesis using lic_ok(2) ext_ok(2) by (simp add: licensed_text_def)
qed

theorem generated_license_accepted_witness:
  "check_license_file (replicate 64 0) some_hardware (no_state\<lparr>ProductLicense := asc ''old'', ProductLicenseExt := asc ''older''\<rparr>)
     (Some (MakeLicense (\<lambda>s. hex_16 (rfc1321 s)) (\<lambda>s. base64_16 (rfc1321 s)) (asc ''2004-05-01 12:00:00'')
       (get_prodno (replicate 64 0) some_hardware))) = Some 0"
proof -
  have "perl_digests (\<lambda>s. hex_16 (rfc1321 s)) (\<lambda>s. base64_16 (rfc1321 s))"
    using base64_16_quads by (simp add: perl_digests_def rfc1321_def)
  from generated_license_accepted [OF _ this, of "replicate 64 0" "asc ''2004-05-01 12:00:00''"
      "no_state\<lparr>ProductLicense := asc ''old'', ProductLicenseExt := asc ''older''\<rparr>" some_hardware some_hardware]
  show ?thesis by (simp add: no_state_def)
qed

end
