(* ===== verification/Authsasl.thy ===== *)
theory Authsasl imports Mime_Decode begin

text \<open>
  SASL authentication, \<open>wmail/authlib\<close>: the base64 of the protocol
  (\<open>authsaslfrombase64.c\<close>, \<open>authsasltobase64.c\<close>), the server side of PLAIN and LOGIN
  (\<open>authsaslplain.c\<close>, \<open>authsasllogin.c\<close>) and the client side (\<open>authsaslclientplain.c\<close>,
  \<open>authsaslclientlogin.c\<close>). CRAM is in \<open>Cram\<close>.

  Strings are NUL-free byte lists. The functions that talk to the other side are arguments, with
  the state of the connection threaded through; whether the \<open>k\<close>-th \<open>malloc\<close> of a call succeeds is
  \<open>mem k\<close>.
\<close>

subsection \<open>Codes\<close>

definition AUTHSASL_OK :: int where "AUTHSASL_OK = 0"
definition AUTHSASL_ERROR :: int where "AUTHSASL_ERROR = -1"
definition AUTHSASL_ABORTED :: int where "AUTHSASL_ABORTED = -2"
definition AUTHSASL_NOMETHODS :: int where "AUTHSASL_NOMETHODS = -3"
definition AUTHSASL_CANCELLED :: int where "AUTHSASL_CANCELLED = -4"

lemmas sasl_codes = AUTHSASL_OK_def AUTHSASL_ERROR_def AUTHSASL_ABORTED_def
  AUTHSASL_NOMETHODS_def AUTHSASL_CANCELLED_def

subsection \<open>Base64 of the protocol\<close>

text \<open>The table of \<open>authsaslfrombase64.c\<close>; here \<open>=\<close> has no entry.\<close>

definition sasl_decode64tab :: "nat list" where
  "sasl_decode64tab = fold (\<lambda>i t. t[unat (base64tab ! i) := i]) [0..<64] (replicate 256 100)"

definition sasl64 :: "byte \<Rightarrow> nat" where
  "sasl64 c = sasl_decode64tab ! unat c"

fun sasl_quads :: "byte list \<Rightarrow> byte list" where
  "sasl_quads (cw # cx # cy # cz # rest) =
     (let w = of_nat (sasl64 cw); x = of_nat (sasl64 cx); y = of_nat (sasl64 cy); z = of_nat (sasl64 cz);
          a = push_bit 2 w OR drop_bit 4 x;
          b = push_bit 4 x OR drop_bit 2 y;
          c = push_bit 6 y OR z
      in [a] @ (if cy \<noteq> ch CHR ''='' then [b] else []) @ (if cz \<noteq> ch CHR ''='' then [c] else []) @
         sasl_quads rest)"
| "sasl_quads _ = []"

text \<open>
  Decoding in place; the result is what stands in the buffer, \<open>None\<close> for the code -1. The
  decoded bytes are written behind the characters still to be read.
\<close>

definition authsasl_frombase64 :: "byte list \<Rightarrow> byte list option" where
  "authsasl_frombase64 base64buf =
     (let j = length (takeWhile (\<lambda>c. sasl64 c < 100) base64buf) in
      if at base64buf j \<noteq> 0 \<and> at base64buf (j + 1) \<noteq> 0 \<and> at base64buf (j + 2) \<noteq> 0 then None
      else let j = j + length (takeWhile (\<lambda>c. c = ch CHR ''='') (drop j base64buf)) in
        if j mod 4 \<noteq> 0 then None else Some (sasl_quads (take j base64buf)))"

text \<open>The callback of the encoder drops line ends; the state is what has been written.\<close>

fun write_challenge_loop :: "byte list \<Rightarrow> byte list \<Rightarrow> byte list" where
  "write_challenge_loop [] cp = cp"
| "write_challenge_loop (c # p) cp =
     (if c = CR \<or> c = NL then write_challenge_loop p cp else write_challenge_loop p (cp @ [c]))"

definition write_challenge :: "byte list callback" where
  "write_challenge p cp = (0, write_challenge_loop p cp)"

definition authsasl_tobase64 :: "bool \<Rightarrow> byte list \<Rightarrow> byte list option" where
  "authsasl_tobase64 mem p =
     (if \<not> mem then None
      else let st = (rfc2045_encode_start (asc ''base64''), []);
               st = snd (rfc2045_encode write_challenge p st);
               st = snd (rfc2045_encode_end write_challenge st)
           in Some (snd st))"

subsection \<open>PLAIN\<close>

text \<open>
  The nested loops of \<open>authsasl_plain\<close> over the decoded message: \<open>uid\<close> and \<open>pw\<close> are the rest of
  the message from where the pointers stand.
\<close>

fun plain_scan :: "byte list \<Rightarrow> byte list option \<Rightarrow> byte list option \<Rightarrow> byte list option \<times> byte list option" where
  "plain_scan [] uid pw = (uid, pw)"
| "plain_scan (c # p) uid pw =
     (if c = 0
      then (case dropWhile (\<lambda>c. c \<noteq> 0) p of
              [] \<Rightarrow> (Some p, pw)
            | z # p' \<Rightarrow> plain_scan p' (Some p) (Some p'))
      else plain_scan p uid pw)"

type_synonym 's getresp = "byte list \<Rightarrow> 's \<Rightarrow> byte list option \<times> 's"
type_synonym 's sasl_result = "int \<times> (byte list \<times> byte list) option \<times> 's"

definition AUTHTYPE_LOGIN :: "byte list" where "AUTHTYPE_LOGIN = asc ''login''"

text \<open>What both mechanisms return: the user id and the password, each ended by a newline.\<close>

definition login_data :: "byte list \<Rightarrow> byte list \<Rightarrow> byte list" where
  "login_data uid pw = uid @ [NL] @ pw @ [NL]"

definition plain_finish :: "(nat \<Rightarrow> bool) \<Rightarrow> byte list \<Rightarrow> 's \<Rightarrow> 's sasl_result" where
  "plain_finish mem p s =
     (case authsasl_frombase64 p of
        None \<Rightarrow> (AUTHSASL_ABORTED, None, s)
      | Some msg \<Rightarrow>
          (case plain_scan msg None None of
             (uid, None) \<Rightarrow> (AUTHSASL_ABORTED, None, s)
           | (uid, Some pw) \<Rightarrow>
               if \<not> mem 1 then (AUTHSASL_ERROR, None, s)
               else if \<not> mem 2 then (AUTHSASL_ERROR, None, s)
               else (AUTHSASL_OK, Some (AUTHTYPE_LOGIN, login_data (cstr (the uid)) (cstr pw)), s)))"

definition authsasl_plain :: "(nat \<Rightarrow> bool) \<Rightarrow> byte list option \<Rightarrow> 's getresp \<Rightarrow> 's \<Rightarrow> 's sasl_result" where
  "authsasl_plain mem initresponse getresp s =
     (case initresponse of
        Some r \<Rightarrow> if \<not> mem 0 then (AUTHSASL_ERROR, None, s) else plain_finish mem r s
      | None \<Rightarrow>
          (case authsasl_tobase64 (mem 0) [] of
             None \<Rightarrow> (AUTHSASL_ERROR, None, s)
           | Some c \<Rightarrow>
               (case getresp c s of
                  (None, s) \<Rightarrow> (AUTHSASL_ERROR, None, s)
                | (Some p, s) \<Rightarrow>
                    if at p 0 = ch CHR ''*'' then (AUTHSASL_ABORTED, None, s) else plain_finish mem p s)))"

subsection \<open>LOGIN\<close>

definition login_finish :: "(nat \<Rightarrow> bool) \<Rightarrow> byte list \<Rightarrow> byte list \<Rightarrow> 's \<Rightarrow> 's sasl_result" where
  "login_finish mem uid pw s =
     (case authsasl_frombase64 uid of
        None \<Rightarrow> (AUTHSASL_ABORTED, None, s)
      | Some u \<Rightarrow>
          (case authsasl_frombase64 pw of
             None \<Rightarrow> (AUTHSASL_ABORTED, None, s)
           | Some w \<Rightarrow>
               if \<not> mem 2 then (AUTHSASL_ERROR, None, s)
               else if \<not> mem 3 then (AUTHSASL_ERROR, None, s)
               else (AUTHSASL_OK, Some (AUTHTYPE_LOGIN, login_data (cstr u) (cstr w)), s)))"

definition login_password :: "(nat \<Rightarrow> bool) \<Rightarrow> byte list \<Rightarrow> 's getresp \<Rightarrow> 's \<Rightarrow> 's sasl_result" where
  "login_password mem uid getresp s =
     (case authsasl_tobase64 (mem 1) (asc ''Password:'') of
        None \<Rightarrow> (AUTHSASL_ERROR, None, s)
      | Some c \<Rightarrow>
          (case getresp c s of
             (None, s) \<Rightarrow> (AUTHSASL_ERROR, None, s)
           | (Some pw, s) \<Rightarrow>
               if at pw 0 = ch CHR ''*'' then (AUTHSASL_ABORTED, None, s)
               else login_finish mem uid pw s))"

definition authsasl_login :: "(nat \<Rightarrow> bool) \<Rightarrow> byte list option \<Rightarrow> 's getresp \<Rightarrow> 's \<Rightarrow> 's sasl_result" where
  "authsasl_login mem initresponse getresp s =
     (case initresponse of
        Some r \<Rightarrow> if \<not> mem 0 then (AUTHSASL_ERROR, None, s) else login_password mem r getresp s
      | None \<Rightarrow>
          (case authsasl_tobase64 (mem 0) (asc ''Username:'') of
             None \<Rightarrow> (AUTHSASL_ERROR, None, s)
           | Some c \<Rightarrow>
               (case getresp c s of
                  (None, s) \<Rightarrow> (AUTHSASL_ERROR, None, s)
                | (Some uid, s) \<Rightarrow>
                    if at uid 0 = ch CHR ''*'' then (AUTHSASL_ABORTED, None, s)
                    else login_password mem uid getresp s)))"

subsection \<open>The client\<close>

text \<open>
  \<open>struct authsaslclientinfo\<close>. \<open>start_conv_func\<close> and \<open>conv_func\<close> return the server's next
  challenge or null; \<open>final_conv_func\<close> and \<open>plain_conv_func\<close> return the code of the exchange.
\<close>

record 's authsaslclientinfo =
  userid :: "byte list option"
  password :: "byte list option"
  sasl_funcs :: "byte list option"
  conv_funcs_set :: bool
  start_conv_func :: "byte list \<Rightarrow> 's \<Rightarrow> byte list option \<times> 's"
  conv_func :: "byte list \<Rightarrow> 's \<Rightarrow> byte list option \<times> 's"
  final_conv_func :: "byte list \<Rightarrow> 's \<Rightarrow> int \<times> 's"
  plain_conv_func :: "byte list \<Rightarrow> byte list \<Rightarrow> 's \<Rightarrow> int \<times> 's"

definition or_empty :: "byte list option \<Rightarrow> byte list" where
  "or_empty s = (case s of None \<Rightarrow> [] | Some s \<Rightarrow> s)"

definition authsaslclient_plain :: "(nat \<Rightarrow> bool) \<Rightarrow> 's authsaslclientinfo \<Rightarrow> 's \<Rightarrow> int \<times> 's" where
  "authsaslclient_plain mem info s =
     (if \<not> mem 0 then (AUTHSASL_ERROR, s)
      else let q = [0] @ or_empty (userid info) @ [0] @ or_empty (password info) in
        case authsasl_tobase64 (mem 1) q of
          None \<Rightarrow> (AUTHSASL_ERROR, s)
        | Some r \<Rightarrow> plain_conv_func info (asc ''PLAIN'') r s)"

definition authsaslclient_login :: "(nat \<Rightarrow> bool) \<Rightarrow> 's authsaslclientinfo \<Rightarrow> 's \<Rightarrow> int \<times> 's" where
  "authsaslclient_login mem info s =
     (case start_conv_func info (asc ''LOGIN'') s of
        (None, s) \<Rightarrow> (AUTHSASL_CANCELLED, s)
      | (Some p, s) \<Rightarrow>
          (case authsasl_tobase64 (mem 0) (or_empty (userid info)) of
             None \<Rightarrow> (AUTHSASL_ERROR, s)
           | Some q \<Rightarrow>
               (case conv_func info q s of
                  (None, s) \<Rightarrow> (AUTHSASL_CANCELLED, s)
                | (Some p, s) \<Rightarrow>
                    (case authsasl_tobase64 (mem 1) (or_empty (password info)) of
                       None \<Rightarrow> (AUTHSASL_ERROR, s)
                     | Some q \<Rightarrow> final_conv_func info q s))))"

subsection \<open>The protocol's base64\<close>

lemma sasl64_tab: "i < 64 \<Longrightarrow> sasl64 (base64tab ! i) = i"
  and sasl64_pad: "sasl64 61 = 100"
proof -
  have e: "sasl64 c = (if c = 61 then 100 else dec64 c)" for c
  proof -
    define t :: "nat list" where
      "t = fold (\<lambda>i t. t[unat (base64tab ! i) := i]) [0..<64] (replicate 256 100)"
    have l: "length t = 256" unfolding t_def by (simp only: length_fold_update length_replicate)
    have n: "find (\<lambda>i. unat (base64tab ! i) = 61) [0..<64] = None"
      using unat_eq_unat [of _ 61] by (auto simp: find_None_iff)
    have "t ! 61 = 100"
      unfolding t_def by (subst fold_update_nth [OF distinct_base64tab_unat]) (simp_all add: n)
    moreover have "unat c = 61 \<longleftrightarrow> c = 61" using unat_eq_unat [of c 61] by simp
    ultimately show ?thesis
      unfolding sasl64_def sasl_decode64tab_def dec64_def decode64tab_def t_def [symmetric]
      using l by auto
  qed
  show "i < 64 \<Longrightarrow> sasl64 (base64tab ! i) = i" by (simp add: e dec64_tab)
  show "sasl64 61 = 100" by (simp add: e)
qed

text \<open>On groups of the alphabet, padded at the end, both decoders of the repository agree.\<close>

lemma sasl64_word: "unat w < 64 \<Longrightarrow> (word_of_nat (sasl64 (base64tab ! unat w)) :: byte) = w"
  by (simp add: sasl64_tab)

lemma sasl_quads_Cons:
  "sasl_quads (cw # cx # cy # cz # v) =
     (push_bit 2 (of_nat (sasl64 cw)) OR drop_bit 4 (of_nat (sasl64 cx))) #
      (if cy \<noteq> 61 then [push_bit 4 (of_nat (sasl64 cx)) OR drop_bit 2 (of_nat (sasl64 cy))] else []) @
      (if cz \<noteq> 61 then [push_bit 6 (of_nat (sasl64 cy)) OR of_nat (sasl64 cz)] else []) @
      sasl_quads v"
  by (simp add: Let_def)

lemma sasl_quads_shapes:
  assumes "unat w < 64" and "unat x < 64"
  shows "sasl_quads (base64tab ! unat w # base64tab ! unat x # 61 # 61 # v) =
      (push_bit 2 w OR drop_bit 4 x) # sasl_quads v"
    and "unat y < 64 \<Longrightarrow> sasl_quads (base64tab ! unat w # base64tab ! unat x # base64tab ! unat y # 61 # v) =
      (push_bit 2 w OR drop_bit 4 x) # (push_bit 4 x OR drop_bit 2 y) # sasl_quads v"
    and "unat y < 64 \<Longrightarrow> unat z < 64 \<Longrightarrow>
      sasl_quads (base64tab ! unat w # base64tab ! unat x # base64tab ! unat y # base64tab ! unat z # v) =
      (push_bit 2 w OR drop_bit 4 x) # (push_bit 4 x OR drop_bit 2 y) # (push_bit 6 y OR z) # sasl_quads v"
  unfolding sasl_quads_Cons
  by (simp_all only: sasl64_word assms base64tab_nth_neq not_False_eq_True if_True if_False
      refl simp_thms append.simps)

lemma sasl_quads_base64_quads: "sasl_quads (base64_quads x) = x"
proof (induction x rule: base64_quads_cases)
  case 1
  show ?case by simp
next
  case (2 a)
  show ?case
    by (simp only: base64_quads_shapes sasl_quads_shapes sextet_bounds sextets_join sasl_quads.simps(2))
next
  case (3 a b)
  show ?case
    by (simp only: base64_quads_shapes sasl_quads_shapes sextet_bounds sextets_join sasl_quads.simps(2))
next
  case (4 a b c r)
  then show ?case
    by (simp only: base64_quads_shapes sasl_quads_shapes sextet_bounds sextets_join)
qed

text \<open>An encoding is characters of the alphabet and at most two \<open>=\<close>, in groups of four.\<close>

definition b64_body :: "byte list \<Rightarrow> byte list" where
  "b64_body x = takeWhile (\<lambda>c. c \<noteq> 61) (base64_quads x)"

lemma base64_quads_split:
  "\<exists>b n. base64_quads x = b @ replicate n 61 \<and> set b \<subseteq> set base64tab \<and> n \<le> 2 \<and>
     (length b + n) mod 4 = 0"
proof (induction x rule: base64_quads_cases)
  case 1
  show ?case by (intro exI [of _ "[]"] exI [of _ 0]) simp
next
  case (2 a)
  show ?case unfolding base64_quads_shapes
    by (intro exI [of _ "[base64tab ! unat (sextet1 a), base64tab ! unat (sextet2 a 0)]"] exI [of _ 2])
      (simp add: numeral_2_eq_2 nth_mem)
next
  case (3 a b)
  show ?case unfolding base64_quads_shapes
    by (intro exI [of _ "[base64tab ! unat (sextet1 a), base64tab ! unat (sextet2 a b),
        base64tab ! unat (sextet3 b 0)]"] exI [of _ 1])
      (simp add: nth_mem)
next
  case (4 a b c r)
  then obtain d n where d: "base64_quads r = d @ replicate n 61" "set d \<subseteq> set base64tab" "n \<le> 2"
    "(length d + n) mod 4 = 0" by (elim exE conjE)
  have "Suc (Suc (Suc (Suc (length d + n)))) mod 4 = (length d + n) mod 4" by presburger
  with d show ?case unfolding base64_quads_shapes
    by (intro exI [of _ "base64tab ! unat (sextet1 a) # base64tab ! unat (sextet2 a b) #
        base64tab ! unat (sextet3 b c) # base64tab ! unat (sextet4 c) # d"] exI [of _ n])
      (simp add: nth_mem)
qed

lemma sasl64_alphabet: "c \<in> set base64tab \<Longrightarrow> sasl64 c < 100"
  by (auto simp: in_set_conv_nth sasl64_tab)

lemma zero_notin_alphabet: "c \<in> set base64tab \<Longrightarrow> c \<noteq> 0"
  using base64tab_neq by auto

lemma authsasl_frombase64_quads: "authsasl_frombase64 (base64_quads x) = Some x"
proof -
  obtain b n where b: "base64_quads x = b @ replicate n 61" "set b \<subseteq> set base64tab" "n \<le> 2"
    and m: "(length b + n) mod 4 = 0" using base64_quads_split [of x] by (elim exE conjE)
  have tw: "takeWhile (\<lambda>c. sasl64 c < 100) (b @ replicate n 61) = b"
    using b(2) by (subst takeWhile_append2) (auto simp: sasl64_alphabet sasl64_pad takeWhile_replicate)
  have "at (b @ replicate n 61) (length b + 2) = 0" using b(3) by (simp add: at_def)
  moreover have "takeWhile (\<lambda>c. c = ch CHR ''='') (drop (length b) (b @ replicate n 61)) = replicate n 61"
    by (simp add: takeWhile_replicate)
  ultimately show ?thesis
    using sasl_quads_base64_quads [of x] m
    by (simp add: authsasl_frombase64_def Let_def b(1) tw del: sasl_quads.simps)
qed

lemma write_challenge_loop_filter:
  "write_challenge_loop p cp = cp @ filter (\<lambda>c. c \<noteq> CR \<and> c \<noteq> NL) p"
  by (induction p arbitrary: cp) auto

interpretation challenge: reliable_sink write_challenge "\<lambda>w. w" "filter (\<lambda>c. c \<noteq> CR \<and> c \<noteq> NL)"
  by unfold_locales (auto simp: write_challenge_def write_challenge_loop_filter)

lemma base64_quads_append:
  "length p mod 3 = 0 \<Longrightarrow> base64_quads (p @ q) = base64_quads p @ base64_quads q"
proof (induction p rule: base64_quads_cases)
  case (4 a b c r)
  then have "length r mod 3 = 0" by (simp add: mod_Suc split: if_splits)
  with 4 show ?case by (simp only: base64_quads_shapes append_Cons)
qed simp_all

lemma filter_base64_quads: "filter (\<lambda>c. c \<noteq> CR \<and> c \<noteq> NL) (base64_quads x) = base64_quads x"
proof -
  obtain b n where "base64_quads x = b @ replicate n 61" "set b \<subseteq> set base64tab"
    using base64_quads_split by blast
  then show ?thesis using base64tab_neq by (auto simp: filter_id_conv)
qed

lemma b64_lines_filter: "filter (\<lambda>c. c \<noteq> CR \<and> c \<noteq> NL) (b64_lines x) = base64_quads x"
proof (induction x rule: b64_lines.induct)
  case (1 x)
  show ?case
  proof (cases "x = []")
    case True
    then show ?thesis by simp
  next
    case ne: False
    have IH: "filter (\<lambda>c. c \<noteq> CR \<and> c \<noteq> NL) (b64_lines (drop INBUFSIZ x)) = base64_quads (drop INBUFSIZ x)"
      by (rule 1 [OF ne])
    have f: "filter (\<lambda>c. c \<noteq> CR \<and> c \<noteq> NL) (b64_lines x) =
        base64_quads (take INBUFSIZ x) @ base64_quads (drop INBUFSIZ x)"
      using ne IH by (subst b64_lines.simps) (simp add: filter_base64_quads del: CR_def NL_def)
    show ?thesis
    proof (cases "length x < INBUFSIZ")
      case True
      then show ?thesis using f by simp
    next
      case False
      then have "length (take INBUFSIZ x) mod 3 = 0" by (simp add: INBUFSIZ_def)
      then show ?thesis unfolding f by (simp only: base64_quads_append [symmetric] append_take_drop_id)
    qed
  qed
qed

lemma authsasl_tobase64_quads: "authsasl_tobase64 True p = Some (base64_quads p)"
proof -
  let ?i = "(rfc2045_encode_start (asc ''base64''), [])"
  obtain s where m: "encode_message write_challenge (asc ''base64'') [p] [] = (0, s)"
    and s: "s = filter (\<lambda>c. c \<noteq> CR \<and> c \<noteq> NL) (encoded (encoding_func (rfc2045_encode_start (asc ''base64''))) p)"
    using challenge.encode_message_total [of "asc ''base64''" "[p]" "[]"] by auto
  have "encoding_func (rfc2045_encode_start (asc ''base64'')) = Base64"
    by (simp add: rfc2045_encode_start_def)
  with s have "s = base64_quads p" by (simp add: b64_lines_filter del: CR_def NL_def)
  moreover have "snd (snd (rfc2045_encode_end write_challenge (snd (rfc2045_encode write_challenge p ?i)))) = s"
    using m by (cases "rfc2045_encode write_challenge p ?i")
      (auto simp: encode_message_def split: if_splits prod.splits)
  ultimately show ?thesis by (simp add: authsasl_tobase64_def Let_def)
qed

lemma length_base64_quads: "length (base64_quads x) = (length x + 2) div 3 * 4"
proof (induction x rule: base64_quads_cases)
  case (4 a b c r)
  have "(length (a # b # c # r) + 2) div 3 = Suc ((length r + 2) div 3)" by simp
  with 4 show ?case by (simp only: base64_quads_shapes length_Cons mult_Suc)
qed (simp_all add: base64_quads_shapes del: base64_quads.simps(2))

subsection \<open>A PLAIN and a LOGIN exchange\<close>

text \<open>A string read up to its NUL inside a longer one.\<close>

lemma plain_scan_skip:
  "0 \<notin> set a \<Longrightarrow> plain_scan (a @ p) uid pw = plain_scan p uid pw"
  by (induction a) auto

lemma plain_scan_message:
  assumes "0 \<notin> set a" and "0 \<notin> set u" and "0 \<notin> set w"
  shows "plain_scan (a @ 0 # u @ 0 # w) None None = (Some (u @ 0 # w), Some w)"
proof -
  have "dropWhile (\<lambda>c. c \<noteq> 0) (u @ 0 # w) = 0 # w" using assms(2) by (induction u) auto
  then show ?thesis
    using plain_scan_skip [OF assms(3), of "[]" "Some (u @ 0 # w)" "Some w"]
    by (simp add: plain_scan_skip [OF assms(1)])
qed

lemma plain_finish_message:
  assumes "0 \<notin> set a" and "0 \<notin> set u" and "0 \<notin> set w" and "mem 1" and "mem 2"
  shows "plain_finish mem (base64_quads (a @ 0 # u @ 0 # w)) s =
    (AUTHSASL_OK, Some (AUTHTYPE_LOGIN, login_data u w), s)"
  using plain_scan_message [OF assms(1-3)] assms
  by (simp add: plain_finish_def authsasl_frombase64_quads cstr_append_0 cstr_id)

text \<open>
  What every mechanism answers: success hands over authentication data, any other code hands
  over none.
\<close>

definition sasl_reply :: "'s sasl_result \<Rightarrow> bool" where
  "sasl_reply r \<longleftrightarrow> fst r \<in> {AUTHSASL_OK, AUTHSASL_ERROR, AUTHSASL_ABORTED} \<and>
     (fst r = AUTHSASL_OK) = (fst (snd r) \<noteq> None)"

lemma sasl_reply_simps [simp]:
  "sasl_reply (AUTHSASL_OK, d, s) \<longleftrightarrow> d \<noteq> None"
  "sasl_reply (AUTHSASL_ERROR, d, s) \<longleftrightarrow> d = None"
  "sasl_reply (AUTHSASL_ABORTED, d, s) \<longleftrightarrow> d = None"
  by (cases d; simp add: sasl_reply_def sasl_codes)+

lemma plain_finish_reply [simp]: "sasl_reply (plain_finish mem p s)"
  by (simp add: plain_finish_def split: option.split prod.split)

lemma login_finish_reply [simp]: "sasl_reply (login_finish mem u p s)"
  by (simp add: login_finish_def split: option.split)

lemma login_password_reply [simp]: "sasl_reply (login_password mem u g s)"
  by (simp add: login_password_def split: option.split prod.split)

lemma authsasl_plain_reply [simp]: "sasl_reply (authsasl_plain mem i g s)"
  by (simp add: authsasl_plain_def split: option.split prod.split)

lemma authsasl_login_reply [simp]: "sasl_reply (authsasl_login mem i g s)"
  by (simp add: authsasl_login_def split: option.split prod.split)

subsection \<open>Properties\<close>

text \<open>
  The protocol's base64: \<open>authsasl_tobase64\<close> gives one line of text that
  \<open>authsasl_frombase64\<close> decodes to the input, and that with its NUL fits the
  \<open>(l+3)/3*4+1\<close> bytes allocated for it.
\<close>

theorem authsasl_base64_roundtrip:
  "\<exists>t. authsasl_tobase64 True p = Some t \<and> authsasl_frombase64 t = Some p \<and>
     length t + 1 \<le> (length p + 3) div 3 * 4 + 1 \<and> 0 \<notin> set t \<and> NL \<notin> set t \<and> CR \<notin> set t"
proof -
  obtain b n where b: "base64_quads p = b @ replicate n 61" "set b \<subseteq> set base64tab"
    using base64_quads_split [of p] by (elim exE conjE)
  then have "0 \<notin> set (base64_quads p)" "NL \<notin> set (base64_quads p)" "CR \<notin> set (base64_quads p)"
    using base64tab_neq by auto
  then show ?thesis
    by (simp add: authsasl_tobase64_quads authsasl_frombase64_quads length_base64_quads div_le_mono
        del: NL_def CR_def)
qed

text \<open>
  C25. PLAIN, both sides: the client sends one message, and the server that gets it as initial
  response authenticates exactly the client's user id and password.
\<close>

theorem plain_exchange:
  fixes info :: "byte list authsaslclientinfo"
  assumes "0 \<notin> set (or_empty (userid info))" and "0 \<notin> set (or_empty (password info))"
    and send: "\<And>m r s. plain_conv_func info m r s = (0, r)"
  shows "\<exists>r. authsaslclient_plain (\<lambda>_. True) info s = (0, r) \<and>
    authsasl_plain (\<lambda>_. True) (Some r) g t =
      (AUTHSASL_OK, Some (AUTHTYPE_LOGIN, login_data (or_empty (userid info)) (or_empty (password info))), t)"
  using plain_finish_message [of "[]" "or_empty (userid info)" "or_empty (password info)" "\<lambda>_. True" t] assms
  by (simp add: authsaslclient_plain_def authsasl_tobase64_quads authsasl_plain_def)

theorem plain_exchange_witness:
  "\<exists>r. authsaslclient_plain (\<lambda>_. True)
      \<lparr>userid = Some (asc ''bob''), password = Some (asc ''xyzzy''), sasl_funcs = None, conv_funcs_set = True,
       start_conv_func = (\<lambda>_ s. (None, s)), conv_func = (\<lambda>_ s. (None, s)),
       final_conv_func = (\<lambda>q s. (0, q)), plain_conv_func = (\<lambda>m r s. (0, r))\<rparr> [] = (0, r) \<and>
    authsasl_plain (\<lambda>_. True) (Some r) (\<lambda>_ s. (None, s)) () =
      (AUTHSASL_OK, Some (AUTHTYPE_LOGIN, login_data (asc ''bob'') (asc ''xyzzy'')), ())"
  using plain_exchange [of "\<lparr>userid = Some (asc ''bob''), password = Some (asc ''xyzzy''), sasl_funcs = None,
       conv_funcs_set = True, start_conv_func = (\<lambda>_ s. (None, s)), conv_func = (\<lambda>_ s. (None, s)),
       final_conv_func = (\<lambda>q s. (0, q)), plain_conv_func = (\<lambda>m r s. (0, r))\<rparr>" "[]" "\<lambda>_ s. (None, s)" "()"]
  by (simp add: or_empty_def)

text \<open>
  Whatever the other side sends and whichever allocation fails, PLAIN and LOGIN return one of
  the three documented codes, with authentication data if and only if the code is success.
\<close>

theorem sasl_server_codes:
  "sasl_reply (authsasl_plain mem i g s) \<and> sasl_reply (authsasl_login mem i g s)"
  by simp

text \<open>
  \<open>authsasl_plain\<close> does not reject a message with a fourth field: its loop starts over at
  each NUL, so the user id becomes the extra field while the password stays the third.
\<close>

lemma plain_extra_field:
  "plain_finish (\<lambda>_. True) (base64_quads (asc ''x'' @ 0 # asc ''user'' @ 0 # asc ''pass'' @ 0 # asc ''extra'')) s =
    (AUTHSASL_OK, Some (AUTHTYPE_LOGIN, login_data (asc ''extra'') (asc ''pass'')), s)"
  by (simp only: plain_finish_def authsasl_frombase64_quads option.case)
    (simp add: cstr_def)

end
