(* ===== verification/Fips180.thy ===== *)
theory Fips180 imports Prelude begin

text \<open>
  The secure hash standard, FIPS 180-2, SHA-1 as its sections 4 to 6 define it, on messages of whole
  bytes: the reference for \<open>Sha1\<close>. Nothing here is taken from the program. Words are read from and
  written to bytes by arithmetic, the schedule and the rounds are recursions on their index.
\<close>

subsection \<open>Functions and constants (sections 4.1.1 and 4.2.1)\<close>

definition Ch :: "u32 \<Rightarrow> u32 \<Rightarrow> u32 \<Rightarrow> u32" where
  "Ch x y z = (x AND y) XOR (NOT x AND z)"

definition Parity :: "u32 \<Rightarrow> u32 \<Rightarrow> u32 \<Rightarrow> u32" where
  "Parity x y z = x XOR y XOR z"

definition Maj :: "u32 \<Rightarrow> u32 \<Rightarrow> u32 \<Rightarrow> u32" where
  "Maj x y z = (x AND y) XOR (x AND z) XOR (y AND z)"

definition fips_f :: "nat \<Rightarrow> u32 \<Rightarrow> u32 \<Rightarrow> u32 \<Rightarrow> u32" where
  "fips_f t = (if t \<le> 19 then Ch else if t \<le> 39 then Parity else if t \<le> 59 then Maj else Parity)"

definition fips_K :: "nat \<Rightarrow> u32" where
  "fips_K t = (if t \<le> 19 then 0x5a827999 else if t \<le> 39 then 0x6ed9eba1 else if t \<le> 59 then 0x8f1bbcdc else 0xca62c1d6)"

text \<open>The constants are the integer parts of the square roots of 2, 3, 5 and 10, times \<open>2 ^ 30\<close>.\<close>

lemma fips_K_roots:
  "(let k = unat (fips_K 0) in k ^ 2 \<le> 2 * 2 ^ 60 \<and> 2 * 2 ^ 60 < (k + 1) ^ 2)"
  "(let k = unat (fips_K 20) in k ^ 2 \<le> 3 * 2 ^ 60 \<and> 3 * 2 ^ 60 < (k + 1) ^ 2)"
  "(let k = unat (fips_K 40) in k ^ 2 \<le> 5 * 2 ^ 60 \<and> 5 * 2 ^ 60 < (k + 1) ^ 2)"
  "(let k = unat (fips_K 60) in k ^ 2 \<le> 10 * 2 ^ 60 \<and> 10 * 2 ^ 60 < (k + 1) ^ 2)"
  by (simp_all add: fips_K_def)

subsection \<open>Padding and parsing (sections 5.1.1, 5.2.1 and 5.3.1)\<close>

text \<open>Numbers as bytes, the most significant first.\<close>

definition be_number :: "byte list \<Rightarrow> nat" where
  "be_number bs = foldl (\<lambda>n b. 256 * n + unat b) 0 bs"

definition be_bytes :: "nat \<Rightarrow> nat \<Rightarrow> byte list" where
  "be_bytes k n = map (\<lambda>i. of_nat (n div 256 ^ (k - 1 - i))) [0..<k]"

text \<open>
  A one bit, then the least number of zero bits after which 64 bits are missing to a multiple of 512,
  then the length of the message in bits, in 64 bits.
\<close>

definition zero_bytes :: "nat \<Rightarrow> nat" where
  "zero_bytes l = (LEAST k. (l + 1 + k + 8) mod 64 = 0)"

definition fips_pad :: "byte list \<Rightarrow> byte list" where
  "fips_pad m = m @ 0x80 # replicate (zero_bytes (length m)) 0 @ be_bytes 8 (8 * length m)"

fun fips_blocks :: "byte list \<Rightarrow> byte list list" where
  "fips_blocks m = (if m = [] then [] else take 64 m # fips_blocks (drop 64 m))"

declare fips_blocks.simps [simp del]

definition H0 :: "u32 \<times> u32 \<times> u32 \<times> u32 \<times> u32" where
  "H0 = (0x67452301, 0xefcdab89, 0x98badcfe, 0x10325476, 0xc3d2e1f0)"

subsection \<open>The computation (section 6.1.2)\<close>

definition fips_M :: "byte list \<Rightarrow> nat \<Rightarrow> u32" where
  "fips_M block t = of_nat (be_number (take 4 (drop (4 * t) block)))"

fun fips_W :: "byte list \<Rightarrow> nat \<Rightarrow> u32" where
  "fips_W block t =
     (if t < 16 then fips_M block t
      else word_rotl 1 (fips_W block (t - 3) XOR fips_W block (t - 8) XOR fips_W block (t - 14) XOR fips_W block (t - 16)))"

declare fips_W.simps [simp del]

primrec fips_rounds :: "byte list \<Rightarrow> u32 \<times> u32 \<times> u32 \<times> u32 \<times> u32 \<Rightarrow> nat \<Rightarrow> u32 \<times> u32 \<times> u32 \<times> u32 \<times> u32" where
  "fips_rounds block H 0 = H"
| "fips_rounds block H (Suc t) =
     (case fips_rounds block H t of
        (a, b, c, d, e) \<Rightarrow> (word_rotl 5 a + fips_f t b c d + e + fips_K t + fips_W block t, a, word_rotl 30 b, c, d))"

definition fips_block :: "u32 \<times> u32 \<times> u32 \<times> u32 \<times> u32 \<Rightarrow> byte list \<Rightarrow> u32 \<times> u32 \<times> u32 \<times> u32 \<times> u32" where
  "fips_block H block =
     (case H of (h0, h1, h2, h3, h4) \<Rightarrow> case fips_rounds block H 80 of
        (a, b, c, d, e) \<Rightarrow> (a + h0, b + h1, c + h2, d + h3, e + h4))"

definition fips_digest :: "u32 \<times> u32 \<times> u32 \<times> u32 \<times> u32 \<Rightarrow> byte list" where
  "fips_digest H = (case H of (h0, h1, h2, h3, h4) \<Rightarrow> concat (map (\<lambda>h. be_bytes 4 (unat h)) [h0, h1, h2, h3, h4]))"

definition fips180 :: "byte list \<Rightarrow> byte list" where
  "fips180 m = fips_digest (foldl fips_block H0 (fips_blocks (fips_pad m)))"

end
