(* ===== verification/Sha1.thy ===== *)
theory Sha1 imports Md5 Fips180 begin

text \<open>
  The SHA1 digest \<open>wmail/sha1/sha1.c\<close>, over the same streaming part as MD5 (\<open>Md_Stream\<close>).
  \<open>struct SHA1_CONTEXT\<close> keeps the chaining value in the array \<open>H\<close>. Lengths passed as
  \<open>unsigned\<close> are below \<open>2 ^ 32\<close>.
\<close>

subsection \<open>Definitions\<close>

type_synonym SHA1_CONTEXT = "u32 list md_context"

definition SHA1_K :: "u32 list" where
  "SHA1_K = replicate 20 0x5A827999 @ replicate 20 0x6ED9EBA1 @ replicate 20 0x8F1BBCDC @
     replicate 20 0xCA62C1D6"

definition sha1_init_H :: "u32 list" where
  "sha1_init_H = [0x67452301, 0xEFCDAB89, 0x98BADCFE, 0x10325476, 0xC3D2E1F0]"

definition sha1_context_init :: SHA1_CONTEXT where
  "sha1_context_init = \<lparr>chain = sha1_init_H, blk = []\<rparr>"

definition sha1_f :: "nat \<Rightarrow> u32 \<Rightarrow> u32 \<Rightarrow> u32 \<Rightarrow> u32" where
  "sha1_f t b c d =
     (if t < 20 then (b AND c) OR (NOT b AND d)
      else if 40 \<le> t \<and> t < 60 then (b AND c) OR (b AND d) OR (c AND d)
      else b XOR c XOR d)"

definition SHA1_S :: "u32 \<Rightarrow> nat \<Rightarrow> u32" where
  "SHA1_S a b = push_bit b a OR drop_bit (32 - b) a"

definition be_word :: "byte \<Rightarrow> byte \<Rightarrow> byte \<Rightarrow> byte \<Rightarrow> u32" where
  "be_word b0 b1 b2 b3 =
     (let w = wide b0; w = push_bit 8 w OR wide b1; w = push_bit 8 w OR wide b2
      in push_bit 8 w OR wide b3)"

text \<open>The message schedule \<open>W\<close>: the block's sixteen words, then 64 computed ones.\<close>

definition sha1_schedule :: "byte list \<Rightarrow> u32 list" where
  "sha1_schedule b =
     fold (\<lambda>t W. let TEMP = W ! (t - 3) XOR W ! (t - 8) XOR W ! (t - 14) XOR W ! (t - 16)
                 in W @ [SHA1_S TEMP 1])
       [16..<80]
       (map (\<lambda>t. be_word (b ! (4 * t)) (b ! (4 * t + 1)) (b ! (4 * t + 2)) (b ! (4 * t + 3))) [0..<16])"

definition sha1_step :: "u32 list \<Rightarrow> nat \<Rightarrow> u32 \<times> u32 \<times> u32 \<times> u32 \<times> u32
    \<Rightarrow> u32 \<times> u32 \<times> u32 \<times> u32 \<times> u32" where
  "sha1_step W t = (\<lambda>(a, b, c, d, e).
     let TEMP = SHA1_S a 5;
         TEMP = TEMP + sha1_f t b c d;
         TEMP = TEMP + e;
         TEMP = TEMP + W ! t;
         TEMP = TEMP + SHA1_K ! t
     in (TEMP, a, SHA1_S b 30, c, d))"

definition sha1_context_hash :: "u32 list \<Rightarrow> byte list \<Rightarrow> u32 list" where
  "sha1_context_hash H block =
     (case fold (sha1_step (sha1_schedule block)) [0..<80] (H ! 0, H ! 1, H ! 2, H ! 3, H ! 4) of
        (a, b, c, d, e) \<Rightarrow> [H ! 0 + a, H ! 1 + b, H ! 2 + c, H ! 3 + d, H ! 4 + e])"

definition sha1_context_hashstream :: "SHA1_CONTEXT \<Rightarrow> byte list \<Rightarrow> SHA1_CONTEXT" where
  "sha1_context_hashstream c p = hashstream sha1_context_hash c p"

text \<open>
  \<open>l\<close> is an \<open>unsigned long\<close>: the source multiplies it by 8 and writes its low 32 bits; the high
  half of the field is always zero.
\<close>

definition sha1_length_field :: "u64 \<Rightarrow> byte list" where
  "sha1_length_field l =
     (let l = l * 8 in
      [0, 0, 0, 0, ucast (drop_bit 24 l), ucast (drop_bit 16 l), ucast (drop_bit 8 l), ucast l])"

definition sha1_context_endstream :: "SHA1_CONTEXT \<Rightarrow> u64 \<Rightarrow> SHA1_CONTEXT" where
  "sha1_context_endstream c l =
     (let c = sha1_context_hashstream c [0x80];
          c = pad_loop sha1_context_hash c
      in sha1_context_hashstream c (sha1_length_field l))"

definition sha1_context_digest :: "SHA1_CONTEXT \<Rightarrow> byte list" where
  "sha1_context_digest c = concat (map (\<lambda>i. rev (low_bytes (chain c ! i))) [0..<5])"

definition sha1_context_restore :: "byte list \<Rightarrow> SHA1_CONTEXT" where
  "sha1_context_restore d =
     \<lparr>chain = map (\<lambda>i. be_word (d ! (4 * i)) (d ! (4 * i + 1)) (d ! (4 * i + 2)) (d ! (4 * i + 3))) [0..<5],
      blk = []\<rparr>"

definition sha1_digest :: "byte list \<Rightarrow> byte list" where
  "sha1_digest msg =
     (let c = sha1_context_init;
          c = sha1_context_hashstream c msg;
          c = sha1_context_endstream c (of_nat (length msg))
      in sha1_context_digest c)"

subsection \<open>Saving and resuming\<close>

lemma be_word_le_word: "be_word b3 b2 b1 b0 = le_word b0 b1 b2 b3"
proof (rule bit_word_eqI)
  fix n
  assume "n < LENGTH(32)"
  then consider "n < 8" | "8 \<le> n" "n < 16" | "16 \<le> n" "n < 24" | "24 \<le> n" "n < 32" by fastforce
  then show "bit (be_word b3 b2 b1 b0) n = bit (le_word b0 b1 b2 b3) n"
    by cases (auto simp: be_word_def le_word_def Let_def bit_or_iff bit_push_bit_iff bit_wide byte_bit_ge)
qed

lemma length_sha1_context_hash [simp]: "length (sha1_context_hash h b) = 5"
  by (simp add: sha1_context_hash_def split: prod.split)

lemma length_absorb_sha1:
  "length h = 5 \<Longrightarrow> length (fst (absorb sha1_context_hash h m)) = 5"
proof (induction sha1_context_hash h m rule: absorb.induct)
  case (1 h m)
  then show ?case by (subst absorb.simps) simp
qed

lemma upt_0_5: "[0..<5] = [0, 1, 2, 3, 4::nat]"
  by (simp add: upt_rec)

lemma sha1_restore_digest:
  assumes "length (chain c) = 5"
  shows "sha1_context_restore (sha1_context_digest c) = c\<lparr>blk := []\<rparr>"
proof -
  from assms obtain h0 h1 h2 h3 h4 where h: "chain c = [h0, h1, h2, h3, h4]"
    by (auto simp: length_Suc_conv eval_nat_numeral)
  show ?thesis
    by (cases c) (use h in \<open>simp add: sha1_context_restore_def sha1_context_digest_def upt_0_5
      low_bytes_def be_word_le_word le_word_low_bytes\<close>)
qed

lemma length_sha1_context_digest [simp]: "length (sha1_context_digest c) = 20"
  by (simp add: sha1_context_digest_def upt_0_5)

subsection \<open>The digest\<close>

lemma sha1_stream_append:
  "length (blk c) < BLOCK_SIZE \<Longrightarrow>
   sha1_context_hashstream (sha1_context_hashstream c p) q = sha1_context_hashstream c (p @ q)"
  by (simp add: sha1_context_hashstream_def hashstream_append)

lemma sha1_endstream_padded:
  "c = context_of (absorb sha1_context_hash h m) \<Longrightarrow>
   sha1_context_endstream c ll = context_of (absorb sha1_context_hash h (padded m (sha1_length_field ll)))"
  by (simp add: sha1_context_endstream_def sha1_context_hashstream_def Let_def endstream_padded)

lemma sha1_init_absorb: "sha1_context_hashstream sha1_context_init m =
    context_of (absorb sha1_context_hash sha1_init_H m)"
  by (simp add: sha1_context_hashstream_def sha1_context_init_def hashstream_absorb BLOCK_SIZE_def)

text \<open>The standard's length field: the 64-bit count of bits, big endian.\<close>

definition be_bytes64 :: "u64 \<Rightarrow> byte list" where
  "be_bytes64 w = rev (le_bytes64 w)"

lemma sha1_length_field_be:
  assumes "n < 2 ^ 29"
  shows "sha1_length_field (of_nat n) = be_bytes64 (of_nat (8 * n))"
proof -
  define ll :: u64 where "ll = of_nat (8 * n)"
  have w: "(of_nat n :: u64) * 8 = ll" by (simp add: ll_def)
  have hi: "\<not> bit ll i" if "32 \<le> i" for i
  proof
    assume "bit ll i"
    then have "bit (8 * n) i" by (simp add: ll_def bit_word_of_nat del: of_nat_mult)
    moreover have "8 * n = take_bit 32 (8 * n)" using assms by (simp add: take_bit_nat_eq_self)
    ultimately have "bit (take_bit 32 (8 * n)) i" by simp
    with that show False by (simp add: bit_take_bit_iff)
  qed
  have z: "ucast (drop_bit k ll) = (0::byte)" if "32 \<le> k" for k
    by (rule bit_word_eqI) (use that hi in \<open>simp add: bit_simps\<close>)
  have "[0..<8] = [0, 1, 2, 3, 4, 5, 6, 7::nat]" by (simp add: upt_rec)
  then show ?thesis
    unfolding sha1_length_field_def be_bytes64_def le_bytes64_def w ll_def [symmetric] Let_def
    by (simp add: z)
qed

subsection \<open>The parts are those of the standard\<close>

lemma sha1_f_fips: "sha1_f t b c d = fips_f t b c d"
  by (auto simp: sha1_f_def fips_f_def Ch_def Parity_def Maj_def not_less intro!: bit_word_eqI) (auto simp: bit_simps)

lemma SHA1_K_fips: "t < 80 \<Longrightarrow> SHA1_K ! t = fips_K t"
  by (auto simp: SHA1_K_def fips_K_def nth_append)

lemma SHA1_S_rotl: "0 < n \<Longrightarrow> n < 32 \<Longrightarrow> SHA1_S w n = word_rotl n w"
proof (rule bit_word_eqI)
  fix i :: nat
  assume n: "0 < n" "n < 32" and i: "i < LENGTH(32)"
  have "bit (SHA1_S w n) i \<longleftrightarrow> n \<le> i \<and> bit w (i - n) \<or> bit w (32 - n + i)"
    using i by (simp only: SHA1_S_def bit_or_iff bit_push_bit_iff bit_drop_bit_eq o_def) simp
  moreover have "(i + (32 - n)) mod 32 = (if n \<le> i then i - n else 32 - n + i)"
    using n i by (auto simp: mod_if)
  ultimately show "bit (SHA1_S w n) i = bit (word_rotl n w) i"
    using n i u32_bit_ge [of "32 - n + i" w] by (auto simp: bit_word_rotl_iff)
qed

lemma shift_in: "push_bit 8 w OR wide b = 256 * w + wide b"
proof -
  have "push_bit 8 w OR wide b = push_bit 8 w + wide b"
    by (rule disjunctive_add [symmetric]) (auto simp: bit_push_bit_iff bit_wide byte_bit_ge)
  then show ?thesis by (simp add: push_bit_eq_mult mult.commute)
qed

lemma be_word_number: "be_word b0 b1 b2 b3 = of_nat (be_number [b0, b1, b2, b3])"
  by (simp add: be_word_def be_number_def Let_def shift_in)

lemma fips_M_be_word:
  assumes "length block = 64" "t < 16"
  shows "fips_M block t = be_word (block ! (4 * t)) (block ! (4 * t + 1)) (block ! (4 * t + 2)) (block ! (4 * t + 3))"
proof -
  have "take 4 (drop (4 * t) block) = [block ! (4 * t), block ! (4 * t + 1), block ! (4 * t + 2), block ! (4 * t + 3)]"
    using assms by (intro nth_equalityI) (auto simp: less_Suc_eq numeral_eq_Suc)
  then show ?thesis by (simp only: fips_M_def be_word_number)
qed

lemma sha1_schedule_fips:
  assumes "length block = 64"
  shows "length (sha1_schedule block) = 80 \<and> (\<forall>t<80. sha1_schedule block ! t = fips_W block t)"
proof -
  define f where "f = (\<lambda>t (W :: u32 list). let TEMP = W ! (t - 3) XOR W ! (t - 8) XOR W ! (t - 14) XOR W ! (t - 16)
                 in W @ [SHA1_S TEMP 1])"
  define W0 where "W0 = map (\<lambda>t. be_word (block ! (4 * t)) (block ! (4 * t + 1)) (block ! (4 * t + 2)) (block ! (4 * t + 3))) [0..<16]"
  have "length (fold f [16..<16 + n] W0) = 16 + n \<and> (\<forall>t<16 + n. fold f [16..<16 + n] W0 ! t = fips_W block t)" for n
  proof (induction n)
    case 0
    then show ?case using fips_M_be_word [OF assms] by (simp add: W0_def fips_W.simps [of block])
  next
    case (Suc n)
    let ?W = "fold f [16..<16 + n] W0"
    have e: "fold f [16..<16 + Suc n] W0 = ?W @ [word_rotl 1 (?W ! (13 + n) XOR ?W ! (8 + n) XOR ?W ! (2 + n) XOR ?W ! n)]"
      by (simp only: add_Suc_right upt_Suc) (simp add: f_def Let_def SHA1_S_rotl)
    have "fips_W block (16 + n) = word_rotl 1 (?W ! (13 + n) XOR ?W ! (8 + n) XOR ?W ! (2 + n) XOR ?W ! n)"
      using Suc by (subst fips_W.simps) simp
    then have "(?W @ [word_rotl 1 (?W ! (13 + n) XOR ?W ! (8 + n) XOR ?W ! (2 + n) XOR ?W ! n)]) ! t = fips_W block t"
      if "t < 16 + Suc n" for t
      using Suc that by (cases "t = 16 + n") (auto simp: nth_append)
    then show ?case unfolding e using Suc by simp
  qed
  from this [of 64] have "length (fold f [16..<80] W0) = 80 \<and> (\<forall>t<80. fold f [16..<80] W0 ! t = fips_W block t)"
    unfolding numeral_plus_numeral add_num_simps .
  then show ?thesis unfolding sha1_schedule_def f_def W0_def .
qed

lemma sha1_rounds_fips:
  assumes "length block = 64"
  shows "n \<le> 80 \<Longrightarrow> fold (sha1_step (sha1_schedule block)) [0..<n] s = fips_rounds block s n"
proof (induction n)
  case (Suc n)
  then show ?case
    using sha1_schedule_fips [OF assms]
    by (simp add: sha1_step_def SHA1_S_rotl sha1_f_fips SHA1_K_fips ac_simps split: prod.split)
qed simp

text \<open>The chaining value, an array in the program and five words in the standard.\<close>

definition H_list :: "u32 \<times> u32 \<times> u32 \<times> u32 \<times> u32 \<Rightarrow> u32 list" where
  "H_list H = (case H of (a, b, c, d, e) \<Rightarrow> [a, b, c, d, e])"

lemma sha1_hash_fips: "length block = 64 \<Longrightarrow> sha1_context_hash (H_list H) block = H_list (fips_block H block)"
  by (simp add: H_list_def sha1_context_hash_def fips_block_def sha1_rounds_fips ac_simps split: prod.split)

lemma absorb_fips:
  "length m mod 64 = 0 \<Longrightarrow> absorb sha1_context_hash (H_list H) m = (H_list (foldl fips_block H (fips_blocks m)), [])"
proof (induction m arbitrary: H rule: fips_blocks.induct)
  case (1 m)
  show ?case
  proof (cases "m = []")
    case True
    then show ?thesis by (simp add: absorb_short BLOCK_SIZE_def fips_blocks.simps)
  next
    case False
    then have l: "64 \<le> length m" using "1.prems" by (cases "length m < 64") auto
    then have "length (drop 64 m) mod 64 = 0" using "1.prems" by (simp add: le_mod_geq)
    from "1.IH" [OF False this] l False show ?thesis
      by (subst absorb.simps) (simp add: BLOCK_SIZE_def sha1_hash_fips fips_blocks.simps [of m])
  qed
qed

lemma zero_bytes_pad: "zero_bytes l = pad_zeros (Suc l)"
  unfolding zero_bytes_def
proof (rule Least_equality)
  have z: "64 dvd l + 1 + pad_zeros (Suc l) + 8"
    using pad_zeros_56 [of "Suc l"] mod_add_left_eq [of "Suc l + pad_zeros (Suc l)" 64 8] by (simp add: dvd_eq_mod_eq_0)
  then show "(l + 1 + pad_zeros (Suc l) + 8) mod 64 = 0" by simp
  fix k
  assume "(l + 1 + k + 8) mod 64 = 0"
  then have k: "64 dvd l + 1 + k + 8" by (simp only: dvd_eq_mod_eq_0)
  show "pad_zeros (Suc l) \<le> k"
  proof (rule ccontr)
    assume less: "\<not> pad_zeros (Suc l) \<le> k"
    then have "l + 1 + pad_zeros (Suc l) + 8 = l + 1 + k + 8 + (pad_zeros (Suc l) - k)" by simp
    then have "64 dvd pad_zeros (Suc l) - k" using z k by (metis dvd_add_right_iff)
    moreover have "pad_zeros (Suc l) < 64" by (simp add: pad_zeros_def BLOCK_SIZE_def)
    ultimately show False using less by (auto dest: dvd_imp_le)
  qed
qed

lemma be_bytes_word: "be_bytes 8 n = be_bytes64 (of_nat n)"
proof -
  have "(of_nat (n div 256 ^ k) :: byte) = ucast (drop_bit (8 * k) (of_nat n :: u64))" if "k < 8" for k
  proof (rule bit_word_eqI)
    fix i assume i: "i < LENGTH(8)"
    have "(256::nat) ^ k = 2 ^ (8 * k)" by (simp add: power_mult)
    then show "bit (of_nat (n div 256 ^ k) :: byte) i = bit (ucast (drop_bit (8 * k) (of_nat n :: u64)) :: byte) i"
      using i that by (simp add: bit_word_of_nat bit_simps flip: drop_bit_eq_div)
  qed
  moreover have "[0..<8] = [0, 1, 2, 3, 4, 5, 6, 7::nat]" by (simp add: upt_rec)
  ultimately show ?thesis unfolding be_bytes_def be_bytes64_def le_bytes64_def by simp
qed

lemma digest_fips: "chain c = H_list H \<Longrightarrow> sha1_context_digest c = fips_digest H"
proof -
  have "be_bytes 4 (unat h) = rev (low_bytes h)" for h :: u32
  proof -
    have "(of_nat (unat h div 256 ^ k) :: byte) = ucast (drop_bit (8 * k) h)" if "k < 4" for k
    proof (rule bit_word_eqI)
      fix i assume i: "i < LENGTH(8)"
      have "(256::nat) ^ k = 2 ^ (8 * k)" by (simp add: power_mult)
      then show "bit (of_nat (unat h div 256 ^ k) :: byte) i = bit (ucast (drop_bit (8 * k) h) :: byte) i"
        using i that by (simp add: bit_word_of_nat bit_simps flip: drop_bit_eq_div)
    qed
    moreover have "[0..<4] = [0, 1, 2, 3::nat]" by (simp add: upt_rec)
    ultimately show ?thesis unfolding be_bytes_def low_bytes_def by simp
  qed
  then show "chain c = H_list H \<Longrightarrow> ?thesis"
    by (simp add: sha1_context_digest_def fips_digest_def H_list_def upt_0_5 split: prod.splits)
qed

lemma sha1_digest_fips: "length msg < 2 ^ 29 \<Longrightarrow> sha1_digest msg = fips180 msg"
proof -
  assume l: "length msg < 2 ^ 29"
  let ?p = "padded msg (be_bytes64 (of_nat (8 * length msg)))"
  have p: "?p = fips_pad msg" by (simp add: fips_pad_def padded_def zero_bytes_pad be_bytes_word del: of_nat_mult)
  have H: "sha1_init_H = H_list H0" by (simp add: sha1_init_H_def H_list_def H0_def)
  have "length (be_bytes64 (of_nat (8 * length msg))) = 8" by (simp add: be_bytes64_def le_bytes64_def)
  then have "length ?p mod 64 = 0" by (simp only: length_padded [unfolded BLOCK_SIZE_def])
  then have "absorb sha1_context_hash sha1_init_H ?p = (H_list (foldl fips_block H0 (fips_blocks (fips_pad msg))), [])"
    unfolding H p by (rule absorb_fips)
  then show "sha1_digest msg = fips180 msg"
    using sha1_endstream_padded [OF sha1_init_absorb, of msg "of_nat (length msg)"] l
    by (simp add: sha1_digest_def fips180_def Let_def sha1_length_field_be context_of_def digest_fips del: of_nat_mult)
qed

lemma length_sha1_digest: "length (sha1_digest msg) = 20"
  by (simp add: sha1_digest_def Let_def)

subsection \<open>Properties\<close>

text \<open>
  C37. \<open>sha1_digest\<close> is SHA-1 as FIPS 180 defines it, with its own functions, constants, schedule,
  padding and order of bytes (\<open>Fips180\<close>), for messages below \<open>2 ^ 29\<close> bytes; the next property says
  what happens from there on.
\<close>

theorem sha1_digest_correct:
  "length msg < 2 ^ 29 \<Longrightarrow> sha1_digest msg = fips180 msg \<and> length (sha1_digest msg) = 20"
  using sha1_digest_fips length_sha1_digest by blast

theorem sha1_digest_correct_witness:
  "sha1_digest (asc ''abc'') = fips180 (asc ''abc'') \<and> length (sha1_digest (asc ''abc'')) = 20"
  by (rule sha1_digest_correct) simp

text \<open>
  C38. Above that size the length field is wrong: the source writes four zero bytes where the
  high half of the bit count belongs, for every length from \<open>2 ^ 29\<close> that an \<open>unsigned\<close> holds.
\<close>

theorem sha1_length_field_wrong:
  assumes "2 ^ 29 \<le> n" and "n < 2 ^ 32"
  shows "sha1_length_field (of_nat n) \<noteq> be_bytes64 (of_nat (8 * n))"
proof
  assume e: "sha1_length_field (of_nat n) = be_bytes64 (of_nat (8 * n))"
  define ll :: u64 where "ll = of_nat (8 * n)"
  have "[0..<8] = [0, 1, 2, 3, 4, 5, 6, 7::nat]" by (simp add: upt_rec)
  with arg_cong [OF e, of "\<lambda>l. l ! 3"] have z: "ucast (drop_bit 32 ll) = (0::byte)"
    unfolding be_bytes64_def le_bytes64_def ll_def [symmetric]
    by (simp add: sha1_length_field_def Let_def)
  have u: "unat ll = 8 * n"
    using assms(2) by (simp only: ll_def unsigned_of_nat) (simp add: take_bit_nat_eq_self)
  have "unat (ucast (drop_bit 32 ll) :: byte) = take_bit 8 (8 * n div 2 ^ 32)"
    by (simp add: unsigned_ucast_eq unsigned_drop_bit_eq u drop_bit_eq_div take_bit_eq_mod min_def unat_div_distrib)
  moreover have "8 * n div 2 ^ 32 < 2 ^ 8" using assms(2) by (simp add: less_mult_imp_div_less)
  ultimately have "8 * n div 2 ^ 32 = 0"
    using z by (simp add: take_bit_nat_eq_self)
  with assms(1) show False by (simp add: div_eq_0_iff)
qed

theorem sha1_length_field_wrong_witness:
  "sha1_length_field (of_nat (2 ^ 29)) \<noteq> be_bytes64 (of_nat (8 * 2 ^ 29))"
  by (rule sha1_length_field_wrong) simp_all

end
