(* ===== verification/Hmac.thy ===== *)
theory Hmac imports Sha1 begin

text \<open>
  The HMAC library \<open>wmail/libhmac/hmac.c\<close> over a hash descriptor \<open>struct hmac_hashinfo\<close>, and
  the two descriptors, \<open>hmac_md5\<close> (\<open>wmail/md5/hmac.c\<close>) and \<open>hmac_sha1\<close> (\<open>wmail/sha1/hmac.c\<close>).
  A descriptor is a record of functions; what HMAC needs of it is the locale \<open>hmac_hash\<close>, which
  both are shown to satisfy. \<open>hh_allocacontext\<close> and \<open>hh_allocaval\<close> only lend memory to the
  function they call and are left out.
\<close>

subsection \<open>Definitions\<close>

record 'c hmac_hashinfo =
  hh_name :: "byte list"
  hh_B :: nat
  hh_L :: nat
  hh_init :: 'c
  hh_hash :: "'c \<Rightarrow> byte list \<Rightarrow> 'c"
  hh_endhash :: "'c \<Rightarrow> u64 \<Rightarrow> 'c"
  hh_getdigest :: "'c \<Rightarrow> byte list"
  hh_setdigest :: "byte list \<Rightarrow> 'c"

text \<open>
  The key, xored with a pad byte and filled up with it to the block size, goes to the hash
  through a 64-byte buffer. \<open>feed_key\<close> is one of the two loops of \<open>dokeycalc\<close>.
\<close>

definition feed_byte :: "'c hmac_hashinfo \<Rightarrow> byte list \<Rightarrow> byte \<Rightarrow> nat \<Rightarrow> 'c \<times> byte list \<Rightarrow> 'c \<times> byte list" where
  "feed_byte hh k pad l = (\<lambda>(c, buf).
     let buf = buf @ [(if l < length k then k ! l else 0) XOR pad]
     in if 64 \<le> length buf then (hh_hash hh c buf, []) else (c, buf))"

definition feed_key :: "'c hmac_hashinfo \<Rightarrow> byte list \<Rightarrow> byte \<Rightarrow> byte list" where
  "feed_key hh k pad =
     (case fold (feed_byte hh k pad) [0..<hh_B hh] (hh_init hh, []) of
        (c, buf) \<Rightarrow> hh_getdigest hh (if buf \<noteq> [] then hh_hash hh c buf else c))"

definition dokeycalc :: "'c hmac_hashinfo \<Rightarrow> byte list \<Rightarrow> byte list \<times> byte list" where
  "dokeycalc hh k = (feed_key hh k 0x5C, feed_key hh k 0x36)"

text \<open>A key longer than a block is replaced by its hash.\<close>

definition dohashkey :: "'c hmac_hashinfo \<Rightarrow> byte list \<Rightarrow> byte list \<times> byte list" where
  "dohashkey hh k =
     (let c = hh_init hh;
          c = hh_hash hh c k;
          c = hh_endhash hh c (of_nat (length k))
      in dokeycalc hh (hh_getdigest hh c))"

definition docalcc :: "'c hmac_hashinfo \<Rightarrow> byte list \<Rightarrow> byte list \<times> byte list" where
  "docalcc hh k = (if hh_B hh < length k then dohashkey hh k else dokeycalc hh k)"

definition hmac_hashkey :: "'c hmac_hashinfo \<Rightarrow> byte list \<Rightarrow> byte list \<times> byte list" where
  "hmac_hashkey hh k = docalcc hh k"

definition docalch :: "'c hmac_hashinfo \<Rightarrow> byte list \<Rightarrow> byte list \<Rightarrow> byte list \<Rightarrow> byte list" where
  "docalch hh t kxopad kxipad =
     (let c = hh_setdigest hh kxipad;
          c = hh_hash hh c t;
          c = hh_endhash hh c (of_nat (length t + hh_B hh));
          hash = hh_getdigest hh c;
          c = hh_setdigest hh kxopad;
          c = hh_hash hh c (take (hh_L hh) hash);
          c = hh_endhash hh c (of_nat (hh_L hh + hh_B hh))
      in hh_getdigest hh c)"

definition hmac_hashtext :: "'c hmac_hashinfo \<Rightarrow> byte list \<Rightarrow> byte list \<Rightarrow> byte list \<Rightarrow> byte list" where
  "hmac_hashtext hh t kxopad kxipad = docalch hh t kxopad kxipad"

definition hmac_md5 :: "MD5_CONTEXT hmac_hashinfo" where
  "hmac_md5 = \<lparr>hh_name = asc ''md5'', hh_B = 64, hh_L = 16, hh_init = md5_context_init,
     hh_hash = md5_context_hashstream, hh_endhash = md5_context_endstream,
     hh_getdigest = md5_context_digest, hh_setdigest = md5_context_restore\<rparr>"

definition hmac_sha1 :: "SHA1_CONTEXT hmac_hashinfo" where
  "hmac_sha1 = \<lparr>hh_name = asc ''sha1'', hh_B = 64, hh_L = 20, hh_init = sha1_context_init,
     hh_hash = sha1_context_hashstream, hh_endhash = sha1_context_endstream,
     hh_getdigest = sha1_context_digest, hh_setdigest = sha1_context_restore\<rparr>"

subsection \<open>What HMAC needs of a hash\<close>

text \<open>HMAC of RFC 2104, for a hash \<open>h\<close> with blocks of \<open>b\<close> bytes.\<close>

definition rfc2104 :: "(byte list \<Rightarrow> byte list) \<Rightarrow> nat \<Rightarrow> byte list \<Rightarrow> byte list \<Rightarrow> byte list" where
  "rfc2104 h b k t =
     (let k = (if b < length k then h k else k);
          k = k @ replicate (b - length k) 0
      in h (map (\<lambda>x. x XOR 0x5C) k @ h (map (\<lambda>x. x XOR 0x36) k @ t)))"

locale hmac_hash =
  fixes hh :: "'c hmac_hashinfo" and digest :: "byte list \<Rightarrow> byte list"
  assumes pieces: "foldl (hh_hash hh) (hh_init hh) ps = hh_hash hh (hh_init hh) (concat ps)"
    and resume: "length kb = hh_B hh \<Longrightarrow>
      hh_hash hh (hh_setdigest hh (hh_getdigest hh (hh_hash hh (hh_init hh) kb))) t =
      hh_hash hh (hh_init hh) (kb @ t)"
    and digest: "hh_getdigest hh (hh_endhash hh (hh_hash hh (hh_init hh) x) (of_nat (length x))) = digest x"
    and length_digest: "length (digest x) = hh_L hh"
    and L_le_B: "hh_L hh \<le> hh_B hh"
begin

lemma feed_byte_pair: "feed_byte hh k pad l (c, buf) =
   (let buf = buf @ [(if l < length k then k ! l else 0) XOR pad]
    in if 64 \<le> length buf then (hh_hash hh c buf, []) else (c, buf))"
  by (simp add: feed_byte_def)

lemma fold_feed_byte:
  "\<exists>ps buf. fold (feed_byte hh k pad) [0..<n] (hh_init hh, []) = (foldl (hh_hash hh) (hh_init hh) ps, buf) \<and>
     concat ps @ buf = map (\<lambda>l. (if l < length k then k ! l else 0) XOR pad) [0..<n]"
proof (induction n)
  case 0
  show ?case by (intro exI [of _ "[]"]) simp
next
  case (Suc n)
  let ?x = "(if n < length k then k ! n else 0) XOR pad"
  from Suc obtain ps buf where
    f: "fold (feed_byte hh k pad) [0..<n] (hh_init hh, []) = (foldl (hh_hash hh) (hh_init hh) ps, buf)"
    and c: "concat ps @ buf = map (\<lambda>l. (if l < length k then k ! l else 0) XOR pad) [0..<n]" by blast
  show ?case
  proof (cases "64 \<le> length (buf @ [?x])")
    case True
    with f c show ?thesis
      by (intro exI [of _ "ps @ [buf @ [?x]]"] exI [of _ "[]"]) (simp add: feed_byte_pair Let_def)
  next
    case False
    with f c show ?thesis
      by (intro exI [of _ ps] exI [of _ "buf @ [?x]"]) (simp add: feed_byte_pair Let_def)
  qed
qed

lemma key_block:
  "length k \<le> n \<Longrightarrow> map (\<lambda>l. (if l < length k then k ! l else 0) XOR pad) [0..<n] =
     map (\<lambda>x. x XOR pad) (k @ replicate (n - length k) 0)"
  by (rule nth_equalityI) (auto simp: nth_append)

lemma feed_key_digest:
  assumes "length k \<le> hh_B hh"
  shows "feed_key hh k pad = hh_getdigest hh (hh_hash hh (hh_init hh)
    (map (\<lambda>x. x XOR pad) (k @ replicate (hh_B hh - length k) 0)))"
proof -
  obtain ps buf where
    f: "fold (feed_byte hh k pad) [0..<hh_B hh] (hh_init hh, []) = (foldl (hh_hash hh) (hh_init hh) ps, buf)"
    and c: "concat ps @ buf = map (\<lambda>l. (if l < length k then k ! l else 0) XOR pad) [0..<hh_B hh]"
    using fold_feed_byte by blast
  have "hh_hash hh (foldl (hh_hash hh) (hh_init hh) ps) buf = hh_hash hh (hh_init hh) (concat ps @ buf)"
    using pieces [of "ps @ [buf]"] by simp
  with f c show ?thesis
    using pieces [of ps] by (auto simp: feed_key_def key_block [OF assms])
qed

lemma hmac_correct:
  "hmac_hashtext hh t (fst (hmac_hashkey hh k)) (snd (hmac_hashkey hh k)) = rfc2104 digest (hh_B hh) k t"
proof -
  define k' where "k' = (if hh_B hh < length k then digest k else k)"
  define K where "K pad = map (\<lambda>x. x XOR pad) (k' @ replicate (hh_B hh - length k') 0)" for pad
  have l: "length k' \<le> hh_B hh" using L_le_B by (simp add: k'_def length_digest)
  then have LK: "length (K pad) = hh_B hh" for pad by (simp add: K_def)
  have key: "hmac_hashkey hh k = (feed_key hh k' 0x5C, feed_key hh k' 0x36)"
    by (simp add: hmac_hashkey_def docalcc_def dohashkey_def dokeycalc_def k'_def digest Let_def)
  have part: "hh_getdigest hh (hh_endhash hh (hh_hash hh (hh_setdigest hh (feed_key hh k' pad)) x)
      (of_nat (length x + hh_B hh))) = digest (K pad @ x)" for pad x
    using digest [of "K pad @ x"] LK [of pad]
    by (simp only: feed_key_digest [OF l] resume flip: K_def) (simp add: add.commute)
  have "hmac_hashtext hh t (feed_key hh k' 0x5C) (feed_key hh k' 0x36) =
      digest (K 0x5C @ digest (K 0x36 @ t))"
    using part [of "0x36" t] part [of "0x5C" "digest (K 0x36 @ t)"]
    by (simp add: hmac_hashtext_def docalch_def Let_def length_digest)
  then show ?thesis by (simp add: key rfc2104_def K_def k'_def Let_def)
qed

lemma length_hmac:
  "length (hmac_hashtext hh t (fst (hmac_hashkey hh k)) (snd (hmac_hashkey hh k))) = hh_L hh"
  by (simp add: hmac_correct rfc2104_def Let_def length_digest)

end

subsection \<open>The two hashes\<close>

lemma md5_foldl: "length (blk c) < BLOCK_SIZE \<Longrightarrow>
   foldl md5_context_hashstream c ps = md5_context_hashstream c (concat ps)"
proof (induction ps arbitrary: c)
  case Nil
  show ?case by (simp add: md5_context_hashstream_def)
next
  case (Cons p ps)
  then have "length (blk (md5_context_hashstream c p)) < BLOCK_SIZE"
    by (simp add: md5_context_hashstream_def hashstream_short)
  with Cons show ?case by (simp add: md5_stream_append)
qed

lemma sha1_foldl: "length (blk c) < BLOCK_SIZE \<Longrightarrow>
   foldl sha1_context_hashstream c ps = sha1_context_hashstream c (concat ps)"
proof (induction ps arbitrary: c)
  case Nil
  show ?case by (simp add: sha1_context_hashstream_def)
next
  case (Cons p ps)
  then have "length (blk (sha1_context_hashstream c p)) < BLOCK_SIZE"
    by (simp add: sha1_context_hashstream_def hashstream_short)
  with Cons show ?case by (simp add: sha1_stream_append)
qed

lemma md5_resume:
  assumes "length kb = 64"
  shows "md5_context_hashstream (md5_context_restore (md5_context_digest
           (md5_context_hashstream md5_context_init kb))) t =
         md5_context_hashstream md5_context_init (kb @ t)"
proof -
  let ?c = "md5_context_hashstream md5_context_init kb"
  have i: "length (blk md5_context_init) < BLOCK_SIZE"
    by (simp add: md5_context_init_def BLOCK_SIZE_def)
  have "length (blk ?c) = 0"
    using assms by (simp add: md5_context_hashstream_def md5_context_init_def blk_hashstream BLOCK_SIZE_def)
  then have "?c\<lparr>blk := []\<rparr> = ?c" by simp
  with i show ?thesis by (simp add: md5_restore_digest md5_stream_append)
qed

lemma sha1_resume:
  assumes "length kb = 64"
  shows "sha1_context_hashstream (sha1_context_restore (sha1_context_digest
           (sha1_context_hashstream sha1_context_init kb))) t =
         sha1_context_hashstream sha1_context_init (kb @ t)"
proof -
  let ?c = "sha1_context_hashstream sha1_context_init kb"
  have i: "length (blk sha1_context_init) < BLOCK_SIZE"
    by (simp add: sha1_context_init_def BLOCK_SIZE_def)
  have "length (blk ?c) = 0"
    using assms by (simp add: sha1_context_hashstream_def sha1_context_init_def blk_hashstream BLOCK_SIZE_def)
  then have "?c\<lparr>blk := []\<rparr> = ?c" by simp
  moreover have "length (chain ?c) = 5"
    by (simp add: sha1_init_absorb context_of_def split_beta length_absorb_sha1 sha1_init_H_def)
  ultimately show ?thesis using i by (simp add: sha1_restore_digest sha1_stream_append)
qed

interpretation md5_hmac: hmac_hash hmac_md5 md5_digest
proof
  show "foldl (hh_hash hmac_md5) (hh_init hmac_md5) ps = hh_hash hmac_md5 (hh_init hmac_md5) (concat ps)" for ps
    by (simp add: hmac_md5_def md5_foldl md5_context_init_def BLOCK_SIZE_def)
qed (simp_all add: hmac_md5_def md5_resume md5_digest_def Let_def)

interpretation sha1_hmac: hmac_hash hmac_sha1 sha1_digest
proof
  show "foldl (hh_hash hmac_sha1) (hh_init hmac_sha1) ps = hh_hash hmac_sha1 (hh_init hmac_sha1) (concat ps)" for ps
    by (simp add: hmac_sha1_def sha1_foldl sha1_context_init_def BLOCK_SIZE_def)
qed (simp_all add: hmac_sha1_def sha1_resume sha1_digest_def Let_def)

subsection \<open>Properties\<close>

text \<open>
  C32. HMAC of a text under the two saved states \<open>hmac_hashkey\<close> makes of a key is that of
  RFC 2104, for both hashes and keys of any length: resuming from the states gives the hash of
  the padded key followed by the text.
\<close>

theorem hmac_rfc2104:
  "hmac_hashtext hmac_md5 t (fst (hmac_hashkey hmac_md5 k)) (snd (hmac_hashkey hmac_md5 k)) =
     rfc2104 md5_digest 64 k t \<and>
   hmac_hashtext hmac_sha1 t (fst (hmac_hashkey hmac_sha1 k)) (snd (hmac_hashkey hmac_sha1 k)) =
     rfc2104 sha1_digest 64 k t"
  using md5_hmac.hmac_correct [of t k] sha1_hmac.hmac_correct [of t k]
  by (simp add: hmac_md5_def hmac_sha1_def)

end
