(* ===== verification/Cram.thy ===== *)
theory Cram imports Authsasl Hmac begin

text \<open>
  Challenge-response authentication with HMAC, \<open>wmail/authlib\<close>: the server's half of the SASL
  exchange (\<open>authsaslcram.c\<close>), the client (\<open>authsaslclientcram.c\<close> and its two wrappers), taking
  the authentication data apart and verifying the response (\<open>cramlib.c\<close>), the secret the server
  stores (\<open>hmacpw\<close> of \<open>authuserdbpwd.c\<close>), and the two dispatchers over the configured mechanisms
  (\<open>authsasl.c\<close>, \<open>authsaslclient.c\<close>).

  \<open>hmac_list\<close> and \<open>SASL_LIST\<close> are generated when the program is configured: they are arguments.
\<close>

subsection \<open>The installed hashes\<close>

datatype hmac_alg = HMAC_MD5 | HMAC_SHA1

fun alg_name :: "hmac_alg \<Rightarrow> byte list" where
  "alg_name HMAC_MD5 = hh_name hmac_md5"
| "alg_name HMAC_SHA1 = hh_name hmac_sha1"

fun alg_L :: "hmac_alg \<Rightarrow> nat" where
  "alg_L HMAC_MD5 = hh_L hmac_md5"
| "alg_L HMAC_SHA1 = hh_L hmac_sha1"

fun alg_hashkey :: "hmac_alg \<Rightarrow> byte list \<Rightarrow> byte list \<times> byte list" where
  "alg_hashkey HMAC_MD5 k = hmac_hashkey hmac_md5 k"
| "alg_hashkey HMAC_SHA1 k = hmac_hashkey hmac_sha1 k"

fun alg_hashtext :: "hmac_alg \<Rightarrow> byte list \<Rightarrow> byte list \<Rightarrow> byte list \<Rightarrow> byte list" where
  "alg_hashtext HMAC_MD5 t kxopad kxipad = hmac_hashtext hmac_md5 t kxopad kxipad"
| "alg_hashtext HMAC_SHA1 t kxopad kxipad = hmac_hashtext hmac_sha1 t kxopad kxipad"

text \<open>The loop over \<open>hmac_list\<close> that looks for a name.\<close>

fun find_hmac :: "hmac_alg list \<Rightarrow> byte list \<Rightarrow> hmac_alg option" where
  "find_hmac [] name = None"
| "find_hmac (h # hs) name = (if alg_name h = name then Some h else find_hmac hs name)"

subsection \<open>Verifying (cramlib.c)\<close>

definition nybble :: "byte \<Rightarrow> int" where
  "nybble c =
     (if ch CHR ''0'' \<le> c \<and> c \<le> ch CHR ''9'' then uint c - 48
      else if ch CHR ''a'' \<le> c \<and> c \<le> ch CHR ''f'' then uint c - 97 + 10
      else if ch CHR ''A'' \<le> c \<and> c \<le> ch CHR ''F'' then uint c - 65 + 10
      else -1)"

text \<open>The stored secret, two hexadecimal digits a byte.\<close>

fun hex_context :: "byte list \<Rightarrow> byte list option" where
  "hex_context (x # y # r) =
     (let a = nybble x; b = nybble y in
      if a < 0 \<or> b < 0 then None else map_option (Cons (of_int (a * 16 + b))) (hex_context r))"
| "hex_context _ = Some []"

text \<open>The response is compared digit pair by digit pair, as \<open>(unsigned char)(a*16+b)\<close>.\<close>

fun response_matches :: "byte list \<Rightarrow> byte list \<Rightarrow> bool" where
  "response_matches (x # y # r) (h # hs) =
     (if of_int (nybble x * 16 + nybble y) \<noteq> h then False else response_matches r hs)"
| "response_matches _ _ = True"

definition auth_verify_cram :: "bool \<Rightarrow> hmac_alg \<Rightarrow> byte list \<Rightarrow> byte list \<Rightarrow> byte list \<Rightarrow> int" where
  "auth_verify_cram mem hash challenge response hashsecret =
     (if length hashsecret \<noteq> alg_L hash * 4 \<or> length response \<noteq> alg_L hash * 2 then -1
      else if \<not> mem then -1
      else case hex_context hashsecret of
        None \<Rightarrow> -1
      | Some context \<Rightarrow>
          let h = alg_hashtext hash challenge (take (alg_L hash) context) (drop (alg_L hash) context)
          in if response_matches response h then 0 else -1)"

text \<open>\<open>strtok\<close>: the next token and what follows its delimiter.\<close>

definition strtok :: "byte set \<Rightarrow> byte list \<Rightarrow> (byte list \<times> byte list) option" where
  "strtok delim s =
     (let t = dropWhile (\<lambda>c. c \<in> delim) s; tok = takeWhile (\<lambda>c. c \<notin> delim) t in
      if t = [] then None else Some (tok, drop (length tok + 1) t))"

lemma strtok_length: "strtok d s = Some (t, r) \<Longrightarrow> length r < length s"
proof -
  define u where "u = dropWhile (\<lambda>c. c \<in> d) s"
  assume "strtok d s = Some (t, r)"
  then have "u \<noteq> []" "r = drop (length t + 1) u"
    by (auto simp: strtok_def Let_def simp flip: u_def split: if_splits)
  moreover have "length u \<le> length s" by (simp add: u_def length_dropWhile_le)
  ultimately show ?thesis by (cases u) simp_all
qed

datatype cram_errno = EPERM | EACCES | ENOSPC | EINVAL

definition auth_get_cram :: "hmac_alg list \<Rightarrow> byte list \<Rightarrow> byte list
    \<Rightarrow> cram_errno + hmac_alg \<times> byte list \<times> byte list \<times> byte list" where
  "auth_get_cram hmac_list authtype authdata =
     (if take 5 authtype \<noteq> asc ''cram-'' then Inl EPERM
      else case strtok {NL} authdata of
        None \<Rightarrow> Inl EPERM
      | Some (challenge, rest) \<Rightarrow>
          (case strtok {NL} rest of
             None \<Rightarrow> Inl EPERM
           | Some (response, rest') \<Rightarrow>
               (case find_hmac hmac_list (drop 5 authtype) of
                  None \<Rightarrow> Inl EACCES
                | Some h \<Rightarrow>
                    (case authsasl_frombase64 challenge of
                       None \<Rightarrow> Inl EACCES
                     | Some challenge \<Rightarrow>
                         (case authsasl_frombase64 response of
                            None \<Rightarrow> Inl EACCES
                          | Some response \<Rightarrow>
                              let user = takeWhile (\<lambda>c. c \<noteq> ch CHR '' '') response in
                              if length response \<le> length user then Inl EACCES
                              else Inr (h, cstr user, cstr challenge,
                                cstr (drop (length user + 1) response)))))))"

subsection \<open>The secret\<close>

definition cram_xdigit :: "byte list" where
  "cram_xdigit = asc ''0123456789abcdef''"

definition hex_text :: "byte list \<Rightarrow> byte list" where
  "hex_text bs = concat (map (\<lambda>c. [cram_xdigit ! unat (drop_bit 4 c AND 0x0F), cram_xdigit ! unat (c AND 0x0F)]) bs)"

text \<open>A failing \<open>malloc\<close> ends the program here.\<close>

definition hmacpw :: "hmac_alg list \<Rightarrow> byte list \<Rightarrow> byte list \<Rightarrow> byte list option" where
  "hmacpw hmac_list pw hash =
     (case find_hmac hmac_list hash of
        None \<Rightarrow> None
      | Some hmac \<Rightarrow> (case alg_hashkey hmac pw of (p1, p2) \<Rightarrow> Some (hex_text (p1 @ p2))))"

subsection \<open>The SASL exchange\<close>

text \<open>\<open>randtoken\<close> is what \<open>random128\<close> returns, \<open>hostname\<close> what \<open>gethostname\<close> does.\<close>

definition authsasl_cram :: "(nat \<Rightarrow> bool) \<Rightarrow> byte list \<Rightarrow> byte list option \<Rightarrow> byte list
    \<Rightarrow> byte list option \<Rightarrow> 's getresp \<Rightarrow> 's \<Rightarrow> 's sasl_result" where
  "authsasl_cram mem randtoken hostname method initresponse getresp s =
     (if at (or_empty initresponse) 0 \<noteq> 0 then (AUTHSASL_ERROR, None, s)
      else let hostnamebuf = (case hostname of None \<Rightarrow> asc ''cram'' | Some h \<Rightarrow> h) in
        if \<not> mem 0 then (AUTHSASL_ERROR, None, s)
        else let challenge = asc ''<'' @ randtoken @ asc ''@'' @ hostnamebuf @ asc ''>'' in
          case authsasl_tobase64 (mem 1) challenge of
            None \<Rightarrow> (AUTHSASL_ERROR, None, s)
          | Some challenge_base64 \<Rightarrow>
              (case getresp challenge_base64 s of
                 (None, s) \<Rightarrow> (AUTHSASL_ERROR, None, s)
               | (Some response, s) \<Rightarrow>
                   if at response 0 = ch CHR ''*'' then (AUTHSASL_ABORTED, None, s)
                   else if \<not> mem 2 then (AUTHSASL_ERROR, None, s)
                   else if \<not> mem 3 then (AUTHSASL_ERROR, None, s)
                   else (AUTHSASL_OK, Some (map tolower method,
                     challenge_base64 @ [NL] @ response @ [NL]), s)))"

definition authsaslclient_cram :: "(nat \<Rightarrow> bool) \<Rightarrow> 's authsaslclientinfo \<Rightarrow> byte list \<Rightarrow> hmac_alg
    \<Rightarrow> 's \<Rightarrow> int \<times> 's" where
  "authsaslclient_cram mem info challenge hashinfo s =
     (if \<not> mem 0 then (AUTHSASL_ERROR, s)
      else case authsasl_frombase64 challenge of
        None \<Rightarrow> (AUTHSASL_ERROR, s)
      | Some base64buf \<Rightarrow>
          if \<not> mem 1 then (AUTHSASL_ERROR, s)
          else case alg_hashkey hashinfo (or_empty (password info)) of (kxopad, kxipad) \<Rightarrow>
            let h = alg_hashtext hashinfo base64buf kxopad kxipad in
            if \<not> mem 2 then (AUTHSASL_ERROR, s)
            else case authsasl_tobase64 (mem 3)
                (or_empty (userid info) @ asc '' '' @ hex_text (take (alg_L hashinfo) h)) of
              None \<Rightarrow> (AUTHSASL_ERROR, s)
            | Some keybuf \<Rightarrow> final_conv_func info keybuf s)"

definition authsaslclient_crammd5 :: "(nat \<Rightarrow> bool) \<Rightarrow> 's authsaslclientinfo \<Rightarrow> 's \<Rightarrow> int \<times> 's" where
  "authsaslclient_crammd5 mem info s =
     (case start_conv_func info (asc ''CRAM-MD5'') s of
        (None, s) \<Rightarrow> (AUTHSASL_CANCELLED, s)
      | (Some p, s) \<Rightarrow> authsaslclient_cram mem info p HMAC_MD5 s)"

definition authsaslclient_cramsha1 :: "(nat \<Rightarrow> bool) \<Rightarrow> 's authsaslclientinfo \<Rightarrow> 's \<Rightarrow> int \<times> 's" where
  "authsaslclient_cramsha1 mem info s =
     (case start_conv_func info (asc ''CRAM-SHA1'') s of
        (None, s) \<Rightarrow> (AUTHSASL_CANCELLED, s)
      | (Some p, s) \<Rightarrow> authsaslclient_cram mem info p HMAC_SHA1 s)"

subsection \<open>The dispatchers\<close>

datatype sasl_method = SASL_PLAIN | SASL_LOGIN | SASL_CRAM_MD5 | SASL_CRAM_SHA1

fun find_method :: "(byte list \<times> sasl_method) list \<Rightarrow> byte list \<Rightarrow> sasl_method option" where
  "find_method [] p = None"
| "find_method ((name, m) # l) p = (if p = name then Some m else find_method l p)"

text \<open>
  \<open>mem\<close> counts from the copy of the method's name on. The code 0 of a failing copy, which is that of
  success, is the source's.
\<close>

definition authsasl :: "(byte list \<times> sasl_method) list \<Rightarrow> (nat \<Rightarrow> bool) \<Rightarrow> byte list \<Rightarrow> byte list option
    \<Rightarrow> byte list \<Rightarrow> byte list option \<Rightarrow> 's getresp \<Rightarrow> 's \<Rightarrow> 's sasl_result" where
  "authsasl sasl_list mem randtoken hostname method initreply callback_func s =
     (if \<not> mem 0 then (0, None, s)
      else case find_method sasl_list (map toupper method) of
        None \<Rightarrow> (-1, None, s)
      | Some SASL_PLAIN \<Rightarrow> authsasl_plain (\<lambda>k. mem (Suc k)) initreply callback_func s
      | Some SASL_LOGIN \<Rightarrow> authsasl_login (\<lambda>k. mem (Suc k)) initreply callback_func s
      | Some _ \<Rightarrow> authsasl_cram (\<lambda>k. mem (Suc k)) randtoken hostname method initreply callback_func s)"

definition sasl_separators :: "byte set" where
  "sasl_separators = {ch CHR '' '', 9, CR, NL}"

text \<open>
  The client takes the first configured method that its list offers. The loop calls \<open>strtok\<close>
  with the buffer once and with a null pointer from then on, where it goes on behind the token.
\<close>

function offers :: "byte list \<Rightarrow> byte list \<Rightarrow> bool" where
  "offers methodbuf name =
     (case strtok sasl_separators methodbuf of
        None \<Rightarrow> False
      | Some (p, rest) \<Rightarrow> if p = name then True else offers rest name)"
  by pat_completeness auto
termination
  by (relation "measure (\<lambda>(b, n). length b)") (auto dest: strtok_length)

declare offers.simps [simp del]

fun first_offered :: "(byte list \<times> sasl_method) list \<Rightarrow> byte list \<Rightarrow> sasl_method option" where
  "first_offered [] methodbuf = None"
| "first_offered ((name, m) # l) methodbuf =
     (if offers methodbuf name then Some m else first_offered l methodbuf)"

definition authsaslclient :: "(byte list \<times> sasl_method) list \<Rightarrow> (nat \<Rightarrow> bool) \<Rightarrow> 's authsaslclientinfo
    \<Rightarrow> 's \<Rightarrow> int \<times> 's" where
  "authsaslclient sasl_list mem info s =
     (case sasl_funcs info of
        None \<Rightarrow> (AUTHSASL_NOMETHODS, s)
      | Some funcs \<Rightarrow>
          if \<not> conv_funcs_set info then (AUTHSASL_NOMETHODS, s)
          else if \<not> mem 0 then (AUTHSASL_NOMETHODS, s)
          else case first_offered sasl_list (map toupper funcs) of
            None \<Rightarrow> (AUTHSASL_NOMETHODS, s)
          | Some SASL_PLAIN \<Rightarrow> authsaslclient_plain (\<lambda>k. mem (Suc k)) info s
          | Some SASL_LOGIN \<Rightarrow> authsaslclient_login (\<lambda>k. mem (Suc k)) info s
          | Some SASL_CRAM_MD5 \<Rightarrow> authsaslclient_crammd5 (\<lambda>k. mem (Suc k)) info s
          | Some SASL_CRAM_SHA1 \<Rightarrow> authsaslclient_cramsha1 (\<lambda>k. mem (Suc k)) info s)"

subsection \<open>Hexadecimal text\<close>

lemma cram_xdigit_nth: "n < 16 \<Longrightarrow> nybble (cram_xdigit ! n) = int n"
proof -
  assume "n < 16"
  then have "n \<in> set [0..<16]" by simp
  moreover have "\<forall>n \<in> set [0..<16]. nybble (cram_xdigit ! n) = int n"
    by (simp add: upt_rec cram_xdigit_def nybble_def)
  ultimately show ?thesis by blast
qed

lemma nybbles_join:
  "(of_int (nybble (cram_xdigit ! unat (drop_bit 4 c AND 0x0F)) * 16 +
      nybble (cram_xdigit ! unat (c AND 0x0F))) :: byte) = c"
proof -
  have "(of_int (int (unat (drop_bit 4 c AND 0x0F)) * 16 + int (unat (c AND 0x0F))) :: byte) =
      of_nat (unat (drop_bit 4 c AND 0x0F) * 16 + unat (c AND 0x0F))"
    by (simp only: of_int_add of_int_mult of_int_of_nat_eq of_nat_add of_nat_mult) simp
  also have "\<dots> = c" by (rule nibbles_join)
  finally show ?thesis by (simp only: cram_xdigit_nth nibble_bounds)
qed

lemma hex_text_Cons: "hex_text (c # bs) = cram_xdigit ! unat (drop_bit 4 c AND 0x0F) #
    cram_xdigit ! unat (c AND 0x0F) # hex_text bs"
  by (simp add: hex_text_def)

lemma hex_text_Nil: "hex_text [] = []"
  by (simp add: hex_text_def)

lemma length_hex_text: "length (hex_text bs) = 2 * length bs"
  by (induction bs) (simp_all add: hex_text_Cons hex_text_Nil)

lemma hex_context_hex_text: "hex_context (hex_text bs) = Some bs"
proof (induction bs)
  case Nil
  show ?case by (simp add: hex_text_Nil)
next
  case (Cons c bs)
  have "0 \<le> nybble (cram_xdigit ! unat (drop_bit 4 c AND 0x0F))" "0 \<le> nybble (cram_xdigit ! unat (c AND 0x0F))"
    by (simp_all only: cram_xdigit_nth nibble_bounds of_nat_0_le_iff)
  with Cons show ?case
    by (simp only: hex_text_Cons hex_context.simps Let_def nybbles_join not_less [symmetric]) simp
qed

lemma response_matches_hex_text:
  "length bs = length hs \<Longrightarrow> response_matches (hex_text bs) hs \<longleftrightarrow> bs = hs"
proof (induction bs hs rule: list_induct2)
  case Nil
  show ?case by (simp add: hex_text_Nil)
next
  case (Cons c bs h hs)
  then show ?case by (simp only: hex_text_Cons response_matches.simps nybbles_join) simp
qed

lemma zero_notin_hex_text: "0 \<notin> set (hex_text bs)"
proof (induction bs)
  case (Cons c bs)
  have "cram_xdigit ! n \<noteq> 0" if "n < 16" for n
    using cram_xdigit_nth [OF that] by (auto simp: nybble_def)
  then have "cram_xdigit ! unat (drop_bit 4 c AND 0x0F) \<noteq> 0" "cram_xdigit ! unat (c AND 0x0F) \<noteq> 0"
    using nibble_bounds by blast+
  with Cons show ?case by (simp add: hex_text_Cons)
qed (simp add: hex_text_Nil)

subsection \<open>The HMAC of the installed hashes\<close>

definition alg_hmac :: "hmac_alg \<Rightarrow> byte list \<Rightarrow> byte list \<Rightarrow> byte list" where
  "alg_hmac h k t = rfc2104 (case h of HMAC_MD5 \<Rightarrow> md5_digest | HMAC_SHA1 \<Rightarrow> sha1_digest) 64 k t"

lemma alg_hashtext_hmac:
  "alg_hashkey h k = (p1, p2) \<Longrightarrow> alg_hashtext h t p1 p2 = alg_hmac h k t"
  using md5_hmac.hmac_correct [of t k] sha1_hmac.hmac_correct [of t k]
  by (cases h) (auto simp: alg_hmac_def hmac_md5_def hmac_sha1_def)

lemma length_alg_hmac: "length (alg_hmac h k t) = alg_L h"
  using md5_hmac.length_digest sha1_hmac.length_digest
  by (cases h) (simp_all add: alg_hmac_def rfc2104_def Let_def)

lemma length_feed_key: "length (feed_key hmac_md5 k pad) = 16" "length (feed_key hmac_sha1 k pad) = 20"
  by (simp_all add: feed_key_def hmac_md5_def hmac_sha1_def split: prod.split)

lemma length_alg_hashkey: "alg_hashkey h k = (p1, p2) \<Longrightarrow> length p1 = alg_L h \<and> length p2 = alg_L h"
  by (cases h) (auto simp: hmac_hashkey_def docalcc_def dohashkey_def dokeycalc_def Let_def
      length_feed_key hmac_md5_def [THEN arg_cong, of hh_L] hmac_sha1_def [THEN arg_cong, of hh_L] split: if_splits)

text \<open>Verifying a response made with one password against the secret of another.\<close>

lemma auth_verify_cram_hmac:
  assumes "hmacpw l pw' (alg_name h) = Some secret" and "find_hmac l (alg_name h) = Some h"
  shows "auth_verify_cram True h chal (hex_text (alg_hmac h pw chal)) secret =
    (if alg_hmac h pw chal = alg_hmac h pw' chal then 0 else -1)"
proof -
  obtain p1 p2 where k: "alg_hashkey h pw' = (p1, p2)" by (metis surj_pair)
  with assms have s: "secret = hex_text (p1 @ p2)" by (auto simp: hmacpw_def)
  note l = length_alg_hashkey [OF k]
  have "response_matches (hex_text (alg_hmac h pw chal)) (alg_hmac h pw' chal) \<longleftrightarrow>
      alg_hmac h pw chal = alg_hmac h pw' chal"
    by (rule response_matches_hex_text) (simp add: length_alg_hmac)
  with l show ?thesis
    by (simp add: auth_verify_cram_def s length_hex_text length_alg_hmac hex_context_hex_text
        alg_hashtext_hmac [OF k] Let_def)
qed

subsection \<open>Taking the authentication data apart\<close>

lemma strtok_NL: "t \<noteq> [] \<Longrightarrow> NL \<notin> set t \<Longrightarrow> strtok {NL} (t @ NL # r) = Some (t, r)"
proof -
  assume t: "t \<noteq> []" "NL \<notin> set t"
  then have "dropWhile (\<lambda>c. c \<in> {NL}) (t @ NL # r) = t @ NL # r" by (cases t) auto
  moreover have "takeWhile (\<lambda>c. c \<notin> {NL}) (t @ NL # r) = t"
    using t by (subst takeWhile_append2) auto
  ultimately show ?thesis using t by (simp add: strtok_def Let_def del: NL_def)
qed

lemma NL_notin_base64_quads: "NL \<notin> set (base64_quads x)" "0 \<notin> set (base64_quads x)"
    "42 \<notin> set (base64_quads x)"
proof -
  obtain b n where b: "base64_quads x = b @ replicate n 61" "set b \<subseteq> set base64tab"
    using base64_quads_split [of x] by (elim exE conjE)
  moreover have "42 \<notin> set base64tab" by (simp add: base64tab_def)
  ultimately show "NL \<notin> set (base64_quads x)" "0 \<notin> set (base64_quads x)" "42 \<notin> set (base64_quads x)"
    using base64tab_neq by auto
qed

lemma base64_quads_nonempty: "x \<noteq> [] \<Longrightarrow> base64_quads x \<noteq> []"
  using length_base64_quads [of x] by (cases x) auto

lemma auth_get_cram_data:
  assumes "find_hmac l name = Some h" and "0 \<notin> set chal" and "chal \<noteq> []"
    and "0 \<notin> set user" and "ch CHR '' '' \<notin> set user" and "0 \<notin> set resp"
  shows "auth_get_cram l (asc ''cram-'' @ name)
      (base64_quads chal @ [NL] @ base64_quads (user @ asc '' '' @ resp) @ [NL]) = Inr (h, user, chal, resp)"
proof -
  let ?r = "user @ asc '' '' @ resp"
  have s1: "strtok {NL} (base64_quads chal @ [NL] @ base64_quads ?r @ [NL]) =
      Some (base64_quads chal, base64_quads ?r @ [NL])"
    using strtok_NL [OF base64_quads_nonempty [OF assms(3)] NL_notin_base64_quads(1)] by simp
  have s2: "strtok {NL} (base64_quads ?r @ [NL]) = Some (base64_quads ?r, [])"
    by (rule strtok_NL) (simp_all add: base64_quads_nonempty NL_notin_base64_quads del: NL_def)
  have tw: "takeWhile (\<lambda>c. c \<noteq> ch CHR '' '') ?r = user"
    using assms(5) by (subst takeWhile_append2) auto
  show ?thesis
    using assms unfolding auth_get_cram_def s1
    by (simp add: s2 [simplified] authsasl_frombase64_quads tw [simplified] cstr_id Let_def)
qed

subsection \<open>Properties\<close>

definition cram_info :: "byte list \<Rightarrow> byte list \<Rightarrow> byte list authsaslclientinfo" where
  "cram_info user pw = \<lparr>userid = Some user, password = Some pw, sasl_funcs = Some (asc ''CRAM-MD5''),
     conv_funcs_set = True, start_conv_func = (\<lambda>_ s. (Some s, s)), conv_func = (\<lambda>_ s. (None, s)),
     final_conv_func = (\<lambda>q s. (0, q)), plain_conv_func = (\<lambda>_ _ s. (0, s))\<rparr>"

text \<open>The client's answer to a challenge: the text it passes to \<open>final_conv_func\<close>.\<close>

definition cram_answer :: "hmac_alg \<Rightarrow> byte list \<Rightarrow> byte list \<Rightarrow> byte list \<Rightarrow> byte list" where
  "cram_answer h user pw chal64 = snd (authsaslclient_cram (\<lambda>_. True) (cram_info user pw) chal64 h [])"

lemma cram_answer_quads:
  "cram_answer h user pw (base64_quads chal) =
     base64_quads (user @ asc '' '' @ hex_text (alg_hmac h pw chal))"
proof -
  obtain p1 p2 where k: "alg_hashkey h pw = (p1, p2)" by (metis surj_pair)
  have "take (alg_L h) (alg_hmac h pw chal) = alg_hmac h pw chal" by (simp add: length_alg_hmac)
  then show ?thesis
    by (simp add: cram_answer_def authsaslclient_cram_def cram_info_def or_empty_def k
        authsasl_frombase64_quads authsasl_tobase64_quads alg_hashtext_hmac [OF k] Let_def)
qed

text \<open>
  C10. The CRAM exchange from end to end, for both hashes: the server's challenge, answered by
  the client with its user id and password, yields authentication data from which the server
  takes the user id and a response, and that response verifies against the stored secret of a
  password exactly when both passwords give the challenge the same HMAC of RFC 2104, so always
  for the right password.
\<close>

theorem cram_exchange:
  assumes u: "0 \<notin> set user" "ch CHR '' '' \<notin> set user" and rh: "0 \<notin> set rnd" "0 \<notin> set host"
    and l: "find_hmac l (alg_name h) = Some h" and m: "map tolower meth = asc ''cram-'' @ alg_name h"
  shows "\<exists>data chal resp.
    authsasl_cram (\<lambda>_. True) rnd (Some host) meth None (\<lambda>c s. (Some (cram_answer h user pw c), s)) t =
      (AUTHSASL_OK, Some (asc ''cram-'' @ alg_name h, data), t) \<and>
    auth_get_cram l (asc ''cram-'' @ alg_name h) data = Inr (h, user, chal, resp) \<and>
    (\<forall>pw' secret. hmacpw l pw' (alg_name h) = Some secret \<longrightarrow>
       (auth_verify_cram True h chal resp secret = 0) = (alg_hmac h pw chal = alg_hmac h pw' chal))"
proof -
  define chal where "chal = asc ''<'' @ rnd @ asc ''@'' @ host @ asc ''>''"
  define resp where "resp = hex_text (alg_hmac h pw chal)"
  define ans where "ans = base64_quads (user @ asc '' '' @ resp)"
  have c: "0 \<notin> set chal" "chal \<noteq> []" using rh by (simp_all add: chal_def)
  have a: "cram_answer h user pw (base64_quads chal) = ans"
    by (simp only: cram_answer_quads resp_def ans_def)
  have "ans \<noteq> []" by (simp add: ans_def base64_quads_nonempty)
  then have "at ans 0 \<in> set ans" by (simp add: at_def)
  then have "at ans 0 \<noteq> 42" using NL_notin_base64_quads(3) by (auto simp: ans_def)
  then have s: "authsasl_cram (\<lambda>_. True) rnd (Some host) meth None
      (\<lambda>c s. (Some (cram_answer h user pw c), s)) t =
      (AUTHSASL_OK, Some (asc ''cram-'' @ alg_name h, base64_quads chal @ [NL] @ ans @ [NL]), t)"
    by (simp only: authsasl_cram_def or_empty_def option.case Let_def authsasl_tobase64_quads
        flip: chal_def) (simp add: a m at_def)
  have "auth_get_cram l (asc ''cram-'' @ alg_name h) (base64_quads chal @ [NL] @ ans @ [NL]) =
      Inr (h, user, chal, resp)"
    unfolding ans_def by (rule auth_get_cram_data [OF l c u]) (simp add: resp_def zero_notin_hex_text)
  moreover have "(auth_verify_cram True h chal resp secret = 0) = (alg_hmac h pw chal = alg_hmac h pw' chal)"
    if "hmacpw l pw' (alg_name h) = Some secret" for pw' secret
    using auth_verify_cram_hmac [OF that l, of chal pw] by (simp add: resp_def)
  ultimately show ?thesis using s by blast
qed

theorem cram_exchange_witness:
  "\<exists>data chal resp.
    authsasl_cram (\<lambda>_. True) (asc ''8f3a'') (Some (asc ''mail'')) (asc ''CRAM-MD5'') None
      (\<lambda>c s. (Some (cram_answer HMAC_MD5 (asc ''bob'') (asc ''xyzzy'') c), s)) () =
      (AUTHSASL_OK, Some (asc ''cram-'' @ alg_name HMAC_MD5, data), ()) \<and>
    auth_get_cram [HMAC_SHA1, HMAC_MD5] (asc ''cram-'' @ alg_name HMAC_MD5) data =
      Inr (HMAC_MD5, asc ''bob'', chal, resp) \<and>
    (\<forall>pw' secret. hmacpw [HMAC_SHA1, HMAC_MD5] pw' (alg_name HMAC_MD5) = Some secret \<longrightarrow>
       (auth_verify_cram True HMAC_MD5 chal resp secret = 0) =
       (alg_hmac HMAC_MD5 (asc ''xyzzy'') chal = alg_hmac HMAC_MD5 pw' chal))"
  by (rule cram_exchange) (simp_all add: hmac_md5_def hmac_sha1_def tolower_def isupper_def)

text \<open>
  \<open>auth_verify_cram\<close> does not reject a response that holds characters other than
  hexadecimal digits: the code -1 of such a character enters the arithmetic, so that other
  texts than the 32 or 40 digits stand for the same digest.
\<close>

theorem response_non_hex:
  "nybble (ch CHR ''g'') = -1 \<and> response_matches (asc ''1g'') [0x0F] \<and> response_matches (asc ''0f'') [0x0F]"
  by (simp add: nybble_def)

end
