(* ===== verification/Passwd.thy ===== *)
theory Passwd imports Cram begin

text \<open>
  Stored passwords: the MD5 and SHA1 hashes in base64 (\<open>md5/md5_hash.c\<close>, \<open>sha1/sha1_hash.c\<close>),
  the MD5 crypt (\<open>md5/redhat-crypt-md5.c\<close>), making an encrypted password
  (\<open>authlib/cryptpassword.c\<close>) and checking one (\<open>authlib/checkpassword.c\<close> with its MD5 and SHA1
  parts), all below \<open>wmail\<close>. The C library's \<open>crypt\<close> is an argument, as are the time and process id
  that pick its salt.
\<close>

subsection \<open>Hashes in base64\<close>

text \<open>Both files repeat the loop of the MIME encoder over the digest.\<close>

definition md5_hash_courier :: "byte list \<Rightarrow> byte list" where
  "md5_hash_courier passw = base64_quads (md5_digest passw)"

definition sha1_hash :: "byte list \<Rightarrow> byte list" where
  "sha1_hash passw = base64_quads (sha1_digest passw)"

subsection \<open>MD5 crypt\<close>

definition crypt64 :: "byte list" where
  "crypt64 = asc ''./0123456789ABCDEFGHIJKLMNOPQRSTUVWXYZabcdefghijklmnopqrstuvwxyz''"

text \<open>The salt the function uses: behind a leading \<open>$1$\<close>, up to eight characters or a dollar.\<close>

definition crypt_salt :: "byte list \<Rightarrow> byte list" where
  "crypt_salt salt =
     (let salt = (if at salt 0 = ch CHR ''$'' \<and> at salt 1 = ch CHR ''1'' \<and> at salt 2 = ch CHR ''$''
                  then drop 3 salt else salt)
      in take 8 (takeWhile (\<lambda>c. c \<noteq> ch CHR ''$'') salt))"

definition crypt_inner :: "byte list \<Rightarrow> byte list \<Rightarrow> byte list" where
  "crypt_inner pw salt =
     (let c = md5_context_init;
          c = md5_context_hashstream c pw;
          c = md5_context_hashstream c salt;
          c = md5_context_hashstream c pw;
          c = md5_context_endstream c (of_nat (length pw * 2 + length salt))
      in md5_context_digest c)"

text \<open>The loop that feeds the inner digest for as many bytes as the password has.\<close>

fun feed_digest :: "byte list \<Rightarrow> nat \<Rightarrow> MD5_CONTEXT \<Rightarrow> MD5_CONTEXT" where
  "feed_digest digest i c =
     (if i = 0 then c
      else let j = min i 16 in feed_digest digest (i - j) (md5_context_hashstream c (take j digest)))"

declare feed_digest.simps [simp del]

text \<open>The loop over the bits of the length; an odd one feeds the NUL of an empty string.\<close>

fun feed_bits :: "byte list \<Rightarrow> nat \<Rightarrow> MD5_CONTEXT \<times> nat \<Rightarrow> MD5_CONTEXT \<times> nat" where
  "feed_bits pw i (c, j) =
     (if i = 0 then (c, j)
      else feed_bits pw (i div 2) (md5_context_hashstream c (if odd i then [0] else [at pw 0]), j + 1))"

declare feed_bits.simps [simp del]

definition crypt_outer :: "byte list \<Rightarrow> byte list \<Rightarrow> byte list \<Rightarrow> byte list" where
  "crypt_outer pw salt digest =
     (let c = md5_context_init;
          c = md5_context_hashstream c pw;
          c = md5_context_hashstream c (asc ''$1$'');
          c = md5_context_hashstream c salt;
          c = feed_digest digest (length pw) c;
          (c, j) = feed_bits pw (length pw) (c, length pw * 2 + length salt + 3);
          c = md5_context_endstream c (of_nat j)
      in md5_context_digest c)"

definition crypt_round :: "byte list \<Rightarrow> byte list \<Rightarrow> nat \<Rightarrow> byte list \<Rightarrow> byte list" where
  "crypt_round pw salt i digest =
     (let feed = (\<lambda>p (c, j). (md5_context_hashstream c p, j + length p));
          st = (md5_context_init, 0::nat);
          st = feed (if odd i then pw else digest) st;
          st = (if i mod 3 \<noteq> 0 then feed salt st else st);
          st = (if i mod 7 \<noteq> 0 then feed pw st else st);
          (c, j) = feed (if odd i then digest else pw) st;
          c = md5_context_endstream c (of_nat j)
      in md5_context_digest c)"

fun crypt_chars :: "nat \<Rightarrow> nat \<Rightarrow> byte list" where
  "crypt_chars 0 j = []"
| "crypt_chars (Suc n) j = crypt64 ! (j mod 64) # crypt_chars n (j div 64)"

definition crypt_text :: "byte list \<Rightarrow> byte list" where
  "crypt_text d =
     concat (map (\<lambda>i. crypt_chars 4 (unat (d ! i) * 65536 + unat (d ! (i + 6)) * 256 +
       unat (d ! (if i = 4 then 5 else 12 + i)))) [0..<5]) @ crypt_chars 2 (unat (d ! 11))"

definition md5_crypt_redhat :: "byte list \<Rightarrow> byte list \<Rightarrow> byte list" where
  "md5_crypt_redhat pw salt =
     (let salt = crypt_salt salt;
          digest = crypt_inner pw salt;
          digest = crypt_outer pw salt digest;
          digest = fold (crypt_round pw salt) [0..<1000] digest
      in asc ''$1$'' @ salt @ asc ''$'' @ crypt_text digest)"

subsection \<open>Checking and making\<close>

definition authcheckpasswordmd5 :: "byte list \<Rightarrow> byte list \<Rightarrow> int" where
  "authcheckpasswordmd5 passwd encrypted_password =
     (if has_prefix encrypted_password (asc ''$1$'')
      then strcmp encrypted_password (md5_crypt_redhat passwd encrypted_password)
      else if has_prefix_nocase encrypted_password (asc ''{MD5}'')
      then strcmp (drop 5 encrypted_password) (md5_hash_courier passwd)
      else -1)"

definition authcheckpasswordsha1 :: "byte list \<Rightarrow> byte list \<Rightarrow> int" where
  "authcheckpasswordsha1 passwd encrypted_password =
     (if has_prefix_nocase encrypted_password (asc ''{SHA}'')
      then strcmp (drop 5 encrypted_password) (sha1_hash passwd)
      else -1)"

definition authcheckpassword :: "(byte list \<Rightarrow> byte list \<Rightarrow> byte list) \<Rightarrow> byte list \<Rightarrow> byte list \<Rightarrow> int" where
  "authcheckpassword crypt passwd encrypted_password =
     (if has_prefix encrypted_password (asc ''$1$'') \<or> has_prefix_nocase encrypted_password (asc ''{MD5}'')
      then authcheckpasswordmd5 passwd encrypted_password
      else if has_prefix_nocase encrypted_password (asc ''{SHA}'')
      then authcheckpasswordsha1 passwd encrypted_password
      else strcmp encrypted_password (crypt passwd encrypted_password))"

text \<open>The salt of the C library's \<open>crypt\<close> from the time of day and the process id.\<close>

definition crypt_salt_chars :: "byte list" where
  "crypt_salt_chars = asc ''ABCDEFGHIJKLMNOPQRSTUVWXYZabcdefghijklmnopqrstuvwxyz0123456789./''"

definition crypt_hash :: "(byte list \<Rightarrow> byte list \<Rightarrow> byte list) \<Rightarrow> nat \<Rightarrow> nat \<Rightarrow> nat \<Rightarrow> byte list \<Rightarrow> byte list" where
  "crypt_hash crypt tv_sec tv_usec pid pw =
     (let t = (tv_sec OR tv_usec) XOR pid
      in crypt pw [crypt_salt_chars ! (t mod 64), crypt_salt_chars ! (t div 64 mod 64)])"

definition authcryptpasswd :: "(byte list \<Rightarrow> byte list) \<Rightarrow> bool \<Rightarrow> byte list \<Rightarrow> byte list option
    \<Rightarrow> byte list option" where
  "authcryptpasswd crypt_func mem passwd encryption_hint =
     (let hinted = (\<lambda>test p. case encryption_hint of None \<Rightarrow> True | Some h \<Rightarrow> test h p);
          md5 = hinted has_prefix (asc ''$1$'') \<or> hinted has_prefix_nocase (asc ''{MD5}'');
          sha = hinted has_prefix_nocase (asc ''{SHA}'');
          (hash_func, pfix) =
            (if sha then (sha1_hash, asc ''{SHA}'')
             else if md5 then (md5_hash_courier, asc ''{MD5}'')
             else (crypt_func, asc ''{CRYPT}''))
      in if \<not> mem then None else Some (pfix @ hash_func passwd))"

subsection \<open>Lemmas\<close>

lemma base64_quads_inject: "base64_quads x = base64_quads y \<longleftrightarrow> x = y"
  by (metis sasl_quads_base64_quads)

lemma crypt_salt_idem:
  "crypt_salt (asc ''$1$'' @ crypt_salt s @ asc ''$'' @ r) = crypt_salt s"
proof -
  define t where "t = crypt_salt s"
  have t: "length t \<le> 8" "ch CHR ''$'' \<notin> set t"
    by (auto simp: t_def crypt_salt_def Let_def dest!: in_set_takeD set_takeWhileD)
  have "takeWhile (\<lambda>c. c \<noteq> 36) (t @ 36 # r) = t"
    using t(2) by (subst takeWhile_append2) auto
  with t(1) show ?thesis
    unfolding t_def [symmetric] by (simp add: crypt_salt_def Let_def at_def)
qed

lemma md5_crypt_redhat_shape:
  "md5_crypt_redhat pw s = asc ''$1$'' @ crypt_salt s @ asc ''$'' @
     crypt_text (fold (crypt_round pw (crypt_salt s)) [0..<1000]
       (crypt_outer pw (crypt_salt s) (crypt_inner pw (crypt_salt s))))"
  by (simp only: md5_crypt_redhat_def Let_def)

lemma md5_crypt_redhat_resalt: "md5_crypt_redhat pw (md5_crypt_redhat pw' s) = md5_crypt_redhat pw s"
  unfolding md5_crypt_redhat_shape [of pw s] md5_crypt_redhat_shape [of pw "md5_crypt_redhat pw' s"]
  by (simp only: md5_crypt_redhat_shape [of pw' s] crypt_salt_idem)

lemma length_crypt_chars: "length (crypt_chars n j) = n"
  by (induction n arbitrary: j) simp_all

lemma length_crypt_text: "length (crypt_text d) = 22"
  by (simp add: crypt_text_def length_crypt_chars upt_rec)

subsection \<open>Properties\<close>

text \<open>
  C26. A password encrypted with an MD5, a SHA1 or no hint checks against exactly the passwords
  with the same digest, so always against itself.
\<close>

theorem check_encrypted:
  assumes "hint = None \<or> (\<exists>h. hint = Some h \<and> (has_prefix h (asc ''$1$'') \<or>
      has_prefix_nocase h (asc ''{MD5}'') \<or> has_prefix_nocase h (asc ''{SHA}'')))"
  shows "\<exists>e. authcryptpasswd cf True pw hint = Some e \<and>
    (authcheckpassword cr pw' e = 0) =
      (if hint \<noteq> None \<and> \<not> has_prefix_nocase (the hint) (asc ''{SHA}'')
       then md5_digest pw' = md5_digest pw else sha1_digest pw' = sha1_digest pw)"
proof (cases "hint \<noteq> None \<and> \<not> has_prefix_nocase (the hint) (asc ''{SHA}'')")
  case True
  with assms have "authcryptpasswd cf True pw hint = Some (asc ''{MD5}'' @ md5_hash_courier pw)"
    by (auto simp: authcryptpasswd_def Let_def)
  moreover have "(authcheckpassword cr pw' (asc ''{MD5}'' @ md5_hash_courier pw) = 0) =
      (md5_digest pw' = md5_digest pw)"
    by (auto simp: authcheckpassword_def authcheckpasswordmd5_def has_prefix_def has_prefix_nocase_def
        md5_hash_courier_def base64_quads_inject)
  ultimately show ?thesis using True by simp
next
  case False
  with assms have "authcryptpasswd cf True pw hint = Some (asc ''{SHA}'' @ sha1_hash pw)"
    by (auto simp: authcryptpasswd_def Let_def)
  moreover have "(authcheckpassword cr pw' (asc ''{SHA}'' @ sha1_hash pw) = 0) =
      (sha1_digest pw' = sha1_digest pw)"
    by (auto simp: authcheckpassword_def authcheckpasswordsha1_def has_prefix_def has_prefix_nocase_def
        tolower_def isupper_def sha1_hash_def base64_quads_inject)
  ultimately show ?thesis unfolding if_not_P [OF False] by blast
qed

theorem check_encrypted_witness:
  "\<exists>e. authcryptpasswd (\<lambda>p. p) True (asc ''abc'') (Some (asc ''{md5}'')) = Some e \<and>
    authcheckpassword (\<lambda>p s. s) (asc ''abc'') e = 0"
  using check_encrypted [of "Some (asc ''{md5}'')" "\<lambda>p. p" "asc ''abc''" "\<lambda>p s. s" "asc ''abc''"]
  by (auto simp: has_prefix_nocase_def tolower_def isupper_def)

text \<open>
  C27. An MD5 crypt checks against the password it was made of, whatever the salt argument (a bare
  salt, a full encrypted password): it has the salt in it, and checking takes it out again. The
  text is at most 34 bytes, so it fits the function's buffer of 100.
\<close>

theorem md5_crypt_checks:
  "authcheckpassword cr pw (md5_crypt_redhat pw salt) = 0 \<and> length (md5_crypt_redhat pw salt) \<le> 34"
proof -
  have "has_prefix (md5_crypt_redhat pw salt) (asc ''$1$'')"
    unfolding md5_crypt_redhat_shape by (rule has_prefix_append)
  moreover have "length (crypt_salt salt) \<le> 8" by (simp add: crypt_salt_def Let_def)
  then have "length (md5_crypt_redhat pw salt) \<le> 34"
    unfolding md5_crypt_redhat_shape by (simp add: length_crypt_text del: upt_Suc)
  ultimately show ?thesis
    by (simp add: authcheckpassword_def authcheckpasswordmd5_def md5_crypt_redhat_resalt)
qed

text \<open>
  A password encrypted with the hint of the C library's \<open>crypt\<close> does not check: its
  \<open>{CRYPT}\<close> prefix is not taken off again, and 20 characters are compared with the 13 of
  \<open>crypt\<close>.
\<close>

theorem crypt_never_checks:
  assumes "\<And>p s. length (crypt p s) = 13"
  shows "\<exists>e. authcryptpasswd (crypt_hash crypt sec usec pid) True pw (Some (asc ''{CRYPT}'')) = Some e \<and>
    authcheckpassword crypt pw' e \<noteq> 0"
proof -
  let ?e = "asc ''{CRYPT}'' @ crypt_hash crypt sec usec pid pw"
  have e: "authcryptpasswd (crypt_hash crypt sec usec pid) True pw (Some (asc ''{CRYPT}'')) = Some ?e"
    by (simp add: authcryptpasswd_def has_prefix_def has_prefix_nocase_def tolower_def isupper_def)
  have check: "authcheckpassword crypt pw' ?e = strcmp ?e (crypt pw' ?e)"
    by (simp add: authcheckpassword_def has_prefix_def has_prefix_nocase_def tolower_def isupper_def)
  have "length ?e = 20" by (simp add: crypt_hash_def Let_def assms)
  moreover have "length (crypt pw' ?e) = 13" by (rule assms)
  ultimately have "length ?e \<noteq> length (crypt pw' ?e)" by (simp only: numeral_eq_iff semiring_norm) simp
  then have "?e \<noteq> crypt pw' ?e" by (rule contrapos_nn) (rule arg_cong)
  with check have "authcheckpassword crypt pw' ?e \<noteq> 0" by (simp only: strcmp_0 not_False_eq_True)
  with e show ?thesis by blast
qed

theorem crypt_never_checks_witness:
  "\<exists>e. authcryptpasswd (crypt_hash (\<lambda>p s. replicate 13 46) 1 2 3) True (asc ''abc'') (Some (asc ''{CRYPT}'')) =
      Some e \<and> authcheckpassword (\<lambda>p s. replicate 13 46) (asc ''abc'') e \<noteq> 0"
  by (rule crypt_never_checks) simp

end
