(* ===== verification/Numlib.thy ===== *)
theory Numlib imports Prelude "HOL-Library.Signed_Division" begin

text \<open>
  Numbers as text, \<open>wmail/numlib\<close>: the system types in decimal (\<open>str*.c\<close>) and in hexadecimal
  (\<open>strh*.c\<close>), and sizes in kilobytes and megabytes (\<open>strsize.c\<close>). Types have the widths of
  64-bit Linux: \<open>time_t\<close> and \<open>off_t\<close> are signed 64-bit, \<open>pid_t\<close> signed 32-bit integers, the
  others unsigned. Each function fills a local buffer of \<open>NUMBUFSIZE\<close> bytes from its end; the
  model is the text that is copied out of it.
\<close>

definition NUMBUFSIZE :: nat where "NUMBUFSIZE = 60"

subsection \<open>Decimal\<close>

text \<open>
  The loop of every \<open>str*.c\<close>, \<open>*--p = '0' + (t % 10); t = t / 10\<close> while \<open>t\<close>, with C's
  division that truncates towards zero; a character is what is left of the sum in a byte.
\<close>

function dec_loop :: "int \<Rightarrow> byte list \<Rightarrow> byte list" where
  "dec_loop t p =
     (let p = of_int (48 + t smod 10) # p; t = t sdiv 10 in if t \<noteq> 0 then dec_loop t p else p)"
  by pat_completeness auto
termination
  by (relation "measure (\<lambda>(t, p). nat \<bar>t\<bar>)") (auto simp: signed_divide_int_def sgn_if split: if_splits)

declare dec_loop.simps [simp del]

definition libmail_str_dev_t :: "u64 \<Rightarrow> byte list" where
  "libmail_str_dev_t t = dec_loop (uint t) []"

definition libmail_str_gid_t :: "u32 \<Rightarrow> byte list" where
  "libmail_str_gid_t t = dec_loop (uint t) []"

definition libmail_str_uid_t :: "u32 \<Rightarrow> byte list" where
  "libmail_str_uid_t t = dec_loop (uint t) []"

definition libmail_str_ino_t :: "u64 \<Rightarrow> byte list" where
  "libmail_str_ino_t t = dec_loop (uint t) []"

definition libmail_str_size_t :: "u64 \<Rightarrow> byte list" where
  "libmail_str_size_t t = dec_loop (uint t) []"

definition libmail_str_time_t :: "u64 \<Rightarrow> byte list" where
  "libmail_str_time_t t = dec_loop (sint t) []"

definition libmail_str_pid_t :: "u32 \<Rightarrow> byte list" where
  "libmail_str_pid_t t = dec_loop (sint t) []"

text \<open>\<open>off_t\<close> is the one signed type with a sign; the negation is done in the type.\<close>

definition libmail_str_off_t :: "u64 \<Rightarrow> byte list" where
  "libmail_str_off_t t =
     (let isneg = sint t < 0; t = (if isneg then - t else t); p = dec_loop (sint t) []
      in if isneg then ch CHR ''-'' # p else p)"

subsection \<open>Hexadecimal\<close>

definition num_xdigit :: "byte list" where
  "num_xdigit = asc ''0123456789ABCDEF''"

text \<open>
  The loop of every \<open>strh*.c\<close> runs over the two digits of each byte of the type; \<open>t & 15\<close> are the
  low bits of the two's complement, \<open>t / 16\<close> truncates.
\<close>

fun hex_loop :: "nat \<Rightarrow> int \<Rightarrow> byte list \<Rightarrow> byte list" where
  "hex_loop 0 t p = p"
| "hex_loop (Suc i) t p = hex_loop i (t sdiv 16) (num_xdigit ! nat (t mod 16) # p)"

definition libmail_strh_dev_t :: "u64 \<Rightarrow> byte list" where
  "libmail_strh_dev_t t = hex_loop 16 (uint t) []"

definition libmail_strh_ino_t :: "u64 \<Rightarrow> byte list" where
  "libmail_strh_ino_t t = hex_loop 16 (uint t) []"

definition libmail_strh_pid_t :: "u32 \<Rightarrow> byte list" where
  "libmail_strh_pid_t t = hex_loop 8 (sint t) []"

definition libmail_strh_time_t :: "u64 \<Rightarrow> byte list" where
  "libmail_strh_time_t t = hex_loop 16 (sint t) []"

subsection \<open>Sizes\<close>

definition cat_n :: "byte list \<Rightarrow> nat \<Rightarrow> byte list" where
  "cat_n buf n = buf @ dec_loop (int n) []"

text \<open>
  The megabytes are computed in floating point, which is exact for the sizes below \<open>2 ^ 50\<close>: the
  quotient by a power of two is, and ten times the size has at most 53 significant bits. For
  larger sizes the source rounds and this definition does not.
\<close>

definition libmail_str_sizekb :: "nat \<Rightarrow> byte list" where
  "libmail_str_sizekb n =
     (if n < 1024 then cat_n (asc ''0.'') (10 * n div 1024) @ asc ''K''
      else if n < 1024 * 1024 then cat_n [] ((n + 512) div 1024) @ asc ''K''
      else let nm = n * 10 div (1024 * 1024) in
        cat_n (cat_n [] (nm div 10) @ asc ''.'') (nm mod 10) @ asc ''M'')"

subsection \<open>Reading numbers back\<close>

text \<open>What a sequence of decimal digits stands for, and of hexadecimal ones.\<close>

definition dec_value :: "byte list \<Rightarrow> int" where
  "dec_value s = foldl (\<lambda>v c. v * 10 + (uint c - 48)) 0 s"

text \<open>C's \<open>atol\<close>: white space, a sign, digits, saturating at the bounds of a 64-bit long.\<close>

definition atol :: "byte list \<Rightarrow> int" where
  "atol s =
     (let s = dropWhile isspace s;
          neg = (at s 0 = ch CHR ''-'');
          s = (if neg \<or> at s 0 = ch CHR ''+'' then drop 1 s else s);
          v = dec_value (takeWhile isdigit s)
      in if neg then max (- (2 ^ 63)) (- v) else min (2 ^ 63 - 1) v)"

text \<open>\<open>atoi\<close> of the C library is \<open>atol\<close> cut to an \<open>int\<close>.\<close>

definition atoi :: "byte list \<Rightarrow> int" where
  "atoi s = sint (of_int (atol s) :: u32)"

definition hex_digit :: "byte \<Rightarrow> int" where
  "hex_digit c = (if isdigit c then uint c - 48 else uint c - 55)"

definition hex_value :: "byte list \<Rightarrow> int" where
  "hex_value s = foldl (\<lambda>v c. v * 16 + hex_digit c) 0 s"

text \<open>A decimal numeral: digits, and no leading zero but in zero itself.\<close>

definition dec_numeral :: "byte list \<Rightarrow> bool" where
  "dec_numeral s \<longleftrightarrow> s \<noteq> [] \<and> (\<forall>c\<in>set s. isdigit c) \<and> (hd s = 48 \<longrightarrow> length s = 1)"

lemma dec_loop_unfold:
  "0 \<le> t \<Longrightarrow> dec_loop t p =
    (if 10 \<le> t then dec_loop (t div 10) (of_int (48 + t mod 10) # p) else of_int (48 + t) # p)"
  by (subst dec_loop.simps)
    (auto simp: Let_def signed_modulo_int_def signed_divide_int_def sgn_if div_pos_pos_trivial)

lemma digit_byte:
  assumes "0 \<le> d" "d < 10"
  shows "isdigit (of_int (48 + d))" "uint (of_int (48 + d) :: byte) = 48 + d"
    "of_int (48 + d) = (48 :: byte) \<longleftrightarrow> d = 0"
proof -
  have u: "uint (of_int (48 + d) :: byte) = 48 + d"
    using assms by (subst uint_word_of_int) (simp add: take_bit_eq_mod)
  then show "uint (of_int (48 + d) :: byte) = 48 + d" .
  show "isdigit (of_int (48 + d))"
    using assms u by (simp add: isdigit_def word_le_def)
  show "of_int (48 + d) = (48 :: byte) \<longleftrightarrow> d = 0"
    unfolding word_uint_eq_iff u by simp
qed


lemma dec_loop_append: "0 \<le> t \<Longrightarrow> dec_loop t p = dec_loop t [] @ p"
proof (induction "nat t" arbitrary: t p rule: less_induct)
  case less
  show ?case
  proof (cases "10 \<le> t")
    case True
    then have "nat (t div 10) < nat t" "0 \<le> t div 10" by auto
    from less(1) [OF this, of "of_int (48 + t mod 10) # p"]
      less(1) [OF this, of "[of_int (48 + t mod 10)]"]
    show ?thesis
      unfolding dec_loop_unfold [OF less(2)] if_P [OF True] by (simp only: append_assoc append.simps)
  qed (simp add: dec_loop_unfold [OF less(2)])
qed

lemma dec_loop_step:
  "10 \<le> t \<Longrightarrow> dec_loop t [] = dec_loop (t div 10) [] @ [of_int (48 + t mod 10)]"
  using dec_loop_unfold [of t "[]"] dec_loop_append [of "t div 10" "[of_int (48 + t mod 10)]"] by simp

lemma dec_loop_numeral: "0 \<le> t \<Longrightarrow> dec_numeral (dec_loop t []) \<and> dec_value (dec_loop t []) = t \<and>
    (hd (dec_loop t []) = 48 \<longrightarrow> t = 0)"
proof (induction "nat t" arbitrary: t rule: less_induct)
  case less
  show ?case
  proof (cases "10 \<le> t")
    case True
    then have "nat (t div 10) < nat t" "0 \<le> t div 10" "t div 10 \<noteq> 0" by auto
    with less(1) [of "t div 10"] have "dec_numeral (dec_loop (t div 10) [])"
      "dec_value (dec_loop (t div 10) []) = t div 10" "hd (dec_loop (t div 10) []) \<noteq> 48" by auto
    moreover note digit_byte [of "t mod 10"]
    ultimately show ?thesis using True
      unfolding dec_loop_step [OF True] dec_numeral_def dec_value_def by (simp add: foldl_append)
  next
    case False
    with less(2) digit_byte [of t] show ?thesis
      by (simp add: dec_loop_unfold dec_numeral_def dec_value_def)
  qed
qed

lemma dec_loop_length: "0 \<le> t \<Longrightarrow> t < 10 ^ Suc k \<Longrightarrow> length (dec_loop t []) \<le> Suc k"
proof (induction k arbitrary: t)
  case 0
  then show ?case by (simp add: dec_loop_unfold)
next
  case (Suc k)
  show ?case
  proof (cases "10 \<le> t")
    case True
    from Suc(3) have "t div 10 < 10 ^ Suc k" by simp
    with Suc(1) [of "t div 10"] Suc(2) show ?thesis unfolding dec_loop_step [OF True] by simp
  qed (simp add: dec_loop_unfold [OF Suc(2)])
qed

text \<open>The text of a number that is not negative: its decimal numeral, of at most 20 digits.\<close>

definition decimal_of :: "byte list \<Rightarrow> int \<Rightarrow> bool" where
  "decimal_of s n \<longleftrightarrow> dec_numeral s \<and> dec_value s = n \<and> length s \<le> 20"

lemma decimal_of_loop: "0 \<le> t \<Longrightarrow> t < 2 ^ 64 \<Longrightarrow> decimal_of (dec_loop t []) t"
  using dec_loop_numeral [of t] dec_loop_length [of t 19] by (simp add: decimal_of_def)

lemma uint_lt_64: "uint (t :: u64) < 2 ^ 64" "uint (u :: u32) < 2 ^ 64"
  using uint_lt2p [of t] uint_lt2p [of u] by simp_all

lemma sint_lt_64: "sint (t :: u64) < 2 ^ 63" "- (2 ^ 63) \<le> sint t" "sint (u :: u32) < 2 ^ 31"
    "- (2 ^ 31) \<le> sint u"
  using sint_lt [of t] sint_ge [of t] sint_lt [of u] sint_ge [of u] by simp_all


lemma negative_char:
  assumes "- 10 < d" "d < 0"
  shows "\<not> isdigit (of_int (48 + d))"
proof -
  have "uint (of_int (48 + d) :: byte) = 48 + d"
    using assms by (subst uint_word_of_int) (simp add: take_bit_eq_mod)
  then show ?thesis using assms by (simp add: isdigit_def word_le_def)
qed

lemma dec_loop_subset: "set p \<subseteq> set (dec_loop t p)"
proof (induction t p rule: dec_loop.induct)
  case (1 t p)
  show ?case by (subst dec_loop.simps) (use 1 in \<open>auto simp: Let_def\<close>)
qed

lemma dec_loop_negative: "t < 0 \<Longrightarrow> \<exists>c\<in>set (dec_loop t p). \<not> isdigit c"
proof (induction t p rule: dec_loop.induct)
  case (1 t p)
  show ?case
  proof (cases "t sdiv 10 = 0")
    case True
    with 1(2) have "- 10 < t" by (simp add: signed_divide_int_def sgn_if split: if_splits)
    with 1(2) have "t smod 10 = t" by (simp add: signed_modulo_int_def signed_divide_int_def sgn_if)
    with True negative_char [OF \<open>- 10 < t\<close> 1(2)] show ?thesis by (subst dec_loop.simps) (simp add: Let_def)
  next
    case False
    with 1(2) have "t sdiv 10 < 0" by (simp add: signed_divide_int_def sgn_if)
    with 1(1) [OF refl refl False] show ?thesis using False by (subst dec_loop.simps) (simp add: Let_def)
  qed
qed

subsection \<open>Properties\<close>

text \<open>
  The decimal functions give the numeral of their argument, without leading zeros, in at most
  20 digits (the buffers have \<open>NUMBUFSIZE\<close>), and the offset's has a sign if it is negative and
  not the least of its type. The two other signed types have none: the text of a negative time or
  process id is no number.
\<close>

theorem str_decimal:
  assumes "sint off \<noteq> - (2 ^ 63)"
  shows "decimal_of (libmail_str_dev_t dev) (uint dev) \<and> decimal_of (libmail_str_ino_t ino) (uint ino) \<and>
    decimal_of (libmail_str_size_t sz) (uint sz) \<and> decimal_of (libmail_str_uid_t uid) (uint uid) \<and>
    decimal_of (libmail_str_gid_t gid) (uint gid) \<and>
    (if 0 \<le> sint off then decimal_of (libmail_str_off_t off) (sint off)
     else \<exists>p. libmail_str_off_t off = ch CHR ''-'' # p \<and> decimal_of p (- sint off)) \<and>
    (if 0 \<le> sint t then decimal_of (libmail_str_time_t t) (sint t)
     else \<not> (\<forall>c\<in>set (libmail_str_time_t t). isdigit c)) \<and>
    (if 0 \<le> sint pid then decimal_of (libmail_str_pid_t pid) (sint pid)
     else \<not> (\<forall>c\<in>set (libmail_str_pid_t pid). isdigit c)) \<and> 21 < NUMBUFSIZE"
proof -
  have "sint (- off) = - sint off" if "sint off < 0"
  proof -
    have "sint (- off) = signed_take_bit 63 (- sint off)" by (simp add: sint_word_ariths)
    also have "\<dots> = - sint off"
      by (rule signed_take_bit_int_eq_self) (use that assms sint_lt_64(2) [of off] in auto)
    finally show ?thesis .
  qed
  then have off: "if 0 \<le> sint off then decimal_of (libmail_str_off_t off) (sint off)
     else \<exists>p. libmail_str_off_t off = ch CHR ''-'' # p \<and> decimal_of p (- sint off)"
    using decimal_of_loop [of "sint off"] decimal_of_loop [of "- sint off"] sint_lt_64(1,2) [of off]
    by (simp add: libmail_str_off_t_def Let_def)
  have "decimal_of (libmail_str_dev_t dev) (uint dev)" "decimal_of (libmail_str_ino_t ino) (uint ino)"
    "decimal_of (libmail_str_size_t sz) (uint sz)" "decimal_of (libmail_str_uid_t uid) (uint uid)"
    "decimal_of (libmail_str_gid_t gid) (uint gid)"
    by (simp_all add: libmail_str_dev_t_def libmail_str_ino_t_def libmail_str_size_t_def
        libmail_str_uid_t_def libmail_str_gid_t_def decimal_of_loop [OF uint_ge_0 uint_lt_64(1)]
        decimal_of_loop [OF uint_ge_0 uint_lt_64(2)])
  moreover have "if 0 \<le> sint t then decimal_of (libmail_str_time_t t) (sint t)
      else \<not> (\<forall>c\<in>set (libmail_str_time_t t). isdigit c)"
    using decimal_of_loop [of "sint t"] sint_lt_64(1) [of t] dec_loop_negative [of "sint t"]
    by (simp add: libmail_str_time_t_def)
  moreover have "if 0 \<le> sint pid then decimal_of (libmail_str_pid_t pid) (sint pid)
      else \<not> (\<forall>c\<in>set (libmail_str_pid_t pid). isdigit c)"
    using decimal_of_loop [of "sint pid"] sint_lt_64(3) [of pid] dec_loop_negative [of "sint pid"]
    by (simp add: libmail_str_pid_t_def)
  moreover have "21 < NUMBUFSIZE" by (simp add: NUMBUFSIZE_def)
  ultimately show ?thesis using off by blast
qed

theorem str_decimal_witness: "\<exists>p. libmail_str_off_t (- 7) = ch CHR ''-'' # p \<and> decimal_of p 7"
  using str_decimal [of "- 7" 0 0 0 0 0 0 0] by (simp add: sint_uint)

lemma hex_loop_append: "hex_loop n t p = hex_loop n t [] @ p"
proof (induction n arbitrary: t p)
  case (Suc n)
  show ?case by (simp add: Suc [of _ "_ # p"] Suc [of _ "[_]"])
qed simp

lemma num_xdigit_nth: "n < 16 \<Longrightarrow> hex_digit (num_xdigit ! n) = int n"
proof -
  assume "n < 16"
  then have "n \<in> set [0..<16]" by simp
  moreover have "\<forall>n \<in> set [0..<16]. hex_digit (num_xdigit ! n) = int n"
    by (simp add: upt_rec num_xdigit_def hex_digit_def isdigit_def)
  ultimately show ?thesis by blast
qed

lemma hex_loop_value:
  "0 \<le> t \<Longrightarrow> hex_value (hex_loop n t []) = t mod 16 ^ n \<and> length (hex_loop n t []) = n"
proof (induction n arbitrary: t)
  case 0
  then show ?case by (simp add: hex_value_def)
next
  case (Suc n)
  have d: "t sdiv 16 = t div 16" using Suc(2) by (simp add: signed_divide_int_def sgn_if div_pos_pos_trivial)
  have "hex_loop (Suc n) t [] = hex_loop n (t div 16) [] @ [num_xdigit ! nat (t mod 16)]"
    using hex_loop_append [of n "t div 16" "[num_xdigit ! nat (t mod 16)]"] by (simp add: d)
  moreover have "hex_digit (num_xdigit ! nat (t mod 16)) = t mod 16" by (subst num_xdigit_nth) auto
  moreover have "t mod 16 ^ Suc n = t div 16 mod 16 ^ n * 16 + t mod 16"
    using zmod_zmult2_eq [of "16 ^ n" t 16] by (simp add: mult.commute)
  ultimately show ?case using Suc(1) [of "t div 16"] Suc(2) by (simp add: hex_value_def)
qed

text \<open>
  The hexadecimal functions give two digits for each byte of the type, which stand for their
  argument; of a process id or time that is negative they do not: the process ids -1 and 15 have
  the same text.
\<close>

theorem strh_hexadecimal:
  assumes "0 \<le> sint t" "0 \<le> sint pid"
  shows "(hex_value (libmail_strh_dev_t dev) = uint dev \<and> length (libmail_strh_dev_t dev) = 16) \<and>
   (hex_value (libmail_strh_ino_t ino) = uint ino \<and> length (libmail_strh_ino_t ino) = 16) \<and>
   (hex_value (libmail_strh_time_t t) = sint t \<and> length (libmail_strh_time_t t) = 16) \<and>
   (hex_value (libmail_strh_pid_t pid) = sint pid \<and> length (libmail_strh_pid_t pid) = 8) \<and>
   libmail_strh_pid_t (- 1) = libmail_strh_pid_t 15"
proof -
  have "libmail_strh_pid_t (- 1) = libmail_strh_pid_t 15"
    by code_simp
  with sint_lt_64(1) [of t] sint_lt_64(3) [of pid] uint_lt_64(1) [of dev] uint_lt_64(1) [of ino]
  show ?thesis
    using hex_loop_value [of "uint dev" 16] hex_loop_value [of "uint ino" 16]
      hex_loop_value [of "sint t" 16] hex_loop_value [of "sint pid" 8] assms
    by (simp add: libmail_strh_dev_t_def libmail_strh_ino_t_def libmail_strh_time_t_def libmail_strh_pid_t_def)
qed

theorem strh_hexadecimal_witness: "hex_value (libmail_strh_time_t 1000000000) = 1000000000"
  using strh_hexadecimal [of 1000000000 1] by (simp add: sint_uint)

text \<open>
  Sizes below a kilobyte are shown in tenths of a kilobyte, rounded down, those below a
  megabyte in kilobytes rounded to the nearest, those below \<open>2 ^ 50\<close> in tenths of a megabyte,
  rounded down: a numeral, with one digit behind the point.
\<close>

theorem sizekb_value:
  assumes "n < 2 ^ 50"
  shows "\<exists>a b. decimal_of a (int (n div 2 ^ 20)) \<and> length b = 1 \<and> dec_numeral b \<and>
    (if n < 2 ^ 10 then libmail_str_sizekb n = asc ''0.'' @ b @ asc ''K'' \<and>
       dec_value b * 1024 \<le> 10 * int n \<and> 10 * int n < (dec_value b + 1) * 1024
     else if n < 2 ^ 20 then \<exists>k. libmail_str_sizekb n = k @ asc ''K'' \<and> dec_numeral k \<and>
       \<bar>dec_value k * 1024 - int n\<bar> \<le> 512
     else libmail_str_sizekb n = a @ asc ''.'' @ b @ asc ''M'' \<and>
       (dec_value a * 10 + dec_value b) * 2 ^ 20 \<le> 10 * int n \<and>
       10 * int n < (dec_value a * 10 + dec_value b + 1) * 2 ^ 20)"
proof -
  define a where "a = dec_loop (int (n div 2 ^ 20)) []"
  define d where "d = (if n < 2 ^ 10 then 10 * n div 1024 else n * 10 div 2 ^ 20 mod 10)"
  define b where "b = dec_loop (int d) []"
  have a: "decimal_of a (int (n div 2 ^ 20))" unfolding a_def by (rule decimal_of_loop) (use assms in auto)
  have d: "d < 10" by (auto simp: d_def)
  then have b: "dec_numeral b" "dec_value b = int d" "length b = 1"
    using dec_loop_numeral [of "int d"] by (simp_all add: b_def dec_loop_unfold)
  have nm: "n * 10 div 2 ^ 20 div 10 = n div 2 ^ 20" by (simp flip: div_mult2_eq)
  show ?thesis
  proof (cases "n < 2 ^ 20")
    case True
    show ?thesis
    proof (cases "n < 2 ^ 10")
      case True
      then have "libmail_str_sizekb n = asc ''0.'' @ b @ asc ''K''" "d = 10 * n div 1024"
        by (simp_all add: libmail_str_sizekb_def cat_n_def b_def d_def)
      moreover have "d * 1024 \<le> 10 * n" "10 * n < (d + 1) * 1024"
        unfolding \<open>d = 10 * n div 1024\<close> using dividend_less_div_times [of 1024 "10 * n"] by simp_all
      ultimately show ?thesis using True a b by (intro exI [of _ a] exI [of _ b]) simp
    next
      case False
      let ?k = "dec_loop (int ((n + 512) div 1024)) []"
      have "libmail_str_sizekb n = ?k @ asc ''K''"
        using False True by (simp add: libmail_str_sizekb_def cat_n_def)
      moreover have "dec_numeral ?k" "dec_value ?k = int ((n + 512) div 1024)"
        using dec_loop_numeral [of "int ((n + 512) div 1024)"] by simp_all
      moreover have "\<bar>int ((n + 512) div 1024) * 1024 - int n\<bar> \<le> 512" by linarith
      ultimately show ?thesis using False True a b by (intro exI [of _ a] exI [of _ b]) auto
    qed
  next
    case False
    then have "libmail_str_sizekb n = a @ asc ''.'' @ b @ asc ''M''"
      using nm by (simp add: libmail_str_sizekb_def cat_n_def Let_def a_def b_def d_def)
    moreover have "d = n * 10 div 2 ^ 20 mod 10" using False by (simp add: d_def)
    then have "n div 2 ^ 20 * 10 + d = n * 10 div 2 ^ 20" using nm by (metis div_mult_mod_eq)
    then have "(n div 2 ^ 20 * 10 + d) * 2 ^ 20 \<le> 10 * n" "10 * n < (n div 2 ^ 20 * 10 + d + 1) * 2 ^ 20"
      by simp_all
    ultimately show ?thesis using False a b by (intro exI [of _ a] exI [of _ b]) (simp add: decimal_of_def)
  qed
qed

theorem sizekb_value_witness: "\<exists>k. libmail_str_sizekb 70000 = k @ asc ''K'' \<and> \<bar>dec_value k * 1024 - 70000\<bar> \<le> 512"
  using sizekb_value [of 70000] by auto

end
