(* ===== verification/Userdb.thy ===== *)
theory Userdb imports Numlib begin

text \<open>
  The user database, \<open>wmail/userdb\<close>: keeping the database file open (\<open>userdb_init\<close>,
  \<open>userdb_close\<close>), fetching a record, taking the fields out of it and making the structure of an
  account (\<open>userdb.c\<close>), and the shadow file (\<open>userdb2.c\<close>).

  The database library (\<open>dbobj_open\<close>, \<open>dbobj_fetch\<close>) and \<open>stat\<close> are arguments: an open database
  is the map from keys to records it held when it was opened. \<open>mem n\<close> says whether \<open>malloc(n)\<close>
  succeeds. A pointer with a length, as \<open>userdb_get\<close> returns it, is the bytes it delimits.
\<close>

type_synonym db = "byte list \<Rightarrow> byte list option"

datatype userdb_errno = ENOENT | ENOMEM

subsection \<open>The open file\<close>

text \<open>The static variables: the modification time and inode of the file, and the database.\<close>

record userdb_state =
  initialized :: bool
  dt :: int
  di :: int
  d_db :: db

definition userdb_start :: userdb_state where
  "userdb_start = \<lparr>initialized = False, dt = 0, di = 0, d_db = Map.empty\<rparr>"

text \<open>
  \<open>stat\<close> gives the modification time and the inode or fails; \<open>junk\<close> is what the buffer on the
  stack holds when it fails, which the first branch copies.
\<close>

definition userdb_init :: "int \<times> int \<Rightarrow> (byte list \<Rightarrow> (int \<times> int) option) \<Rightarrow> (byte list \<Rightarrow> db option)
    \<Rightarrow> byte list \<Rightarrow> userdb_state \<Rightarrow> userdb_state" where
  "userdb_init junk stat dbobj_open n st =
     (let stat_buf = (case stat n of None \<Rightarrow> junk | Some b \<Rightarrow> b);
          reopen = (\<lambda>st. if \<not> initialized st then
            (case dbobj_open n of None \<Rightarrow> st | Some d \<Rightarrow> st\<lparr>d_db := d, initialized := True\<rparr>) else st)
      in if initialized st then
           reopen (if stat n = None \<or> fst stat_buf \<noteq> dt st \<or> snd stat_buf \<noteq> di st
             then st\<lparr>initialized := False, dt := fst stat_buf, di := snd stat_buf\<rparr> else st)
         else if stat n = None then st
         else reopen (st\<lparr>dt := fst stat_buf, di := snd stat_buf\<rparr>))"

definition userdb_close :: "userdb_state \<Rightarrow> userdb_state" where
  "userdb_close st = (if initialized st then st\<lparr>initialized := False\<rparr> else st)"

subsection \<open>Records\<close>

text \<open>A record is used as a C string by everything that gets it.\<close>

definition userdb :: "(nat \<Rightarrow> bool) \<Rightarrow> userdb_state \<Rightarrow> byte list \<Rightarrow> userdb_errno + byte list" where
  "userdb mem st u =
     (if \<not> initialized st then Inl ENOENT
      else case d_db st u of
        None \<Rightarrow> Inl ENOENT
      | Some q \<Rightarrow> if \<not> mem (length q + 1) then Inl ENOMEM else Inr (cstr q))"

definition userdbshadow :: "(nat \<Rightarrow> bool) \<Rightarrow> (byte list \<Rightarrow> db option) \<Rightarrow> byte list \<Rightarrow> byte list
    \<Rightarrow> byte list option" where
  "userdbshadow mem dbobj_open sh u =
     (case dbobj_open sh of
        None \<Rightarrow> None
      | Some d \<Rightarrow>
          (case d u of
             None \<Rightarrow> None
           | Some q \<Rightarrow> if \<not> mem (length q + 1) then None else Some (cstr q)))"

text \<open>\<open>memcmp\<close> stops to matter at the terminator, which no name contains.\<close>

fun userdb_get :: "byte list \<Rightarrow> byte list \<Rightarrow> byte list option" where
  "userdb_get u n =
     (if u = [] then None
      else let nl = length n in
        if has_prefix u n \<and> (at u nl = 0 \<or> at u nl = ch CHR ''='' \<or> at u nl = ch CHR ''|'')
        then Some (if at u nl = ch CHR ''='' then takeWhile (\<lambda>c. c \<noteq> ch CHR ''|'') (drop (nl + 1) u) else [])
        else case dropWhile (\<lambda>c. c \<noteq> ch CHR ''|'') u of
          [] \<Rightarrow> None
        | _ # u \<Rightarrow> userdb_get u n)"

declare userdb_get.simps [simp del]

fun getu_digits :: "u32 \<Rightarrow> byte list \<Rightarrow> u32" where
  "getu_digits defnum [] = defnum"
| "getu_digits defnum (p # l) =
     (if ch CHR ''0'' \<le> p \<and> p \<le> ch CHR ''9'' then getu_digits (defnum * 10 + (wide p - 48)) l else defnum)"

definition userdb_getu :: "byte list \<Rightarrow> byte list \<Rightarrow> u32 \<Rightarrow> u32" where
  "userdb_getu u n defnum =
     (case userdb_get u n of None \<Rightarrow> defnum | Some p \<Rightarrow> getu_digits 0 p)"

definition userdb_gets :: "(nat \<Rightarrow> bool) \<Rightarrow> byte list \<Rightarrow> byte list \<Rightarrow> userdb_errno + byte list" where
  "userdb_gets mem u n =
     (case userdb_get u n of
        None \<Rightarrow> Inl ENOENT
      | Some p \<Rightarrow> if \<not> mem (length p + 1) then Inl ENOMEM else Inr p)"

subsection \<open>Accounts\<close>

record userdbs =
  udb_name :: "byte list option"
  udb_gecos :: "byte list option"
  udb_dir :: "byte list option"
  udb_shell :: "byte list option"
  udb_mailbox :: "byte list option"
  udb_quota :: "byte list option"
  udb_uid :: u32
  udb_gid :: u32
  udb_source :: "byte list option"

definition userdbs_zero :: userdbs where
  "userdbs_zero = \<lparr>udb_name = None, udb_gecos = None, udb_dir = None, udb_shell = None,
     udb_mailbox = None, udb_quota = None, udb_uid = 0, udb_gid = 0, udb_source = None\<rparr>"

text \<open>An optional field: only a missing one is ignored.\<close>

fun opt_field :: "userdb_errno + byte list \<Rightarrow> (byte list option \<Rightarrow> userdbs option) \<Rightarrow> userdbs option" where
  "opt_field (Inr s) f = f (Some s)"
| "opt_field (Inl ENOENT) f = f None"
| "opt_field (Inl ENOMEM) f = None"

definition ok_of :: "userdb_errno + byte list \<Rightarrow> byte list option" where
  "ok_of r = (case r of Inl _ \<Rightarrow> None | Inr s \<Rightarrow> Some s)"

definition sizeof_userdbs :: nat where "sizeof_userdbs = 64"

definition userdb_creates :: "(nat \<Rightarrow> bool) \<Rightarrow> byte list \<Rightarrow> userdbs option" where
  "userdb_creates mem u =
     (if \<not> mem sizeof_userdbs then None
      else case userdb_gets mem u (asc ''home'') of
        Inl _ \<Rightarrow> None
      | Inr home \<Rightarrow>
          (case userdb_gets mem u (asc ''uid'') of
             Inl _ \<Rightarrow> None
           | Inr uid \<Rightarrow>
               (case userdb_gets mem u (asc ''gid'') of
                  Inl _ \<Rightarrow> None
                | Inr gid \<Rightarrow>
                    opt_field (userdb_gets mem u (asc ''shell'')) (\<lambda>shell.
                    opt_field (userdb_gets mem u (asc ''mail'')) (\<lambda>mail.
                    opt_field (userdb_gets mem u (asc ''quota'')) (\<lambda>quota.
                    opt_field (userdb_gets mem u (asc ''gecos'')) (\<lambda>gecos.
                    Some (userdbs_zero \<lparr>udb_dir := Some home, udb_uid := of_int (atol uid),
                      udb_gid := of_int (atol gid), udb_shell := shell, udb_mailbox := mail,
                      udb_quota := quota, udb_gecos := gecos,
                      udb_source := ok_of (userdb_gets mem u (asc ''_''))\<rparr>))))))))"

text \<open>The reverse lookup: the record of \<open>uid=\<close> is the name of the account.\<close>

definition userdb_createsuid :: "(nat \<Rightarrow> bool) \<Rightarrow> userdb_state \<Rightarrow> u32 \<Rightarrow> userdbs option" where
  "userdb_createsuid mem st u =
     (case userdb mem st (dec_loop (uint u) (asc ''='')) of
        Inl _ \<Rightarrow> None
      | Inr p \<Rightarrow>
          (case userdb mem st p of
             Inl _ \<Rightarrow> None
           | Inr q \<Rightarrow> map_option (\<lambda>s. s\<lparr>udb_name := Some p\<rparr>) (userdb_creates mem q)))"

subsection \<open>What a record means\<close>

text \<open>
  The abstract view of a record: the parts between bars, each a name with the value behind its
  first equals sign, or with an empty value.
\<close>

fun split_bars :: "byte list \<Rightarrow> byte list list" where
  "split_bars u =
     (case dropWhile (\<lambda>c. c \<noteq> ch CHR ''|'') u of
        [] \<Rightarrow> [u]
      | _ # r \<Rightarrow> takeWhile (\<lambda>c. c \<noteq> ch CHR ''|'') u # split_bars r)"

declare split_bars.simps [simp del]

definition field_of :: "byte list \<Rightarrow> byte list \<times> byte list" where
  "field_of s = (takeWhile (\<lambda>c. c \<noteq> ch CHR ''='') s, drop 1 (dropWhile (\<lambda>c. c \<noteq> ch CHR ''='') s))"

definition record_fields :: "byte list \<Rightarrow> (byte list \<times> byte list) list" where
  "record_fields u = map field_of (split_bars u)"

text \<open>A name of a field: not empty, without the characters that end one.\<close>

definition field_name :: "byte list \<Rightarrow> bool" where
  "field_name n \<longleftrightarrow> n \<noteq> [] \<and> 0 \<notin> set n \<and> ch CHR ''='' \<notin> set n \<and> ch CHR ''|'' \<notin> set n"

subsection \<open>Lookups\<close>

abbreviation no_bar :: "byte \<Rightarrow> bool" where "no_bar c \<equiv> c \<noteq> ch CHR ''|''"
abbreviation no_eq :: "byte \<Rightarrow> bool" where "no_eq c \<equiv> c \<noteq> ch CHR ''=''"

lemma takeWhile_name: "(\<forall>x\<in>set n. P x) \<Longrightarrow> takeWhile P (n @ w) = n @ takeWhile P w"
  "(\<forall>x\<in>set n. P x) \<Longrightarrow> dropWhile P (n @ w) = dropWhile P w"
  by (simp_all add: takeWhile_append2 dropWhile_append2)

lemma has_prefix_iff: "has_prefix u n \<longleftrightarrow> (\<exists>w. u = n @ w)"
  by (metis append_take_drop_id has_prefix_append has_prefix_def)

lemma at_append: "at (n @ w) (length n) = at w 0"
  by (cases w) (auto simp: at_def)

definition field_ends :: "byte list \<Rightarrow> bool" where
  "field_ends w \<longleftrightarrow> at w 0 = 0 \<or> at w 0 = ch CHR ''='' \<or> at w 0 = ch CHR ''|''"

lemma head_field_eq:
  assumes n: "field_name n" and w: "field_ends w" "0 \<notin> set w"
  shows "field_of (takeWhile no_bar (n @ w)) =
    (n, if at w 0 = ch CHR ''='' then takeWhile no_bar (drop 1 w) else [])"
proof -
  have nb: "\<forall>x\<in>set n. no_bar x" "\<forall>x\<in>set n. no_eq x" using n by (auto simp: field_name_def)
  show ?thesis
  proof (cases w)
    case Nil
    have eq: "takeWhile no_bar n = n" "takeWhile no_eq n = n" "dropWhile no_eq n = []"
      using nb by (simp_all only: takeWhile_eq_all_conv dropWhile_eq_Nil_conv simp_thms)
    then show ?thesis unfolding Nil append_Nil2 field_of_def eq by simp
  next
    case (Cons x r)
    with w have "x = ch CHR ''='' \<or> x = ch CHR ''|''" by (auto simp: field_ends_def)
    then show ?thesis
      unfolding Cons field_of_def takeWhile_name [OF nb(1)] takeWhile_name [OF nb(2)] by auto
  qed
qed

lemma head_field_ends:
  assumes "fst (field_of (takeWhile no_bar u)) = n"
  shows "\<exists>w. u = n @ w \<and> field_ends w"
proof -
  define f where "f = takeWhile no_bar u"
  define g where "g = dropWhile no_eq f"
  define r where "r = dropWhile no_bar u"
  have "f = n @ g" using assms unfolding f_def g_def field_of_def fst_conv by (metis takeWhile_dropWhile_id)
  moreover have "u = f @ r" by (simp add: f_def r_def)
  moreover have "g = [] \<or> hd g = ch CHR ''=''" unfolding g_def using hd_dropWhile [of no_eq f] by blast
  moreover have "r = [] \<or> hd r = ch CHR ''|''" unfolding r_def using hd_dropWhile [of no_bar u] by blast
  ultimately have "u = n @ g @ r" "field_ends (g @ r)"
    by (cases g; cases r; simp add: field_ends_def)+
  then show ?thesis by blast
qed

lemma split_bars_unfold:
  "split_bars u = takeWhile no_bar u #
     (case dropWhile no_bar u of [] \<Rightarrow> [] | _ # r \<Rightarrow> split_bars r)"
proof (cases "dropWhile no_bar u")
  case Nil
  then have "takeWhile no_bar u = u" by (metis append_Nil2 takeWhile_dropWhile_id)
  then show ?thesis by (subst split_bars.simps) (simp only: Nil list.case)
qed (subst split_bars.simps, simp)

lemma map_of_record_fields:
  "map_of (record_fields u) n =
     (if fst (field_of (takeWhile no_bar u)) = n then Some (snd (field_of (takeWhile no_bar u)))
      else case dropWhile no_bar u of [] \<Rightarrow> None | _ # r \<Rightarrow> map_of (record_fields r) n)"
  unfolding record_fields_def
  by (subst split_bars_unfold) (cases "dropWhile no_bar u"; simp del: dropWhile_eq_Nil_conv)

lemma userdb_get_head:
  "userdb_get (n @ w) n = Some (if at w 0 = ch CHR ''='' then takeWhile no_bar (drop 1 w) else [])"
  if "n \<noteq> []" "field_ends w"
  using that by (subst userdb_get.simps) (simp add: at_append field_ends_def)

lemma userdb_get_tail:
  "\<nexists>w. u = n @ w \<and> field_ends w \<Longrightarrow>
    userdb_get u n = (case dropWhile no_bar u of [] \<Rightarrow> None | _ # r \<Rightarrow> userdb_get r n)"
  by (subst userdb_get.simps) (auto simp: Let_def has_prefix_iff at_append field_ends_def)

lemma get_fields:
  assumes "field_name n" "0 \<notin> set u"
  shows "userdb_get u n = map_of (record_fields u) n"
  using assms(2)
proof (induction "length u" arbitrary: u rule: less_induct)
  case less
  show ?case
  proof (cases "\<exists>w. u = n @ w \<and> field_ends w")
    case True
    then obtain w where u: "u = n @ w" and w: "field_ends w" by blast
    from less(2) u have "0 \<notin> set w" by simp
    note head = head_field_eq [OF assms(1) w this]
    from assms(1) have "n \<noteq> []" by (simp add: field_name_def)
    from userdb_get_head [OF this w] show ?thesis
      unfolding u map_of_record_fields [of "n @ w"] head fst_conv snd_conv by simp
  next
    case False
    then have ne: "fst (field_of (takeWhile no_bar u)) \<noteq> n" using head_field_ends by blast
    show ?thesis
    proof (cases "dropWhile no_bar u")
      case (Cons x r)
      then have "length r < length u" by (rule dropWhile_Cons_length)
      moreover have "0 \<notin> set r" using less(2) Cons by (metis list.set_intros(2) set_dropWhileD)
      ultimately have "userdb_get r n = map_of (record_fields r) n" by (rule less(1))
      then show ?thesis
        unfolding userdb_get_tail [OF False] map_of_record_fields [of u] if_not_P [OF ne] Cons by simp
    next
      case Nil
      show ?thesis
        unfolding userdb_get_tail [OF False] map_of_record_fields [of u] if_not_P [OF ne] Nil by simp
    qed
  qed
qed


subsection \<open>Properties\<close>

text \<open>
  C28. Looking up a field in a record finds the value of the first field with that name in the list
  of fields the record stands for, and nothing if there is none.
\<close>

theorem userdb_get_fields:
  assumes "field_name n" "0 \<notin> set u"
  shows "userdb_get u n = map_of (record_fields u) n"
  using assms by (rule get_fields)

theorem userdb_get_fields_witness:
  "userdb_get (asc ''uid=7|home=/h|mail'') (asc ''home'') = Some (asc ''/h'')"
proof -
  have "field_name (asc ''home'')" by (simp add: field_name_def)
  from userdb_get_fields [OF this, of "asc ''uid=7|home=/h|mail''"] show ?thesis
    by (simp add: record_fields_def split_bars.simps field_of_def)
qed


lemma field_of_make: "61 \<notin> set n \<Longrightarrow> field_of (n @ 61 # v) = (n, v)"
  by (simp add: field_of_def takeWhile_append dropWhile_append)

lemma record_fields_one:
  assumes "field_name n" "ch CHR ''|'' \<notin> set v"
  shows "record_fields (n @ asc ''='' @ v) = [(n, v)]"
proof -
  have nb: "\<forall>x\<in>set (n @ asc ''='' @ v). no_bar x" and ne: "61 \<notin> set n"
    using assms by (auto simp: field_name_def)
  have "dropWhile no_bar (n @ asc ''='' @ v) = []" "takeWhile no_bar (n @ asc ''='' @ v) = n @ asc ''='' @ v"
    using nb by (simp_all only: takeWhile_eq_all_conv dropWhile_eq_Nil_conv simp_thms)
  then have "split_bars (n @ asc ''='' @ v) = [n @ asc ''='' @ v]" by (subst split_bars_unfold) (simp only: list.case)
  then show ?thesis unfolding record_fields_def using ne by (simp add: field_of_make)
qed


subsection \<open>The open file and its lookups\<close>

text \<open>
  \<open>contents\<close> is what a file with a modification time and an inode holds. The state is coherent
  if the open database is the contents of the file that was there when it was opened.
\<close>

definition coherent :: "(int \<times> int \<Rightarrow> db) \<Rightarrow> userdb_state \<Rightarrow> bool" where
  "coherent contents st \<longleftrightarrow> (initialized st \<longrightarrow> d_db st = contents (dt st, di st))"

lemma userdb_init_contents:
  assumes "coherent contents st"
    and "dbobj_open n = map_option contents (stat n)"
    and "\<forall>k. mem k"
  shows "coherent contents (userdb_init junk stat dbobj_open n st) \<and> coherent contents (userdb_close st) \<and>
    userdb mem (userdb_init junk stat dbobj_open n st) u =
      (case stat n of None \<Rightarrow> Inl ENOENT
       | Some b \<Rightarrow> (case contents b u of None \<Rightarrow> Inl ENOENT | Some q \<Rightarrow> Inr (cstr q)))"
  using assms
  by (auto simp: coherent_def userdb_init_def userdb_close_def userdb_def Let_def
      split: option.splits)

text \<open>
  A run of the program: calls of \<open>userdb_init\<close>, each with what the system answers then, and of
  \<open>userdb_close\<close>. Nothing relates the answers of different calls.
\<close>

datatype userdb_call =
    Init_call "int \<times> int" "byte list \<Rightarrow> (int \<times> int) option" "byte list \<Rightarrow> db option"
  | Close_call

definition userdb_run :: "byte list \<Rightarrow> userdb_call list \<Rightarrow> userdb_state" where
  "userdb_run n calls = fold (\<lambda>c st. case c of
     Init_call junk stat dbobj_open \<Rightarrow> userdb_init junk stat dbobj_open n st | Close_call \<Rightarrow> userdb_close st) calls userdb_start"

definition stamp :: "int \<times> int \<Rightarrow> (byte list \<Rightarrow> (int \<times> int) option) \<Rightarrow> byte list \<Rightarrow> int \<times> int" where
  "stamp junk stat n = (case stat n of None \<Rightarrow> junk | Some b \<Rightarrow> b)"

text \<open>A call that finds the file with the modification time and inode \<open>b\<close>.\<close>

fun finds :: "byte list \<Rightarrow> int \<times> int \<Rightarrow> userdb_call \<Rightarrow> bool" where
  "finds n b (Init_call junk stat dbobj_open) \<longleftrightarrow> stat n = Some b"
| "finds n b Close_call \<longleftrightarrow> False"

text \<open>The database in use: which call opened it, and what the calls since then found.\<close>

definition opened_by :: "byte list \<Rightarrow> userdb_call list \<Rightarrow> userdb_state \<Rightarrow> bool" where
  "opened_by n calls st \<longleftrightarrow> (\<exists>before junk stat dbobj_open after. calls = before @ Init_call junk stat dbobj_open # after \<and>
     dbobj_open n = Some (d_db st) \<and> (dt st, di st) = stamp junk stat n \<and> (\<forall>c\<in>set after. finds n (dt st, di st) c))"

lemma opened_by_now: "dbobj_open n = Some d \<Longrightarrow> opened_by n (calls @ [Init_call junk stat dbobj_open])
    \<lparr>initialized = i, dt = fst (stamp junk stat n), di = snd (stamp junk stat n), d_db = d\<rparr>"
  unfolding opened_by_def by (intro exI [of _ calls] exI [of _ junk] exI [of _ stat] exI [of _ dbobj_open] exI [of _ "[]"]) simp

lemma opened_by_before: "opened_by n calls st \<Longrightarrow> finds n (dt st, di st) c \<Longrightarrow> opened_by n (calls @ [c]) st"
  unfolding opened_by_def
proof (elim exE conjE)
  fix before junk stat dbobj_open after
  assume h: "finds n (dt st, di st) c" "calls = before @ Init_call junk stat dbobj_open # after" "dbobj_open n = Some (d_db st)"
    "(dt st, di st) = stamp junk stat n" "\<forall>c\<in>set after. finds n (dt st, di st) c"
  then show "\<exists>before junk stat dbobj_open after. calls @ [c] = before @ Init_call junk stat dbobj_open # after \<and>
     dbobj_open n = Some (d_db st) \<and> (dt st, di st) = stamp junk stat n \<and> (\<forall>c\<in>set after. finds n (dt st, di st) c)"
    by (intro exI [of _ before] exI [of _ junk] exI [of _ stat] exI [of _ dbobj_open] exI [of _ "after @ [c]"]) auto
qed

lemma userdb_init_opened:
  assumes "initialized st \<Longrightarrow> opened_by n calls st" "st' = userdb_init junk stat dbobj_open n st"
  shows "(initialized st' \<longrightarrow> opened_by n (calls @ [Init_call junk stat dbobj_open]) st') \<and>
    (\<not> initialized st' \<longrightarrow> dbobj_open n = None \<or> stat n = None)"
proof (cases "initialized st \<and> stat n = Some (dt st, di st)")
  case True
  then have "st' = st" by (simp add: assms(2) userdb_init_def)
  then show ?thesis using True opened_by_before [of n calls st] assms(1) by simp
next
  case False
  show ?thesis
  proof (cases "dbobj_open n")
    case None
    then have "\<not> initialized st'" using False by (cases "stat n") (auto simp: assms(2) userdb_init_def Let_def)
    then show ?thesis using None by simp
  next
    case (Some d)
    show ?thesis
    proof (cases "initialized st \<or> stat n \<noteq> None")
      case True
      then have "st' = \<lparr>initialized = True, dt = fst (stamp junk stat n), di = snd (stamp junk stat n), d_db = d\<rparr>"
        using False Some by (cases st; cases "stat n") (auto simp: assms(2) userdb_init_def stamp_def Let_def)
      then show ?thesis using opened_by_now [of dbobj_open n d calls junk stat True] Some by simp
    next
      case none: False
      then have "st' = st" by (simp add: assms(2) userdb_init_def Let_def)
      then show ?thesis using none by (cases "stat n") auto
    qed
  qed
qed

lemma userdb_run_snoc: "userdb_run n (calls @ [Init_call junk stat dbobj_open]) = userdb_init junk stat dbobj_open n (userdb_run n calls)"
  "userdb_run n (calls @ [Close_call]) = userdb_close (userdb_run n calls)"
  by (simp_all add: userdb_run_def)

lemma userdb_run_opened: "initialized (userdb_run n calls) \<Longrightarrow> opened_by n calls (userdb_run n calls)"
proof (induction calls rule: rev_induct)
  case Nil
  then show ?case by (simp add: userdb_run_def userdb_start_def)
next
  case (snoc c calls)
  show ?case
  proof (cases c)
    case (Init_call junk stat dbobj_open)
    then show ?thesis using userdb_init_opened [OF snoc.IH refl] snoc.prems by (simp add: userdb_run_snoc)
  next
    case Close_call
    then show ?thesis using snoc.prems by (simp add: userdb_run_snoc userdb_close_def split: if_splits)
  qed
qed

text \<open>
  C30. Whatever happened between the calls of a run, after one that looks for the file the database in
  use is one that this call or an earlier one opened, and every call since then, this one
  included, found the file with the modification time and the inode of that opening, and none closed
  it; or there is none, and then the file could not be opened or \<open>stat\<close> failed.
\<close>

theorem userdb_init_current:
  "let calls' = calls @ [Init_call junk stat dbobj_open]; st = userdb_run n calls' in
    if initialized st
    then \<exists>before junk' stat' dbobj_open' after. calls' = before @ Init_call junk' stat' dbobj_open' # after \<and>
      dbobj_open' n = Some (d_db st) \<and> (dt st, di st) = stamp junk' stat' n \<and> (\<forall>c\<in>set after. finds n (dt st, di st) c)
    else dbobj_open n = None \<or> stat n = None"
  using userdb_init_opened [OF userdb_run_opened refl, of n calls junk stat dbobj_open]
  unfolding Let_def userdb_run_snoc opened_by_def by (cases "initialized (userdb_init junk stat dbobj_open n (userdb_run n calls))") simp_all

text \<open>A file that was replaced under its name: the second call opens it again, the third keeps it.\<close>

theorem userdb_init_current_witness:
  "\<exists>before junk stat dbobj_open after.
     [Init_call (0, 0) (\<lambda>f. Some (5, 9)) (\<lambda>f. Some Map.empty),
      Init_call (0, 0) (\<lambda>f. Some (6, 10)) (\<lambda>f. Some [asc ''u'' \<mapsto> asc ''uid=1'']),
      Init_call (0, 0) (\<lambda>f. Some (6, 10)) (\<lambda>f. None)] = before @ Init_call junk stat dbobj_open # after \<and>
     dbobj_open [] = Some [asc ''u'' \<mapsto> asc ''uid=1''] \<and> (6, 10) = stamp junk stat [] \<and> (\<forall>c\<in>set after. finds [] (6, 10) c)"
  using userdb_init_current [of "[Init_call (0, 0) (\<lambda>f. Some (5, 9)) (\<lambda>f. Some Map.empty),
      Init_call (0, 0) (\<lambda>f. Some (6, 10)) (\<lambda>f. Some [asc ''u'' \<mapsto> asc ''uid=1''])]" "(0, 0)" "\<lambda>f. Some (6, 10)" "\<lambda>f. None" "[]"]
  by (simp add: userdb_run_def userdb_init_def userdb_start_def Let_def)

definition field :: "byte list \<Rightarrow> string \<Rightarrow> byte list option" where
  "field u n = map_of (record_fields u) (asc n)"

lemma userdb_gets_field:
  assumes "\<forall>k. mem k" "0 \<notin> set u" "field_name (asc n)"
  shows "userdb_gets mem u (asc n) = (case field u n of None \<Rightarrow> Inl ENOENT | Some v \<Rightarrow> Inr v)"
  unfolding userdb_gets_def field_def get_fields [OF assms(3,2)] using assms(1) by (simp split: option.split)

lemma userdb_creates_field:
  assumes "\<forall>k. mem k" "0 \<notin> set u"
  shows "userdb_creates mem u =
    (case (field u ''home'', field u ''uid'', field u ''gid'') of
       (Some h, Some i, Some g) \<Rightarrow> Some \<lparr>udb_name = None, udb_gecos = field u ''gecos'', udb_dir = Some h,
         udb_shell = field u ''shell'', udb_mailbox = field u ''mail'', udb_quota = field u ''quota'',
         udb_uid = of_int (atol i), udb_gid = of_int (atol g), udb_source = field u ''_''\<rparr>
     | _ \<Rightarrow> None)"
proof -
  have "field_name (asc ''home'')" "field_name (asc ''uid'')" "field_name (asc ''gid'')"
    "field_name (asc ''gecos'')" "field_name (asc ''shell'')" "field_name (asc ''mail'')"
    "field_name (asc ''quota'')" "field_name (asc ''_'')" by (simp_all add: field_name_def)
  note gets = this [THEN userdb_gets_field [OF assms]]
  have opt: "opt_field (case x of None \<Rightarrow> Inl ENOENT | Some v \<Rightarrow> Inr v) f = f x" for x f
    by (cases x) simp_all
  have ok: "ok_of (case x of None \<Rightarrow> Inl ENOENT | Some v \<Rightarrow> Inr v) = x" for x
    by (cases x) (simp_all add: ok_of_def)
  show ?thesis
    unfolding userdb_creates_def gets opt ok using assms(1)
    by (cases "field u ''home''"; cases "field u ''uid''"; cases "field u ''gid''")
      (simp_all add: userdbs_zero_def)
qed

text \<open>
  C31. The account of a record exists exactly if its home directory, user id and group id do; its
  members are the fields of the record, an optional one missing where the field is. The reverse
  lookup of a user id gives the account that the record of \<open>uid=\<close> names.
\<close>

theorem userdb_accounts:
  assumes "\<forall>k. mem k" "0 \<notin> set u" "0 \<notin> set name" "initialized st"
    and "d_db st (libmail_str_uid_t uid @ asc ''='') = Some name" "d_db st name = Some u"
  shows "userdb_creates mem u =
    (case (field u ''home'', field u ''uid'', field u ''gid'') of
       (Some h, Some i, Some g) \<Rightarrow> Some \<lparr>udb_name = None, udb_gecos = field u ''gecos'', udb_dir = Some h,
         udb_shell = field u ''shell'', udb_mailbox = field u ''mail'', udb_quota = field u ''quota'',
         udb_uid = of_int (atol i), udb_gid = of_int (atol g), udb_source = field u ''_''\<rparr>
     | _ \<Rightarrow> None) \<and>
    userdb_createsuid mem st uid = map_option (udb_name_update (\<lambda>_. Some name)) (userdb_creates mem u)"
proof -
  have "dec_loop (uint uid) (asc ''='') = libmail_str_uid_t uid @ asc ''=''"
    unfolding libmail_str_uid_t_def by (rule dec_loop_append) simp
  with assms have "userdb_createsuid mem st uid = map_option (udb_name_update (\<lambda>_. Some name)) (userdb_creates mem u)"
    by (simp add: userdb_createsuid_def userdb_def cstr_id)
  with userdb_creates_field [OF assms(1,2)] show ?thesis by blast
qed

theorem userdb_accounts_witness:
  "\<exists>s. userdb_createsuid (\<lambda>k. True) (userdb_start\<lparr>initialized := True, d_db :=
      [asc ''7='' \<mapsto> asc ''u'', asc ''u'' \<mapsto> asc ''uid=7|gid=8|home=/h'']\<rparr>) 7 = Some s \<and>
    udb_uid s = 7 \<and> udb_gid s = 8 \<and> udb_dir s = Some (asc ''/h'') \<and> udb_shell s = None"
proof -
  let ?u = "asc ''uid=7|gid=8|home=/h''"
  let ?st = "userdb_start\<lparr>initialized := True, d_db := [asc ''7='' \<mapsto> asc ''u'', asc ''u'' \<mapsto> ?u]\<rparr>"
  have "libmail_str_uid_t 7 = asc ''7''" by (simp add: libmail_str_uid_t_def dec_loop_unfold)
  then have "d_db ?st (libmail_str_uid_t 7 @ asc ''='') = Some (asc ''u'')" by simp
  have f: "field ?u ''home'' = Some (asc ''/h'')" "field ?u ''uid'' = Some (asc ''7'')" "field ?u ''gid'' = Some (asc ''8'')"
    "field ?u ''shell'' = None"
    by (simp_all add: field_def record_fields_def split_bars.simps field_of_def)
  have "(of_int (atol (asc ''7'')) :: u32) = 7" "(of_int (atol (asc ''8'')) :: u32) = 8"
    by (simp_all add: atol_def isspace_def isdigit_def dec_value_def)
  with f userdb_accounts [of "\<lambda>k. True" ?u "asc ''u''" ?st 7]
    \<open>libmail_str_uid_t 7 = asc ''7''\<close> show ?thesis by simp
qed

end
