(* ===== verification/Auth_Userdb.thy ===== *)
theory Auth_Userdb imports Passwd Cram Userdb begin

text \<open>
  Authentication against the user database, \<open>wmail/authlib\<close>: looking a user up
  (\<open>preauthuserdbcommon.c\<close>), logging in with a password (\<open>authuserdb.c\<close>) or with CRAM
  (\<open>authcram.c\<close>), what a login does to the process (\<open>success.c\<close>), and changing a password
  (\<open>authuserdbpwd.c\<close>, the password maker of \<open>userdb/userdbmkpw.c\<close>).

  What the functions do to the outside is a sequence of actions in the \<open>world\<close>; nothing is done
  after the program has ended. The system is the record \<open>auth_env\<close>: \<open>malloc_ok n\<close> whether
  \<open>malloc(n)\<close> succeeds, the files, \<open>chdir\<close>, \<open>crypt\<close>, the outcome of a program that is run.
\<close>

subsection \<open>The world\<close>

record authinfo =
  sysusername :: "byte list option"
  sysuserid :: "u32 option"
  sysgroupid :: u32
  homedir :: "byte list option"
  address :: "byte list option"
  fullname :: "byte list option"
  maildir :: "byte list option"
  quota :: "byte list option"
  passwd :: "byte list option"
  clearpasswd :: "byte list option"
  staticindex :: u32

definition authinfo_zero :: authinfo where
  "authinfo_zero = \<lparr>sysusername = None, sysuserid = None, sysgroupid = 0, homedir = None,
     address = None, fullname = None, maildir = None, quota = None, passwd = None,
     clearpasswd = None, staticindex = 0\<rparr>"

datatype action =
    Putenv "byte list"
  | Changegroup u32
  | Changeusername "byte list" "u32 option"
  | Changeuidgid u32 u32
  | Chdir "byte list option"
  | Write2 "byte list"
  | Callback authinfo
  | Run "byte list list"

record world =
  actions :: "action list"
  exited :: bool
  udb_st :: userdb_state

definition act :: "action \<Rightarrow> world \<Rightarrow> world" where
  "act a w = (if exited w then w else w\<lparr>actions := actions w @ [a]\<rparr>)"

definition authexit :: "world \<Rightarrow> world" where
  "authexit w = w\<lparr>exited := True\<rparr>"

datatype prog_end = Fork_fails | Wait_fails | Ended bool

record auth_env =
  malloc_ok :: "nat \<Rightarrow> bool"
  stat_junk :: "int \<times> int"
  stat_file :: "byte list \<Rightarrow> (int \<times> int) option"
  open_db :: "byte list \<Rightarrow> db option"
  chdir_ok :: "byte list option \<Rightarrow> bool"
  crypt_fn :: "byte list \<Rightarrow> byte list \<Rightarrow> byte list"
  run_prog :: "byte list list \<Rightarrow> prog_end"
  random8 :: "byte list"
  hmac_list :: "hmac_alg list"
  USERDB :: "byte list"
  SBINDIR :: "byte list"

definition open_userdb :: "auth_env \<Rightarrow> world \<Rightarrow> world" where
  "open_userdb E w = w\<lparr>udb_st := userdb_init (stat_junk E) (stat_file E) (open_db E)
     (USERDB E @ asc ''.dat'') (udb_st w)\<rparr>"

definition close_userdb :: "world \<Rightarrow> world" where
  "close_userdb w = w\<lparr>udb_st := userdb_close (udb_st w)\<rparr>"

abbreviation shadow :: "auth_env \<Rightarrow> byte list \<Rightarrow> byte list option" where
  "shadow E u \<equiv> userdbshadow (malloc_ok E) (open_db E) (USERDB E @ asc ''shadow.dat'') u"

subsection \<open>A login succeeds\<close>

text \<open>The commas at the end of a GECOS field are cut off; the loop stops at the equals sign.\<close>

fun strip_commas :: "byte list \<Rightarrow> byte list" where
  "strip_commas s = (if s \<noteq> [] \<and> last s = ch CHR '','' then strip_commas (butlast s) else s)"

declare strip_commas.simps [simp del]

definition authsuccess :: "auth_env \<Rightarrow> byte list option \<Rightarrow> byte list option \<Rightarrow> u32 option \<Rightarrow> u32 option
    \<Rightarrow> byte list option \<Rightarrow> byte list option \<Rightarrow> world \<Rightarrow> world" where
  "authsuccess E home username uid gid authaddr authfullname w =
     (let w = (case username of
          Some u \<Rightarrow> act (Changeusername u gid) (case gid of Some g \<Rightarrow> act (Changegroup g) w | None \<Rightarrow> w)
        | None \<Rightarrow> (case (uid, gid) of
            (Some i, Some g) \<Rightarrow> act (Changeuidgid i g) w
          | _ \<Rightarrow> authexit (act (Write2 (asc ''AUTHFAILURE'' @ [NL])) w)))
      in if \<not> chdir_ok E home then authexit w
      else let w = act (Chdir home) w;
               authaddr_buf = asc ''AUTHADDR='' @ or_empty authaddr;
               authfullname_buf = asc ''AUTHFULLNAME='' @ or_empty authfullname
        in if \<not> malloc_ok E (length authaddr_buf + 1) then authexit w
        else if \<not> malloc_ok E (length authfullname_buf + 1) then authexit w
        else act (Putenv (strip_commas authfullname_buf)) (act (Putenv authaddr_buf) w))"

subsection \<open>Looking a user up\<close>

definition stored_password :: "auth_env \<Rightarrow> byte list option \<Rightarrow> byte list \<Rightarrow> byte list option" where
  "stored_password E udbs services =
     (case udbs of
        None \<Rightarrow> None
      | Some r \<Rightarrow>
          (case ok_of (userdb_gets (malloc_ok E) r services) of
             Some p \<Rightarrow> Some p
           | None \<Rightarrow> ok_of (userdb_gets (malloc_ok E) r (asc ''systempw''))))"

definition auth_userdb_pre_common :: "auth_env \<Rightarrow> byte list \<Rightarrow> byte list \<Rightarrow> bool
    \<Rightarrow> (authinfo \<Rightarrow> world \<Rightarrow> int \<times> 'r \<times> world) \<Rightarrow> 'r \<Rightarrow> world \<Rightarrow> int \<times> 'r \<times> world" where
  "auth_userdb_pre_common E uid service needpass callback arg w =
     (let w = open_userdb E w in
      case userdb (malloc_ok E) (udb_st w) uid of
        Inl _ \<Rightarrow> (-1, arg, close_userdb w)
      | Inr u \<Rightarrow>
          (case userdb_creates (malloc_ok E) u of
             None \<Rightarrow> (-1, arg, w)
           | Some udb \<Rightarrow>
               let auth = authinfo_zero\<lparr>sysusername := Some uid, sysuserid := Some (udb_uid udb),
                     sysgroupid := udb_gid udb, homedir := udb_dir udb, address := Some uid,
                     fullname := udb_gecos udb\<rparr>;
                   finish = (\<lambda>auth. callback (auth\<lparr>maildir := udb_mailbox udb, quota := udb_quota udb\<rparr>) w)
               in if needpass then
                    let udbs = shadow E uid in
                    if \<not> malloc_ok E (length service + 3) then (1, arg, w)
                    else finish (auth\<lparr>passwd := stored_password E udbs (service @ asc ''pw'')\<rparr>)
                  else finish auth))"

text \<open>A lookup without the password, for users that are authenticated by other means.\<close>

definition auth_userdb_pre :: "auth_env \<Rightarrow> byte list \<Rightarrow> byte list
    \<Rightarrow> (authinfo \<Rightarrow> world \<Rightarrow> int \<times> 'r \<times> world) \<Rightarrow> 'r \<Rightarrow> world \<Rightarrow> int \<times> 'r \<times> world" where
  "auth_userdb_pre E uid service callback arg w =
     auth_userdb_pre_common E uid service False callback arg w"

definition auth_cram_pre :: "auth_env \<Rightarrow> byte list \<Rightarrow> byte list
    \<Rightarrow> (authinfo \<Rightarrow> world \<Rightarrow> int \<times> 'r \<times> world) \<Rightarrow> 'r \<Rightarrow> world \<Rightarrow> int \<times> 'r \<times> world" where
  "auth_cram_pre E uid service callback arg w =
     auth_userdb_pre_common E uid service False callback arg w"


subsection \<open>Logging in with a password\<close>

text \<open>
  The callback of the lookup. \<open>cb\<close> says whether the caller gave a function; without one the
  login is made by the process itself.
\<close>

definition callback_userdb :: "auth_env \<Rightarrow> byte list \<Rightarrow> bool \<Rightarrow> authinfo \<Rightarrow> world
    \<Rightarrow> int \<times> byte list option \<times> world" where
  "callback_userdb E pass cb a w =
     (case passwd a of
        None \<Rightarrow> (-1, None, w)
      | Some stored \<Rightarrow>
          if authcheckpassword (crypt_fn E) pass stored \<noteq> 0 then (-1, None, w)
          else let userret = or_empty (sysusername a) in
            if \<not> malloc_ok E (length userret + 1) then (1, None, w)
            else if cb then
              (0, Some userret, act (Callback (a\<lparr>address := sysusername a\<rparr>)) w)
            else let dir = asc ''MAILDIR='' @ or_empty (maildir a);
                     quo = asc ''MAILDIRQUOTA='' @ or_empty (quota a) in
              if \<not> malloc_ok E (length dir + 1) then (1, None, w)
              else let w = act (Putenv dir) w in
                if \<not> malloc_ok E (length quo + 1) then (1, None, w)
                else (0, Some userret, authsuccess E (homedir a) None (sysuserid a) (Some (sysgroupid a))
                  (address a) (fullname a) (act (Putenv quo) w)))"

type_synonym auth_result = "(cram_errno + byte list) \<times> world"

definition auth_userdb :: "auth_env \<Rightarrow> byte list \<Rightarrow> byte list \<Rightarrow> byte list \<Rightarrow> bool \<Rightarrow> world \<Rightarrow> auth_result" where
  "auth_userdb E service authtype authdata cb w =
     (if authtype \<noteq> AUTHTYPE_LOGIN then (Inl EPERM, w)
      else case strtok {NL} authdata of
        None \<Rightarrow> (Inl EPERM, w)
      | Some (user, rest) \<Rightarrow>
          (case strtok {NL} rest of
             None \<Rightarrow> (Inl EPERM, w)
           | Some (pass, rest) \<Rightarrow>
               (case auth_userdb_pre_common E user service True (callback_userdb E pass cb) None w of
                  (rc, userret, w) \<Rightarrow>
                    let w = close_userdb w in
                    if rc < 0 then (Inl EPERM, w)
                    else if rc > 0 then (Inl EACCES, w)
                    else (Inr (or_empty userret), w))))"

subsection \<open>Logging in with CRAM\<close>

definition stored_secret :: "auth_env \<Rightarrow> byte list \<Rightarrow> byte list \<Rightarrow> hmac_alg \<Rightarrow> byte list option" where
  "stored_secret E udbs service h =
     (case ok_of (userdb_gets (malloc_ok E) udbs (service @ asc ''-hmac-'' @ alg_name h @ asc ''pw'')) of
        Some p \<Rightarrow> Some p
      | None \<Rightarrow> ok_of (userdb_gets (malloc_ok E) udbs (asc ''hmac-'' @ alg_name h @ asc ''pw'')))"

definition cram_success :: "auth_env \<Rightarrow> byte list \<Rightarrow> userdbs \<Rightarrow> bool \<Rightarrow> world \<Rightarrow> auth_result" where
  "cram_success E user udb cb w =
     (let w = (if cb then act (Callback (authinfo_zero\<lparr>sysuserid := Some (udb_uid udb),
                 sysgroupid := udb_gid udb, homedir := udb_dir udb, address := Some user,
                 maildir := udb_mailbox udb\<rparr>)) w
               else authsuccess E (udb_dir udb) None (Some (udb_uid udb)) (Some (udb_gid udb))
                 (Some user) (udb_gecos udb) w);
          w = close_userdb w;
          w = (if cb then w else act (Putenv (asc ''MAILDIR='')) w);
          box = or_empty (udb_mailbox udb);
          w = (if \<not> cb \<and> box \<noteq> [] then
                 (if \<not> malloc_ok E (9 + length box) then authexit w
                  else act (Putenv (asc ''MAILDIR='' @ box)) w)
               else w)
      in if \<not> malloc_ok E (length user + 1) then (Inr user, authexit w) else (Inr user, w))"

definition auth_cram :: "auth_env \<Rightarrow> byte list \<Rightarrow> byte list \<Rightarrow> byte list \<Rightarrow> bool \<Rightarrow> world \<Rightarrow> auth_result" where
  "auth_cram E service authtype authdata cb w =
     (case auth_get_cram (hmac_list E) authtype authdata of
        Inl e \<Rightarrow> (Inl e, w)
      | Inr (h, user, challenge, response) \<Rightarrow>
          let w = open_userdb E w in
          case userdb (malloc_ok E) (udb_st w) user of
            Inl _ \<Rightarrow> (Inl EPERM, close_userdb w)
          | Inr u \<Rightarrow>
              (case shadow E user of
                 None \<Rightarrow> (Inl EPERM, close_userdb w)
               | Some udbs \<Rightarrow>
                   if \<not> malloc_ok E (length service + length (alg_name h) + 9)
                   then (Inl ENOSPC, close_userdb w)
                   else case stored_secret E udbs service h of
                     None \<Rightarrow> (Inl EPERM, close_userdb w)
                   | Some passwords \<Rightarrow>
                       if auth_verify_cram (malloc_ok E (alg_L h * 3)) h challenge response passwords \<noteq> 0
                       then (Inl EACCES, close_userdb w)
                       else case userdb_creates (malloc_ok E) u of
                         None \<Rightarrow> (Inl EACCES, close_userdb w)
                       | Some udb \<Rightarrow> cram_success E user udb cb w))"

subsection \<open>Changing a password\<close>

text \<open>Control characters, bars, equals signs and quotes are not let into the database.\<close>

definition bad :: "byte list \<Rightarrow> bool" where
  "bad q \<longleftrightarrow> (\<exists>p\<in>set q. p < 32 \<or> p = ch CHR ''|'' \<or> p = ch CHR ''='' \<or> p = 39 \<or> p = 34)"

definition userdb_hex64 :: "byte list" where
  "userdb_hex64 = asc ''./0123456789abcdefghijklmnopqrstuvwxyzABCDEFGHIJKLMNOPQRSTUVWXYZ''"

text \<open>The variant with a random device, which exits where the device cannot be read.\<close>

definition userdb_mkmd5pw :: "auth_env \<Rightarrow> byte list \<Rightarrow> byte list" where
  "userdb_mkmd5pw E buf = md5_crypt_redhat buf (map (\<lambda>b. userdb_hex64 ! unat (b AND 63)) (take 8 (random8 E)))"

type_synonym passwd_result = "(cram_errno option + unit) \<times> world"

text \<open>The two programs are run one after the other; a second fork that fails leaves \<open>errno\<close>.\<close>

definition dochangepwd2 :: "auth_env \<Rightarrow> byte list \<Rightarrow> byte list \<Rightarrow> userdbs \<Rightarrow> byte list \<Rightarrow> world \<Rightarrow> passwd_result" where
  "dochangepwd2 E services uid udb npwd w =
     (let who = or_empty (udb_source udb) @ uid in
      if \<not> malloc_ok E (length who + 1) then (Inl (Some EPERM), w)
      else if \<not> malloc_ok E (length services + length npwd + 10) then (Inl (Some EPERM), w)
      else let argv = [SBINDIR E @ asc ''/userdb'', who, asc ''set'', services @ asc ''pw='' @ npwd] in
        case run_prog E argv of
          Fork_fails \<Rightarrow> (Inl (Some EPERM), w)
        | Wait_fails \<Rightarrow> (Inl (Some EPERM), act (Run argv) w)
        | Ended ok \<Rightarrow>
            let w = act (Run argv) w in
            if \<not> ok then (Inl (Some EPERM), w)
            else let argv = [SBINDIR E @ asc ''/makeuserdb''] in
              case run_prog E argv of
                Fork_fails \<Rightarrow> (Inl None, w)
              | Wait_fails \<Rightarrow> (Inl (Some EPERM), act (Run argv) w)
              | Ended ok \<Rightarrow> (if ok then Inr () else Inl (Some EPERM), act (Run argv) w))"

definition dochangepwd1 :: "auth_env \<Rightarrow> byte list \<Rightarrow> byte list \<Rightarrow> byte list \<Rightarrow> byte list \<Rightarrow> bool \<Rightarrow> world
    \<Rightarrow> passwd_result" where
  "dochangepwd1 E service uid opwd npwd hmac_flag w =
     (case shadow E uid of
        None \<Rightarrow> (Inl (Some EINVAL), w)
      | Some udbs \<Rightarrow>
          if \<not> malloc_ok E (length service + 3) then (Inl (Some EPERM), w)
          else let (passwords, service) =
                 (case ok_of (userdb_gets (malloc_ok E) udbs (service @ asc ''pw'')) of
                    Some p \<Rightarrow> (Some p, service)
                  | None \<Rightarrow> (ok_of (userdb_gets (malloc_ok E) udbs (asc ''systempw'')), asc ''system''))
            in case passwords of
              None \<Rightarrow> (Inl (Some EPERM), w)
            | Some p \<Rightarrow>
                if (if hmac_flag then strcmp opwd p else authcheckpassword (crypt_fn E) opwd p) \<noteq> 0
                then (Inl (Some EPERM), w)
                else let w = open_userdb E w in
                  case userdb (malloc_ok E) (udb_st w) uid of
                    Inl _ \<Rightarrow> (Inl (Some EPERM), w)
                  | Inr u \<Rightarrow>
                      (case userdb_creates (malloc_ok E) u of
                         None \<Rightarrow> (Inl (Some EPERM), w)
                       | Some udb \<Rightarrow> dochangepwd2 E service uid udb npwd w))"

definition auth_userdb_passwd :: "auth_env \<Rightarrow> byte list \<Rightarrow> byte list \<Rightarrow> byte list \<Rightarrow> byte list \<Rightarrow> world
    \<Rightarrow> passwd_result" where
  "auth_userdb_passwd E service uid opwd_buf npwd_buf w =
     (if bad uid \<or> bad service \<or> bad opwd_buf \<or> bad npwd_buf \<or> strchr uid (ch CHR ''/'') \<noteq> None
      then (Inl (Some EPERM), w)
      else if has_prefix service (asc ''hmac-'') then
        (case (hmacpw (hmac_list E) opwd_buf (drop 5 service), hmacpw (hmac_list E) npwd_buf (drop 5 service)) of
           (Some opwd, Some npwd) \<Rightarrow> dochangepwd1 E service uid opwd npwd True w
         | _ \<Rightarrow> (Inl (Some EPERM), w))
      else if \<not> malloc_ok E (length opwd_buf + 1) then (Inl (Some EPERM), w)
      else let npwd = userdb_mkmd5pw E npwd_buf in
        if \<not> malloc_ok E (length npwd + 1) then (Inl (Some EPERM), w)
        else dochangepwd1 E service uid opwd_buf npwd False w)"


subsection \<open>What the database says\<close>

text \<open>The present records of a user and the passwords they hold, as fields of the records.\<close>

definition user_record :: "auth_env \<Rightarrow> byte list \<Rightarrow> byte list option" where
  "user_record E u = (case open_db E (USERDB E @ asc ''.dat'') of None \<Rightarrow> None | Some d \<Rightarrow> map_option cstr (d u))"

definition shadow_record :: "auth_env \<Rightarrow> byte list \<Rightarrow> byte list option" where
  "shadow_record E u = (case open_db E (USERDB E @ asc ''shadow.dat'') of None \<Rightarrow> None | Some d \<Rightarrow> map_option cstr (d u))"

definition first_field :: "byte list \<Rightarrow> byte list \<Rightarrow> byte list \<Rightarrow> byte list option" where
  "first_field r n m =
     (case map_of (record_fields r) n of Some p \<Rightarrow> Some p | None \<Rightarrow> map_of (record_fields r) m)"

definition account :: "byte list \<Rightarrow> bool" where
  "account r \<longleftrightarrow> field r ''home'' \<noteq> None \<and> field r ''uid'' \<noteq> None \<and> field r ''gid'' \<noteq> None"

text \<open>The state of the open file agrees with the files that the system has.\<close>

definition in_step :: "auth_env \<Rightarrow> world \<Rightarrow> bool" where
  "in_step E w \<longleftrightarrow> (\<exists>contents. coherent contents (udb_st w) \<and>
     open_db E (USERDB E @ asc ''.dat'') = map_option contents (stat_file E (USERDB E @ asc ''.dat'')))"

lemma userdb_in_step:
  assumes "in_step E w" "\<forall>n. malloc_ok E n"
  shows "userdb (malloc_ok E) (udb_st (open_userdb E w)) u =
    (case user_record E u of None \<Rightarrow> Inl ENOENT | Some r \<Rightarrow> Inr r)"
proof -
  from assms(1) obtain contents where c: "coherent contents (udb_st w)"
      "open_db E (USERDB E @ asc ''.dat'') = map_option contents (stat_file E (USERDB E @ asc ''.dat''))"
    unfolding in_step_def by blast
  have "userdb (malloc_ok E) (udb_st (open_userdb E w)) u =
      (case stat_file E (USERDB E @ asc ''.dat'') of None \<Rightarrow> Inl ENOENT
       | Some b \<Rightarrow> (case contents b u of None \<Rightarrow> Inl ENOENT | Some q \<Rightarrow> Inr (cstr q)))"
    using userdb_init_contents [of contents "udb_st w" "open_db E" "USERDB E @ asc ''.dat''" "stat_file E"
        "malloc_ok E" "stat_junk E" u] c assms(2) by (simp add: open_userdb_def)
  then show ?thesis
    unfolding user_record_def c(2)
    by (cases "stat_file E (USERDB E @ asc ''.dat'')") (auto split: option.split)
qed

lemma shadow_ok:
  assumes "\<forall>n. malloc_ok E n"
  shows "shadow E u = shadow_record E u"
  using assms by (auto simp: userdbshadow_def shadow_record_def split: option.splits)

lemma record_no_zero: "user_record E u = Some r \<Longrightarrow> 0 \<notin> set r" "shadow_record E u = Some r \<Longrightarrow> 0 \<notin> set r"
  by (auto simp: user_record_def shadow_record_def split: option.splits)

lemma gets_ok:
  assumes "\<forall>n. malloc_ok E n" "0 \<notin> set r" "field_name n"
  shows "ok_of (userdb_gets (malloc_ok E) r n) = map_of (record_fields r) n"
  using assms by (simp add: userdb_gets_def get_fields ok_of_def split: option.split)

lemma creates_account:
  assumes "\<forall>n. malloc_ok E n" "0 \<notin> set r"
  shows "userdb_creates (malloc_ok E) r =
    (if account r then Some \<lparr>udb_name = None, udb_gecos = field r ''gecos'', udb_dir = field r ''home'',
       udb_shell = field r ''shell'', udb_mailbox = field r ''mail'', udb_quota = field r ''quota'',
       udb_uid = of_int (atol (the (field r ''uid''))), udb_gid = of_int (atol (the (field r ''gid''))),
       udb_source = field r ''_''\<rparr> else None)"
  unfolding userdb_creates_field [OF assms] account_def by (auto split: option.split)

lemma system_field: "field_name (asc ''systempw'')"
  by (simp add: field_name_def)

lemma exited_act [simp]: "exited (act a w) = exited w"
  by (simp add: act_def)

lemma actions_open_close [simp]: "actions (open_userdb E w) = actions w" "actions (close_userdb w) = actions w"
  "exited (open_userdb E w) = exited w" "exited (close_userdb w) = exited w"
  by (simp_all add: open_userdb_def close_userdb_def)

lemma act_close [simp]: "close_userdb (act a w) = act a (close_userdb w)"
  by (simp add: act_def close_userdb_def)


subsection \<open>What every module keeps\<close>

text \<open>
  The contract of an authentication module, whatever the system does and whichever allocation
  fails: a login names a user whose proof was verified, and an attempt that has done anything to
  the outside had verified one; one that leaves the decision to the next module has done nothing.
\<close>

locale auth_module =
  fixes auth :: "auth_env \<Rightarrow> byte list \<Rightarrow> byte list \<Rightarrow> byte list \<Rightarrow> bool \<Rightarrow> world \<Rightarrow> auth_result"
    and verified :: "auth_env \<Rightarrow> byte list \<Rightarrow> byte list \<Rightarrow> byte list \<Rightarrow> byte list \<Rightarrow> bool"
  assumes sound: "auth E service t data cb w = (Inr u, w') \<Longrightarrow> verified E service t data u"
    and acts: "auth E service t data cb w = (r, w') \<Longrightarrow> actions w' \<noteq> actions w \<Longrightarrow> \<exists>u. verified E service t data u"
    and quiet: "auth E service t data cb w = (Inl EPERM, w') \<Longrightarrow> actions w' = actions w \<and> exited w' = exited w"
begin

lemma unverified:
  assumes "\<nexists>u. verified E service t data u"
  shows "\<exists>e w'. auth E service t data cb w = (Inl e, w') \<and> actions w' = actions w"
proof -
  obtain r w' where a: "auth E service t data cb w = (r, w')" by (cases "auth E service t data cb w")
  with assms sound have "\<exists>e. r = Inl e" by (cases r) blast+
  with a acts [OF a] assms show ?thesis by blast
qed

end

definition verified_password :: "auth_env \<Rightarrow> byte list \<Rightarrow> byte list \<Rightarrow> byte list \<Rightarrow> byte list \<Rightarrow> bool" where
  "verified_password E service t data u \<longleftrightarrow> t = AUTHTYPE_LOGIN \<and>
     (\<exists>pass r1 r2 stored. strtok {NL} data = Some (u, r1) \<and> strtok {NL} r1 = Some (pass, r2) \<and>
       stored_password E (shadow E u) (service @ asc ''pw'') = Some stored \<and>
       authcheckpassword (crypt_fn E) pass stored = 0)"

definition verified_cram :: "auth_env \<Rightarrow> byte list \<Rightarrow> byte list \<Rightarrow> byte list \<Rightarrow> byte list \<Rightarrow> bool" where
  "verified_cram E service t data u \<longleftrightarrow>
     (\<exists>h chal resp udbs secret mem. auth_get_cram (hmac_list E) t data = Inr (h, u, chal, resp) \<and>
       shadow E u = Some udbs \<and> stored_secret E udbs service h = Some secret \<and>
       auth_verify_cram mem h chal resp secret = 0)"

lemma callback_userdb_cases:
  assumes "callback_userdb E pass cb a w = (rc, ret, w')"
  shows "(rc = -1 \<and> w' = w) \<or> (rc \<ge> 0 \<and> (rc = 0 \<longrightarrow> ret = Some (or_empty (sysusername a))) \<and>
    (\<exists>p. passwd a = Some p \<and> authcheckpassword (crypt_fn E) pass p = 0))"
  using assms by (auto simp: callback_userdb_def Let_def split: option.splits if_splits)

lemma pre_common_cases:
  assumes "auth_userdb_pre_common E u service True (callback_userdb E pass cb) None w = (rc, ret, w')"
  shows "(actions w' = actions w \<and> exited w' = exited w \<and> rc \<noteq> 0) \<or>
    (rc \<ge> 0 \<and> (rc = 0 \<longrightarrow> ret = Some u) \<and> (\<exists>p. stored_password E (shadow E u) (service @ asc ''pw'') = Some p \<and>
      authcheckpassword (crypt_fn E) pass p = 0))"
  using assms
  by (fastforce simp: auth_userdb_pre_common_def Let_def authinfo_zero_def or_empty_def
      dest!: callback_userdb_cases split: sum.splits option.splits if_splits)

lemma auth_userdb_cases:
  assumes "auth_userdb E service t data cb w = (r, w')"
  shows "(actions w' = actions w \<and> exited w' = exited w \<and> (\<exists>e. r = Inl e)) \<or>
    (\<exists>u. verified_password E service t data u \<and> (r = Inr u \<or> r = Inl EACCES))"
proof (cases "t = AUTHTYPE_LOGIN \<and> (\<exists>u r1 p r2. strtok {NL} data = Some (u, r1) \<and> strtok {NL} r1 = Some (p, r2))")
  case False
  then show ?thesis using assms by (auto simp: auth_userdb_def split: if_splits option.splits)
next
  case True
  then obtain u r1 p r2 where t: "t = AUTHTYPE_LOGIN" "strtok {NL} data = Some (u, r1)"
    "strtok {NL} r1 = Some (p, r2)" by blast
  obtain rc ret v where pc: "auth_userdb_pre_common E u service True (callback_userdb E p cb) None w = (rc, ret, v)"
    using prod_cases3 by blast
  have a: "(r, w') = (if rc < 0 then Inl EPERM else if rc > 0 then Inl EACCES else Inr (or_empty ret), close_userdb v)"
    using assms t pc unfolding auth_userdb_def
    by (auto simp: Let_def simp del: NL_def split: if_splits)
  from pre_common_cases [OF pc] show ?thesis
  proof (elim disjE conjE)
    assume "actions v = actions w" "exited v = exited w" "rc \<noteq> 0"
    with a show ?thesis by auto
  next
    assume "0 \<le> rc" "rc = 0 \<longrightarrow> ret = Some u"
      "\<exists>s. stored_password E (shadow E u) (service @ asc ''pw'') = Some s \<and> authcheckpassword (crypt_fn E) p s = 0"
    moreover from this(3) t have "verified_password E service t data u" unfolding verified_password_def by blast
    ultimately show ?thesis using a by (auto simp: or_empty_def)
  qed
qed

interpretation userdb_mod: auth_module auth_userdb verified_password
proof
  fix E service t data cb w u w'
  assume "auth_userdb E service t data cb w = (Inr u, w')"
  from auth_userdb_cases [OF this] show "verified_password E service t data u" by auto
next
  fix E service t data cb w r w'
  assume "auth_userdb E service t data cb w = (r, w')" "actions w' \<noteq> actions w"
  from auth_userdb_cases [OF this(1)] this(2) show "\<exists>u. verified_password E service t data u" by auto
next
  fix E service t data cb w w'
  assume "auth_userdb E service t data cb w = (Inl EPERM, w')"
  from auth_userdb_cases [OF this] show "actions w' = actions w \<and> exited w' = exited w" by auto
qed

lemma auth_cram_cases:
  assumes "auth_cram E service t data cb w = (r, w')"
  shows "(actions w' = actions w \<and> exited w' = exited w \<and> (\<exists>e. r = Inl e)) \<or>
    (\<exists>u. verified_cram E service t data u \<and> r = Inr u)"
proof (cases "auth_get_cram (hmac_list E) t data")
  case (Inl e)
  then show ?thesis using assms by (auto simp: auth_cram_def)
next
  case (Inr c)
  obtain h u chal resp where c: "c = (h, u, chal, resp)" by (rule prod_cases4)
  show ?thesis
  proof (cases "\<exists>udbs secret. shadow E u = Some udbs \<and> stored_secret E udbs service h = Some secret \<and>
      auth_verify_cram (malloc_ok E (alg_L h * 3)) h chal resp secret = 0")
    case True
    then have "verified_cram E service t data u" using Inr c unfolding verified_cram_def by blast
    then show ?thesis using assms Inr c
      by (auto simp: auth_cram_def cram_success_def Let_def split: sum.splits option.splits if_splits)
  next
    case False
    then show ?thesis using assms Inr c
      by (auto simp: auth_cram_def Let_def split: sum.splits option.splits if_splits)
  qed
qed

interpretation cram_mod: auth_module auth_cram verified_cram
proof
  fix E service t data cb w u w'
  assume "auth_cram E service t data cb w = (Inr u, w')"
  from auth_cram_cases [OF this] show "verified_cram E service t data u" by auto
next
  fix E service t data cb w r w'
  assume "auth_cram E service t data cb w = (r, w')" "actions w' \<noteq> actions w"
  from auth_cram_cases [OF this(1)] this(2) show "\<exists>u. verified_cram E service t data u" by auto
next
  fix E service t data cb w w'
  assume "auth_cram E service t data cb w = (Inl EPERM, w')"
  from auth_cram_cases [OF this] show "actions w' = actions w \<and> exited w' = exited w" by auto
qed

subsection \<open>Characters of new passwords\<close>

lemma not_bad_append: "\<not> bad (x @ y) \<longleftrightarrow> \<not> bad x \<and> \<not> bad y"
  by (auto simp: bad_def)

lemma not_bad_subset: "\<not> bad y \<Longrightarrow> set x \<subseteq> set y \<Longrightarrow> \<not> bad x"
  by (auto simp: bad_def)

lemma not_bad_crypt64: "\<not> bad crypt64" "\<not> bad userdb_hex64" "\<not> bad cram_xdigit"
  by (simp_all add: bad_def crypt64_def userdb_hex64_def cram_xdigit_def)

lemma set_crypt_chars: "set (crypt_chars n j) \<subseteq> set crypt64"
proof (induction n j rule: crypt_chars.induct)
  case (2 n j)
  have "length crypt64 = 64" by (simp add: crypt64_def)
  then have "crypt64 ! (j mod 64) \<in> set crypt64" by (metis mod_less_divisor nth_mem zero_less_numeral)
  with 2 show ?case by simp
qed simp

lemma not_bad_crypt_text: "\<not> bad (crypt_text d)"
proof (rule not_bad_subset [OF not_bad_crypt64(1)])
  show "set (crypt_text d) \<subseteq> set crypt64"
    unfolding crypt_text_def using set_crypt_chars by auto
qed

lemma not_bad_mkmd5pw: "\<not> bad (userdb_mkmd5pw E pw)"
proof -
  let ?salt = "map (\<lambda>b. userdb_hex64 ! unat (b AND 63)) (take 8 (random8 E))"
  have "unat (b AND 63) < 64" for b :: byte
    by (rule unat_lt_64) (auto simp: byte_bits)
  moreover have "length userdb_hex64 = 64" by (simp add: userdb_hex64_def)
  ultimately have "set ?salt \<subseteq> set userdb_hex64" by (auto simp: set_conv_nth)
  moreover have "set (crypt_salt ?salt) \<subseteq> set ?salt"
    by (auto simp: crypt_salt_def Let_def simp del: set_map dest!: in_set_takeD set_takeWhileD in_set_dropD)
  ultimately have "\<not> bad (crypt_salt ?salt)" using not_bad_subset [OF not_bad_crypt64(2)] by blast
  moreover have "\<not> bad (asc ''$1$'')" "\<not> bad (asc ''$'')" by (simp_all add: bad_def)
  ultimately show ?thesis
    unfolding userdb_mkmd5pw_def md5_crypt_redhat_shape by (simp only: not_bad_append not_bad_crypt_text simp_thms)
qed

lemma not_bad_hex_text: "\<not> bad (hex_text bs)"
proof (rule not_bad_subset [OF not_bad_crypt64(3)])
  have "unat (drop_bit 4 c AND 15) < 16" "unat (c AND 15) < 16" for c :: byte
    by (rule unat_lt_16; auto simp: byte_bits)+
  moreover have "length cram_xdigit = 16" by (simp add: cram_xdigit_def)
  ultimately show "set (hex_text bs) \<subseteq> set cram_xdigit" by (auto simp: hex_text_def)
qed

lemma not_bad_hmacpw: "hmacpw l pw name = Some s \<Longrightarrow> \<not> bad s"
  by (auto simp: hmacpw_def not_bad_hex_text split: option.splits prod.splits)

lemma mkmd5pw_checks: "authcheckpassword cr pw (userdb_mkmd5pw E pw) = 0"
proof -
  have "has_prefix (userdb_mkmd5pw E pw) (asc ''$1$'')"
    unfolding userdb_mkmd5pw_def md5_crypt_redhat_shape by (rule has_prefix_append)
  then show ?thesis
    by (simp add: authcheckpassword_def authcheckpasswordmd5_def userdb_mkmd5pw_def md5_crypt_redhat_resalt)
qed

lemma bad_field_name: "\<not> bad n \<Longrightarrow> field_name (n @ asc ''pw'')"
proof -
  assume "\<not> bad n"
  moreover have "(0::byte) < 32" by simp
  ultimately have "0 \<notin> set n" "ch CHR ''='' \<notin> set n" "ch CHR ''|'' \<notin> set n" unfolding bad_def by blast+
  then show ?thesis by (simp add: field_name_def)
qed

subsection \<open>Steps of a change\<close>

lemma dochangepwd2_runs:
  assumes "dochangepwd2 E svc uid udb new w = (r, w')" "actions w' \<noteq> actions w"
  shows "\<exists>who more. actions w' = actions w @ Run [SBINDIR E @ asc ''/userdb'', who @ uid, asc ''set'',
      svc @ asc ''pw='' @ new] # more \<and> (r = Inr () \<longrightarrow> more = [Run [SBINDIR E @ asc ''/makeuserdb'']])"
proof -
  let ?who = "or_empty (udb_source udb)"
  let ?more = "if length (actions w') = length (actions w) + 2 then [Run [SBINDIR E @ asc ''/makeuserdb'']] else []"
  have "actions w' = actions w @ Run [SBINDIR E @ asc ''/userdb'', ?who @ uid, asc ''set'', svc @ asc ''pw='' @ new] #
      ?more \<and> (r = Inr () \<longrightarrow> length (actions w') = length (actions w) + 2)"
    using assms unfolding dochangepwd2_def Let_def
    by (auto simp: act_def split: if_splits prog_end.splits)
  then show ?thesis by (intro exI [of _ ?who] exI [of _ ?more]) simp
qed

lemma dochangepwd1_runs:
  assumes "dochangepwd1 E service uid opwd new hm w = (r, w')" "actions w' \<noteq> actions w"
  shows "\<exists>svc who more udbs stored. actions w' = actions w @ Run [SBINDIR E @ asc ''/userdb'', who @ uid, asc ''set'',
      svc @ asc ''pw='' @ new] # more \<and> (r = Inr () \<longrightarrow> more = [Run [SBINDIR E @ asc ''/makeuserdb'']]) \<and>
    (svc = service \<or> svc = asc ''system'') \<and> shadow E uid = Some udbs \<and>
    ok_of (userdb_gets (malloc_ok E) udbs (svc @ asc ''pw'')) = Some stored \<and>
    (if hm then opwd = stored else authcheckpassword (crypt_fn E) opwd stored = 0)"
proof -
  from assms obtain udbs where u: "shadow E uid = Some udbs"
    by (auto simp: dochangepwd1_def split: option.splits)
  let ?gets = "\<lambda>n. ok_of (userdb_gets (malloc_ok E) udbs n)"
  obtain q svc where q: "(case ?gets (service @ asc ''pw'') of Some p \<Rightarrow> (Some p, service)
      | None \<Rightarrow> (?gets (asc ''systempw''), asc ''system'')) = (q, svc)" by (metis surj_pair)
  from assms obtain stored where stored: "q = Some stored"
    unfolding dochangepwd1_def u option.case q Let_def by (cases q) (auto split: if_splits)
  have s: "svc = service \<or> svc = asc ''system''" "?gets (svc @ asc ''pw'') = Some stored"
    using q stored by (auto split: option.splits)
  from assms have ok: "if hm then opwd = stored else authcheckpassword (crypt_fn E) opwd stored = 0"
    unfolding dochangepwd1_def u option.case q stored Let_def by (auto split: if_splits)
  obtain udb v where d: "dochangepwd2 E svc uid udb new v = (r, w')" "actions v = actions w"
    using assms ok unfolding dochangepwd1_def u option.case q stored Let_def
    by (auto split: if_splits option.splits sum.splits)
  from dochangepwd2_runs [OF d(1)] d(2) assms(2) s u ok show ?thesis by metis
qed

text \<open>The password a user has to give for a service.\<close>

definition password_ok :: "auth_env \<Rightarrow> byte list \<Rightarrow> byte list \<Rightarrow> byte list \<Rightarrow> bool" where
  "password_ok E service user pass \<longleftrightarrow>
     (\<exists>r s p. user_record E user = Some r \<and> account r \<and> shadow_record E user = Some s \<and>
       first_field s (service @ asc ''pw'') (asc ''systempw'') = Some p \<and>
       authcheckpassword (crypt_fn E) pass p = 0)"

subsection \<open>A small system\<close>

text \<open>One user, Bob, whose shadow record is the argument; \<open>crypt\<close> gives the password back.\<close>

definition bob :: "byte list" where "bob = asc ''bob''"

definition small_env :: "byte list \<Rightarrow> auth_env" where
  "small_env sh = \<lparr>malloc_ok = \<lambda>n. True, stat_junk = (0, 0), stat_file = \<lambda>f. Some (1, 1),
     open_db = \<lambda>f. Some [bob \<mapsto> (if f = asc ''/etc/userdb.dat'' then asc ''home=/h|uid=7|gid=8'' else sh)],
     chdir_ok = \<lambda>d. True, crypt_fn = \<lambda>p s. p, run_prog = \<lambda>a. Ended True,
     random8 = [1, 2, 3, 4, 5, 6, 7, 8], hmac_list = [HMAC_MD5],
     USERDB = asc ''/etc/userdb'', SBINDIR = asc ''/sbin''\<rparr>"

definition small_world :: world where
  "small_world = \<lparr>actions = [], exited = False, udb_st = userdb_start\<rparr>"

lemma small_in_step: "in_step (small_env sh) small_world"
  unfolding in_step_def
  by (rule exI [of _ "\<lambda>b. [bob \<mapsto> asc ''home=/h|uid=7|gid=8'']"])
    (simp add: small_env_def small_world_def coherent_def userdb_start_def)

lemma small_malloc: "\<forall>n. malloc_ok (small_env sh) n"
  by (simp add: small_env_def)

lemma small_records: "user_record (small_env sh) bob = Some (asc ''home=/h|uid=7|gid=8'')"
  "shadow_record (small_env sh) bob = Some (cstr sh)"
  by (simp_all add: user_record_def shadow_record_def small_env_def cstr_def)

lemma small_account: "account (asc ''home=/h|uid=7|gid=8'')"
  by (simp add: account_def field_def record_fields_def split_bars.simps field_of_def)

lemma small_check: "authcheckpassword (\<lambda>p s. p) (asc ''old'') (asc ''old'') = 0"
  by (simp add: authcheckpassword_def has_prefix_def has_prefix_nocase_def tolower_def isupper_def)

lemma small_password_ok: "password_ok (small_env (asc ''systempw=old'')) (asc ''pop3'') bob (asc ''old'')"
proof -
  have "first_field (asc ''systempw=old'') (asc ''pop3'' @ asc ''pw'') (asc ''systempw'') = Some (asc ''old'')"
    by (simp add: first_field_def record_fields_def split_bars.simps field_of_def)
  moreover have "cstr (asc ''systempw=old'') = asc ''systempw=old''" by (simp add: cstr_def)
  moreover have "crypt_fn (small_env (asc ''systempw=old'')) = (\<lambda>p s. p)" by (simp add: small_env_def)
  ultimately show ?thesis unfolding password_ok_def small_records using small_account small_check by auto
qed

subsection \<open>Properties\<close>

lemma stored_password_ok:
  assumes "\<forall>n. malloc_ok E n" "field_name (service @ asc ''pw'')"
  shows "stored_password E (shadow E u) (service @ asc ''pw'') =
    (case shadow_record E u of None \<Rightarrow> None | Some s \<Rightarrow> first_field s (service @ asc ''pw'') (asc ''systempw''))"
  unfolding stored_password_def shadow_ok [OF assms(1)] first_field_def
  using gets_ok [OF assms(1) _ assms(2)] gets_ok [OF assms(1) _ system_field] record_no_zero(2)
  by (auto split: option.split)

lemma pre_common_ok:
  assumes "in_step E w" "\<forall>n. malloc_ok E n" "field_name (service @ asc ''pw'')"
  shows "auth_userdb_pre_common E u service True cb arg w =
    (case user_record E u of
       None \<Rightarrow> (-1, arg, close_userdb (open_userdb E w))
     | Some r \<Rightarrow> if account r then
         cb \<lparr>sysusername = Some u, sysuserid = Some (of_int (atol (the (field r ''uid'')))),
           sysgroupid = of_int (atol (the (field r ''gid''))), homedir = field r ''home'', address = Some u,
           fullname = field r ''gecos'', maildir = field r ''mail'', quota = field r ''quota'',
           passwd = (case shadow_record E u of None \<Rightarrow> None
             | Some s \<Rightarrow> first_field s (service @ asc ''pw'') (asc ''systempw'')),
           clearpasswd = None, staticindex = 0\<rparr> (open_userdb E w)
         else (-1, arg, open_userdb E w))"
  unfolding auth_userdb_pre_common_def Let_def userdb_in_step [OF assms(1,2)] stored_password_ok [OF assms(2,3)]
  using assms(2) creates_account [OF assms(2) record_no_zero(1)]
  by (auto split: option.split simp: authinfo_zero_def)

lemma auth_userdb_data:
  assumes "strtok {NL} data = Some (user, rest)" "strtok {NL} rest = Some (pass, rest')"
  shows "auth_userdb E service AUTHTYPE_LOGIN data cb w =
    (case auth_userdb_pre_common E user service True (callback_userdb E pass cb) None w of
       (rc, userret, w) \<Rightarrow> let w = close_userdb w in
         if rc < 0 then (Inl EPERM, w) else if rc > 0 then (Inl EACCES, w) else (Inr (or_empty userret), w))"
  unfolding auth_userdb_def by (simp only: assms simp_thms if_False option.case prod.case)

lemma strtok_login_data:
  assumes "user \<noteq> []" "NL \<notin> set user" "pass \<noteq> []" "NL \<notin> set pass"
  shows "strtok {NL} (login_data user pass) = Some (user, pass @ [NL])" "strtok {NL} (pass @ [NL]) = Some (pass, [])"
    "strtok {NL} (user @ NL # pass) = Some (user, pass)" "strtok {NL} pass = Some (pass, [])"
proof -
  show "strtok {NL} (login_data user pass) = Some (user, pass @ [NL])" "strtok {NL} (pass @ [NL]) = Some (pass, [])"
    "strtok {NL} (user @ NL # pass) = Some (user, pass)"
    using strtok_NL [OF assms(1,2), of "pass @ [NL]"] strtok_NL [OF assms(3,4), of "[]"] strtok_NL [OF assms(1,2), of pass]
    unfolding login_data_def append.simps by (simp_all only: append_assoc append.simps)
  have "dropWhile (\<lambda>c. c \<in> {NL}) pass = pass" using assms(3,4) by (cases pass) auto
  moreover have "takeWhile (\<lambda>c. c \<notin> {NL}) pass = pass" using assms(4) by (auto simp: takeWhile_eq_all_conv)
  ultimately show "strtok {NL} pass = Some (pass, [])" using assms(3) by (simp only: strtok_def Let_def if_False) simp
qed

text \<open>What a user who logs in with a password is reported with.\<close>

definition login_info :: "auth_env \<Rightarrow> byte list \<Rightarrow> byte list \<Rightarrow> authinfo" where
  "login_info E service user =
     (let r = the (user_record E user) in
      \<lparr>sysusername = Some user, sysuserid = Some (of_int (atol (the (field r ''uid'')))),
       sysgroupid = of_int (atol (the (field r ''gid''))), homedir = field r ''home'', address = Some user,
       fullname = field r ''gecos'', maildir = field r ''mail'', quota = field r ''quota'',
       passwd = first_field (the (shadow_record E user)) (service @ asc ''pw'') (asc ''systempw''),
       clearpasswd = None, staticindex = 0\<rparr>)"

lemma userdb_login_decides:
  assumes step: "in_step E w" "\<forall>n. malloc_ok E n" "\<not> exited w" and svc: "field_name (service @ asc ''pw'')"
    and toks: "strtok {NL} data = Some (user, rest)" "strtok {NL} rest = Some (pass, rest')"
  shows "\<exists>w'. auth_userdb E service AUTHTYPE_LOGIN data True w =
      (if password_ok E service user pass then Inr user else Inl EPERM, w') \<and>
    actions w' = actions w @ (if password_ok E service user pass then [Callback (login_info E service user)] else [])"
proof -
  note data = auth_userdb_data [OF toks, of E service] pre_common_ok [OF step(1,2) svc]
  show ?thesis
  proof (cases "user_record E user")
    case None
    then show ?thesis by (simp add: data password_ok_def)
  next
    case r: (Some r)
    show ?thesis
    proof (cases "account r")
      case False
      then show ?thesis using r by (simp add: data password_ok_def)
    next
      case True
      let ?p = "case shadow_record E user of None \<Rightarrow> None
        | Some s \<Rightarrow> first_field s (service @ asc ''pw'') (asc ''systempw'')"
      have ok: "password_ok E service user pass \<longleftrightarrow> (\<exists>p. ?p = Some p \<and> authcheckpassword (crypt_fn E) pass p = 0)"
        using r True by (auto simp: password_ok_def split: option.split)
      show ?thesis
      proof (cases ?p)
        case None
        then have "\<not> password_ok E service user pass" using ok by simp
        then show ?thesis using r True None by (simp add: data callback_userdb_def)
      next
        case (Some p)
        with ok have "password_ok E service user pass = (authcheckpassword (crypt_fn E) pass p = 0)" by simp
        moreover obtain s where "shadow_record E user = Some s" using Some by (cases "shadow_record E user") auto
        ultimately show ?thesis using r True Some step
          by (simp add: data callback_userdb_def or_empty_def act_def Let_def login_info_def)
      qed
    qed
  qed
qed

lemma small_login:
  "\<exists>w'. auth_userdb (small_env (asc ''systempw=old'')) (asc ''pop3'') AUTHTYPE_LOGIN (login_data bob (asc ''old'')) True small_world
    = (Inr bob, w')"
proof -
  let ?E = "small_env (asc ''systempw=old'')"
  have "field_name (asc ''pop3'' @ asc ''pw'')" "bob \<noteq> []" "NL \<notin> set bob" "asc ''old'' \<noteq> []" "NL \<notin> set (asc ''old'')"
    "\<not> exited small_world" by (simp_all add: field_name_def bob_def small_world_def)
  from userdb_login_decides [of ?E small_world, OF small_in_step small_malloc this(6,1) strtok_login_data(1,2) [OF this(2-5)],
      unfolded if_P [OF small_password_ok]]
  show ?thesis by blast
qed

text \<open>
  C11. Logging in with a password, on the authentication data a SASL mechanism makes: it succeeds
  exactly if the user's record is that of an account and the password checks against the one the
  shadow file has for the service, or else for the system. The caller's function then gets the
  user's id, group, home and mailbox from the record; otherwise nothing happens at all.
\<close>

theorem userdb_login:
  assumes step: "in_step E w" "\<forall>n. malloc_ok E n" "\<not> exited w" and svc: "field_name (service @ asc ''pw'')"
    and nl: "user \<noteq> []" "NL \<notin> set user" "pass \<noteq> []" "NL \<notin> set pass"
  shows "\<exists>w'. auth_userdb E service AUTHTYPE_LOGIN (login_data user pass) True w =
      (if password_ok E service user pass then Inr user else Inl EPERM, w') \<and>
    actions w' = actions w @ (if password_ok E service user pass then [Callback (login_info E service user)] else [])"
  by (rule userdb_login_decides [OF step svc strtok_login_data(1,2) [OF nl]])

theorem userdb_login_witness:
  "\<exists>w'. auth_userdb (small_env (asc ''systempw=old'')) (asc ''pop3'') AUTHTYPE_LOGIN (login_data bob (asc ''old'')) True small_world
     = (Inr bob, w') \<and> (\<exists>a. actions w' = [Callback a] \<and> homedir a = Some (asc ''/h''))"
proof -
  let ?E = "small_env (asc ''systempw=old'')"
  note ok = small_password_ok
  have "field_name (asc ''pop3'' @ asc ''pw'')" "bob \<noteq> []" "NL \<notin> set bob" "asc ''old'' \<noteq> []" "NL \<notin> set (asc ''old'')"
    "\<not> exited small_world" by (simp_all add: field_name_def bob_def small_world_def)
  from userdb_login [of ?E small_world "asc ''pop3''" bob "asc ''old''", OF small_in_step small_malloc this(6,1-5), unfolded if_P [OF ok]]
  obtain w' where "auth_userdb ?E (asc ''pop3'') AUTHTYPE_LOGIN (login_data bob (asc ''old'')) True small_world = (Inr bob, w')"
    "actions w' = actions small_world @ [Callback (login_info ?E (asc ''pop3'') bob)]" by blast
  moreover have "homedir (login_info ?E (asc ''pop3'') bob) = Some (asc ''/h'')"
    by (simp add: login_info_def small_records field_def record_fields_def split_bars.simps field_of_def)
  ultimately show ?thesis by (simp add: small_world_def)
qed

text \<open>
  C12. Changing a password: whatever the system does, a program is only run after the old password
  checked against a stored one. The first program sets that field of the user, the service's or
  the system's, to a text without separators, control characters or quotes that checks with the
  new password (for the secret of a CRAM mechanism: to the new secret). If the change succeeds,
  the database has been made again.
\<close>

theorem change_password:
  assumes run: "auth_userdb_passwd E service uid opwd npwd w = (r, w')" "actions w' \<noteq> actions w"
  shows "\<exists>svc who new more udbs stored.
    actions w' = actions w @ Run [SBINDIR E @ asc ''/userdb'', who @ uid, asc ''set'', svc @ asc ''pw='' @ new] # more \<and>
    (r = Inr () \<longrightarrow> more = [Run [SBINDIR E @ asc ''/makeuserdb'']]) \<and>
    (svc = service \<or> svc = asc ''system'') \<and> field_name (svc @ asc ''pw'') \<and> \<not> bad new \<and>
    shadow E uid = Some udbs \<and> ok_of (userdb_gets (malloc_ok E) udbs (svc @ asc ''pw'')) = Some stored \<and>
    (if has_prefix service (asc ''hmac-'')
     then hmacpw (hmac_list E) opwd (drop 5 service) = Some stored \<and> hmacpw (hmac_list E) npwd (drop 5 service) = Some new
     else authcheckpassword (crypt_fn E) opwd stored = 0 \<and> authcheckpassword (crypt_fn E) npwd new = 0)"
proof -
  from run have nb: "\<not> bad service" by (auto simp: auth_userdb_passwd_def split: if_splits)
  moreover have "\<not> bad (asc ''system'')" by (simp add: bad_def)
  ultimately have fn: "svc = service \<or> svc = asc ''system'' \<Longrightarrow> field_name (svc @ asc ''pw'')" for svc
    using bad_field_name by blast
  show ?thesis
  proof (cases "has_prefix service (asc ''hmac-'')")
    case True
    with run obtain o1 n1 where h: "hmacpw (hmac_list E) opwd (drop 5 service) = Some o1"
        "hmacpw (hmac_list E) npwd (drop 5 service) = Some n1"
      and d: "dochangepwd1 E service uid o1 n1 True w = (r, w')"
      by (auto simp: auth_userdb_passwd_def simp del: drop_append split: if_splits option.splits)
    from dochangepwd1_runs [OF d run(2)] not_bad_hmacpw [OF h(2)] h fn True show ?thesis by metis
  next
    case False
    with run have d: "dochangepwd1 E service uid opwd (userdb_mkmd5pw E npwd) False w = (r, w')"
      by (auto simp: auth_userdb_passwd_def Let_def split: if_splits)
    from dochangepwd1_runs [OF d run(2)] not_bad_mkmd5pw mkmd5pw_checks fn False show ?thesis by metis
  qed
qed

theorem change_password_witness:
  "\<exists>who new more. actions (snd (auth_userdb_passwd (small_env (asc ''systempw=old'')) (asc ''pop3'') bob (asc ''old'') (asc ''new'') small_world)) =
      [Run [asc ''/sbin/userdb'', who @ bob, asc ''set'', asc ''systempw='' @ new], Run [asc ''/sbin/makeuserdb'']] \<and>
    authcheckpassword (\<lambda>p s. p) (asc ''new'') new = 0"
proof -
  let ?E = "small_env (asc ''systempw=old'')" and ?w = small_world
  have e: "crypt_fn ?E = (\<lambda>p s. p)" "SBINDIR ?E = asc ''/sbin''" "\<And>a. run_prog ?E a = Ended True" by (simp_all add: small_env_def)
  have sh: "shadow ?E bob = Some (asc ''systempw=old'')"
    unfolding shadow_ok [OF small_malloc] small_records by (simp add: cstr_def)
  have f: "userdb_gets (malloc_ok ?E) (asc ''systempw=old'') (asc ''pop3'' @ asc ''pw'') = Inl ENOENT"
    "userdb_gets (malloc_ok ?E) (asc ''systempw=old'') (asc ''systempw'') = Inr (asc ''old'')"
    using small_malloc by (simp_all add: userdb_gets_def userdb_get.simps has_prefix_def at_def)
  have c: "authcheckpassword (crypt_fn ?E) (asc ''old'') (asc ''old'') = 0" unfolding e by (rule small_check)
  have u: "\<exists>udb. userdb_creates (malloc_ok ?E) (asc ''home=/h|uid=7|gid=8'') = Some udb"
    using creates_account [OF small_malloc, of "asc ''home=/h|uid=7|gid=8''"] small_account by simp
  then obtain udb where u: "userdb_creates (malloc_ok ?E) (asc ''home=/h|uid=7|gid=8'') = Some udb" by blast
  have "\<not> bad bob" "\<not> bad (asc ''pop3'')" "\<not> bad (asc ''old'')" "\<not> bad (asc ''new'')" "strchr bob (ch CHR ''/'') = None"
    "\<not> has_prefix (asc ''pop3'') (asc ''hmac-'')" by (simp_all add: bad_def bob_def has_prefix_def)
  then have d: "auth_userdb_passwd ?E (asc ''pop3'') bob (asc ''old'') (asc ''new'') ?w =
      dochangepwd2 ?E (asc ''system'') bob udb (userdb_mkmd5pw ?E (asc ''new'')) (open_userdb ?E ?w)"
    unfolding auth_userdb_passwd_def dochangepwd1_def sh option.case f Let_def ok_of_def sum.case prod.case
      userdb_in_step [OF small_in_step small_malloc] small_records u c
    using small_malloc c by (simp only: simp_thms if_True if_False not_False_eq_True)
  obtain w' where r: "dochangepwd2 ?E (asc ''system'') bob udb (userdb_mkmd5pw ?E (asc ''new'')) (open_userdb ?E ?w) = (Inr (), w')"
      "actions w' \<noteq> actions ?w"
    using small_malloc unfolding dochangepwd2_def e by (simp add: act_def small_world_def Let_def)
  have np: "\<not> has_prefix (asc ''pop3'') (asc ''hmac-'')" by fact
  obtain svc who new more udbs stored where c: "actions w' = actions ?w @ Run [SBINDIR ?E @ asc ''/userdb'', who @ bob, asc ''set'', svc @ asc ''pw='' @ new] # more"
     "(Inr () :: cram_errno option + unit) = Inr () \<longrightarrow> more = [Run [SBINDIR ?E @ asc ''/makeuserdb'']]"
     "svc = asc ''pop3'' \<or> svc = asc ''system''" "field_name (svc @ asc ''pw'')" "\<not> bad new"
     "asc ''systempw=old'' = udbs" "ok_of (userdb_gets (malloc_ok ?E) udbs (svc @ asc ''pw'')) = Some stored"
     "authcheckpassword (crypt_fn ?E) (asc ''old'') stored = 0" "authcheckpassword (crypt_fn ?E) (asc ''new'') new = 0"
    using change_password [OF d [unfolded r(1)] r(2), unfolded if_not_P [OF np] sh option.inject]
    by (elim exE conjE) (rule that)
  from c(3,6,7) f(1) have "svc = asc ''system''" by (auto simp: ok_of_def)
  with c(1,2,9) show ?thesis unfolding d r(1) e by (auto simp: small_world_def)
qed

lemma fst_cram_success: "fst (cram_success E user udb cb w) = Inr user"
  by (simp add: cram_success_def Let_def)

text \<open>
  C13. Logging in with CRAM, when the shadow file holds the secret of a password for the hash: the
  answer to the challenge computed from a password logs the user in exactly if that password has
  the HMAC of the one the secret was made of, and the user has an account.
\<close>

theorem cram_login:
  assumes step: "in_step E w" "\<forall>n. malloc_ok E n"
    and h: "find_hmac (hmac_list E) (alg_name h) = Some h" and svc: "field_name (service @ asc ''-hmac-'' @ alg_name h @ asc ''pw'')"
    and chal: "0 \<notin> set chal" "chal \<noteq> []" and user: "0 \<notin> set user" "ch CHR '' '' \<notin> set user"
    and rec: "user_record E user = Some r" "shadow_record E user = Some s"
    and secret: "first_field s (service @ asc ''-hmac-'' @ alg_name h @ asc ''pw'') (asc ''hmac-'' @ alg_name h @ asc ''pw'')
      = Some secret" "hmacpw (hmac_list E) pw' (alg_name h) = Some secret"
  shows "fst (auth_cram E service (asc ''cram-'' @ alg_name h)
      (base64_quads chal @ [NL] @ base64_quads (user @ asc '' '' @ hex_text (alg_hmac h pw chal)) @ [NL]) cb w) =
    (if alg_hmac h pw chal = alg_hmac h pw' chal \<and> account r then Inr user else Inl EACCES)"
proof -
  note data = auth_get_cram_data [OF h chal user zero_notin_hex_text, of "alg_hmac h pw chal"]
  have hf: "field_name (asc ''hmac-'' @ alg_name h @ asc ''pw'')"
    by (cases h) (simp_all add: field_name_def hmac_md5_def hmac_sha1_def)
  note gets = gets_ok [OF step(2) record_no_zero(2) [OF rec(2)]]
  have st: "stored_secret E s service h = Some secret"
    using secret(1) unfolding stored_secret_def gets [OF svc] gets [OF hf] first_field_def .
  have "auth_verify_cram (malloc_ok E (alg_L h * 3)) h chal (hex_text (alg_hmac h pw chal)) secret =
      (if alg_hmac h pw chal = alg_hmac h pw' chal then 0 else -1)"
    using auth_verify_cram_hmac [OF secret(2) h, of chal pw] step(2) by simp
  then show ?thesis
    unfolding auth_cram_def data sum.case prod.case Let_def userdb_in_step [OF step]
      shadow_ok [OF step(2)] rec option.case using step
    by (simp add: st
        creates_account [OF step(2) record_no_zero(1) [OF rec(1)]] fst_cram_success)
qed


theorem cram_login_witness:
  "\<exists>s. fst (auth_cram (small_env s) (asc ''pop3'') (asc ''cram-md5'')
      (base64_quads (asc ''<1@h>'') @ [NL] @ base64_quads (bob @ asc '' '' @
        hex_text (alg_hmac HMAC_MD5 (asc ''tanstaaf'') (asc ''<1@h>''))) @ [NL]) True small_world) = Inr bob"
proof -
  have h: "find_hmac (hmac_list (small_env s)) (alg_name HMAC_MD5) = Some HMAC_MD5" for s
    by (simp add: small_env_def)
  obtain p1 p2 where k: "alg_hashkey HMAC_MD5 (asc ''tanstaaf'') = (p1, p2)" by (metis surj_pair)
  define secret where "secret = hex_text (p1 @ p2)"
  have secret: "hmacpw (hmac_list (small_env s)) (asc ''tanstaaf'') (alg_name HMAC_MD5) = Some secret" for s
    unfolding hmacpw_def h option.case k prod.case secret_def ..
  define s where "s = asc ''hmac-md5pw'' @ asc ''='' @ secret"
  have "\<not> bad secret" by (rule not_bad_hmacpw [OF secret])
  moreover have "(0::byte) < 32" by simp
  ultimately have z: "0 \<notin> set secret" "ch CHR ''|'' \<notin> set secret" unfolding bad_def by blast+
  have fn: "field_name (asc ''hmac-md5pw'')" "field_name (asc ''pop3'' @ asc ''-hmac-'' @ alg_name HMAC_MD5 @ asc ''pw'')"
    by (simp_all add: field_name_def hmac_md5_def)
  have "0 \<notin> set s" using z by (simp add: s_def)
  then have sr: "shadow_record (small_env s) bob = Some s" unfolding small_records by (simp add: cstr_id)
  have "record_fields s = [(asc ''hmac-md5pw'', secret)]"
    unfolding s_def by (rule record_fields_one) (use fn(1) z in auto)
  then have ff: "first_field s (asc ''pop3'' @ asc ''-hmac-'' @ alg_name HMAC_MD5 @ asc ''pw'')
      (asc ''hmac-'' @ alg_name HMAC_MD5 @ asc ''pw'') = Some secret"
    by (simp add: first_field_def hmac_md5_def)
  have "0 \<notin> set (asc ''<1@h>'')" "asc ''<1@h>'' \<noteq> []" "0 \<notin> set bob" "ch CHR '' '' \<notin> set bob"
    by (simp_all add: bob_def)
  from cram_login [OF small_in_step small_malloc h fn(2) this small_records(1) sr ff secret,
      of "asc ''tanstaaf''" True] small_account
  show ?thesis by (intro exI [of _ s]) (simp add: hmac_md5_def)
qed

end
