(* ===== verification/Auth_Search.thy ===== *)
theory Auth_Search imports Auth_Userdb begin

text \<open>
  The modules linked into a program and the search through them, \<open>wmail/authlib\<close>: the entries of
  the two user database modules, the search for a login and for a user
  (\<open>authstaticlistsearch.c\<close>), and the order in which the daemon goes through the modules
  (\<open>authbegin\<close> and \<open>authnext\<close> of \<open>authdaemond.c\<close>).

  The configuration file is an argument: its text, or none if it does not exist. The list of
  modules is generated when the program is configured and is an argument as well.
\<close>

subsection \<open>Modules\<close>

type_synonym pre_callback = "authinfo \<Rightarrow> world \<Rightarrow> int \<times> byte list \<times> world"

record authstaticinfo =
  auth_name :: "byte list"
  auth_func :: "auth_env \<Rightarrow> byte list \<Rightarrow> byte list \<Rightarrow> byte list \<Rightarrow> bool \<Rightarrow> world \<Rightarrow> auth_result"
  auth_prefunc :: "auth_env \<Rightarrow> byte list \<Rightarrow> byte list \<Rightarrow> pre_callback \<Rightarrow> byte list \<Rightarrow> world \<Rightarrow> int \<times> byte list \<times> world"
  auth_changepwd :: "(auth_env \<Rightarrow> byte list \<Rightarrow> byte list \<Rightarrow> byte list \<Rightarrow> byte list \<Rightarrow> world \<Rightarrow> passwd_result) option"

definition authuserdb_info :: authstaticinfo where
  "authuserdb_info = \<lparr>auth_name = asc ''authuserdb'', auth_func = auth_userdb, auth_prefunc = auth_userdb_pre,
     auth_changepwd = Some auth_userdb_passwd\<rparr>"

definition authcram_info :: authstaticinfo where
  "authcram_info = \<lparr>auth_name = asc ''authcram'', auth_func = auth_cram, auth_prefunc = auth_cram_pre,
     auth_changepwd = None\<rparr>"

subsection \<open>The configuration file\<close>

definition BUFSIZ :: nat where "BUFSIZ = 8192"

text \<open>
  The file is read once, as far as the buffer goes; \<open>contents\<close> is None where it cannot be opened
  or read.
\<close>

definition openconfigfile :: "auth_env \<Rightarrow> byte list option \<Rightarrow> byte list option" where
  "openconfigfile E contents =
     (case contents of
        None \<Rightarrow> None
      | Some c \<Rightarrow> let buf = take BUFSIZ c in
          if malloc_ok E (length buf + 1) then Some (cstr buf) else None)"

definition namebuf_size :: nat where "namebuf_size = 32"

text \<open>The next word of the file, cut to what fits the buffer, and what is behind the whole word.\<close>

definition next_word :: "byte list \<Rightarrow> (byte list \<times> byte list) option" where
  "next_word p =
     (case dropWhile isspace p of
        [] \<Rightarrow> None
      | q \<Rightarrow> Some (takeWhile (\<lambda>c. \<not> isspace c) q, dropWhile (\<lambda>c. \<not> isspace c) q))"

lemma next_word_length [termination_simp]: "next_word p = Some (w, q) \<Longrightarrow> length q < length p"
proof -
  assume a: "next_word p = Some (w, q)"
  then obtain x r where d: "dropWhile isspace p = x # r"
    by (auto simp: next_word_def split: list.splits)
  then have "\<not> isspace x" using hd_dropWhile [of isspace p] by simp
  with a d have "q = dropWhile (\<lambda>c. \<not> isspace c) r" by (simp add: next_word_def)
  moreover have "length r < length p" using d by (rule dropWhile_Cons_length)
  ultimately show ?thesis using length_dropWhile_le [of "\<lambda>c. \<not> isspace c" r] by simp
qed

subsection \<open>Searching for a login\<close>

text \<open>
  Both searches number the modules; a result is the user and the number of the module that knew
  him. The first search has no file and takes all modules in order.
\<close>

fun login_default :: "auth_env \<Rightarrow> (nat \<times> authstaticinfo) list \<Rightarrow> byte list \<Rightarrow> byte list \<Rightarrow> byte list \<Rightarrow> bool
    \<Rightarrow> world \<Rightarrow> (byte list \<times> nat) option \<times> world" where
  "login_default E [] service authtype authdata cb w = (None, w)"
| "login_default E ((i, m) # ms) service authtype authdata cb w =
     (case auth_func m E service authtype authdata cb w of
        (Inr uid, w) \<Rightarrow> (Some (uid, i), w)
      | (Inl e, w) \<Rightarrow> if e \<noteq> EPERM then (None, w) else login_default E ms service authtype authdata cb w)"

text \<open>
  The loop over the modules for one word of the file. An error other than \<open>EPERM\<close> breaks this
  loop only: the search goes on with the next word.
\<close>

fun login_word :: "auth_env \<Rightarrow> byte list \<Rightarrow> (nat \<times> authstaticinfo) list \<Rightarrow> byte list \<Rightarrow> byte list \<Rightarrow> byte list \<Rightarrow> bool
    \<Rightarrow> world \<Rightarrow> (byte list \<times> nat) option \<times> world" where
  "login_word E name [] service authtype authdata cb w = (None, w)"
| "login_word E name ((i, m) # ms) service authtype authdata cb w =
     (if auth_name m \<noteq> name then login_word E name ms service authtype authdata cb w
      else case auth_func m E service authtype authdata cb w of
        (Inr uid, w) \<Rightarrow> (Some (uid, i), w)
      | (Inl e, w) \<Rightarrow> if e \<noteq> EPERM then (None, w) else login_word E name ms service authtype authdata cb w)"

fun login_words :: "auth_env \<Rightarrow> (nat \<times> authstaticinfo) list \<Rightarrow> byte list \<Rightarrow> byte list \<Rightarrow> byte list \<Rightarrow> byte list \<Rightarrow> bool
    \<Rightarrow> world \<Rightarrow> (byte list \<times> nat) option \<times> world" where
  "login_words E ms p service authtype authdata cb w =
     (case next_word p of
        None \<Rightarrow> (None, w)
      | Some (name, p) \<Rightarrow>
          (case login_word E (take (namebuf_size - 1) name) ms service authtype authdata cb w of
             (Some r, w) \<Rightarrow> (Some r, w)
           | (None, w) \<Rightarrow> login_words E ms p service authtype authdata cb w))"

declare login_words.simps [simp del]

definition authlogin_search :: "auth_env \<Rightarrow> authstaticinfo list \<Rightarrow> byte list option \<Rightarrow> byte list \<Rightarrow> byte list
    \<Rightarrow> byte list \<Rightarrow> bool \<Rightarrow> world \<Rightarrow> (byte list \<times> nat) option \<times> world" where
  "authlogin_search E modules configfile service authtype authdata cb w =
     (if \<not> malloc_ok E (length authdata + 1) then (None, w)
      else let ms = enumerate 0 modules in
        case configfile of
          None \<Rightarrow> login_default E ms service authtype authdata cb w
        | Some p \<Rightarrow> login_words E ms p service authtype authdata cb w)"

subsection \<open>Searching for a user\<close>

definition my_callback :: "nat \<Rightarrow> pre_callback \<Rightarrow> pre_callback" where
  "my_callback i callback a w = callback (a\<lparr>staticindex := of_nat i\<rparr>) w"

fun search_default :: "auth_env \<Rightarrow> (nat \<times> authstaticinfo) list \<Rightarrow> byte list \<Rightarrow> byte list \<Rightarrow> pre_callback \<Rightarrow> byte list
    \<Rightarrow> world \<Rightarrow> int \<times> byte list \<times> world" where
  "search_default E [] uid service callback arg w = (-1, arg, w)"
| "search_default E ((i, m) # ms) uid service callback arg w =
     (case auth_prefunc m E uid service (my_callback i callback) arg w of
        (rc, arg, w) \<Rightarrow> if rc = 0 then (0, arg, w) else if rc > 0 then (rc, arg, w)
          else search_default E ms uid service callback arg w)"

fun search_word :: "auth_env \<Rightarrow> byte list \<Rightarrow> (nat \<times> authstaticinfo) list \<Rightarrow> byte list \<Rightarrow> byte list \<Rightarrow> pre_callback \<Rightarrow> byte list
    \<Rightarrow> world \<Rightarrow> int \<times> byte list \<times> world" where
  "search_word E name [] uid service callback arg w = (-1, arg, w)"
| "search_word E name ((i, m) # ms) uid service callback arg w =
     (if auth_name m \<noteq> name then search_word E name ms uid service callback arg w
      else auth_prefunc m E uid service (my_callback i callback) arg w)"

fun search_words :: "auth_env \<Rightarrow> (nat \<times> authstaticinfo) list \<Rightarrow> byte list \<Rightarrow> byte list \<Rightarrow> byte list \<Rightarrow> pre_callback
    \<Rightarrow> byte list \<Rightarrow> world \<Rightarrow> int \<times> byte list \<times> world" where
  "search_words E ms p uid service callback arg w =
     (case next_word p of
        None \<Rightarrow> (-1, arg, w)
      | Some (name, p) \<Rightarrow>
          (case search_word E (take (namebuf_size - 1) name) ms uid service callback arg w of
             (rc, arg, w) \<Rightarrow> if rc \<ge> 0 then (rc, arg, w) else search_words E ms p uid service callback arg w))"

declare search_words.simps [simp del]

definition authstaticlist_search :: "auth_env \<Rightarrow> authstaticinfo list \<Rightarrow> byte list option \<Rightarrow> byte list \<Rightarrow> byte list
    \<Rightarrow> pre_callback \<Rightarrow> byte list \<Rightarrow> world \<Rightarrow> int \<times> byte list \<times> world" where
  "authstaticlist_search E modules configfile uid service callback arg w =
     (let ms = enumerate 0 modules in
      case configfile of
        None \<Rightarrow> search_default E ms uid service callback arg w
      | Some p \<Rightarrow> search_words E ms p uid service callback arg w)"

subsection \<open>The daemon's order\<close>

text \<open>The first module with a name.\<close>

fun module_index :: "(nat \<times> authstaticinfo) list \<Rightarrow> byte list \<Rightarrow> (nat \<times> authstaticinfo) option" where
  "module_index [] name = None"
| "module_index ((i, m) # ms) name = (if auth_name m = name then Some (i, m) else module_index ms name)"

text \<open>
  The modules that the calls of \<open>authnext\<close> after an \<open>authbegin\<close> return one after the other:
  words of the list that name no module are passed over.
\<close>

fun authnext_words :: "(nat \<times> authstaticinfo) list \<Rightarrow> byte list \<Rightarrow> (nat \<times> authstaticinfo) list" where
  "authnext_words ms p =
     (case next_word p of
        None \<Rightarrow> []
      | Some (name, p) \<Rightarrow>
          (case module_index ms name of
             None \<Rightarrow> authnext_words ms p
           | Some m \<Rightarrow> m # authnext_words ms p))"

declare authnext_words.simps [simp del]

definition authnext_all :: "authstaticinfo list \<Rightarrow> byte list option \<Rightarrow> (nat \<times> authstaticinfo) list" where
  "authnext_all modules authmodulelist =
     (case authmodulelist of
        None \<Rightarrow> enumerate 0 modules
      | Some p \<Rightarrow> authnext_words (enumerate 0 modules) p)"


subsection \<open>The search keeps the contract\<close>

text \<open>Every module keeps the contract of \<open>auth_module\<close> for its own notion of a verified user.\<close>

definition keep_contract :: "(authstaticinfo \<Rightarrow> auth_env \<Rightarrow> byte list \<Rightarrow> byte list \<Rightarrow> byte list \<Rightarrow> byte list \<Rightarrow> bool)
    \<Rightarrow> authstaticinfo set \<Rightarrow> bool" where
  "keep_contract V ms \<longleftrightarrow> (\<forall>m\<in>ms. auth_module (auth_func m) (V m))"

abbreviation sound_result :: "(authstaticinfo \<Rightarrow> auth_env \<Rightarrow> byte list \<Rightarrow> byte list \<Rightarrow> byte list \<Rightarrow> byte list \<Rightarrow> bool)
    \<Rightarrow> auth_env \<Rightarrow> (nat \<times> authstaticinfo) set \<Rightarrow> byte list \<Rightarrow> byte list \<Rightarrow> byte list \<Rightarrow> world
    \<Rightarrow> (byte list \<times> nat) option \<times> world \<Rightarrow> bool" where
  "sound_result V E ms service t data w res \<equiv>
     (\<forall>u i. fst res = Some (u, i) \<longrightarrow> (\<exists>m. (i, m) \<in> ms \<and> V m E service t data u)) \<and>
     (actions (snd res) \<noteq> actions w \<longrightarrow> (\<exists>i m u. (i, m) \<in> ms \<and> V m E service t data u))"

lemma keep_contractD:
  assumes "keep_contract V ms" "m \<in> ms" "auth_func m E service t data cb w = (r, w')"
  shows "r = Inr u \<Longrightarrow> V m E service t data u" "actions w' \<noteq> actions w \<Longrightarrow> \<exists>u. V m E service t data u"
proof -
  have m: "auth_module (auth_func m) (V m)" using assms(1,2) unfolding keep_contract_def by blast
  show "r = Inr u \<Longrightarrow> V m E service t data u" using auth_module.sound [OF m] assms(3) by blast
  show "actions w' \<noteq> actions w \<Longrightarrow> \<exists>u. V m E service t data u" using auth_module.acts [OF m assms(3)] by blast
qed

lemma login_default_sound:
  "keep_contract V (snd ` set ms) \<Longrightarrow>
    sound_result V E (set ms) service t data w (login_default E ms service t data cb w)"
proof (induction ms arbitrary: w)
  case (Cons im ms)
  obtain i m where im: "im = (i, m)" by fastforce
  obtain r w1 where r: "auth_func m E service t data cb w = (r, w1)" by fastforce
  note m = keep_contractD [OF Cons(2) _ r]
  from Cons(2) have "keep_contract V (snd ` set ms)" by (simp add: keep_contract_def)
  note IH = Cons(1) [OF this, of w1]
  show ?case
  proof (cases r)
    case (Inr u)
    with m show ?thesis by (auto simp: im r)
  next
    case (Inl e)
    have eq: "login_default E (im # ms) service t data cb w = (if e \<noteq> EPERM then (None, w1) else login_default E ms service t data cb w1)"
      by (simp add: im r Inl)
    have "\<exists>u. V m E service t data u" if "actions w1 \<noteq> actions w" using m(2) that by (simp add: im)
    then show ?thesis unfolding eq using IH by (cases "e = EPERM"; simp add: im) metis+
  qed
qed simp

lemma login_word_sound:
  "keep_contract V (snd ` set ms) \<Longrightarrow>
    sound_result V E (set ms) service t data w (login_word E name ms service t data cb w)"
proof (induction ms arbitrary: w)
  case (Cons im ms)
  obtain i m where im: "im = (i, m)" by fastforce
  obtain r w1 where r: "auth_func m E service t data cb w = (r, w1)" by fastforce
  note m = keep_contractD [OF Cons(2) _ r]
  from Cons(2) have "keep_contract V (snd ` set ms)" by (simp add: keep_contract_def)
  note IH = Cons(1) [OF this]
  show ?case
  proof (cases "auth_name m = name")
    case False
    with IH [of w] show ?thesis by (fastforce simp: im)
  next
    case True
    show ?thesis
    proof (cases r)
      case (Inr u)
      with m True show ?thesis by (auto simp: im r)
    next
      case (Inl e)
      have eq: "login_word E name (im # ms) service t data cb w = (if e \<noteq> EPERM then (None, w1) else login_word E name ms service t data cb w1)"
        by (simp add: im r Inl True)
      have "\<exists>u. V m E service t data u" if "actions w1 \<noteq> actions w" using m(2) that by (simp add: im)
      then show ?thesis unfolding eq using IH [of w1] by (cases "e = EPERM"; simp add: im) metis+
    qed
  qed
qed simp

lemma login_words_sound:
  "keep_contract V (snd ` set ms) \<Longrightarrow>
    sound_result V E (set ms) service t data w (login_words E ms p service t data cb w)"
proof (induction "length p" arbitrary: p w rule: less_induct)
  case less
  show ?case
  proof (cases "next_word p")
    case None
    then show ?thesis by (subst (1 2) login_words.simps) simp
  next
    case (Some np)
    then obtain name q where np: "next_word p = Some (name, q)" by (cases np) simp
    obtain r w1 where r: "login_word E (take (namebuf_size - 1) name) ms service t data cb w = (r, w1)" by fastforce
    note word = login_word_sound [OF less(2), where E = E and service = service and t = t and data = data and w = w and
      name = "take (namebuf_size - 1) name" and cb = cb, unfolded r fst_conv snd_conv]
    note IH = less(1) [OF next_word_length [OF np] less(2), of w1]
    have e: "login_words E ms p service t data cb w =
        (case r of Some r \<Rightarrow> (Some r, w1) | None \<Rightarrow> login_words E ms q service t data cb w1)"
      by (subst login_words.simps, unfold np option.case prod.case r) (cases r; simp)
    show ?thesis
    proof (cases r)
      case None
      with word IH show ?thesis unfolding e by (metis option.case(1))
    next
      case (Some x)
      with word show ?thesis unfolding e by simp
    qed
  qed
qed


subsection \<open>Properties\<close>

text \<open>
  C17. If every module keeps the contract, so does the search, with or without a configuration
  file, whatever is in it and whichever allocation fails: a login it returns was verified by the
  module with the number it returns, and nothing happens to the outside unless some module
  verified a user. The two modules of the user database keep the contract.
\<close>

theorem authlogin_search_sound:
  assumes "keep_contract V (set modules)"
    and "authlogin_search E modules configfile service t data cb w = (res, w')"
  shows "(\<forall>u i. res = Some (u, i) \<longrightarrow> i < length modules \<and> V (modules ! i) E service t data u) \<and>
    (actions w' \<noteq> actions w \<longrightarrow> (\<exists>m\<in>set modules. \<exists>u. V m E service t data u)) \<and>
    keep_contract (\<lambda>m. if m = authuserdb_info then verified_password else verified_cram) {authuserdb_info, authcram_info}"
proof -
  have ne: "authcram_info \<noteq> authuserdb_info" by (simp add: authcram_info_def authuserdb_info_def)
  have k: "keep_contract (\<lambda>m. if m = authuserdb_info then verified_password else verified_cram) {authuserdb_info, authcram_info}"
    using ne userdb_mod.auth_module_axioms cram_mod.auth_module_axioms
    by (simp add: keep_contract_def) (simp add: authcram_info_def authuserdb_info_def)
  have "snd ` set (enumerate 0 modules) = set modules" by (metis set_map map_snd_enumerate)
  with assms(1) have c: "keep_contract V (snd ` set (enumerate 0 modules))" by simp
  have "sound_result V E (set (enumerate 0 modules)) service t data w (res, w')"
  proof (cases "malloc_ok E (length data + 1)")
    case False
    with assms(2) show ?thesis by (auto simp: authlogin_search_def)
  next
    case True
    show ?thesis
    proof (cases configfile)
      case None
      with assms(2) True have "(res, w') = login_default E (enumerate 0 modules) service t data cb w"
        by (simp add: authlogin_search_def Let_def)
      then show ?thesis using login_default_sound [OF c] by metis
    next
      case (Some p)
      with assms(2) True have "(res, w') = login_words E (enumerate 0 modules) p service t data cb w"
        by (simp add: authlogin_search_def Let_def)
      then show ?thesis using login_words_sound [OF c] by metis
    qed
  qed
  moreover have "i < length modules \<and> modules ! i = m" if "(i, m) \<in> set (enumerate 0 modules)" for i m
    using that by (auto simp: in_set_enumerate_eq)
  ultimately show ?thesis using k by (metis fst_conv snd_conv nth_mem)
qed

theorem authlogin_search_sound_witness:
  "verified_password (small_env (asc ''systempw=old'')) (asc ''pop3'') AUTHTYPE_LOGIN (login_data bob (asc ''old'')) bob"
proof -
  let ?E = "small_env (asc ''systempw=old'')" and ?data = "login_data bob (asc ''old'')"
  have k: "keep_contract (\<lambda>m. verified_password) (set [authuserdb_info])"
    using userdb_mod.auth_module_axioms by (simp add: keep_contract_def authuserdb_info_def)
  obtain w' where "auth_userdb ?E (asc ''pop3'') AUTHTYPE_LOGIN ?data True small_world = (Inr bob, w')"
    using small_login by blast
  moreover have "next_word (asc ''authuserdb'') = Some (asc ''authuserdb'', [])" by (simp add: next_word_def isspace_def)
  ultimately have "authlogin_search ?E [authuserdb_info] (Some (asc ''authuserdb'')) (asc ''pop3'') AUTHTYPE_LOGIN ?data True small_world
      = (Some (bob, 0), w')"
    using small_malloc by (simp add: authlogin_search_def login_words.simps namebuf_size_def authuserdb_info_def)
  from authlogin_search_sound [OF k this] show ?thesis by simp
qed

text \<open>
  A module that fails for a reason of its own (not because the user is not his) ends the
  search if there is no configuration file, but not if a file names the modules: then a later
  module is still asked.
\<close>

theorem temporary_error_search:
  assumes "auth_func a E service t data cb w = (Inl EACCES, w1)" "auth_func b E service t data cb w1 = (Inr u, w2)"
    and "auth_name a \<noteq> auth_name b" "next_word p = Some (auth_name a, q)" "next_word q = Some (auth_name b, [])"
    and "length (auth_name a) < namebuf_size" "length (auth_name b) < namebuf_size" "\<forall>n. malloc_ok E n"
  shows "authlogin_search E [a, b] None service t data cb w = (None, w1) \<and>
    authlogin_search E [a, b] (Some p) service t data cb w = (Some (u, 1), w2)"
proof -
  have "take (namebuf_size - 1) (auth_name a) = auth_name a" "take (namebuf_size - 1) (auth_name b) = auth_name b"
    using assms(6,7) by simp_all
  with assms show ?thesis by (simp add: authlogin_search_def Let_def login_words.simps)
qed


theorem temporary_error_search_witness:
  "\<exists>a b. fst (authlogin_search (small_env []) [a, b] None [] [] [] True small_world) = None \<and>
    fst (authlogin_search (small_env []) [a, b] (Some (asc ''a b'')) [] [] [] True small_world) = Some (bob, 1)"
proof -
  let ?a = "authuserdb_info\<lparr>auth_name := asc ''a'', auth_func := \<lambda>E s t d c w. (Inl EACCES, w)\<rparr>"
  let ?b = "authuserdb_info\<lparr>auth_name := asc ''b'', auth_func := \<lambda>E s t d c w. (Inr bob, w)\<rparr>"
  have "next_word (asc ''a b'') = Some (auth_name ?a, asc '' b'')" "next_word (asc '' b'') = Some (auth_name ?b, [])"
    by (simp_all add: next_word_def isspace_def)
  then show ?thesis
    using temporary_error_search [of ?a "small_env []" "[]" "[]" "[]" True small_world small_world ?b bob small_world
        "asc ''a b''" "asc '' b''"] small_malloc
    by (intro exI [of _ ?a] exI [of _ ?b]) (simp add: namebuf_size_def)
qed

end
