(* ===== verification/Auth_Daemon.thy ===== *)
theory Auth_Daemon imports Auth_Search begin

text \<open>
  The authentication daemon, \<open>wmail/authlib\<close>: the protocol between a program that wants a user
  authenticated (\<open>authdaemon.c\<close>, \<open>authdaemonlib.c\<close>, \<open>authdaemonpwd.c\<close>) and the process that has
  the modules (\<open>authdaemond.c\<close>).

  A connection is the bytes that one side writes and the other reads; the socket calls and their
  time limits are outside. \<open>cap\<close> is the number of bytes a connection takes before writing to it
  fails. A null pointer as home directory, which would crash the program, is an empty one here.
\<close>

subsection \<open>Buffered output (authdaemond.c)\<close>

text \<open>What is in the buffer, and what has been sent.\<close>

record outbuf =
  ob_buf :: "byte list"
  ob_sent :: "byte list"

definition writeauth :: "nat \<Rightarrow> byte list \<Rightarrow> outbuf \<Rightarrow> int \<times> outbuf" where
  "writeauth cap p b =
     (if length (ob_sent b) + length p \<le> cap then (0, b\<lparr>ob_sent := ob_sent b @ p\<rparr>)
      else (-1, b\<lparr>ob_sent := take cap (ob_sent b @ p)\<rparr>))"

definition writeauthflush :: "nat \<Rightarrow> outbuf \<Rightarrow> int \<times> outbuf" where
  "writeauthflush cap b =
     (if ob_buf b \<noteq> [] then rc_then (writeauth cap (ob_buf b) b) (\<lambda>b. (0, b\<lparr>ob_buf := []\<rparr>)) else (0, b))"

text \<open>
  \<open>writeleft\<close> is the rest of the buffer. The loop ends since a buffer that has been flushed has
  room.
\<close>

function writeauthbuf :: "nat \<Rightarrow> byte list \<Rightarrow> outbuf \<Rightarrow> int \<times> outbuf" where
  "writeauthbuf cap p b =
     (if p = [] then (0, b)
      else if length p < BUFSIZ - length (ob_buf b) then (0, b\<lparr>ob_buf := ob_buf b @ p\<rparr>)
      else case writeauthflush cap b of
        (rc, b) \<Rightarrow>
          if rc \<noteq> 0 then (-1, b)
          else let n = min (length p) (BUFSIZ - length (ob_buf b))
            in writeauthbuf cap (drop n p) (b\<lparr>ob_buf := ob_buf b @ take n p\<rparr>))"
  by pat_completeness auto

lemma writeauthflush_0: "writeauthflush cap b = (0, b') \<Longrightarrow> ob_buf b' = []"
  by (auto simp: writeauthflush_def writeauth_def split: if_splits)

termination writeauthbuf
  by (relation "measure (\<lambda>(cap, p, b). length p)") (auto dest!: writeauthflush_0 [OF sym] simp: BUFSIZ_def)

declare writeauthbuf.simps [simp del]

definition writeenvval :: "nat \<Rightarrow> byte list \<Rightarrow> byte list \<Rightarrow> outbuf \<Rightarrow> int \<times> outbuf" where
  "writeenvval cap env val b =
     (let step = (\<lambda>s r. rc_then r (\<lambda>b. case writeauthbuf cap s b of (rc, b) \<Rightarrow> (if rc \<noteq> 0 then -1 else 0, b)))
      in step [NL] (step val (step (asc ''='') (step env (0, b)))))"

text \<open>A member that is a null pointer is not written.\<close>

definition opt_envval :: "nat \<Rightarrow> string \<Rightarrow> byte list option \<Rightarrow> outbuf \<Rightarrow> int \<times> outbuf" where
  "opt_envval cap env val b =
     (case val of None \<Rightarrow> (0, b)
      | Some v \<Rightarrow> (case writeenvval cap (asc env) v b of (rc, b) \<Rightarrow> (if rc \<noteq> 0 then 1 else 0, b)))"

text \<open>The members in the order in which they are written.\<close>

definition auth_members :: "authinfo \<Rightarrow> (string \<times> byte list option) list" where
  "auth_members a = [(''USERNAME'', sysusername a),
     (''UID'', map_option libmail_str_uid_t (sysuserid a)),
     (''GID'', Some (libmail_str_uid_t (sysgroupid a))),
     (''HOME'', Some (or_empty (homedir a))),
     (''ADDRESS'', address a), (''NAME'', fullname a), (''MAILDIR'', maildir a), (''QUOTA'', quota a),
     (''PASSWD'', passwd a), (''PASSWD2'', clearpasswd a)]"

definition printauth :: "nat \<Rightarrow> authinfo \<Rightarrow> byte list \<Rightarrow> int \<times> byte list" where
  "printauth cap a sent =
     (let r = foldl (\<lambda>r (env, val). rc_then r (opt_envval cap env val)) (0, \<lparr>ob_buf = [], ob_sent = sent\<rparr>)
            (auth_members a);
          r = rc_then r (\<lambda>b. case writeauthbuf cap (asc ''.'' @ [NL]) b of (rc, b) \<Rightarrow> (if rc \<noteq> 0 then 1 else 0, b));
          r = rc_then r (\<lambda>b. case writeauthflush cap b of (rc, b) \<Rightarrow> (if rc \<noteq> 0 then 1 else 0, b))
      in case r of (rc, b) \<Rightarrow> (rc, ob_sent b))"

subsection \<open>Reading the answer (authdaemonlib.c)\<close>

definition readauth :: "byte list \<Rightarrow> byte list" where
  "readauth s = cstr (take (BUFSIZ - 1) s)"

definition set_member :: "byte list \<Rightarrow> byte list \<Rightarrow> authinfo \<Rightarrow> authinfo" where
  "set_member p r a =
     (if p = asc ''USERNAME'' then a\<lparr>sysusername := Some r\<rparr>
      else if p = asc ''UID'' then a\<lparr>sysuserid := Some (of_int (atol r))\<rparr>
      else if p = asc ''GID'' then a\<lparr>sysgroupid := of_int (atol r)\<rparr>
      else if p = asc ''HOME'' then a\<lparr>homedir := Some r\<rparr>
      else if p = asc ''ADDRESS'' then a\<lparr>address := Some r\<rparr>
      else if p = asc ''NAME'' then a\<lparr>fullname := Some r\<rparr>
      else if p = asc ''MAILDIR'' then a\<lparr>maildir := Some r\<rparr>
      else if p = asc ''QUOTA'' then a\<lparr>quota := Some r\<rparr>
      else if p = asc ''PASSWD'' then a\<lparr>passwd := Some r\<rparr>
      else if p = asc ''PASSWD2'' then a\<lparr>clearpasswd := Some r\<rparr>
      else a)"

lemma rest_length [termination_simp]: "p \<noteq> [] \<Longrightarrow> length (dropWhile P p) - Suc 0 < length p"
  using length_dropWhile_le [of P p] by (cases p) (auto simp: less_Suc_eq_le)

text \<open>The loop over the lines: the structure to call the function with, or a code.\<close>

fun parse_auth :: "byte list \<Rightarrow> authinfo \<Rightarrow> int + authinfo" where
  "parse_auth p a =
     (if p = [] then Inl 1
      else let line = takeWhile (\<lambda>c. c \<noteq> NL) p; q = drop 1 (dropWhile (\<lambda>c. c \<noteq> NL) p) in
        if line = asc ''.'' then Inr a
        else if line = asc ''FAIL'' then Inl (-1)
        else if ch CHR ''='' \<notin> set line then parse_auth q a
        else parse_auth q (set_member (takeWhile (\<lambda>c. c \<noteq> ch CHR ''='') line)
          (drop 1 (dropWhile (\<lambda>c. c \<noteq> ch CHR ''='') line)) a))"

declare parse_auth.simps [simp del]

text \<open>\<open>serve\<close> is what comes back for a request, None where the daemon cannot be reached.\<close>

definition authdaemondo :: "(byte list \<Rightarrow> byte list option) \<Rightarrow> byte list \<Rightarrow> (authinfo \<Rightarrow> world \<Rightarrow> int \<times> 'r \<times> world)
    \<Rightarrow> 'r \<Rightarrow> world \<Rightarrow> int \<times> 'r \<times> world" where
  "authdaemondo serve authreq func arg w =
     (case serve authreq of
        None \<Rightarrow> (1, arg, w)
      | Some answer \<Rightarrow>
          (case parse_auth (readauth answer) (authinfo_zero\<lparr>homedir := Some []\<rparr>) of
             Inl rc \<Rightarrow> (rc, arg, w)
           | Inr a \<Rightarrow> func a w))"

definition authdaemondopasswd :: "(byte list \<Rightarrow> byte list option) \<Rightarrow> byte list \<Rightarrow> nat \<Rightarrow> int" where
  "authdaemondopasswd serve buffer bufsiz =
     (case serve buffer of
        None \<Rightarrow> 1
      | Some answer \<Rightarrow> strcmp (cstr (take (bufsiz - 1) answer)) (asc ''OK'' @ [NL]))"


subsection \<open>The server (authdaemond.c)\<close>

text \<open>
  What a request does: the world after it and the answer. A login module reports the user through
  the callback; what \<open>printauth_void\<close> writes is put together from those reports.
\<close>

definition new_actions :: "world \<Rightarrow> world \<Rightarrow> action list" where
  "new_actions w w' = drop (length (actions w)) (actions w')"

fun printauth_void :: "nat \<Rightarrow> action list \<Rightarrow> byte list \<Rightarrow> byte list" where
  "printauth_void cap [] sent = sent"
| "printauth_void cap (Callback a # as) sent = printauth_void cap as (snd (printauth cap a sent))"
| "printauth_void cap (_ # as) sent = printauth_void cap as sent"

definition FAIL :: "byte list" where "FAIL = asc ''FAIL'' @ [NL]"

text \<open>The copy of the data for each module is what \<open>strtok\<close> cuts up.\<close>

fun auth_loop :: "auth_env \<Rightarrow> nat \<Rightarrow> (nat \<times> authstaticinfo) list \<Rightarrow> byte list \<Rightarrow> byte list \<Rightarrow> byte list \<Rightarrow> world \<Rightarrow> byte list
    \<Rightarrow> world \<times> byte list" where
  "auth_loop E cap [] service authtype data w sent = (w, sent @ FAIL)"
| "auth_loop E cap ((i, m) # ms) service authtype data w sent =
     (case auth_func m E service authtype data True w of
        (r, w') \<Rightarrow>
          let sent = printauth_void cap (new_actions w w') sent in
          case r of
            Inr q \<Rightarrow> (w', sent)
          | Inl e \<Rightarrow> if e \<noteq> EPERM then (w', sent) else auth_loop E cap ms service authtype data w' sent)"

definition auth :: "auth_env \<Rightarrow> nat \<Rightarrow> (nat \<times> authstaticinfo) list \<Rightarrow> byte list \<Rightarrow> world \<Rightarrow> world \<times> byte list" where
  "auth E cap order p w =
     (let service = takeWhile (\<lambda>c. c \<noteq> NL) p; p = dropWhile (\<lambda>c. c \<noteq> NL) p in
      if p = [] then (w, [])
      else let p = drop 1 p; authtype = takeWhile (\<lambda>c. c \<noteq> NL) p; p = dropWhile (\<lambda>c. c \<noteq> NL) p in
        if p = [] then (w, [])
        else let p = drop 1 p in
          if \<not> malloc_ok E (length p + 1) then (w, [])
          else auth_loop E cap order service authtype p w [])"

text \<open>A lookup of a user: the callback is \<open>printauth\<close>, its code the module's.\<close>

fun pre_loop :: "auth_env \<Rightarrow> nat \<Rightarrow> (nat \<times> authstaticinfo) list \<Rightarrow> byte list \<Rightarrow> byte list \<Rightarrow> byte list \<Rightarrow> world \<Rightarrow> byte list
    \<Rightarrow> world \<times> byte list" where
  "pre_loop E cap [] prebuf p service w sent = (w, sent @ FAIL)"
| "pre_loop E cap ((i, m) # ms) prebuf p service w sent =
     (if prebuf \<noteq> asc ''.'' \<and> prebuf \<noteq> auth_name m then pre_loop E cap ms prebuf p service w sent
      else case auth_prefunc m E p service (\<lambda>a w. case printauth cap a sent of (rc, sent) \<Rightarrow> (rc, sent, w)) sent w of
        (rc, sent, w) \<Rightarrow> if rc \<ge> 0 then (w, sent) else pre_loop E cap ms prebuf p service w sent)"

definition pre :: "auth_env \<Rightarrow> nat \<Rightarrow> (nat \<times> authstaticinfo) list \<Rightarrow> byte list \<Rightarrow> world \<Rightarrow> world \<times> byte list" where
  "pre E cap order prebuf w =
     (let nosp = (\<lambda>c. c \<noteq> ch CHR '' ''); name = takeWhile nosp prebuf; p = dropWhile nosp prebuf in
      if p = [] then (w, [])
      else let p = dropWhile (Not \<circ> nosp) p; service = takeWhile nosp p; p = dropWhile nosp p in
        if p = [] then (w, [])
        else pre_loop E cap order name (dropWhile (Not \<circ> nosp) p) service w [])"

fun dopasswd :: "auth_env \<Rightarrow> (nat \<times> authstaticinfo) list \<Rightarrow> byte list \<Rightarrow> byte list \<Rightarrow> byte list \<Rightarrow> byte list \<Rightarrow> world
    \<Rightarrow> world \<times> byte list" where
  "dopasswd E [] service uid opwd npwd w = (w, FAIL)"
| "dopasswd E ((i, m) # ms) service uid opwd npwd w =
     (case auth_changepwd m of
        None \<Rightarrow> dopasswd E ms service uid opwd npwd w
      | Some f \<Rightarrow>
          (case f E service uid opwd npwd w of
             (Inr _, w) \<Rightarrow> (w, asc ''OK'' @ [NL])
           | (Inl e, w) \<Rightarrow> if e = Some EPERM then (w, FAIL) else dopasswd E ms service uid opwd npwd w))"

text \<open>The request's fields are separated by tabs; without three of them nothing is answered.\<close>

definition TAB :: byte where "TAB = 9"

definition passwd_req :: "auth_env \<Rightarrow> (nat \<times> authstaticinfo) list \<Rightarrow> byte list \<Rightarrow> world \<Rightarrow> world \<times> byte list" where
  "passwd_req E order prebuf w =
     (if \<exists>p\<in>set prebuf. p \<noteq> TAB \<and> (p < 32 \<or> p = 39 \<or> p = 34) then (w, FAIL)
      else let notab = (\<lambda>c. c \<noteq> TAB);
               service = takeWhile notab prebuf; p = dropWhile notab prebuf in
        if p = [] then (w, [])
        else let p = drop 1 p; uid = takeWhile notab p; p = dropWhile notab p in
          if p = [] then (w, [])
          else let p = drop 1 p; opwd = takeWhile notab p; p = dropWhile notab p in
            if p = [] then (w, [])
            else dopasswd E order service uid opwd (takeWhile notab (drop 1 p)) w)"

definition doauth :: "auth_env \<Rightarrow> nat \<Rightarrow> (nat \<times> authstaticinfo) list \<Rightarrow> byte list \<Rightarrow> world \<Rightarrow> world \<times> byte list" where
  "doauth E cap order inp w =
     (let line = takeWhile (\<lambda>c. c \<noteq> NL) inp; rest = dropWhile (\<lambda>c. c \<noteq> NL) inp in
      if rest = [] \<or> BUFSIZ - 2 < length line then (w, [])
      else let rest = drop 1 rest; buf = cstr line;
               cmd = takeWhile (\<lambda>c. c \<noteq> ch CHR '' '') buf;
               p = dropWhile (\<lambda>c. c = ch CHR '' '') (drop (length cmd) buf)
        in if cmd = asc ''PRE'' then pre E cap order p w
        else if cmd = asc ''PASSWD'' then passwd_req E order p w
        else if cmd = asc ''AUTH'' then
          (let i = atoi p in
           if i < 0 \<or> int BUFSIZ \<le> i \<or> length rest < nat i then (w, [])
           else auth E cap order (cstr (take (nat i) rest)) w)
        else (w, []))"

subsection \<open>The client (authdaemon.c)\<close>

definition daemon_callback :: "auth_env \<Rightarrow> bool \<Rightarrow> authinfo \<Rightarrow> world \<Rightarrow> int \<times> byte list option \<times> world" where
  "daemon_callback E cb a w =
     (let username = or_empty (address a); dir = asc ''MAILDIR='' @ or_empty (maildir a) in
      if \<not> malloc_ok E (length username + 1) then (1, None, w)
      else if \<not> malloc_ok E (length dir + 1) then (1, None, w)
      else let w = act (Putenv dir) w;
               a = (if sysusername a \<noteq> None \<and> sysuserid a \<noteq> None then a\<lparr>sysusername := None\<rparr> else a)
        in (0, Some username,
          if \<not> cb then authsuccess E (homedir a) (sysusername a) (sysuserid a) (Some (sysgroupid a)) (address a) (fullname a) w
          else act (Callback (if address a = None then a\<lparr>address := sysusername a\<rparr> else a)) w))"

text \<open>
  The length announced counts one of the two newlines of the request, so the last byte of the
  data is not read by the daemon.
\<close>

definition daemon_request :: "byte list \<Rightarrow> byte list \<Rightarrow> byte list \<Rightarrow> byte list" where
  "daemon_request service authtype authdata =
     asc ''AUTH '' @ libmail_str_size_t (of_nat (length service + length authtype + length authdata + 1)) @ [NL] @
       service @ [NL] @ authtype @ [NL] @ authdata"

definition auth_daemon :: "auth_env \<Rightarrow> (byte list \<Rightarrow> byte list option) \<Rightarrow> byte list \<Rightarrow> byte list \<Rightarrow> byte list \<Rightarrow> bool
    \<Rightarrow> world \<Rightarrow> auth_result" where
  "auth_daemon E serve service authtype authdata cb w =
     (let l = length service + length authtype + length authdata + 1 in
      if \<not> malloc_ok E (length (libmail_str_size_t (of_nat l)) + l + 20) then (Inl EACCES, w)
      else case authdaemondo serve (daemon_request service authtype authdata) (daemon_callback E cb) None w of
        (rc, username, w) \<Rightarrow>
          if rc < 0 then (Inl EPERM, w) else if rc > 0 then (Inl EACCES, w) else (Inr (or_empty username), w))"

text \<open>\<open>authdaemonpwd.c\<close>: a line from the standard input is a request to change a password.\<close>

definition authdaemonpwd :: "(byte list \<Rightarrow> byte list option) \<Rightarrow> byte list \<Rightarrow> int" where
  "authdaemonpwd serve stdin =
     (if stdin = [] then 1
      else let line = takeWhile (\<lambda>c. c \<noteq> NL) (cstr (take (BUFSIZ - 11) stdin))
        in authdaemondopasswd serve (asc ''PASSWD '' @ line @ [NL]) BUFSIZ)"


definition auth_daemon_pre :: "auth_env \<Rightarrow> (byte list \<Rightarrow> byte list option) \<Rightarrow> byte list \<Rightarrow> byte list
    \<Rightarrow> (authinfo \<Rightarrow> world \<Rightarrow> int \<times> 'r \<times> world) \<Rightarrow> 'r \<Rightarrow> world \<Rightarrow> int \<times> 'r \<times> world" where
  "auth_daemon_pre E serve uid service callback arg w =
     (if \<not> malloc_ok E (length service + length uid + 20) then (1, arg, w)
      else authdaemondo serve (asc ''PRE . '' @ service @ asc '' '' @ uid @ [NL]) callback arg w)"

subsection \<open>Buffering is transparent\<close>

text \<open>
  The abstract view of the output is the bytes written so far, sent or not. Every operation
  appends to it as long as the connection takes them.
\<close>

definition written :: "outbuf \<Rightarrow> byte list" where
  "written b = ob_sent b @ ob_buf b"

definition appends :: "byte list \<Rightarrow> outbuf \<Rightarrow> int \<times> outbuf \<Rightarrow> bool" where
  "appends s b r \<longleftrightarrow> (\<exists>b'. r = (0, b') \<and> written b' = written b @ s)"

lemma writeauthflush_appends:
  "length (written b) \<le> cap \<Longrightarrow> \<exists>b'. writeauthflush cap b = (0, b') \<and> written b' = written b \<and> ob_buf b' = []"
  by (auto simp: writeauthflush_def writeauth_def written_def)

lemma writeauthbuf_appends: "length (written b @ s) \<le> cap \<Longrightarrow> appends s b (writeauthbuf cap s b)"
proof (induction "length s" arbitrary: s b rule: less_induct)
  case less
  show ?case
  proof (cases "s = [] \<or> length s < BUFSIZ - length (ob_buf b)")
    case True
    then show ?thesis by (subst writeauthbuf.simps) (auto simp: appends_def written_def)
  next
    case False
    from less(2) have "length (written b) \<le> cap" by simp
    from writeauthflush_appends [OF this] obtain b1
      where b1: "writeauthflush cap b = (0, b1)" "written b1 = written b" "ob_buf b1 = []" by blast
    define n where "n = min (length s) BUFSIZ"
    define b2 where "b2 = b1\<lparr>ob_buf := take n s\<rparr>"
    have w2: "written b2 = written b @ take n s" using b1(2,3) by (simp add: b2_def written_def)
    have n: "0 < n" using False by (auto simp: n_def BUFSIZ_def)
    have "length (drop n s) < length s" using n False by auto
    moreover have "length (written b2 @ drop n s) \<le> cap" using less(2) unfolding w2 by simp
    ultimately have "appends (drop n s) b2 (writeauthbuf cap (drop n s) b2)" by (rule less(1))
    moreover have "writeauthbuf cap s b = writeauthbuf cap (drop n s) b2"
      using False b1(1,3) by (subst writeauthbuf.simps) (simp add: n_def b2_def Let_def)
    ultimately show ?thesis using w2 by (auto simp: appends_def)
  qed
qed

lemma appends_then:
  assumes "appends s b r" "\<And>b'. written b' = written b @ s \<Longrightarrow> appends t b' (f b')"
  shows "appends (s @ t) b (rc_then r f)"
  using assms by (force simp: appends_def)

definition env_line :: "byte list \<Rightarrow> byte list \<Rightarrow> byte list" where
  "env_line env val = env @ asc ''='' @ val @ [NL]"

definition opt_line :: "string \<Rightarrow> byte list option \<Rightarrow> byte list" where
  "opt_line env val = (case val of None \<Rightarrow> [] | Some v \<Rightarrow> env_line (asc env) v)"

lemma writeenvval_appends:
  assumes "length (written b @ env_line env val) \<le> cap"
  shows "appends (env_line env val) b (writeenvval cap env val b)"
proof -
  have step: "appends s b' (case writeauthbuf cap s b' of (rc, b) \<Rightarrow> (if rc \<noteq> 0 then -1 else 0, b))"
    if "length (written b' @ s) \<le> cap" for s b'
    using writeauthbuf_appends [OF that] by (auto simp: appends_def)
  let ?s = "\<lambda>s r. rc_then r (\<lambda>b. case writeauthbuf cap s b of (rc, b) \<Rightarrow> (if rc \<noteq> 0 then -1 else 0, b))"
  have z: "appends [] b (0, b)" by (simp add: appends_def)
  have 1: "appends ([] @ env) b (?s env (0, b))"
    by (rule appends_then [OF z], rule step) (use assms in \<open>simp add: env_line_def\<close>)
  have 2: "appends (([] @ env) @ asc ''='') b (?s (asc ''='') (?s env (0, b)))"
    by (rule appends_then [OF 1], rule step) (use assms in \<open>simp add: env_line_def\<close>)
  have 3: "appends ((([] @ env) @ asc ''='') @ val) b (?s val (?s (asc ''='') (?s env (0, b))))"
    by (rule appends_then [OF 2], rule step) (use assms in \<open>simp add: env_line_def\<close>)
  have "appends (((([] @ env) @ asc ''='') @ val) @ [NL]) b (?s [NL] (?s val (?s (asc ''='') (?s env (0, b)))))"
    by (rule appends_then [OF 3], rule step) (use assms in \<open>simp add: env_line_def\<close>)
  then show ?thesis by (simp add: writeenvval_def env_line_def Let_def)
qed

lemma opt_envval_appends:
  assumes "length (written b @ opt_line env val) \<le> cap"
  shows "appends (opt_line env val) b (opt_envval cap env val b)"
proof (cases val)
  case None
  then show ?thesis by (simp add: opt_envval_def opt_line_def appends_def)
next
  case (Some v)
  with assms have "appends (env_line (asc env) v) b (writeenvval cap (asc env) v b)"
    by (intro writeenvval_appends) (simp add: opt_line_def)
  then show ?thesis by (auto simp: opt_envval_def opt_line_def appends_def Some)
qed

text \<open>The text of an answer.\<close>

definition auth_text :: "authinfo \<Rightarrow> byte list" where
  "auth_text a = concat (map (\<lambda>(env, val). opt_line env val) (auth_members a)) @ asc ''.'' @ [NL]"

lemma members_append:
  "length (written b @ s @ concat (map (\<lambda>(env, val). opt_line env val) ms)) \<le> cap \<Longrightarrow> appends s b r \<Longrightarrow>
    appends (s @ concat (map (\<lambda>(env, val). opt_line env val) ms)) b
      (foldl (\<lambda>r (env, val). rc_then r (opt_envval cap env val)) r ms)"
proof (induction ms arbitrary: s r)
  case (Cons m ms)
  obtain env val where m: "m = (env, val)" by fastforce
  have "appends (s @ opt_line env val) b (rc_then r (opt_envval cap env val))"
    by (rule appends_then [OF Cons(3)], rule opt_envval_appends) (use Cons(2) in \<open>simp add: m\<close>)
  from Cons(1) [OF _ this] Cons(2) show ?case by (simp add: m)
qed simp

lemma printauth_auth_text:
  assumes "length (sent @ auth_text a) \<le> cap"
  shows "printauth cap a sent = (0, sent @ auth_text a)"
proof -
  let ?b = "\<lparr>ob_buf = [], ob_sent = sent\<rparr>"
  let ?l = "concat (map (\<lambda>(env, val). opt_line env val) (auth_members a))"
  have w: "written ?b = sent" by (simp add: written_def)
  have "appends ([] @ ?l) ?b (foldl (\<lambda>r (env, val). rc_then r (opt_envval cap env val)) (0, ?b) (auth_members a))"
    by (rule members_append) (use assms in \<open>simp_all add: w auth_text_def appends_def\<close>)
  then obtain b1 where b1: "foldl (\<lambda>r (env, val). rc_then r (opt_envval cap env val)) (0, ?b) (auth_members a) = (0, b1)"
      "written b1 = sent @ ?l" unfolding appends_def w by auto
  have "length (written b1 @ asc ''.'' @ [NL]) \<le> cap" using assms unfolding b1 auth_text_def by simp
  from writeauthbuf_appends [OF this] obtain b2 where b2: "writeauthbuf cap (asc ''.'' @ [NL]) b1 = (0, b2)"
      "written b2 = sent @ auth_text a" unfolding appends_def b1 auth_text_def by auto
  with assms have "length (written b2) \<le> cap" by simp
  from writeauthflush_appends [OF this] obtain b3 where b3: "writeauthflush cap b2 = (0, b3)"
      "written b3 = written b2" "ob_buf b3 = []" by blast
  then have "ob_sent b3 = sent @ auth_text a" using b2(2) by (simp add: written_def)
  then show ?thesis unfolding printauth_def Let_def b1 rc_then.simps using b2(1) b3(1) by simp
qed


subsection \<open>Reading back\<close>

lemma takeWhile_cut: "(\<forall>x\<in>set s. P x) \<Longrightarrow> \<not> P c \<Longrightarrow> takeWhile P (s @ c # r) = s"
  "(\<forall>x\<in>set s. P x) \<Longrightarrow> \<not> P c \<Longrightarrow> dropWhile P (s @ c # r) = c # r"
  by (simp_all add: takeWhile_append2 dropWhile_append2)

lemma parse_env_line:
  assumes "NL \<notin> set env" "ch CHR ''='' \<notin> set env" "NL \<notin> set val"
  shows "parse_auth (env_line env val @ rest) a = parse_auth rest (set_member env val a)"
proof -
  define l where "l = env @ ch CHR ''='' # val"
  have nl: "\<forall>x\<in>set l. x \<noteq> NL" using assms by (auto simp: l_def)
  have p: "env_line env val @ rest = l @ NL # rest" by (simp add: env_line_def l_def)
  have ne: "l \<noteq> asc ''.''" "l \<noteq> asc ''FAIL''" "ch CHR ''='' \<in> set l"
    by (auto simp: l_def append_eq_Cons_conv)
  have "takeWhile (\<lambda>c. c \<noteq> ch CHR ''='') l = env" "dropWhile (\<lambda>c. c \<noteq> ch CHR ''='') l = ch CHR ''='' # val"
    unfolding l_def by (rule takeWhile_cut; use assms(2) in auto)+
  with ne show ?thesis
    unfolding p by (subst parse_auth.simps)
      (simp only: takeWhile_cut(1) [OF nl] takeWhile_cut(2) [OF nl] Let_def, simp del: NL_def)
qed

lemma parse_end: "parse_auth (asc ''.'' @ [NL]) a = Inr a"
  by (subst parse_auth.simps) simp

definition line_ok :: "string \<times> byte list option \<Rightarrow> bool" where
  "line_ok m \<longleftrightarrow> NL \<notin> set (asc (fst m)) \<and> ch CHR ''='' \<notin> set (asc (fst m)) \<and> (\<forall>v. snd m = Some v \<longrightarrow> NL \<notin> set v)"

definition put_member :: "string \<times> byte list option \<Rightarrow> authinfo \<Rightarrow> authinfo" where
  "put_member m a = (case snd m of None \<Rightarrow> a | Some v \<Rightarrow> set_member (asc (fst m)) v a)"

lemma parse_members:
  "\<forall>m\<in>set ms. line_ok m \<Longrightarrow>
    parse_auth (concat (map (\<lambda>(env, val). opt_line env val) ms) @ asc ''.'' @ [NL]) a = Inr (fold put_member ms a)"
proof (induction ms arbitrary: a)
  case Nil
  then show ?case using parse_end by simp
next
  case (Cons m ms)
  obtain env val where m: "m = (env, val)" by fastforce
  from Cons(2) have l: "line_ok m" and IH: "\<forall>m\<in>set ms. line_ok m" by auto
  show ?case
  proof (cases val)
    case None
    then show ?thesis using Cons(1) [OF IH] by (simp add: m opt_line_def put_member_def)
  next
    case (Some v)
    with l have "NL \<notin> set (asc env)" "ch CHR ''='' \<notin> set (asc env)" "NL \<notin> set v"
      by (simp_all add: line_ok_def m del: NL_def)
    from parse_env_line [OF this] Cons(1) [OF IH] Some show ?thesis
      by (simp add: m opt_line_def put_member_def)
  qed
qed

lemma atol_numeral:
  assumes "dec_numeral s" "dec_value s < 2 ^ 63"
  shows "atol s = dec_value s"
proof -
  obtain c r where s: "s = c # r" "isdigit c" using assms(1) by (cases s) (auto simp: dec_numeral_def)
  then have "\<not> isspace c" "c \<noteq> ch CHR ''-''" "c \<noteq> ch CHR ''+''"
    by (auto simp: isspace_def isdigit_def word_le_nat_alt)
  then have "dropWhile isspace s = s" "at s 0 \<noteq> ch CHR ''-''" "at s 0 \<noteq> ch CHR ''+''" using s by simp_all
  moreover have "takeWhile isdigit s = s" using assms(1) by (simp add: dec_numeral_def takeWhile_eq_all_conv)
  ultimately show ?thesis using assms(2)
    by (simp add: atol_def Let_def del: takeWhile_eq_all_conv)
qed

lemma atol_uid: "atol (libmail_str_uid_t u) = uint u"
  using decimal_of_loop [OF uint_ge_0 uint_lt_64(2), of u] uint_lt2p [of u] atol_numeral [of "libmail_str_uid_t u"]
  by (simp add: decimal_of_def libmail_str_uid_t_def)

lemma uid_text_clean: "NL \<notin> set (libmail_str_uid_t u)" "0 \<notin> set (libmail_str_uid_t u)"
proof -
  have "\<forall>c\<in>set (libmail_str_uid_t u). isdigit c"
    using decimal_of_loop [OF uint_ge_0 uint_lt_64(2), of u]
    by (simp add: decimal_of_def libmail_str_uid_t_def dec_numeral_def)
  moreover have "\<not> isdigit NL" "\<not> isdigit 0" by (simp_all add: isdigit_def)
  ultimately show "NL \<notin> set (libmail_str_uid_t u)" "0 \<notin> set (libmail_str_uid_t u)" by blast+
qed

text \<open>The strings of a structure, and that a byte is in none of them.\<close>

definition strings_of :: "authinfo \<Rightarrow> byte list option list" where
  "strings_of a = [sysusername a, homedir a, address a, fullname a, maildir a, quota a, passwd a, clearpasswd a]"

definition free_of :: "byte \<Rightarrow> authinfo \<Rightarrow> bool" where
  "free_of c a \<longleftrightarrow> (\<forall>s\<in>set (strings_of a). c \<notin> set (or_empty s))"

lemma members_ok:
  assumes "free_of NL a"
  shows "\<forall>m\<in>set (auth_members a). line_ok m"
proof -
  have *: "\<forall>v. s = Some v \<longrightarrow> NL \<notin> set v" if "s \<in> set (strings_of a)" for s
    using assms that unfolding free_of_def or_empty_def by (cases s) auto
  show ?thesis
    using * uid_text_clean(1) unfolding auth_members_def strings_of_def
    by (auto simp: line_ok_def or_empty_def)
qed

lemma auth_text_no_zero: "free_of 0 a \<Longrightarrow> 0 \<notin> set (auth_text a)"
  using uid_text_clean(2)
  by (auto simp: auth_text_def auth_members_def opt_line_def env_line_def free_of_def strings_of_def or_empty_def
      split: option.splits)

definition or_old :: "'x option \<Rightarrow> 'x option \<Rightarrow> 'x option" where
  "or_old s old = (case s of None \<Rightarrow> old | Some v \<Rightarrow> Some v)"

lemma or_old_None [simp]: "or_old s None = s"
  by (cases s) (simp_all add: or_old_def)

lemma put_members:
  "put_member (''USERNAME'', s) a = a\<lparr>sysusername := or_old s (sysusername a)\<rparr>"
  "put_member (''UID'', s) a = a\<lparr>sysuserid := or_old (map_option (\<lambda>v. of_int (atol v)) s) (sysuserid a)\<rparr>"
  "put_member (''GID'', Some v) a = a\<lparr>sysgroupid := of_int (atol v)\<rparr>"
  "put_member (''HOME'', Some v) a = a\<lparr>homedir := Some v\<rparr>"
  "put_member (''ADDRESS'', s) a = a\<lparr>address := or_old s (address a)\<rparr>"
  "put_member (''NAME'', s) a = a\<lparr>fullname := or_old s (fullname a)\<rparr>"
  "put_member (''MAILDIR'', s) a = a\<lparr>maildir := or_old s (maildir a)\<rparr>"
  "put_member (''QUOTA'', s) a = a\<lparr>quota := or_old s (quota a)\<rparr>"
  "put_member (''PASSWD'', s) a = a\<lparr>passwd := or_old s (passwd a)\<rparr>"
  "put_member (''PASSWD2'', s) a = a\<lparr>clearpasswd := or_old s (clearpasswd a)\<rparr>"
  by (cases s; simp add: put_member_def set_member_def or_old_def)+

lemma uid_text_back: "map_option (\<lambda>v. of_int (atol v)) (map_option libmail_str_uid_t i) = i"
  by (cases i) (simp_all add: atol_uid)

lemma fold_members:
  "fold put_member (auth_members a) (authinfo_zero\<lparr>homedir := Some []\<rparr>) =
    a\<lparr>homedir := Some (or_empty (homedir a)), staticindex := 0\<rparr>"
  unfolding auth_members_def fold_simps put_members uid_text_back
  by (simp add: authinfo_zero_def atol_uid)

lemma parse_auth_text:
  assumes "free_of NL a"
  shows "parse_auth (auth_text a) (authinfo_zero\<lparr>homedir := Some []\<rparr>) =
    Inr (a\<lparr>homedir := Some (or_empty (homedir a)), staticindex := 0\<rparr>)"
  unfolding auth_text_def parse_members [OF members_ok [OF assms]] fold_members ..

lemma readauth_whole: "length s < BUFSIZ \<Longrightarrow> 0 \<notin> set s \<Longrightarrow> readauth s = s"
  by (simp add: readauth_def cstr_id)


subsection \<open>Reading a request\<close>

lemma size_text:
  assumes "n < 2 ^ 31"
  shows "decimal_of (libmail_str_size_t (of_nat n)) (int n)" "atoi (libmail_str_size_t (of_nat n)) = int n"
proof -
  have u: "uint (of_nat n :: u64) = int n" using assms unat_of_nat [of n, where 'a = 64] by (simp add: uint_nat)
  show d: "decimal_of (libmail_str_size_t (of_nat n)) (int n)"
    using decimal_of_loop [OF uint_ge_0 uint_lt_64(1), of "of_nat n :: u64"] unfolding u
    by (simp add: libmail_str_size_t_def u)
  have "atol (libmail_str_size_t (of_nat n)) = int n"
    using d assms atol_numeral [of "libmail_str_size_t (of_nat n)"] by (simp add: decimal_of_def)
  moreover have "sint (of_int (int n) :: u32) = int n"
    unfolding sint_sbintrunc' by (rule signed_take_bit_int_eq_self) (use assms in simp_all)
  ultimately show "atoi (libmail_str_size_t (of_nat n)) = int n" by (simp add: atoi_def)
qed

lemma numeral_clean:
  assumes "decimal_of s n"
  shows "NL \<notin> set s" "0 \<notin> set s" "ch CHR '' '' \<notin> set s" "length s \<le> 20"
proof -
  have "\<forall>c\<in>set s. isdigit c" using assms by (simp add: decimal_of_def dec_numeral_def)
  moreover have "\<not> isdigit NL" "\<not> isdigit 0" "\<not> isdigit (ch CHR '' '')" by (simp_all add: isdigit_def)
  ultimately show "NL \<notin> set s" "0 \<notin> set s" "ch CHR '' '' \<notin> set s" by blast+
  show "length s \<le> 20" using assms by (simp add: decimal_of_def)
qed

lemma cut_at: "c \<notin> set s \<Longrightarrow> takeWhile (\<lambda>x. x \<noteq> c) (s @ c # r) = s"
  "c \<notin> set s \<Longrightarrow> dropWhile (\<lambda>x. x \<noteq> c) (s @ c # r) = c # r"
  by (rule takeWhile_cut; auto)+

lemma auth_split:
  assumes "NL \<notin> set service" "NL \<notin> set t" "\<forall>n. malloc_ok E n"
  shows "auth E cap order (service @ NL # t @ NL # data) w = auth_loop E cap order service t data w []"
  using assms unfolding auth_def Let_def cut_at [OF assms(1)] by (simp add: cut_at [OF assms(2)] del: NL_def)

lemma doauth_request:
  assumes clean: "NL \<notin> set service" "NL \<notin> set t" "0 \<notin> set service" "0 \<notin> set t" "0 \<notin> set data"
    and data: "data \<noteq> []" "length service + length t + length data + 2 < BUFSIZ" and mem: "\<forall>n. malloc_ok E n"
  shows "doauth E cap order (daemon_request service t data) w = auth_loop E cap order service t (butlast data) w []"
proof -
  define l where "l = length service + length t + length data + 1"
  define d where "d = libmail_str_size_t (of_nat l)"
  have "l < 2 ^ 31" using data by (simp add: l_def BUFSIZ_def)
  note d = numeral_clean [OF size_text(1) [OF this], folded d_def] and l = size_text(2) [OF this, folded d_def]
  have dec: "dec_numeral d" using size_text(1) [OF \<open>l < 2 ^ 31\<close>] by (simp add: d_def decimal_of_def)
  have dr: "dropWhile (\<lambda>c. c = ch CHR '' '') (drop 4 (asc ''AUTH '' @ d)) = d"
    using d(3) dec by (cases d) (auto simp: dec_numeral_def)
  have req: "daemon_request service t data = (asc ''AUTH '' @ d) @ NL # service @ NL # t @ NL # data"
    by (simp add: daemon_request_def d_def l_def)
  have line: "NL \<notin> set (asc ''AUTH '' @ d)" "0 \<notin> set (asc ''AUTH '' @ d)" using d by simp_all
  have cmd: "takeWhile (\<lambda>c. c \<noteq> ch CHR '' '') (asc ''AUTH '' @ d) = asc ''AUTH''" by simp
  have tk: "take l (service @ NL # t @ NL # data) = service @ NL # t @ NL # butlast data"
    using data(1) by (cases data) (simp_all add: l_def butlast_conv_take)
  have z: "0 \<notin> set (service @ NL # t @ NL # butlast data)"
    using clean by (auto dest: in_set_butlastD)
  have len: "\<not> BUFSIZ - 2 < length (asc ''AUTH '' @ d)" "\<not> int BUFSIZ \<le> int l"
    "\<not> length (service @ NL # t @ NL # data) < l"
    using d(4) data by (simp_all add: BUFSIZ_def l_def)
  have "doauth E cap order (daemon_request service t data) w =
      auth E cap order (cstr (take l (service @ NL # t @ NL # data))) w"
    unfolding doauth_def req cut_at [OF line(1)] Let_def cstr_id [OF line(2)] cmd
    using dr l len by (simp del: NL_def)
  also have "\<dots> = auth_loop E cap order service t (butlast data) w []"
    unfolding tk cstr_id [OF z] by (rule auth_split [OF clean(1,2) mem])
  finally show ?thesis .
qed


subsection \<open>Properties\<close>

text \<open>
  C20. The buffered output is the text of the structure, line by line, however the lines fall on
  the buffer's end, if the connection takes them; reading the answer gives the structure back if
  no string of it contains a newline or a NUL and it fits the reader's buffer. (A newline in a
  string is not escaped: the rest of the string would be read as a member.)
\<close>

theorem authinfo_roundtrip:
  assumes "free_of NL a" "free_of 0 a" "length (auth_text a) < BUFSIZ" "length (auth_text a) \<le> cap" "homedir a \<noteq> None"
  shows "\<exists>sent. printauth cap a [] = (0, sent) \<and>
    authdaemondo (\<lambda>r. Some sent) req func arg w = func (a\<lparr>staticindex := 0\<rparr>) w"
proof -
  from assms(5) obtain h where "homedir a = Some h" by blast
  then have "a\<lparr>homedir := Some (or_empty (homedir a)), staticindex := 0\<rparr> = a\<lparr>staticindex := 0\<rparr>"
    by (simp add: or_empty_def)
  then show ?thesis
    using printauth_auth_text [of "[]" a cap] parse_auth_text [OF assms(1)] auth_text_no_zero [OF assms(2)] assms(3,4)
    by (simp add: authdaemondo_def readauth_whole)
qed

theorem authinfo_roundtrip_witness:
  "\<exists>sent. printauth 8192 (authinfo_zero\<lparr>sysuserid := Some 7, homedir := Some (asc ''/h'')\<rparr>) [] = (0, sent) \<and>
    authdaemondo (\<lambda>r. Some sent) [] (\<lambda>a w. (0, sysuserid a, w)) None small_world = (0, Some 7, small_world)"
proof -
  let ?a = "authinfo_zero\<lparr>sysuserid := Some 7, homedir := Some (asc ''/h'')\<rparr>"
  have "libmail_str_uid_t 7 = asc ''7''" "libmail_str_uid_t 0 = asc ''0''" by (simp_all add: libmail_str_uid_t_def dec_loop_unfold)
  then have "length (auth_text ?a) < 8192"
    by (simp add: auth_text_def auth_members_def opt_line_def env_line_def or_empty_def authinfo_zero_def)
  moreover have "free_of NL ?a" "free_of 0 ?a" by (simp_all add: free_of_def strings_of_def or_empty_def authinfo_zero_def)
  ultimately show ?thesis
    using authinfo_roundtrip [of ?a 8192 "[]" "\<lambda>a w. (0, sysuserid a, w)" None small_world]
    by (simp add: BUFSIZ_def authinfo_zero_def)
qed

lemma auth_loop_userdb:
  assumes step: "in_step E w" "\<forall>n. malloc_ok E n" "\<not> exited w" and svc: "field_name (service @ asc ''pw'')"
    and toks: "strtok {NL} data = Some (user, rest)" "strtok {NL} rest = Some (pass, rest')"
    and cap: "length (auth_text (login_info E service user)) \<le> cap"
  shows "snd (auth_loop E cap [(0, authuserdb_info)] service AUTHTYPE_LOGIN data w []) =
    (if password_ok E service user pass then auth_text (login_info E service user) else FAIL)"
proof -
  from userdb_login_decides [OF step svc toks] obtain w' where
    w': "auth_userdb E service AUTHTYPE_LOGIN data True w = (if password_ok E service user pass then Inr user else Inl EPERM, w')"
    "actions w' = actions w @ (if password_ok E service user pass then [Callback (login_info E service user)] else [])" by blast
  then show ?thesis
    using printauth_auth_text [of "[]" "login_info E service user" cap] cap
    by (simp add: authuserdb_info_def new_actions_def)
qed

lemma normal_id:
  "homedir a \<noteq> None \<Longrightarrow> staticindex a = 0 \<Longrightarrow> a\<lparr>homedir := Some (or_empty (homedir a)), staticindex := 0\<rparr> = a"
  by (cases a) (auto simp: or_empty_def)

text \<open>
  C19. Logging in through the daemon is logging in with the module: over the request, its reading,
  the module's search, the answer and its reading, the client succeeds exactly if the password is
  that of the user, and reports the structure the module made (without the name of the system
  user, where there is a user id).
\<close>

theorem daemon_login:
  assumes daemon: "in_step E wd" "\<forall>n. malloc_ok E n" "\<not> exited wd"
    and client: "\<forall>n. malloc_ok Ec n" "\<not> exited w"
    and svc: "field_name (service @ asc ''pw'')" "NL \<notin> set service"
    and up: "user \<noteq> []" "NL \<notin> set user" "pass \<noteq> []" "NL \<notin> set pass" "0 \<notin> set user" "0 \<notin> set pass"
    and fits: "length service + length user + length pass + 9 < BUFSIZ"
    and info: "free_of NL (login_info E service user)" "free_of 0 (login_info E service user)"
      "length (auth_text (login_info E service user)) < BUFSIZ" "length (auth_text (login_info E service user)) \<le> cap"
  shows "\<exists>w'. auth_daemon Ec (\<lambda>req. Some (snd (doauth E cap [(0, authuserdb_info)] req wd))) service AUTHTYPE_LOGIN
      (login_data user pass) True w = (if password_ok E service user pass then Inr user else Inl EPERM, w') \<and>
    actions w' = actions w @ (if password_ok E service user pass
      then [Putenv (asc ''MAILDIR='' @ or_empty (maildir (login_info E service user))),
        Callback ((login_info E service user)\<lparr>sysusername := None\<rparr>)] else [])"
proof -
  let ?i = "login_info E service user"
  have bl: "butlast (login_data user pass) = user @ NL # pass" by (simp add: login_data_def butlast_append)
  have "doauth E cap [(0, authuserdb_info)] (daemon_request service AUTHTYPE_LOGIN (login_data user pass)) wd =
      auth_loop E cap [(0, authuserdb_info)] service AUTHTYPE_LOGIN (butlast (login_data user pass)) wd []"
    by (rule doauth_request) (use svc up fits daemon(2) in \<open>auto simp: field_name_def AUTHTYPE_LOGIN_def login_data_def BUFSIZ_def\<close>)
  then have served: "snd (doauth E cap [(0, authuserdb_info)] (daemon_request service AUTHTYPE_LOGIN (login_data user pass)) wd) =
      (if password_ok E service user pass then auth_text ?i else FAIL)"
    unfolding bl using auth_loop_userdb [OF daemon svc(1) strtok_login_data(3,4) [OF up(1-4)] info(4)] by simp
  show ?thesis
  proof (cases "password_ok E service user pass")
    case False
    have "parse_auth (readauth FAIL) a = Inl (- 1)" for a
      by (subst parse_auth.simps) (simp add: FAIL_def readauth_def cstr_def BUFSIZ_def)
    then show ?thesis using False client served by (simp add: auth_daemon_def Let_def authdaemondo_def)
  next
    case True
    then have h: "homedir ?i \<noteq> None" "address ?i = Some user" "sysuserid ?i \<noteq> None" "sysusername ?i \<noteq> None"
      by (auto simp: password_ok_def account_def login_info_def)
    have "staticindex ?i = 0" by (simp add: login_info_def Let_def)
    then have "parse_auth (auth_text ?i) (authinfo_zero\<lparr>homedir := Some []\<rparr>) = Inr ?i"
      unfolding parse_auth_text [OF info(1)] using normal_id [OF h(1)] by simp
    then have p: "parse_auth (readauth (auth_text ?i)) (authinfo_zero\<lparr>homedir := Some []\<rparr>) = Inr ?i"
      using readauth_whole [OF info(3) auth_text_no_zero [OF info(2)]] by simp
    have "daemon_callback Ec True ?i w = (0, Some user,
        act (Callback (?i\<lparr>sysusername := None\<rparr>)) (act (Putenv (asc ''MAILDIR='' @ or_empty (maildir ?i))) w))"
      using client h by (simp add: daemon_callback_def Let_def or_empty_def)
    then show ?thesis using True client p served
      by (simp add: auth_daemon_def Let_def authdaemondo_def or_empty_def act_def)
  qed
qed


theorem daemon_login_witness:
  "\<exists>w'. auth_daemon (small_env []) (\<lambda>req. Some (snd (doauth (small_env (asc ''systempw=old'')) 8192 [(0, authuserdb_info)] req small_world)))
      (asc ''pop3'') AUTHTYPE_LOGIN (login_data bob (asc ''old'')) True small_world = (Inr bob, w')"
proof -
  let ?E = "small_env (asc ''systempw=old'')" and ?r = "asc ''home=/h|uid=7|gid=8''"
  have c: "cstr (asc ''systempw=old'') = asc ''systempw=old''" by (simp add: cstr_def)
  have ff: "first_field (asc ''systempw=old'') (asc ''pop3'' @ asc ''pw'') (asc ''systempw'') = Some (asc ''old'')"
    by (simp add: first_field_def record_fields_def split_bars.simps field_of_def)
  have fields: "field ?r ''home'' = Some (asc ''/h'')" "field ?r ''uid'' = Some (asc ''7'')" "field ?r ''gid'' = Some (asc ''8'')"
    "field ?r ''gecos'' = None" "field ?r ''mail'' = None" "field ?r ''quota'' = None"
    by (simp_all add: field_def record_fields_def split_bars.simps field_of_def)
  note ok = small_password_ok
  have i: "login_info ?E (asc ''pop3'') bob = authinfo_zero\<lparr>sysusername := Some bob, sysuserid := Some 7, sysgroupid := 8,
      homedir := Some (asc ''/h''), address := Some bob, passwd := Some (asc ''old'')\<rparr>"
    unfolding login_info_def small_records c option.sel Let_def fields ff
    by (simp add: authinfo_zero_def atol_def isspace_def isdigit_def dec_value_def)
  have n: "libmail_str_uid_t 7 = asc ''7''" "libmail_str_uid_t 8 = asc ''8''" by (simp_all add: libmail_str_uid_t_def dec_loop_unfold)
  have "length (auth_text (login_info ?E (asc ''pop3'') bob)) < 100"
    unfolding i by (simp add: n auth_text_def auth_members_def opt_line_def env_line_def or_empty_def authinfo_zero_def bob_def)
  moreover have "free_of NL (login_info ?E (asc ''pop3'') bob)" "free_of 0 (login_info ?E (asc ''pop3'') bob)"
    unfolding i by (simp_all add: free_of_def strings_of_def or_empty_def authinfo_zero_def bob_def)
  moreover have "field_name (asc ''pop3'' @ asc ''pw'')" by (simp add: field_name_def)
  ultimately show ?thesis
    using daemon_login [of ?E small_world "small_env []" small_world "asc ''pop3''" bob "asc ''old''" 8192] ok small_in_step
    by (auto simp: small_malloc small_world_def bob_def BUFSIZ_def)
qed

end
