(* ===== verification/Maildir_Quota.thy ===== *)
theory Maildir_Quota imports Numlib "HOL-Library.Monad_Syntax" begin

text \<open>
  Maildir quotas, \<open>wmail/maildir\<close>: the size in a file name (\<open>maildirparsequota.c\<close>), the
  \<open>maildirsize\<close> file that records a quota and the changes of the size, and the operations that
  read, check, add to and recalculate it (\<open>maildirquota.c\<close>).

  Files are kept by inode number, so that a descriptor of a file that was replaced still refers to
  the old one. The directories are an argument; recalculating a size reads them twice, and the two
  readings may differ. \<open>off_t\<close> and \<open>long\<close> have 64 bits, an \<open>int\<close> has 32, with wrap-around.
\<close>

subsection \<open>Machine integers\<close>

definition s64 :: "int \<Rightarrow> int" where "s64 x = signed_take_bit 63 x"
definition s32 :: "int \<Rightarrow> int" where "s32 x = signed_take_bit 31 x"

lemma s64_id: "- (2 ^ 63) \<le> x \<Longrightarrow> x < 2 ^ 63 \<Longrightarrow> s64 x = x"
  by (simp add: s64_def signed_take_bit_int_eq_self)

lemma s32_id: "- (2 ^ 31) \<le> x \<Longrightarrow> x < 2 ^ 31 \<Longrightarrow> s32 x = x"
  by (simp add: s32_def signed_take_bit_int_eq_self)

subsection \<open>Names of messages\<close>

definition TRASH :: "byte list" where "TRASH = asc ''Trash''"

definition MDIRSEP :: byte where "MDIRSEP = ch CHR '':''"

definition strrchr :: "byte list \<Rightarrow> byte \<Rightarrow> nat option" where
  "strrchr s c = (if c \<in> set s then Some (length s - 1 - length (takeWhile (\<lambda>x. x \<noteq> c) (rev s))) else None)"

text \<open>The loop that goes back from the separator to the last \<open>,S=\<close>.\<close>

fun size_back :: "byte list \<Rightarrow> nat \<Rightarrow> nat option" where
  "size_back n i =
     (if at n i = ch CHR ''/'' then None
      else if at n i = ch CHR '','' \<and> at n (i + 1) = ch CHR ''S'' \<and> at n (i + 2) = ch CHR ''='' then Some (i + 3)
      else if i = 0 then None
      else size_back n (i - 1))"

declare size_back.simps [simp del]

definition maildir_parsequota :: "byte list \<Rightarrow> u64 option" where
  "maildir_parsequota n =
     (let i = (case strrchr n (ch CHR ''/'') of None \<Rightarrow> 0 | Some i \<Rightarrow> i);
          i = i + length (takeWhile (\<lambda>c. c \<noteq> MDIRSEP) (drop i n))
      in case size_back n i of
        None \<Rightarrow> None
      | Some k \<Rightarrow> Some (foldl (\<lambda>s c. s * 10 + (ucast c - 48)) 0 (takeWhile isdigit (drop k n))))"

text \<open>The rest of the name from the last separator of its information on, letter by letter.\<close>

fun trash_flag :: "byte list \<Rightarrow> bool" where
  "trash_flag [] = False"
| "trash_flag (c # n) = (if isupper c then (if c = ch CHR ''T'' then True else trash_flag n) else False)"

fun countfile_scan :: "byte list \<Rightarrow> bool" where
  "countfile_scan [] = True"
| "countfile_scan (c # n) =
     (if c \<noteq> MDIRSEP \<or> at n 0 \<noteq> ch CHR ''2'' \<or> at n 1 \<noteq> ch CHR '','' then countfile_scan n
      else \<not> trash_flag (drop 2 n))"

definition maildirquota_countfile :: "byte list \<Rightarrow> bool" where
  "maildirquota_countfile n =
     countfile_scan (case strrchr n (ch CHR ''/'') of None \<Rightarrow> n | Some i \<Rightarrow> drop (i + 1) n)"

definition is_trash :: "byte list \<Rightarrow> bool" where
  "is_trash f \<longleftrightarrow> f = asc ''.'' @ TRASH \<or> f = asc ''.'' @ TRASH @ asc ''/''"

fun countfolder_scan :: "byte list \<Rightarrow> bool" where
  "countfolder_scan [] = True"
| "countfolder_scan (c # f) = (if c = ch CHR ''/'' \<and> is_trash f then False else countfolder_scan f)"

definition maildirquota_countfolder :: "byte list \<Rightarrow> bool" where
  "maildirquota_countfolder folder = (if is_trash folder then False else countfolder_scan folder)"

subsection \<open>State\<close>

record maildirquota =
  nbytes :: int
  nmessages :: int

text \<open>A pointer that owns its string; \<open>Dangling\<close> is one that was freed and not cleared.\<close>

datatype ptr = Null | Live "byte list" | Dangling

record maildirsize =
  fd :: "nat option"
  info_maildir :: ptr
  info_file :: ptr
  info_quota :: maildirquota
  info_size :: maildirquota
  recalculation_needed :: bool
  st_mtime :: int
  nlines :: nat

definition info_zero :: maildirsize where
  "info_zero = \<lparr>fd = None, info_maildir = Null, info_file = Null, info_quota = \<lparr>nbytes = 0, nmessages = 0\<rparr>,
     info_size = \<lparr>nbytes = 0, nmessages = 0\<rparr>, recalculation_needed = False, st_mtime = 0, nlines = 0\<rparr>"

text \<open>
  The disk: what inodes hold and which names they have; inode 0 is \<open>/dev/null\<close>. \<open>misused\<close> records
  that freed memory was used or freed again.
\<close>

record disk =
  inodes :: "nat \<Rightarrow> byte list"
  mtimes :: "nat \<Rightarrow> int"
  names :: "byte list \<Rightarrow> nat option"
  next_ino :: nat
  misused :: bool

datatype quota_errno = ENOSPC | EIO | EAGAIN | EINVAL | EOTHER

text \<open>
  One look at the rest of the system: which directories have a \<open>maildirfolder\<close> mark, the time and
  the entries of directories, the sizes of messages, the time of day, and which calls fail.
  \<open>disk_room\<close> is the number of bytes that can still be written; \<open>clock\<close> is the time at each attempt
  to create a file and \<open>create_works\<close> tells for which names that can succeed.
\<close>

record view =
  folder_mark :: "byte list \<Rightarrow> bool"
  dir_mtime :: "byte list \<Rightarrow> int option"
  dir_list :: "byte list \<Rightarrow> byte list list option"
  file_size :: "byte list \<Rightarrow> int option"
  now :: int
  malloc_works :: "nat \<Rightarrow> bool"
  read_works :: bool
  closedir_works :: bool
  rename_works :: bool
  disk_room :: nat
  clock :: "nat \<Rightarrow> int"
  create_works :: "byte list \<Rightarrow> bool"
  pid :: u32
  hostname :: "byte list"

definition free_ptr :: "ptr \<Rightarrow> disk \<Rightarrow> disk" where
  "free_ptr p D = (if p = Dangling then D\<lparr>misused := True\<rparr> else D)"

subsection \<open>Quota strings\<close>

lemma dropWhile_length_Suc [termination_simp]: "length (dropWhile P xs) < Suc (length xs)"
  by (simp add: le_imp_less_Suc length_dropWhile_le)

fun parse_quota :: "byte list \<Rightarrow> maildirquota \<Rightarrow> maildirquota" where
  "parse_quota [] q = q"
| "parse_quota (c # quota) q =
     (if \<not> isdigit c then parse_quota quota q
      else let i = foldl (\<lambda>i c. s64 (i * 10 + (uint c - 48))) 0 (takeWhile isdigit (c # quota));
               rest = dropWhile isdigit (c # quota)
        in parse_quota rest
          (if at rest 0 = ch CHR ''S'' then q\<lparr>nbytes := i\<rparr>
           else if at rest 0 = ch CHR ''C'' then q\<lparr>nmessages := s32 i\<rparr> else q))"

definition parsequotastr :: "byte list option \<Rightarrow> maildirquota" where
  "parsequotastr quota = parse_quota (case quota of None \<Rightarrow> [] | Some s \<Rightarrow> s) \<lparr>nbytes = 0, nmessages = 0\<rparr>"


subsection \<open>Reading the file\<close>

text \<open>
  \<open>sscanf (q, "%ld %d", ...)\<close>: white space, a sign, digits; a conversion that fails leaves its
  variable and those after it.
\<close>

definition scan_int :: "byte list \<Rightarrow> (int \<times> byte list) option" where
  "scan_int s =
     (let s = dropWhile isspace s;
          neg = (at s 0 = ch CHR ''-'');
          s = (if neg \<or> at s 0 = ch CHR ''+'' then drop 1 s else s);
          d = takeWhile isdigit s;
          v = (if neg then max (- (2 ^ 63)) (- dec_value d) else min (2 ^ 63 - 1) (dec_value d))
      in if d = [] then None else Some (v, dropWhile isdigit s))"

definition scan_line :: "byte list \<Rightarrow> int \<times> int" where
  "scan_line q =
     (case scan_int q of
        None \<Rightarrow> (0, 0)
      | Some (n, r) \<Rightarrow> (n, case scan_int r of None \<Rightarrow> 0 | Some (c, _) \<Rightarrow> s32 c))"

lemma drop_dropWhile_length [termination_simp]: "xs \<noteq> [] \<Longrightarrow> length (dropWhile P xs) - Suc 0 < length xs"
  using length_dropWhile_le [of P xs] by (cases xs) (auto simp: less_Suc_eq_le)

fun read_lines :: "byte list \<Rightarrow> bool \<Rightarrow> maildirsize \<Rightarrow> maildirsize" where
  "read_lines p first info =
     (if p = [] then info
      else let q = takeWhile (\<lambda>c. c \<noteq> NL) p; rest = drop 1 (dropWhile (\<lambda>c. c \<noteq> NL) p) in
        if first then read_lines rest False (info\<lparr>info_quota := parsequotastr (Some q)\<rparr>)
        else case scan_line q of (n, c) \<Rightarrow>
          read_lines rest False (info\<lparr>info_size :=
              \<lparr>nbytes = s64 (nbytes (info_size info) + n), nmessages = s32 (nmessages (info_size info) + c)\<rparr>,
            nlines := nlines info + 1\<rparr>))"

declare read_lines.simps [simp del]

definition MAXSIZEFILE :: nat where "MAXSIZEFILE = 5120"

text \<open>The result: an error number or nothing, and the structure.\<close>

definition do_maildir_openquotafile :: "view \<Rightarrow> disk \<Rightarrow> maildirsize \<Rightarrow> byte list \<Rightarrow> byte list option
    \<Rightarrow> quota_errno option \<times> maildirsize" where
  "do_maildir_openquotafile V D info filename newquota =
     (case newquota of
        Some nq \<Rightarrow>
          let info = info\<lparr>fd := Some 0, info_quota := parsequotastr newquota\<rparr> in
          if nbytes (info_quota info) = 0 \<and> nmessages (info_quota info) = 0
          then (Some EINVAL, info\<lparr>fd := None\<rparr>)
          else (None, info\<lparr>recalculation_needed := True\<rparr>)
      | None \<Rightarrow>
          (case names D filename of
             None \<Rightarrow> (None, info\<lparr>fd := None\<rparr>)
           | Some i \<Rightarrow>
               if \<not> read_works V then (Some EOTHER, info\<lparr>fd := None\<rparr>)
               else let info = info\<lparr>fd := Some i, st_mtime := mtimes D i\<rparr>; buf = take MAXSIZEFILE (inodes D i) in
                 if length buf = MAXSIZEFILE
                 then (None, info\<lparr>info_quota := parsequotastr (Some (takeWhile (\<lambda>c. c \<noteq> NL) (cstr (butlast buf)))),
                   recalculation_needed := True\<rparr>)
                 else (None, read_lines (cstr buf) True
                   (info\<lparr>info_size := \<lparr>nbytes = 0, nmessages = 0\<rparr>, nlines := 0\<rparr>))))"

text \<open>
  A folder's quota is that of the maildir it is in: the function calls itself with the parent
  directory for as long as it finds the mark of a folder.
\<close>

partial_function (option) maildir_openquotafile_init :: "view \<Rightarrow> disk \<Rightarrow> byte list \<Rightarrow> byte list option
    \<Rightarrow> (quota_errno option \<times> maildirsize) option" where
  "maildir_openquotafile_init V D maildir newquota =
     (if \<not> malloc_works V (length maildir + 15) then Some (Some EOTHER, info_zero)
      else if folder_mark V maildir then maildir_openquotafile_init V D (maildir @ asc ''/..'') newquota
      else if \<not> malloc_works V (length maildir + 1) then Some (Some EOTHER, info_zero)
      else let file = maildir @ asc ''/maildirsize'' in
        case do_maildir_openquotafile V D (info_zero\<lparr>info_maildir := Live maildir, info_file := Live file\<rparr>) file newquota of
          (None, info) \<Rightarrow> Some (None, info)
        | (Some e, info) \<Rightarrow> Some (Some e, info\<lparr>info_maildir := Dangling, info_file := Dangling\<rparr>))"

definition maildir_openquotafile :: "view \<Rightarrow> disk \<Rightarrow> byte list \<Rightarrow> (quota_errno option \<times> maildirsize) option" where
  "maildir_openquotafile V D maildir = maildir_openquotafile_init V D maildir None"

definition maildir_closequotafile :: "maildirsize \<Rightarrow> disk \<Rightarrow> maildirsize \<times> disk" where
  "maildir_closequotafile info D =
     (info\<lparr>info_maildir := Null, info_file := Null, fd := None\<rparr>,
      free_ptr (info_file info) (free_ptr (info_maildir info) D))"

subsection \<open>Checking\<close>

text \<open>C's division: the size may be negative.\<close>

definition checkOneQuota :: "int \<Rightarrow> int \<Rightarrow> int \<times> int" where
  "checkOneQuota sz quota =
     (if quota = 0 then (0, 0)
      else if quota < sz then (-1, 100)
      else let x = (if 20000000 < quota then 1024 else 1)
        in (0, if 0 < quota then s32 (s64 (sz sdiv x * 100) sdiv (quota sdiv x)) else 0))"

definition checkQuota :: "maildirquota \<Rightarrow> maildirquota \<Rightarrow> quota_errno option \<times> int" where
  "checkQuota sz quota =
     (case checkOneQuota (nbytes sz) (nbytes quota) of
        (rb, b_quota) \<Rightarrow>
          if rb \<noteq> 0 then (Some ENOSPC, 100)
          else case checkOneQuota (nmessages sz) (nmessages quota) of
            (rn, n_quota) \<Rightarrow> if rn \<noteq> 0 then (Some ENOSPC, 100) else (None, max b_quota n_quota))"

subsection \<open>Counting\<close>

fun docount_files :: "view \<Rightarrow> byte list \<Rightarrow> byte list list \<Rightarrow> int \<times> u32 \<Rightarrow> (int \<times> u32) option" where
  "docount_files V dir [] acc = Some acc"
| "docount_files V dir (n # ns) (sz, cnt) =
     (if at n 0 = ch CHR ''.'' then docount_files V dir ns (sz, cnt)
      else if \<not> maildirquota_countfile n then docount_files V dir ns (sz, cnt)
      else case maildir_parsequota n of
        Some s \<Rightarrow> docount_files V dir ns (s64 (sz + s64 (uint s)), cnt + 1)
      | None \<Rightarrow>
          if \<not> malloc_works V (length dir + length n + 2) then None
          else case file_size V (dir @ asc ''/'' @ n) of
            None \<Rightarrow> docount_files V dir ns (sz, cnt)
          | Some s \<Rightarrow> docount_files V dir ns (s64 (sz + s), cnt + 1))"

text \<open>The state of a count: the latest time of a directory, the size and the number of files.\<close>

type_synonym count = "int \<times> int \<times> u32"

definition docount :: "view \<Rightarrow> byte list \<Rightarrow> count \<Rightarrow> count option" where
  "docount V dir acc =
     (case acc of (stamp, sz, cnt) \<Rightarrow>
       case dir_mtime V dir of
         None \<Rightarrow> Some acc
       | Some t \<Rightarrow>
           let stamp = max stamp t in
           case dir_list V dir of
             None \<Rightarrow> Some (stamp, sz, cnt)
           | Some ns \<Rightarrow>
               (case docount_files V dir ns (sz, cnt) of
                  None \<Rightarrow> None
                | Some (sz, cnt) \<Rightarrow> if closedir_works V then Some (stamp, sz, cnt) else None))"

definition countcurnew :: "view \<Rightarrow> byte list \<Rightarrow> count \<Rightarrow> count option" where
  "countcurnew V dir acc =
     (if \<not> malloc_works V (length dir + 5) then None
      else case docount V (dir @ asc ''/new'') acc of
        None \<Rightarrow> None
      | Some acc \<Rightarrow> docount V (dir @ asc ''/cur'') acc)"

definition countsubdir :: "view \<Rightarrow> byte list \<Rightarrow> byte list \<Rightarrow> count \<Rightarrow> count option" where
  "countsubdir V dir subdir acc =
     (if at subdir 0 \<noteq> ch CHR ''.'' \<or> subdir = asc ''.'' \<or> subdir = asc ''..'' \<or> \<not> maildirquota_countfolder subdir
      then Some acc
      else if \<not> malloc_works V (length dir + length subdir + 2) then None
      else countcurnew V (dir @ asc ''/'' @ subdir) acc)"

fun count_subdirs :: "view \<Rightarrow> byte list \<Rightarrow> byte list list \<Rightarrow> count \<Rightarrow> count option" where
  "count_subdirs V dir [] acc = Some acc"
| "count_subdirs V dir (d # ds) acc =
     (case countsubdir V dir d acc of None \<Rightarrow> None | Some acc \<Rightarrow> count_subdirs V dir ds acc)"

text \<open>The whole count of a maildir.\<close>

definition count_maildir :: "view \<Rightarrow> byte list \<Rightarrow> count option" where
  "count_maildir V dir =
     (case countcurnew V dir (0, 0, 0) of
        None \<Rightarrow> None
      | Some acc \<Rightarrow>
          (case dir_list V dir of
             None \<Rightarrow> Some acc
           | Some ds \<Rightarrow>
               (case count_subdirs V dir ds acc of
                  None \<Rightarrow> None
                | Some acc \<Rightarrow> if closedir_works V then Some acc else None)))"

definition stat_dir :: "view \<Rightarrow> byte list \<Rightarrow> int \<Rightarrow> int" where
  "stat_dir V d t = (case dir_mtime V d of None \<Rightarrow> t | Some m \<Rightarrow> if t < m then m else t)"

definition statcurnew :: "view \<Rightarrow> byte list \<Rightarrow> int \<Rightarrow> int option" where
  "statcurnew V dir t =
     (if \<not> malloc_works V (length dir + 5) then None
      else Some (stat_dir V (dir @ asc ''/new'') (stat_dir V (dir @ asc ''/cur'') t)))"

definition statsubdir :: "view \<Rightarrow> byte list \<Rightarrow> byte list \<Rightarrow> int \<Rightarrow> int option" where
  "statsubdir V dir subdir t =
     (if at subdir 0 \<noteq> ch CHR ''.'' \<or> subdir = asc ''.'' \<or> subdir = asc ''..'' \<or> subdir = asc ''.'' @ TRASH then Some t
      else if \<not> malloc_works V (length dir + length subdir + 2) then None
      else statcurnew V (dir @ asc ''/'' @ subdir) t)"

fun stat_subdirs :: "view \<Rightarrow> byte list \<Rightarrow> byte list list \<Rightarrow> int \<Rightarrow> int option" where
  "stat_subdirs V dir [] t = Some t"
| "stat_subdirs V dir (d # ds) t =
     (case statsubdir V dir d t of None \<Rightarrow> None | Some t \<Rightarrow> stat_subdirs V dir ds t)"

definition stat_maildir :: "view \<Rightarrow> byte list \<Rightarrow> int option" where
  "stat_maildir V dir =
     (case statcurnew V dir 0 of
        None \<Rightarrow> None
      | Some t \<Rightarrow>
          (case dir_list V dir of
             None \<Rightarrow> Some t
           | Some ds \<Rightarrow>
               (case stat_subdirs V dir ds t of None \<Rightarrow> None | Some t \<Rightarrow> if closedir_works V then Some t else None)))"

subsection \<open>Writing\<close>

text \<open>\<open>"%<n>s"\<close>\<close>

definition pad_left :: "nat \<Rightarrow> byte list \<Rightarrow> byte list" where
  "pad_left n s = replicate (n - length s) (ch CHR '' '') @ s"

definition str_off_t :: "int \<Rightarrow> byte list" where
  "str_off_t x = libmail_str_off_t (word_of_int x)"

definition quota_line :: "maildirquota \<Rightarrow> byte list" where
  "quota_line q =
     (let buf = (if 0 < nbytes q then str_off_t (nbytes q) @ asc ''S'' else []);
          buf = (if 0 < nmessages q
                 then (if buf \<noteq> [] then buf @ asc '','' else buf) @
                   libmail_str_size_t (word_of_int (nmessages q)) @ asc ''C''
                 else buf)
      in buf @ [NL])"

definition change_line :: "int \<Rightarrow> int \<Rightarrow> byte list" where
  "change_line bytes cnt = pad_left 8 (str_off_t bytes) @ asc '' '' @ pad_left 4 (str_off_t cnt) @ [NL]"

text \<open>A full disk takes what fits; the next \<open>write\<close> fails.\<close>

definition write_fd :: "view \<Rightarrow> nat \<Rightarrow> byte list \<Rightarrow> disk \<Rightarrow> bool \<times> disk" where
  "write_fd V i buf D =
     (if i = 0 then (True, D)
      else if length buf \<le> disk_room V then (True, D\<lparr>inodes := (inodes D)(i := inodes D i @ buf)\<rparr>)
      else (False, D\<lparr>inodes := (inodes D)(i := inodes D i @ take (disk_room V) buf)\<rparr>))"

definition doaddquota :: "view \<Rightarrow> maildirsize \<Rightarrow> nat \<Rightarrow> int \<Rightarrow> int \<Rightarrow> bool \<Rightarrow> disk \<Rightarrow> bool \<times> disk" where
  "doaddquota V info i maildirsize_size maildirsize_cnt isnew D =
     write_fd V i ((if isnew then quota_line (info_quota info) else []) @
       change_line maildirsize_size maildirsize_cnt) D"

text \<open>The name that the \<open>k\<close>-th attempt tries.\<close>

definition temp_name :: "view \<Rightarrow> byte list \<Rightarrow> nat \<Rightarrow> byte list" where
  "temp_name V dir k = dir @ asc ''/tmp/'' @ libmail_str_time_t (word_of_int (clock V k)) @ asc ''.'' @
     libmail_str_pid_t (pid V) @ asc ''_NeWmAiLdIrSiZe.'' @ cstr (take 255 (hostname V))"

text \<open>\<open>None\<close>: the loop never ends, as when the \<open>tmp\<close> directory cannot be written to.\<close>

partial_function (option) makenew_loop :: "view \<Rightarrow> disk \<Rightarrow> byte list \<Rightarrow> nat \<Rightarrow> byte list option" where
  "makenew_loop V D dir k =
     (let p = temp_name V dir k
      in if names D p = None \<and> create_works V p then Some p else makenew_loop V D dir (k + 1))"

definition makenewmaildirsizename :: "view \<Rightarrow> disk \<Rightarrow> byte list \<Rightarrow> ((byte list \<times> nat \<times> disk) option) option" where
  "makenewmaildirsizename V D dir =
     (if \<not> malloc_works V (length dir + length (cstr (take 255 (hostname V))) + 130) then Some None
      else do {
        p \<leftarrow> makenew_loop V D dir 0;
        let i = next_ino D;
        Some (Some (p, i, D\<lparr>names := (names D)(p \<mapsto> i), inodes := (inodes D)(i := []),
          mtimes := (mtimes D)(i := now V), next_ino := Suc i\<rparr>))
      })"

subsection \<open>Checking and recalculating\<close>

definition add_size :: "maildirquota \<Rightarrow> int \<Rightarrow> int \<Rightarrow> maildirquota" where
  "add_size q bytes cnt = \<lparr>nbytes = s64 (nbytes q + bytes), nmessages = s32 (nmessages q + cnt)\<rparr>"

text \<open>The string of a pointer that is alive; a call never sees another when a file is open.\<close>

definition str_of :: "ptr \<Rightarrow> byte list" where
  "str_of p = (case p of Live s \<Rightarrow> s | _ \<Rightarrow> [])"

text \<open>
  The second half, from the new file on: it is written, it replaces the old one, and the times of
  the directories are read again. The file's name is freed before it is unlinked when it cannot
  be written; the file then stays, as the name is no longer there.
\<close>

definition replace_sizefile :: "view \<Rightarrow> view \<Rightarrow> maildirsize \<Rightarrow> int \<Rightarrow> int \<Rightarrow> int \<Rightarrow> count \<Rightarrow> byte list \<times> nat \<times> disk
    \<Rightarrow> quota_errno option \<times> int \<times> maildirsize \<times> disk" where
  "replace_sizefile V V' info xtra_size xtra_cnt percentage acc new =
     (case acc of (maxtime, maildirsize_size, maildirsize_cnt) \<Rightarrow> case new of (p, i, D) \<Rightarrow>
      case doaddquota V info i maildirsize_size (sint maildirsize_cnt) True D of
        (False, D) \<Rightarrow> (Some EIO, percentage, info, D\<lparr>misused := True\<rparr>)
      | (True, D) \<Rightarrow>
          if \<not> rename_works V then (Some EIO, percentage, info, D\<lparr>names := (names D)(p := None)\<rparr>)
          else let D = D\<lparr>names := (names D)(p := None, str_of (info_file info) \<mapsto> i)\<rparr>;
              info = info\<lparr>recalculation_needed := False,
                info_size := \<lparr>nbytes = maildirsize_size, nmessages = sint maildirsize_cnt\<rparr>, nlines := 1, fd := Some i\<rparr>
            in case stat_maildir V' (str_of (info_maildir info)) of
              None \<Rightarrow> (Some EIO, percentage, info, D)
            | Some tm \<Rightarrow>
                if tm \<noteq> maxtime then (Some EAGAIN, percentage, info\<lparr>recalculation_needed := True, nlines := 0\<rparr>, D)
                else case checkQuota (add_size (info_size info) xtra_size xtra_cnt) (info_quota info) of
                  (e, percentage) \<Rightarrow> (e, percentage, info, D))"

text \<open>\<open>V\<close> is the system while the messages are counted, \<open>V'\<close> when the directories are read again.\<close>

definition docheckquota :: "view \<Rightarrow> view \<Rightarrow> maildirsize \<Rightarrow> int \<Rightarrow> int \<Rightarrow> disk
    \<Rightarrow> (quota_errno option \<times> int \<times> maildirsize \<times> disk) option" where
  "docheckquota V V' info xtra_size xtra_cnt D =
     (if fd info = None then Some (None, 0, info, D)
      else case checkQuota (add_size (info_size info) xtra_size xtra_cnt) (info_quota info) of (e, percentage) \<Rightarrow>
        if \<not> recalculation_needed info \<and> e = None then Some (None, percentage, info, D)
        else let percentage = (if recalculation_needed info then 0 else percentage) in
        if \<not> recalculation_needed info \<and> nlines info = 1 \<and> now V < st_mtime info + 15 * 60
        then Some (e, percentage, info, D)
        else case count_maildir V (str_of (info_maildir info)) of
          None \<Rightarrow> Some (Some EIO, percentage, info, D)
        | Some acc \<Rightarrow> do {
            new \<leftarrow> makenewmaildirsizename V D (str_of (info_maildir info));
            case new of
              None \<Rightarrow> Some (Some EIO, percentage, info, D)
            | Some new \<Rightarrow> Some (replace_sizefile V V' info xtra_size xtra_cnt percentage acc new)
          })"

definition maildir_checkquota :: "view \<Rightarrow> view \<Rightarrow> maildirsize \<Rightarrow> int \<Rightarrow> int \<Rightarrow> disk
    \<Rightarrow> (quota_errno option \<times> maildirsize \<times> disk) option" where
  "maildir_checkquota V V' info xtra_size xtra_cnt D = do {
     (e, _, info, D) \<leftarrow> docheckquota V V' info xtra_size xtra_cnt D;
     Some (e, info, D)
   }"

definition maildir_readquota :: "view \<Rightarrow> view \<Rightarrow> maildirsize \<Rightarrow> disk \<Rightarrow> (int \<times> maildirsize \<times> disk) option" where
  "maildir_readquota V V' info D = do {
     (_, percentage, info, D) \<leftarrow> docheckquota V V' info 0 0 D;
     Some (percentage, info, D)
   }"

definition maildir_addquota :: "view \<Rightarrow> maildirsize \<Rightarrow> int \<Rightarrow> int \<Rightarrow> disk \<Rightarrow> bool \<times> disk" where
  "maildir_addquota V info maildirsize_size maildirsize_cnt D =
     (case fd info of
        None \<Rightarrow> (True, D)
      | Some i \<Rightarrow> doaddquota V info i maildirsize_size maildirsize_cnt False D)"

subsection \<open>Operations on a maildir\<close>

text \<open>
  Each takes the sequence of the looks at the system that it makes: one for opening the file, two
  for each check, one for writing to the file.
\<close>

definition maildir_quota_set :: "(nat \<Rightarrow> view) \<Rightarrow> byte list \<Rightarrow> byte list \<Rightarrow> disk \<Rightarrow> disk option" where
  "maildir_quota_set Vs dir quota D = do {
     (e, info) \<leftarrow> maildir_openquotafile_init (Vs 0) D dir (Some quota);
     if e = None then do {
       (_, info, D) \<leftarrow> maildir_checkquota (Vs 1) (Vs 2) info 0 0 D;
       Some (snd (maildir_closequotafile info D))
     } else Some D
   }"

text \<open>The loop over the checks: success, failure, or one more try after a race.\<close>

fun add_tries :: "nat \<Rightarrow> (nat \<Rightarrow> view) \<Rightarrow> maildirsize \<Rightarrow> int \<Rightarrow> int \<Rightarrow> disk \<Rightarrow> (bool \<times> maildirsize \<times> disk) option" where
  "add_tries 0 Vs info msgsize nmsgs D =
     (case maildir_closequotafile info D of (info, D) \<Rightarrow> Some (True, info, D))"
| "add_tries (Suc k) Vs info msgsize nmsgs D = do {
     (e, info, D) \<leftarrow> maildir_checkquota (Vs 0) (Vs 1) info msgsize nmsgs D;
     case e of
       None \<Rightarrow> Some (True, info, D)
     | Some EAGAIN \<Rightarrow> add_tries k (\<lambda>i. Vs (i + 2)) info msgsize nmsgs D
     | Some _ \<Rightarrow> (case maildir_closequotafile info D of (info, D) \<Rightarrow> Some (False, info, D))
   }"

definition open_or_none :: "view \<Rightarrow> byte list \<Rightarrow> disk \<Rightarrow> maildirsize option" where
  "open_or_none V maildir D = do {
     (e, info) \<leftarrow> maildir_openquotafile V D maildir;
     Some (if e \<noteq> None then info\<lparr>fd := None\<rparr> else info)
   }"

definition use_newquota :: "(nat \<Rightarrow> view) \<Rightarrow> byte list \<Rightarrow> maildirsize \<Rightarrow> byte list option \<Rightarrow> disk
    \<Rightarrow> (maildirsize \<times> disk) option" where
  "use_newquota Vs maildir info newquota D =
     (case newquota of
        None \<Rightarrow> Some (info, D)
      | Some q \<Rightarrow>
          let mq = parsequotastr newquota in
          if (0 < nbytes mq \<or> 0 < nmessages mq) \<and>
             (fd info = None \<or> nbytes (info_quota info) \<noteq> nbytes mq \<or> nmessages (info_quota info) \<noteq> nmessages mq)
          then if fd info = None
            then do {
              D \<leftarrow> maildir_quota_set (\<lambda>i. Vs (i + 1)) maildir q D;
              info \<leftarrow> open_or_none (Vs 4) maildir D;
              Some (info, D)
            }
            else Some (info\<lparr>info_quota := mq, recalculation_needed := True\<rparr>, D)
          else Some (info, D))"

definition maildir_quota_add_start :: "(nat \<Rightarrow> view) \<Rightarrow> byte list \<Rightarrow> int \<Rightarrow> int \<Rightarrow> byte list option \<Rightarrow> disk
    \<Rightarrow> (bool \<times> maildirsize \<times> disk) option" where
  "maildir_quota_add_start Vs maildir msgsize nmsgs newquota D = do {
     info \<leftarrow> open_or_none (Vs 0) maildir D;
     (info, D) \<leftarrow> use_newquota Vs maildir info newquota D;
     if fd info = None then Some (True, info, D)
     else add_tries 5 (\<lambda>i. Vs (i + 5)) info msgsize nmsgs D
   }"

definition maildir_quota_add_end :: "view \<Rightarrow> maildirsize \<Rightarrow> int \<Rightarrow> int \<Rightarrow> disk \<Rightarrow> maildirsize \<times> disk" where
  "maildir_quota_add_end V info msgsize nmsgs D =
     maildir_closequotafile info (snd (maildir_addquota V info msgsize nmsgs D))"

definition maildir_quota_deleted :: "(nat \<Rightarrow> view) \<Rightarrow> byte list \<Rightarrow> int \<Rightarrow> int \<Rightarrow> disk \<Rightarrow> disk option" where
  "maildir_quota_deleted Vs maildir bytes nmsgs D = do {
     (e, info) \<leftarrow> maildir_openquotafile (Vs 0) D maildir;
     if e \<noteq> None then Some D
     else do {
       (_, info, D) \<leftarrow> maildir_checkquota (Vs 1) (Vs 2) info bytes nmsgs D;
       Some (snd (maildir_closequotafile info (snd (maildir_addquota (Vs 3) info bytes nmsgs D))))
     }
   }"

definition maildir_quota_recalculate :: "(nat \<Rightarrow> view) \<Rightarrow> byte list \<Rightarrow> disk \<Rightarrow> disk option" where
  "maildir_quota_recalculate Vs maildir D = do {
     (e, info) \<leftarrow> maildir_openquotafile (Vs 0) D maildir;
     if e \<noteq> None then Some D
     else do {
       (_, info, D) \<leftarrow> maildir_readquota (Vs 1) (Vs 2) (info\<lparr>recalculation_needed := True\<rparr>) D;
       Some (snd (maildir_closequotafile info D))
     }
   }"

text \<open>A deletion leaves the caller's structure as it is.\<close>

definition maildir_quota_delundel_start :: "(nat \<Rightarrow> view) \<Rightarrow> byte list \<Rightarrow> maildirsize \<Rightarrow> int \<Rightarrow> int \<Rightarrow> disk
    \<Rightarrow> (bool \<times> maildirsize \<times> disk) option" where
  "maildir_quota_delundel_start Vs maildir info msgsize nmsgs D =
     (if nmsgs < 0 then do {
        D \<leftarrow> maildir_quota_deleted Vs maildir msgsize nmsgs D;
        Some (True, info, D)
      }
      else maildir_quota_add_start Vs maildir msgsize nmsgs None D)"

definition maildir_quota_delundel_end :: "view \<Rightarrow> maildirsize \<Rightarrow> int \<Rightarrow> int \<Rightarrow> disk \<Rightarrow> maildirsize \<times> disk" where
  "maildir_quota_delundel_end V info msgsize nmsgs D =
     (if nmsgs < 0 then (info, D) else maildir_quota_add_end V info msgsize nmsgs D)"

end
