(* ===== verification/Maildir_Size.thy ===== *)
theory Maildir_Size imports Maildir_Quota begin

text \<open>
  What the operations of \<open>maildirquota.c\<close> keep of the \<open>maildirsize\<close> file: the size that is read
  back from it, the quota it holds, and how a count and a check of the directories agree.
\<close>

subsection \<open>Numbers\<close>

lemma str_off_t_eq:
  assumes "- (2 ^ 63) < x" "x < 2 ^ 63"
  shows "str_off_t x = (if x < 0 then ch CHR ''-'' # dec_loop (- x) [] else dec_loop x [])"
proof -
  have s: "sint (word_of_int x :: u64) = x" "sint (word_of_int (- x) :: u64) = - x"
    unfolding sint_sbintrunc' using assms by (simp_all add: signed_take_bit_int_eq_self)
  have n: "sint (- word_of_int x :: u64) = - x" using s(2) by (simp only: wi_hom_neg)
  show ?thesis
    unfolding str_off_t_def libmail_str_off_t_def Let_def s(1)
    by (cases "x < 0") (simp_all only: if_True if_False n s(1) simp_thms)
qed

lemma dec_loop_digits: "0 \<le> t \<Longrightarrow> dec_loop t [] \<noteq> [] \<and> (\<forall>c\<in>set (dec_loop t []). isdigit c) \<and> dec_value (dec_loop t []) = t"
  using dec_loop_numeral [of t] by (simp add: dec_numeral_def)

lemma isdigit_not: "isdigit c \<Longrightarrow> \<not> isspace c \<and> c \<noteq> ch CHR ''-'' \<and> c \<noteq> ch CHR ''+'' \<and> c \<noteq> NL \<and> c \<noteq> 0"
  by (auto simp: isdigit_def isspace_def word_le_def)

lemma scan_int_number:
  assumes "- (2 ^ 63) < x" "x < 2 ^ 63" "\<forall>c\<in>set sp. isspace c" "r = [] \<or> \<not> isdigit (hd r)"
  shows "scan_int (sp @ str_off_t x @ r) = Some (x, r)"
proof -
  define d where "d = dec_loop \<bar>x\<bar> []"
  have d: "d \<noteq> []" "\<forall>c\<in>set d. isdigit c" "dec_value d = \<bar>x\<bar>"
    using dec_loop_digits [of "\<bar>x\<bar>"] by (auto simp: d_def)
  have str: "str_off_t x = (if x < 0 then ch CHR ''-'' # d else d)"
    using str_off_t_eq [OF assms(1,2)] by (auto simp: d_def)
  obtain c d' where cd: "d = c # d'" "isdigit c" using d(1,2) by (cases d) auto
  have tk: "takeWhile isdigit (d @ r) = d" "dropWhile isdigit (d @ r) = r"
    using d(2) assms(4) by (cases r; simp)+
  have nsp: "\<not> isspace (ch CHR ''-'')" by (simp add: isspace_def)
  have drop: "dropWhile isspace (sp @ str_off_t x @ r) = str_off_t x @ r"
    using assms(3) isdigit_not [OF cd(2)] nsp by (simp add: str cd(1))
  have nd: "c \<noteq> ch CHR ''-''" "c \<noteq> ch CHR ''+''" using isdigit_not [OF cd(2)] by auto
  show ?thesis
  proof (cases "x < 0")
    case True
    then show ?thesis
      unfolding scan_int_def drop using d(1,3) tk assms by (simp add: str Let_def)
  next
    case False
    then have "at (d @ r) 0 = c" by (simp add: cd(1))
    with False show ?thesis
      unfolding scan_int_def drop using d(1,3) tk assms nd by (simp add: str Let_def)
  qed
qed

lemma str_off_t_text: "- (2 ^ 63) < x \<Longrightarrow> x < 2 ^ 63 \<Longrightarrow> NL \<notin> set (str_off_t x) \<and> 0 \<notin> set (str_off_t x)"
proof -
  assume x: "- (2 ^ 63) < x" "x < 2 ^ 63"
  have "\<forall>c\<in>set (dec_loop \<bar>x\<bar> []). c \<noteq> NL \<and> c \<noteq> 0"
    using dec_loop_digits [OF abs_ge_zero, of x] isdigit_not by blast
  moreover have "set (str_off_t x) \<subseteq> insert (ch CHR ''-'') (set (dec_loop \<bar>x\<bar> []))"
    using str_off_t_eq [OF x] by auto
  ultimately show ?thesis by auto
qed

text \<open>The line of a change without its line feed is scanned to the two numbers.\<close>

definition in_off_t :: "int \<Rightarrow> bool" where "in_off_t x \<longleftrightarrow> - (2 ^ 63) < x \<and> x < 2 ^ 63"
definition in_int :: "int \<Rightarrow> bool" where "in_int x \<longleftrightarrow> - (2 ^ 31) \<le> x \<and> x < 2 ^ 31"

lemma change_line_split:
  assumes "in_off_t b" "in_int c"
  obtains l where "change_line b c = l @ [NL]" "NL \<notin> set l" "0 \<notin> set l" "scan_line l = (b, c)"
proof
  let ?l = "pad_left 8 (str_off_t b) @ asc '' '' @ pad_left 4 (str_off_t c)"
  have c64: "- (2 ^ 63) < c" "c < 2 ^ 63" and b64: "- (2 ^ 63) < b" "b < 2 ^ 63"
    using assms by (auto simp: in_int_def in_off_t_def)
  show "change_line b c = ?l @ [NL]" by (simp add: change_line_def)
  show "NL \<notin> set ?l" "0 \<notin> set ?l"
    using str_off_t_text [OF c64] str_off_t_text [OF b64] by (auto simp: pad_left_def)
  have sp: "isspace (ch CHR '' '')" by (simp add: isspace_def)
  have "scan_int ?l = Some (b, asc '' '' @ pad_left 4 (str_off_t c))"
    unfolding pad_left_def append_assoc
    by (rule scan_int_number) (use b64 sp in \<open>auto simp: isdigit_def\<close>)
  moreover have "scan_int (asc '' '' @ pad_left 4 (str_off_t c)) = Some (c, [])"
    using scan_int_number [OF c64, of "asc '' '' @ replicate (4 - length (str_off_t c)) (ch CHR '' '')" "[]"] sp
    by (auto simp: pad_left_def)
  ultimately show "scan_line ?l = (b, c)"
    using assms(2) by (simp add: scan_line_def s32_id in_int_def)
qed

subsection \<open>Reading and appending\<close>

text \<open>The text of a size file: lines that end, without NUL bytes.\<close>

definition text_file :: "byte list \<Rightarrow> bool" where
  "text_file c \<longleftrightarrow> c \<noteq> [] \<and> last c = NL \<and> 0 \<notin> set c"

definition add_line :: "maildirsize \<Rightarrow> byte list \<Rightarrow> maildirsize" where
  "add_line info l =
     (case scan_line l of (n, c) \<Rightarrow> info\<lparr>info_size := add_size (info_size info) n c, nlines := nlines info + 1\<rparr>)"

lemma read_lines_unfold:
  "read_lines p first info = (if p = [] then info
    else let q = takeWhile (\<lambda>c. c \<noteq> NL) p in
      read_lines (drop 1 (dropWhile (\<lambda>c. c \<noteq> NL) p)) False
       (if first then info\<lparr>info_quota := parsequotastr (Some q)\<rparr> else add_line info q))"
  by (subst read_lines.simps) (auto simp: Let_def add_line_def add_size_def split: prod.splits)

lemma read_lines_step:
  "NL \<notin> set l \<Longrightarrow> read_lines (l @ NL # p) first info =
     read_lines p False (if first then info\<lparr>info_quota := parsequotastr (Some l)\<rparr> else add_line info l)"
  by (subst read_lines_unfold) (auto simp: takeWhile_append dropWhile_append Let_def)

lemma first_line: "NL \<in> set p \<Longrightarrow> \<exists>l q. p = l @ NL # q \<and> NL \<notin> set l"
  by (meson split_list_first)

lemma read_lines_append:
  "p = [] \<and> \<not> first \<or> p \<noteq> [] \<and> last p = NL \<Longrightarrow> NL \<notin> set l \<Longrightarrow>
    read_lines (p @ l @ [NL]) first info = add_line (read_lines p first info) l"
proof (induction "length p" arbitrary: p first info rule: less_induct)
  case less
  show ?case
  proof (cases "p = []")
    case True
    with less show ?thesis
      using read_lines_step [of l "[]" False info] by (simp add: read_lines.simps [of "[]"] del: NL_def)
  next
    case False
    with less(2) have "NL \<in> set p" by (metis last_in_set)
    then obtain a q where p: "p = a @ NL # q" "NL \<notin> set a" using first_line by blast
    have q: "q = [] \<or> q \<noteq> [] \<and> last q = NL" using less(2) p(1) by (auto split: if_splits)
    have len: "length q < length p" by (simp add: p(1))
    show ?thesis
      unfolding p(1) append_assoc append_Cons read_lines_step [OF p(2)]
      by (rule less(1) [OF len]) (use q less(3) in \<open>auto\<close>)
  qed
qed

text \<open>Opening a file whose text is short enough to be read.\<close>

lemma do_open_read:
  assumes "names D filename = Some i" "read_works V" "length (inodes D i) < MAXSIZEFILE" "text_file (inodes D i)"
  shows "do_maildir_openquotafile V D info filename None =
    (None, read_lines (inodes D i) True
      (info\<lparr>fd := Some i, st_mtime := mtimes D i, info_size := \<lparr>nbytes = 0, nmessages = 0\<rparr>, nlines := 0\<rparr>))"
  using assms by (simp add: do_maildir_openquotafile_def text_file_def cstr_id Let_def)

lemma read_lines_keeps:
  "fd (read_lines p first info) = fd info \<and> info_maildir (read_lines p first info) = info_maildir info \<and>
   info_file (read_lines p first info) = info_file info \<and> st_mtime (read_lines p first info) = st_mtime info \<and>
   recalculation_needed (read_lines p first info) = recalculation_needed info"
proof (induction "length p" arbitrary: p first info rule: less_induct)
  case less
  show ?case
  proof (cases "p = []")
    case False
    then have "length (drop 1 (dropWhile (\<lambda>c. c \<noteq> NL) p)) < length p"
      using drop_dropWhile_length [OF False] by simp
    from less [OF this] show ?thesis
      unfolding read_lines_unfold [of p] if_not_P [OF False] Let_def
      by (simp add: add_line_def split: prod.splits)
  qed (simp add: read_lines_unfold [of "[]"])
qed

subsection \<open>What a size file records\<close>

definition quota_of :: "byte list \<Rightarrow> maildirquota" where
  "quota_of c = parsequotastr (Some (takeWhile (\<lambda>c. c \<noteq> NL) c))"

definition size_of :: "byte list \<Rightarrow> maildirquota" where
  "size_of c = info_size (read_lines c True info_zero)"

definition wf_quota :: "maildirquota \<Rightarrow> bool" where
  "wf_quota q \<longleftrightarrow> 0 \<le> nbytes q \<and> nbytes q < 2 ^ 63 \<and> 0 \<le> nmessages q \<and> nmessages q < 2 ^ 31"

definition wf_sizefile :: "byte list \<Rightarrow> bool" where
  "wf_sizefile c \<longleftrightarrow> text_file c \<and> length (takeWhile (\<lambda>c. c \<noteq> NL) c) < MAXSIZEFILE - 1 \<and> wf_quota (quota_of c)"

text \<open>The sizes within a quota, where 0 is no limit.\<close>

definition within :: "maildirquota \<Rightarrow> maildirquota \<Rightarrow> bool" where
  "within s q \<longleftrightarrow> (nbytes q = 0 \<or> nbytes s \<le> nbytes q) \<and> (nmessages q = 0 \<or> nmessages s \<le> nmessages q)"

lemma checkQuota_None: "checkQuota s q = (e, p) \<Longrightarrow> e = None \<longleftrightarrow> within s q"
  by (auto simp: checkQuota_def checkOneQuota_def within_def Let_def split: if_splits prod.splits)

lemma checkQuota_errno: "checkQuota s q = (e, p) \<Longrightarrow> e = None \<or> e = Some ENOSPC"
  by (auto simp: checkQuota_def split: if_splits prod.splits)

lemma read_lines_size:
  "info_size info = info_size info' \<Longrightarrow> info_size (read_lines p first info) = info_size (read_lines p first info')"
proof (induction "length p" arbitrary: p first info info' rule: less_induct)
  case less
  show ?case
  proof (cases "p = []")
    case False
    then have l: "length (drop 1 (dropWhile (\<lambda>c. c \<noteq> NL) p)) < length p"
      using drop_dropWhile_length [OF False] by simp
    show ?thesis
      unfolding read_lines_unfold [of p] if_not_P [OF False] Let_def
      by (rule less(1) [OF l]) (use less(2) in \<open>auto simp: add_line_def split: prod.splits\<close>)
  qed (use less(2) in \<open>simp add: read_lines_unfold [of "[]"]\<close>)
qed

lemma read_lines_quota: "info_quota (read_lines p False info) = info_quota info"
proof (induction "length p" arbitrary: p info rule: less_induct)
  case less
  show ?case
  proof (cases "p = []")
    case False
    then have "length (drop 1 (dropWhile (\<lambda>c. c \<noteq> NL) p)) < length p"
      using drop_dropWhile_length [OF False] by simp
    from less [OF this] show ?thesis
      unfolding read_lines_unfold [of p] if_not_P [OF False] Let_def by (simp add: add_line_def split: prod.splits)
  qed (simp add: read_lines_unfold [of "[]"])
qed

lemma read_lines_first_quota: "p \<noteq> [] \<Longrightarrow> info_quota (read_lines p True info) = quota_of p"
  unfolding read_lines_unfold [of p] by (simp add: Let_def read_lines_quota quota_of_def)

text \<open>One more line: the quota stays, the size changes by the two numbers.\<close>

lemma append_change:
  assumes "text_file c" "in_off_t b" "in_int n"
  shows "text_file (c @ change_line b n)" "quota_of (c @ change_line b n) = quota_of c"
    "size_of (c @ change_line b n) = add_size (size_of c) b n"
proof -
  obtain l where l: "change_line b n = l @ [NL]" "NL \<notin> set l" "0 \<notin> set l" "scan_line l = (b, n)"
    using change_line_split assms(2,3) by blast
  have NL: "NL \<in> set c" using assms(1) last_in_set [of c] by (simp add: text_file_def del: NL_def)
  show "text_file (c @ change_line b n)" using assms(1) l(1,3) by (auto simp: text_file_def)
  show "quota_of (c @ change_line b n) = quota_of c"
    unfolding quota_of_def using NL by (subst takeWhile_append1) (auto simp del: NL_def)
  show "size_of (c @ change_line b n) = add_size (size_of c) b n"
    unfolding size_of_def l(1)
    by (subst read_lines_append)
      (use assms(1) l(2,4) in \<open>simp_all add: text_file_def add_line_def del: NL_def\<close>)
qed

subsection \<open>A quota as a line\<close>

lemma foldl_s64:
  "\<forall>c\<in>set ds. isdigit c \<Longrightarrow> 0 \<le> dec_value ds \<and> (dec_value ds < 2 ^ 63 \<longrightarrow>
    foldl (\<lambda>i c. s64 (i * 10 + (uint c - 48))) 0 ds = dec_value ds)"
proof (induction ds rule: rev_induct)
  case Nil
  then show ?case by (simp add: dec_value_def)
next
  case (snoc c ds)
  have c: "48 \<le> uint c" using snoc(2) by (simp add: isdigit_def word_le_def)
  have "dec_value (ds @ [c]) = dec_value ds * 10 + (uint c - 48)" by (simp add: dec_value_def)
  with snoc c show ?case by (auto simp: s64_id)
qed

lemma parse_quota_number:
  assumes "0 \<le> v" "v < 2 ^ 63" "\<not> isdigit c"
  shows "parse_quota (dec_loop v [] @ c # rest) q = parse_quota rest
    (if c = ch CHR ''S'' then q\<lparr>nbytes := v\<rparr> else if c = ch CHR ''C'' then q\<lparr>nmessages := s32 v\<rparr> else q)"
proof -
  define d where "d = dec_loop v []"
  have d: "d \<noteq> []" "\<forall>c\<in>set d. isdigit c" "dec_value d = v"
    using dec_loop_digits [OF assms(1)] by (auto simp: d_def)
  obtain x d' where x: "d = x # d'" "isdigit x" using d(1,2) by (cases d) auto
  have tk: "takeWhile isdigit (d @ c # rest) = d" "dropWhile isdigit (d @ c # rest) = c # rest"
    using d(2) assms(3) by (auto simp: takeWhile_append dropWhile_append)
  have v: "foldl (\<lambda>i c. s64 (i * 10 + (uint c - 48))) 0 d = v"
    using foldl_s64 [OF d(2)] d(3) assms(2) by simp
  have "parse_quota (d @ c # rest) q = parse_quota (c # rest)
    (if c = ch CHR ''S'' then q\<lparr>nbytes := v\<rparr> else if c = ch CHR ''C'' then q\<lparr>nmessages := s32 v\<rparr> else q)"
    using tk v x by (simp add: Let_def)
  then show ?thesis using assms(3) by (simp add: d_def)
qed

lemma quota_line_text: "wf_quota q \<Longrightarrow> \<exists>l. quota_line q = l @ [NL] \<and> NL \<notin> set l \<and> 0 \<notin> set l \<and> parsequotastr (Some l) = q"
proof -
  assume w: "wf_quota q"
  have b: "str_off_t (nbytes q) = dec_loop (nbytes q) []"
    using str_off_t_eq [of "nbytes q"] w by (simp add: wf_quota_def)
  have "uint (word_of_int (nmessages q) :: u64) = nmessages q"
    using w by (simp add: uint_word_of_int wf_quota_def)
  then have n: "libmail_str_size_t (word_of_int (nmessages q)) = dec_loop (nmessages q) []"
    by (simp add: libmail_str_size_t_def)
  have SC: "\<not> isdigit (ch CHR ''S'')" "\<not> isdigit (ch CHR ''C'')" "\<not> isdigit (ch CHR '','')"
    by (simp_all add: isdigit_def word_le_def)
  have pos: "0 \<le> nbytes q" "nbytes q < 2 ^ 63" "0 \<le> nmessages q" "nmessages q < 2 ^ 63" "s32 (nmessages q) = nmessages q"
    using w by (auto simp: wf_quota_def s32_id)
  have dig: "c \<noteq> NL \<and> c \<noteq> 0" if "c \<in> set (dec_loop (nbytes q) []) \<union> set (dec_loop (nmessages q) [])" for c
    using that dec_loop_digits [OF pos(1)] dec_loop_digits [OF pos(3)] isdigit_not by blast
  have P: "parse_quota (dec_loop (nbytes q) [] @ ch CHR ''S'' # r) x = parse_quota r (x\<lparr>nbytes := nbytes q\<rparr>)"
    "parse_quota (dec_loop (nmessages q) [] @ ch CHR ''C'' # r) x = parse_quota r (x\<lparr>nmessages := nmessages q\<rparr>)" for r x
    using parse_quota_number [OF pos(1,2) SC(1)] parse_quota_number [OF pos(3,4) SC(2)] pos(5) by simp_all
  let ?l = "butlast (quota_line q)"
  have l: "quota_line q = ?l @ [NL]" by (simp add: quota_line_def Let_def)
  have "NL \<notin> set ?l \<and> 0 \<notin> set ?l"
    using dig by (auto simp: quota_line_def Let_def b n)
  moreover have "parsequotastr (Some ?l) = q"
  proof -
    have "parsequotastr (Some ?l) = \<lparr>nbytes = nbytes q, nmessages = nmessages q\<rparr>"
      using SC P pos by (auto simp: quota_line_def Let_def b n parsequotastr_def)
    then show ?thesis by simp
  qed
  ultimately show ?thesis using l by blast
qed

lemma new_sizefile:
  assumes "wf_quota q" "in_off_t b" "in_int n"
  shows "text_file (quota_line q @ change_line b n)" "quota_of (quota_line q @ change_line b n) = q"
    "size_of (quota_line q @ change_line b n) = \<lparr>nbytes = b, nmessages = n\<rparr>"
proof -
  obtain l where l: "quota_line q = l @ [NL]" "NL \<notin> set l" "0 \<notin> set l" "parsequotastr (Some l) = q"
    using quota_line_text [OF assms(1)] by blast
  have t: "text_file (quota_line q)" using l(1,3) by (simp add: text_file_def)
  have q: "quota_of (quota_line q) = q"
    unfolding quota_of_def l(1) using l(2,4) by (simp add: takeWhile_append del: NL_def takeWhile_eq_all_conv)
  have s: "size_of (quota_line q) = \<lparr>nbytes = 0, nmessages = 0\<rparr>"
    unfolding size_of_def l(1) using read_lines_step [OF l(2), of "[]" True info_zero]
    by (simp add: read_lines_unfold [of "[]"] info_zero_def del: NL_def)
  have z: "add_size \<lparr>nbytes = 0, nmessages = 0\<rparr> b n = \<lparr>nbytes = b, nmessages = n\<rparr>"
    using assms(2,3) by (simp add: add_size_def s64_id s32_id in_off_t_def in_int_def)
  show "text_file (quota_line q @ change_line b n)" "quota_of (quota_line q @ change_line b n) = q"
    "size_of (quota_line q @ change_line b n) = \<lparr>nbytes = b, nmessages = n\<rparr>"
    using append_change [OF t assms(2,3)] q s z by simp_all
qed

subsection \<open>The structure and the file\<close>

text \<open>
  The structure holds what its open file records; the file is the one that the maildir's name for
  it stands for.
\<close>

definition synced :: "maildirsize \<Rightarrow> disk \<Rightarrow> bool" where
  "synced info D \<longleftrightarrow> (\<exists>i f. fd info = Some i \<and> i \<noteq> 0 \<and> info_file info = Live f \<and> names D f = Some i \<and>
     text_file (inodes D i) \<and> info_quota info = quota_of (inodes D i) \<and> info_size info = size_of (inodes D i))"

definition open_ok :: "maildirsize \<Rightarrow> disk \<Rightarrow> bool" where
  "open_ok info D \<longleftrightarrow> fd info \<noteq> None \<and> wf_quota (info_quota info) \<and> (\<exists>f. info_file info = Live f) \<and>
     next_ino D \<noteq> 0 \<and> (\<not> recalculation_needed info \<longrightarrow> synced info D)"

definition good_disk :: "disk \<Rightarrow> bool" where
  "good_disk D \<longleftrightarrow> next_ino D \<noteq> 0 \<and> (\<forall>f i. names D f = Some i \<longrightarrow> i \<noteq> 0 \<and> wf_sizefile (inodes D i))"

lemma overflow_quota:
  "wf_sizefile c \<Longrightarrow> MAXSIZEFILE \<le> length c \<Longrightarrow>
    parsequotastr (Some (takeWhile (\<lambda>c. c \<noteq> NL) (cstr (butlast (take MAXSIZEFILE c))))) = quota_of c"
proof -
  assume w: "wf_sizefile c" "MAXSIZEFILE \<le> length c"
  let ?l = "takeWhile (\<lambda>c. c \<noteq> NL) c"
  let ?t = "take (MAXSIZEFILE - 1) c"
  have "butlast (take MAXSIZEFILE c) = ?t" using w(2) by (simp add: butlast_take MAXSIZEFILE_def)
  moreover have "cstr ?t = ?t"
    by (rule cstr_id) (use w(1) in \<open>auto simp: wf_sizefile_def text_file_def dest: in_set_takeD\<close>)
  moreover have "takeWhile (\<lambda>c. c \<noteq> NL) ?t = ?l"
  proof -
    have "NL \<in> set c" using w(1) last_in_set [of c] by (simp add: wf_sizefile_def text_file_def del: NL_def)
    then obtain l r where c: "c = l @ NL # r" "NL \<notin> set l" using first_line by blast
    then have l: "?l = l" by (simp add: takeWhile_append del: NL_def)
    then obtain k where k: "MAXSIZEFILE - 1 = length l + Suc k"
      using w(1) less_imp_Suc_add [of "length l" "MAXSIZEFILE - 1"] by (auto simp: wf_sizefile_def)
    have "?t = l @ NL # take k r" unfolding k c(1) by simp
    then show ?thesis using c(2) by (simp add: l takeWhile_append del: NL_def)
  qed
  ultimately show ?thesis by (simp add: quota_of_def)
qed

lemma do_open_ok:
  assumes "good_disk D" "info_file info = Live filename" "\<not> recalculation_needed info"
    "do_maildir_openquotafile V D info filename None = (None, info')" "fd info' \<noteq> None"
  shows "open_ok info' D"
proof -
  obtain i where i: "names D filename = Some i" "read_works V"
    using assms(4,5) by (auto simp: do_maildir_openquotafile_def Let_def split: option.splits if_splits)
  then have w: "i \<noteq> 0" "wf_sizefile (inodes D i)" "next_ino D \<noteq> 0" using assms(1) by (auto simp: good_disk_def)
  show ?thesis
  proof (cases "length (inodes D i) < MAXSIZEFILE")
    case True
    let ?info = "info\<lparr>fd := Some i, st_mtime := mtimes D i, info_size := \<lparr>nbytes = 0, nmessages = 0\<rparr>, nlines := 0\<rparr>"
    have t: "text_file (inodes D i)" using w(2) by (simp add: wf_sizefile_def)
    have info': "info' = read_lines (inodes D i) True ?info"
      using do_open_read [OF i True t] assms(4) by simp
    have "info_quota info' = quota_of (inodes D i)"
      unfolding info' by (rule read_lines_first_quota) (use t in \<open>simp add: text_file_def\<close>)
    moreover have "info_size info' = size_of (inodes D i)"
      unfolding info' size_of_def by (rule read_lines_size) (simp add: info_zero_def)
    ultimately show ?thesis
      using read_lines_keeps [of "inodes D i" True ?info] assms(2,3) w t i
      by (simp add: open_ok_def synced_def wf_sizefile_def info')
  next
    case False
    have "MAXSIZEFILE \<le> length (inodes D i)" using False by simp
    from overflow_quota [OF w(2) this] show ?thesis
      using False assms(2,4) i w by (auto simp: do_maildir_openquotafile_def Let_def open_ok_def wf_sizefile_def)
  qed
qed

text \<open>What opening does once the maildir of a folder is found.\<close>

definition open_at :: "view \<Rightarrow> disk \<Rightarrow> byte list \<Rightarrow> byte list option \<Rightarrow> quota_errno option \<times> maildirsize" where
  "open_at V D m newquota =
     (case do_maildir_openquotafile V D (info_zero\<lparr>info_maildir := Live m, info_file := Live (m @ asc ''/maildirsize'')\<rparr>)
         (m @ asc ''/maildirsize'') newquota of
       (None, info) \<Rightarrow> (None, info)
     | (Some e, info) \<Rightarrow> (Some e, info\<lparr>info_maildir := Dangling, info_file := Dangling\<rparr>))"

lemma init_unfold:
  "maildir_openquotafile_init V D m newquota =
     (if \<not> malloc_works V (length m + 15) then Some (Some EOTHER, info_zero)
      else if folder_mark V m then maildir_openquotafile_init V D (m @ asc ''/..'') newquota
      else if \<not> malloc_works V (length m + 1) then Some (Some EOTHER, info_zero)
      else Some (open_at V D m newquota))"
  by (subst maildir_openquotafile_init.simps) (simp add: open_at_def Let_def split: prod.splits option.splits)

lemma init_cases:
  "maildir_openquotafile_init V D m newquota = Some r \<Longrightarrow>
    r = (Some EOTHER, info_zero) \<or> (\<exists>m'. \<not> folder_mark V m' \<and> r = open_at V D m' newquota)"
proof (induction rule: maildir_openquotafile_init.raw_induct [rotated, consumes 1, case_names step])
  case (step f V D m newquota r)
  show ?case
  proof (cases "folder_mark V m")
    case True
    then show ?thesis
      using step by (auto split: if_splits)
  next
    case False
    have "r = (Some EOTHER, info_zero) \<or> r = open_at V D m newquota"
      using step(2) False by (auto simp: open_at_def Let_def split: if_splits prod.splits option.splits)
    then show ?thesis using False by blast
  qed
qed

lemma open_at_ok:
  assumes "good_disk D" "open_at V D m None = (None, info)" "fd info \<noteq> None"
  shows "open_ok info D"
proof -
  have "do_maildir_openquotafile V D (info_zero\<lparr>info_maildir := Live m, info_file := Live (m @ asc ''/maildirsize'')\<rparr>)
      (m @ asc ''/maildirsize'') None = (None, info)"
    using assms(2) by (auto simp: open_at_def split: prod.splits option.splits)
  from do_open_ok [OF assms(1) _ _ this assms(3)] show ?thesis by (simp add: info_zero_def)
qed

lemma open_or_none_ok:
  assumes "good_disk D" "open_or_none V m D = Some info"
  shows "fd info = None \<or> open_ok info D"
proof -
  obtain e i where o: "maildir_openquotafile_init V D m None = Some (e, i)"
      and info: "info = (if e \<noteq> None then i\<lparr>fd := None\<rparr> else i)"
    using assms(2) by (auto simp: open_or_none_def maildir_openquotafile_def split: Option.bind_splits)
  have "e = None \<Longrightarrow> fd i \<noteq> None \<Longrightarrow> open_ok i D"
    using init_cases [OF o] open_at_ok [OF assms(1)] by (metis option.distinct(1) prod.inject)
  then show ?thesis using info by (cases "fd i"; cases e) auto
qed

lemma makenew_loop_fresh: "makenew_loop V D dir k = Some p \<Longrightarrow> names D p = None"
  by (induction rule: makenew_loop.raw_induct [rotated, consumes 1]) (simp add: Let_def split: if_splits)

subsection \<open>Checks keep the structure and the file together\<close>

text \<open>What a check leaves, by its outcome; \<open>ctrl\<close> is how many bytes and messages it is about.\<close>

lemma replace_ok:
  assumes "open_ok info D0" "i \<noteq> 0" "next_ino D \<noteq> 0" "inodes D i = []"
    "in_off_t (fst (snd acc))"
    "replace_sizefile V V' info b n pc acc (p, i, D) = (e, pc', info', D')"
  shows "e = None \<Longrightarrow> synced info' D' \<and> within (add_size (info_size info') b n) (info_quota info') \<and> open_ok info' D'"
    "e = Some EAGAIN \<Longrightarrow> open_ok info' D'"
proof -
  obtain t s c where acc: "acc = (t, s, c)" by (cases acc)
  obtain f where f: "info_file info = Live f" using assms(1) by (auto simp: open_ok_def)
  have wq: "wf_quota (info_quota info)" using assms(1) by (simp add: open_ok_def)
  have s: "in_off_t s" "in_int (sint c)" using assms(5) acc sint_lt_64(3,4) [of c] by (auto simp: in_int_def)
  note new = new_sizefile [OF wq s]
  have *: "doaddquota V info i s (sint c) True D = (True, D\<lparr>inodes := (inodes D)(i := quota_line (info_quota info) @ change_line s (sint c))\<rparr>)
      \<or> fst (doaddquota V info i s (sint c) True D) = False"
    using assms(2,4) by (auto simp: doaddquota_def write_fd_def)
  { assume e: "e = None \<or> e = Some EAGAIN"
    with * assms(6) have w: "doaddquota V info i s (sint c) True D =
        (True, D\<lparr>inodes := (inodes D)(i := quota_line (info_quota info) @ change_line s (sint c))\<rparr>)"
      by (auto simp: replace_sizefile_def acc split: prod.splits bool.splits)
    have r: "rename_works V" "stat_maildir V' (str_of (info_maildir info)) \<noteq> None"
      using assms(6) e by (auto simp: replace_sizefile_def acc w Let_def split: if_splits option.splits)
    then obtain tm where tm: "stat_maildir V' (str_of (info_maildir info)) = Some tm" by auto
    let ?D = "D\<lparr>inodes := (inodes D)(i := quota_line (info_quota info) @ change_line s (sint c)),
        names := (names D)(p := None, f \<mapsto> i)\<rparr>"
    let ?i = "info\<lparr>recalculation_needed := False,
                info_size := \<lparr>nbytes = s, nmessages = sint c\<rparr>, nlines := 1, fd := Some i\<rparr>"
    have sy: "synced ?i ?D" using new f assms(2) by (simp add: synced_def)
    obtain ce cp where ck: "checkQuota (add_size \<lparr>nbytes = s, nmessages = sint c\<rparr> b n) (info_quota info) = (ce, cp)"
      by fastforce
    have "str_of (info_file info) = f" using f by (simp add: str_of_def)
    then have res: "(if tm \<noteq> t then (Some EAGAIN, pc, ?i\<lparr>recalculation_needed := True, nlines := 0\<rparr>, ?D)
        else (ce, cp, ?i, ?D)) = (e, pc', info', D')"
      using assms(6) r(1) by (cases "tm = t") (simp_all add: replace_sizefile_def acc w tm Let_def ck)
    have D': "D' = ?D" "info' = (if tm = t then ?i else ?i\<lparr>recalculation_needed := True, nlines := 0\<rparr>)"
      "tm \<noteq> t \<longleftrightarrow> e = Some EAGAIN"
      using res checkQuota_errno [OF ck] e by (auto split: if_splits)
    have "open_ok info' D'" using sy wq f assms(3) by (simp add: D' open_ok_def)
    moreover have "e = None \<longrightarrow> within (add_size (info_size info') b n) (info_quota info')"
      using res checkQuota_None [OF ck] by (auto split: if_splits)
    moreover have "e = None \<longrightarrow> synced info' D'" using sy D' by auto
    ultimately have "open_ok info' D' \<and> (e = None \<longrightarrow> synced info' D' \<and> within (add_size (info_size info') b n) (info_quota info'))"
      by blast
  } note main = this
  show "e = None \<Longrightarrow> synced info' D' \<and> within (add_size (info_size info') b n) (info_quota info') \<and> open_ok info' D'"
    "e = Some EAGAIN \<Longrightarrow> open_ok info' D'"
    using main by blast+
qed

text \<open>The sizes that a look at the directories can count are below the limits of the type.\<close>

definition count_fits :: "view \<Rightarrow> bool" where
  "count_fits V \<longleftrightarrow> (\<forall>m acc. count_maildir V m = Some acc \<longrightarrow> in_off_t (fst (snd acc)))"

lemma docheckquota_ok:
  assumes "open_ok info D" "count_fits V" "docheckquota V V' info b n D = Some (e, pc, info', D')"
  shows "e = None \<Longrightarrow> synced info' D' \<and> within (add_size (info_size info') b n) (info_quota info') \<and> open_ok info' D'"
    "e = Some EAGAIN \<Longrightarrow> open_ok info' D'"
proof -
  obtain ce cp where ck: "checkQuota (add_size (info_size info) b n) (info_quota info) = (ce, cp)"
    by fastforce
  note checkQuota_errno [OF ck] checkQuota_None [OF ck]
  have "fd info \<noteq> None" using assms(1) by (simp add: open_ok_def)
  moreover have goal: "(e = None \<longrightarrow> synced info' D' \<and> within (add_size (info_size info') b n) (info_quota info') \<and> open_ok info' D')
      \<and> (e = Some EAGAIN \<longrightarrow> open_ok info' D')"
  proof (cases "\<not> recalculation_needed info \<and> (ce = None \<or> nlines info = 1 \<and> now V < st_mtime info + 15 * 60)")
    case True
    then have "info' = info \<and> D' = D \<and> e = ce"
      using assms(3) \<open>fd info \<noteq> None\<close> by (auto simp: docheckquota_def ck Let_def split: if_splits)
    then show ?thesis
      using True assms(1) checkQuota_errno [OF ck] checkQuota_None [OF ck] by (auto simp: open_ok_def)
  next
    case False
    let ?pc = "if recalculation_needed info then 0 else cp"
    have s: "(case count_maildir V (str_of (info_maildir info)) of
          None \<Rightarrow> Some (Some EIO, ?pc, info, D)
        | Some acc \<Rightarrow> do {
            new \<leftarrow> makenewmaildirsizename V D (str_of (info_maildir info));
            case new of None \<Rightarrow> Some (Some EIO, ?pc, info, D)
            | Some new \<Rightarrow> Some (replace_sizefile V V' info b n ?pc acc new)
          }) = Some (e, pc, info', D')"
      using assms(3) \<open>fd info \<noteq> None\<close> False by (simp add: docheckquota_def ck Let_def split: if_splits)
    show ?thesis
    proof (cases "e = Some EIO")
      case False
      with s obtain acc p i D1 where r: "count_maildir V (str_of (info_maildir info)) = Some acc"
        "makenewmaildirsizename V D (str_of (info_maildir info)) = Some (Some (p, i, D1))"
        "replace_sizefile V V' info b n ?pc acc (p, i, D1) = (e, pc, info', D')"
        by (auto split: option.splits Option.bind_splits)
      have "i \<noteq> 0" "next_ino D1 \<noteq> 0" "inodes D1 i = []"
        using r(2) assms(1) by (auto simp: makenewmaildirsizename_def open_ok_def Let_def split: Option.bind_splits if_splits)
      moreover have "in_off_t (fst (snd acc))" using assms(2) r(1) unfolding count_fits_def by blast
      ultimately show ?thesis using replace_ok [OF assms(1) _ _ _ _ r(3)] by blast
    qed simp
  qed
  show "e = None \<Longrightarrow> synced info' D' \<and> within (add_size (info_size info') b n) (info_quota info') \<and> open_ok info' D'"
    "e = Some EAGAIN \<Longrightarrow> open_ok info' D'"
    using goal by blast+
qed

lemma closequotafile_fd: "fd (fst (maildir_closequotafile info D)) = None"
  by (simp add: maildir_closequotafile_def)

lemma add_tries_ok:
  "open_ok info D \<Longrightarrow> (\<forall>j. count_fits (Vs j)) \<Longrightarrow> add_tries k Vs info b n D = Some (True, info', D') \<Longrightarrow>
    fd info' \<noteq> None \<Longrightarrow> synced info' D' \<and> within (add_size (info_size info') b n) (info_quota info')"
proof (induction k arbitrary: Vs info D)
  case 0
  then show ?case using closequotafile_fd [of info D] by (auto split: prod.splits)
next
  case (Suc k)
  obtain e pc i1 D1 where c: "docheckquota (Vs 0) (Vs 1) info b n D = Some (e, pc, i1, D1)"
    using Suc(4) by (auto simp: maildir_checkquota_def split: Option.bind_splits)
  note ok = docheckquota_ok [OF Suc(2) _ c]
  show ?case
  proof (cases "e = Some EAGAIN")
    case True
    then show ?thesis
      using Suc(1) [OF ok(2), of "\<lambda>i. Vs (i + 2)"] Suc(3-5) c by (simp add: maildir_checkquota_def)
  next
    case False
    then have "e = None \<and> i1 = info' \<and> D1 = D'"
      using Suc(4) c by (auto simp: maildir_checkquota_def split: option.splits quota_errno.splits prod.splits)
    then show ?thesis using ok(1) Suc(3) by blast
  qed
qed


text \<open>A disk with one size file, and a system where nothing fails and there are no messages.\<close>

definition one_file :: "byte list \<Rightarrow> disk" where
  "one_file c = \<lparr>inodes = (\<lambda>_. c), mtimes = (\<lambda>_. 0), names = [asc ''m/maildirsize'' \<mapsto> 1], next_ino = 2, misused = False\<rparr>"

definition plain_view :: view where
  "plain_view = \<lparr>folder_mark = (\<lambda>_. False), dir_mtime = (\<lambda>_. None), dir_list = (\<lambda>_. None), file_size = (\<lambda>_. None),
     now = 0, malloc_works = (\<lambda>_. True), read_works = True, closedir_works = True, rename_works = True,
     disk_room = 1000, clock = int, create_works = (\<lambda>_. True), pid = 1, hostname = []\<rparr>"

definition sample_file :: "byte list" where
  "sample_file = asc ''1000S'' @ [NL] @ asc ''     100    1'' @ [NL]"

lemma sample_quota: "quota_of sample_file = \<lparr>nbytes = 1000, nmessages = 0\<rparr>"
  by code_simp

lemma sample_size: "size_of sample_file = \<lparr>nbytes = 100, nmessages = 1\<rparr>"
  by code_simp

definition sample_info :: maildirsize where
  "sample_info = \<lparr>fd = Some 1, info_maildir = Live (asc ''m''), info_file = Live (asc ''m/maildirsize''),
     info_quota = \<lparr>nbytes = 1000, nmessages = 0\<rparr>, info_size = \<lparr>nbytes = 100, nmessages = 1\<rparr>,
     recalculation_needed = False, st_mtime = 0, nlines = 1\<rparr>"

lemma sample_wf: "wf_sizefile sample_file"
proof -
  have "text_file sample_file \<and> length (takeWhile (\<lambda>c. c \<noteq> NL) sample_file) < MAXSIZEFILE - 1" by code_simp
  then show ?thesis by (simp add: wf_sizefile_def sample_quota wf_quota_def)
qed

lemma sample_good: "good_disk (one_file sample_file)"
  using sample_wf by (simp add: good_disk_def one_file_def)

lemma plain_fits: "count_fits plain_view"
  by (simp add: count_fits_def count_maildir_def countcurnew_def docount_def plain_view_def in_off_t_def)

lemma sample_open: "open_at plain_view (one_file sample_file) (asc ''m'') None = (None, sample_info)"
proof -
  have "length sample_file < MAXSIZEFILE" "text_file sample_file" by code_simp+
  moreover have "read_lines sample_file True \<lparr>fd = Some 1, info_maildir = Live (asc ''m''), info_file = Live (asc ''m/maildirsize''),
     info_quota = \<lparr>nbytes = 0, nmessages = 0\<rparr>, info_size = \<lparr>nbytes = 0, nmessages = 0\<rparr>,
     recalculation_needed = False, st_mtime = 0, nlines = 0\<rparr> = sample_info"
    unfolding sample_info_def by code_simp
  ultimately show ?thesis
    unfolding open_at_def by (subst do_open_read [where i = 1]) (simp_all add: one_file_def plain_view_def info_zero_def)
qed

lemma sample_start:
  "maildir_quota_add_start (\<lambda>_. plain_view) (asc ''m'') 50 1 None (one_file sample_file) = Some (True, sample_info, one_file sample_file)"
proof -
  have "open_or_none plain_view (asc ''m'') (one_file sample_file) = Some sample_info"
    unfolding open_or_none_def maildir_openquotafile_def
    by (subst init_unfold) (simp add: sample_open [simplified] plain_view_def [symmetric], simp add: plain_view_def)
  moreover have "checkQuota (add_size (info_size sample_info) 50 1) (info_quota sample_info) = (None, 15)" by code_simp
  ultimately show ?thesis
    by (simp add: maildir_quota_add_start_def use_newquota_def eval_nat_numeral maildir_checkquota_def docheckquota_def)
      (simp add: sample_info_def)
qed


end
