(* ===== verification/Maildir_Recalc.thy ===== *)
theory Maildir_Recalc imports Maildir_Size begin

text \<open>
  Opening the size file of a folder, what a count of the messages adds up, and what a check of the
  quota leads to when nobody else changes the maildir or when a read fails.
\<close>

subsection \<open>Opening\<close>

text \<open>The longest path that the system takes.\<close>

definition PATH_MAX :: nat where "PATH_MAX = 4096"

fun up :: "nat \<Rightarrow> byte list \<Rightarrow> byte list" where
  "up 0 m = m"
| "up (Suc k) m = up k (m @ asc ''/..'')"

lemma length_up: "length (up k m) = length m + 3 * k"
  by (induction k arbitrary: m) auto

lemma init_up:
  "(\<forall>k. malloc_works V k) \<Longrightarrow> \<forall>j<k. folder_mark V (up j m) \<Longrightarrow> \<not> folder_mark V (up k m) \<Longrightarrow>
    maildir_openquotafile_init V D m q = Some (open_at V D (up k m) q)"
proof (induction k arbitrary: m)
  case 0
  then show ?case by (subst init_unfold) simp
next
  case (Suc k)
  have "folder_mark V m" "\<forall>j<k. folder_mark V (up j (m @ asc ''/..''))" using Suc(3) by force+
  with Suc show ?case by (subst init_unfold) simp
qed

text \<open>
  C24. Opening the size file of a maildir always returns: a path can only have so many bytes, so
  the marks of folders end, and the file that is opened is that of the first directory on the way
  up without one.
\<close>

theorem openquotafile_returns:
  assumes "\<forall>k. malloc_works V k" "\<forall>p. PATH_MAX < length p \<longrightarrow> \<not> folder_mark V p"
  shows "\<exists>k. \<not> folder_mark V (up k m) \<and> (\<forall>j<k. folder_mark V (up j m)) \<and>
    maildir_openquotafile V D m = Some (open_at V D (up k m) None)"
proof -
  have "\<not> folder_mark V (up (Suc PATH_MAX) m)" using assms(2) by (simp add: length_up del: up.simps)
  then obtain k where "\<not> folder_mark V (up k m)" "\<forall>j<k. folder_mark V (up j m)"
    using exists_least_iff [of "\<lambda>k. \<not> folder_mark V (up k m)"] by blast
  then show ?thesis
    using init_up [OF assms(1), of k m D None] by (auto simp: maildir_openquotafile_def)
qed

theorem openquotafile_returns_witness:
  "\<exists>k. maildir_openquotafile (plain_view\<lparr>folder_mark := (\<lambda>p. p = asc ''m/.f'')\<rparr>) (one_file sample_file) (asc ''m/.f'') =
    Some (open_at (plain_view\<lparr>folder_mark := (\<lambda>p. p = asc ''m/.f'')\<rparr>) (one_file sample_file) (up k (asc ''m/.f'')) None)"
proof -
  have "\<forall>k. malloc_works (plain_view\<lparr>folder_mark := (\<lambda>p. p = asc ''m/.f'')\<rparr>) k"
    "\<forall>p. PATH_MAX < length p \<longrightarrow> \<not> folder_mark (plain_view\<lparr>folder_mark := (\<lambda>p. p = asc ''m/.f'')\<rparr>) p"
    by (auto simp: plain_view_def PATH_MAX_def)
  from openquotafile_returns [OF this] show ?thesis by blast
qed

subsection \<open>Counting\<close>

text \<open>The size of a directory entry if it is a message that counts.\<close>

definition message_size :: "view \<Rightarrow> byte list \<Rightarrow> byte list \<Rightarrow> int option" where
  "message_size V dir n =
     (if at n 0 = ch CHR ''.'' \<or> \<not> maildirquota_countfile n then None
      else case maildir_parsequota n of Some s \<Rightarrow> Some (s64 (uint s)) | None \<Rightarrow> file_size V (dir @ asc ''/'' @ n))"

definition dir_sizes :: "view \<Rightarrow> byte list \<Rightarrow> int list" where
  "dir_sizes V dir = (if dir_mtime V dir = None then [] else case dir_list V dir of
     None \<Rightarrow> [] | Some ns \<Rightarrow> List.map_filter (message_size V dir) ns)"

definition counted_folder :: "byte list \<Rightarrow> bool" where
  "counted_folder d \<longleftrightarrow> at d 0 = ch CHR ''.'' \<and> d \<noteq> asc ''.'' \<and> d \<noteq> asc ''..'' \<and> maildirquota_countfolder d"

text \<open>The directories of messages: of the maildir itself and of the folders that count.\<close>

definition sub_dirs :: "byte list \<Rightarrow> byte list list" where
  "sub_dirs d = [d @ asc ''/new'', d @ asc ''/cur'']"

definition message_dirs :: "view \<Rightarrow> byte list \<Rightarrow> byte list list" where
  "message_dirs V m = sub_dirs m @
     (case dir_list V m of None \<Rightarrow> []
      | Some ds \<Rightarrow> concat (map (\<lambda>d. sub_dirs (m @ asc ''/'' @ d)) (filter counted_folder ds)))"

definition all_sizes :: "view \<Rightarrow> byte list \<Rightarrow> int list" where
  "all_sizes V m = concat (map (dir_sizes V) (message_dirs V m))"

text \<open>The size and the number after messages of these sizes.\<close>

definition tally :: "int list \<Rightarrow> int \<times> u32 \<Rightarrow> int \<times> u32" where
  "tally ss acc = (s64 (fst acc + sum_list ss), snd acc + of_nat (length ss))"

lemma s64_add: "s64 (s64 x + y) = s64 (x + y)" "s64 (x + s64 y) = s64 (x + y)"
  by (metis s64_def signed_take_bit_add signed_take_bit_signed_take_bit min.idem)+

lemma tally_tally: "tally ys (tally xs acc) = tally (xs @ ys) acc"
  by (simp add: tally_def s64_add add.assoc)

text \<open>A system in which no call of the count fails.\<close>

definition calls_work :: "view \<Rightarrow> bool" where
  "calls_work V \<longleftrightarrow> (\<forall>k. malloc_works V k) \<and> closedir_works V"

lemma docount_files_tally:
  "calls_work V \<Longrightarrow> s64 s = s \<Longrightarrow>
    docount_files V dir ns (s, c) = Some (tally (List.map_filter (message_size V dir) ns) (s, c))"
proof (induction ns arbitrary: s c)
  case Nil
  then show ?case by (simp add: tally_def)
next
  case (Cons n ns)
  have w: "malloc_works V k" for k using Cons(2) by (simp add: calls_work_def)
  have id: "s64 (s64 x) = s64 x" for x using s64_add(1) [of x 0] by simp
  have step: "tally (List.map_filter (message_size V dir) ns) (s64 (s + x), c + 1) =
      tally (x # List.map_filter (message_size V dir) ns) (s, c)" for x
    using tally_tally [of "List.map_filter (message_size V dir) ns" "[x]" "(s, c)"] by (simp add: tally_def)
  show ?case
    using Cons(1) [OF Cons(2,3)] Cons(1) [OF Cons(2) id]
    by (simp add: message_size_def [of V dir n] map_filter_simps step w split: option.splits)
qed

lemma docount_tally:
  assumes "calls_work V" "s64 s = s"
  shows "docount V dir (t, s, c) = Some (stat_dir V dir t, tally (dir_sizes V dir) (s, c))"
proof (cases "dir_mtime V dir")
  case None
  then show ?thesis using assms(2) by (simp add: docount_def stat_dir_def dir_sizes_def tally_def)
next
  case (Some u)
  then show ?thesis
    using docount_files_tally [OF assms] assms
    by (auto simp: docount_def stat_dir_def dir_sizes_def tally_def calls_work_def split: option.splits)
qed

lemma tally_s64: "s64 (fst (tally ss acc)) = fst (tally ss acc)"
  using s64_add(1) [of _ 0] by (simp add: tally_def)

lemma docount_pair:
  "calls_work V \<Longrightarrow> s64 (fst sc) = fst sc \<Longrightarrow> docount V dir (t, sc) = Some (stat_dir V dir t, tally (dir_sizes V dir) sc)"
  using docount_tally [of V "fst sc" dir t "snd sc"] by simp

lemma stat_dir_commute: "stat_dir V a (stat_dir V b t) = stat_dir V b (stat_dir V a t)"
  by (auto simp: stat_dir_def split: option.splits)

text \<open>The latest time of the two directories, and of those of folders.\<close>

lemma countcurnew_tally:
  "calls_work V \<Longrightarrow> s64 (fst sc) = fst sc \<Longrightarrow>
    \<exists>t'. countcurnew V d (t, sc) = Some (t', tally (concat (map (dir_sizes V) (sub_dirs d))) sc) \<and> statcurnew V d t = Some t'"
  using docount_pair [OF _ tally_s64, of V]
  by (simp add: countcurnew_def statcurnew_def docount_pair sub_dirs_def tally_tally calls_work_def)
    (rule stat_dir_commute)

text \<open>
  A name without slashes is a folder that counts for the size just when its time is looked at in
  the second pass, so the two passes see the same directories.
\<close>

lemma countfolder_no_slash:
  assumes "ch CHR ''/'' \<notin> set d"
  shows "maildirquota_countfolder d \<longleftrightarrow> d \<noteq> asc ''.'' @ TRASH"
proof -
  have "countfolder_scan d" using assms by (induction d) auto
  moreover have "d \<noteq> asc ''.'' @ TRASH @ asc ''/''" using assms by auto
  ultimately show ?thesis by (auto simp: maildirquota_countfolder_def is_trash_def)
qed

lemma subdirs_tally:
  "calls_work V \<Longrightarrow> \<forall>d\<in>set ds. ch CHR ''/'' \<notin> set d \<Longrightarrow> s64 (fst sc) = fst sc \<Longrightarrow>
    \<exists>t'. count_subdirs V m ds (t, sc) =
        Some (t', tally (concat (map (dir_sizes V) (concat (map (\<lambda>d. sub_dirs (m @ asc ''/'' @ d)) (filter counted_folder ds))))) sc)
      \<and> stat_subdirs V m ds t = Some t'"
proof (induction ds arbitrary: t sc)
  case Nil
  then show ?case by (simp add: tally_def)
next
  case (Cons d ds)
  note skip = countfolder_no_slash [of d]
  show ?case
  proof (cases "counted_folder d")
    case False
    then have "countsubdir V m d (t, sc) = Some (t, sc)" "statsubdir V m d t = Some t"
      using skip Cons(3) by (auto simp: counted_folder_def countsubdir_def statsubdir_def)
    with False show ?thesis using Cons(1) [OF Cons(2) _ Cons(4), of t] Cons(3) by simp
  next
    case True
    let ?d = "m @ asc ''/'' @ d"
    obtain t1 where t1: "countcurnew V ?d (t, sc) = Some (t1, tally (concat (map (dir_sizes V) (sub_dirs ?d))) sc)"
      "statcurnew V ?d t = Some t1"
      using countcurnew_tally [OF Cons(2,4)] by blast
    have "countsubdir V m d (t, sc) = countcurnew V ?d (t, sc)" "statsubdir V m d t = statcurnew V ?d t"
      using True skip Cons(2,3) by (auto simp: counted_folder_def countsubdir_def statsubdir_def calls_work_def)
    with True t1 show ?thesis
      using Cons(1) [OF Cons(2) _ tally_s64, of t1] Cons(3) by (auto simp: tally_tally)
  qed
qed

definition plain_names :: "view \<Rightarrow> byte list \<Rightarrow> bool" where
  "plain_names V m \<longleftrightarrow> (\<forall>ds. dir_list V m = Some ds \<longrightarrow> (\<forall>d\<in>set ds. ch CHR ''/'' \<notin> set d))"

lemma count_maildir_tally:
  assumes "calls_work V" "plain_names V m"
  obtains t where "count_maildir V m = Some (t, tally (all_sizes V m) (0, 0))" "stat_maildir V m = Some t"
proof -
  have z: "s64 (fst (0 :: int, 0 :: u32)) = fst (0 :: int, 0 :: u32)" by (simp add: s64_id)
  obtain t1 where t1: "countcurnew V m (0, 0, 0) = Some (t1, tally (concat (map (dir_sizes V) (sub_dirs m))) (0, 0))"
      "statcurnew V m 0 = Some t1"
    using countcurnew_tally [OF assms(1) z] by blast
  show thesis
  proof (cases "dir_list V m")
    case None
    then show thesis
      by (intro that [of t1]) (simp_all add: count_maildir_def stat_maildir_def t1 all_sizes_def message_dirs_def)
  next
    case (Some ds)
    have "\<forall>d\<in>set ds. ch CHR ''/'' \<notin> set d" using assms(2) Some by (simp add: plain_names_def)
    from subdirs_tally [OF assms(1) this tally_s64, of m t1 "concat (map (dir_sizes V) (sub_dirs m))" "(0, 0)"]
    obtain t2 where t2: "count_subdirs V m ds (t1, tally (concat (map (dir_sizes V) (sub_dirs m))) (0, 0)) =
        Some (t2, tally (all_sizes V m) (0, 0))" "stat_subdirs V m ds t1 = Some t2"
      by (auto simp: tally_tally all_sizes_def message_dirs_def Some)
    show thesis
      by (rule that [of t2])
        (use t1 t2 assms(1) in \<open>simp_all add: count_maildir_def stat_maildir_def Some calls_work_def\<close>)
  qed
qed

text \<open>
  C23. The count of a maildir is the sum of the sizes of all its messages, and their number: those
  in \<open>new\<close> and \<open>cur\<close> of the maildir and of every folder but the trash, with the size that the
  name states or that the file has, without the messages marked as deleted and the hidden files.
  Sizes are added in 64 bits.
\<close>

theorem count_maildir_exact:
  assumes "calls_work V" "plain_names V m" "sum_list (all_sizes V m) < 2 ^ 63" "0 \<le> sum_list (all_sizes V m)"
  shows "\<exists>t. count_maildir V m = Some (t, sum_list (all_sizes V m), of_nat (length (all_sizes V m)))"
proof -
  obtain t where "count_maildir V m = Some (t, tally (all_sizes V m) (0, 0))"
    using count_maildir_tally [OF assms(1,2)] by blast
  then show ?thesis using assms(3,4) by (simp add: tally_def s64_id)
qed

text \<open>A maildir with two messages, one of them marked as deleted, and a message in the trash.\<close>

definition two_messages :: view where
  "two_messages = plain_view\<lparr>dir_mtime := (\<lambda>_. Some 5),
     dir_list := (\<lambda>d. if d = asc ''m/cur'' then Some [asc ''1.x,S=30:2,S'', asc ''2.x,S=40:2,ST'']
       else if d = asc ''m/new'' then Some [asc ''3.x'']
       else if d = asc ''m'' then Some [asc ''.'', asc ''..'', asc ''.Trash'', asc ''cur'', asc ''new'']
       else if d = asc ''m/.Trash/cur'' then Some [asc ''4.x,S=50''] else None),
     file_size := (\<lambda>f. if f = asc ''m/new/3.x'' then Some 7 else None)\<rparr>"

lemma two_sizes: "all_sizes two_messages (asc ''m'') = [7, 30]"
  by code_simp

lemma two_works: "calls_work two_messages \<and> plain_names two_messages (asc ''m'')"
  by (simp add: calls_work_def plain_names_def two_messages_def plain_view_def)

theorem count_maildir_exact_witness: "\<exists>t. count_maildir two_messages (asc ''m'') = Some (t, 37, 2)"
  using count_maildir_exact [of two_messages "asc ''m''"] two_works two_sizes by simp

subsection \<open>A check without disturbance\<close>

lemma makenew_loop_from: "names D (temp_name V m (k + j)) = None \<and> create_works V (temp_name V m (k + j)) \<Longrightarrow>
    makenew_loop V D m k \<noteq> None"
proof (induction j arbitrary: k)
  case 0
  then show ?case by (subst makenew_loop.simps) simp
next
  case (Suc j)
  have "makenew_loop V D m (k + 1) \<noteq> None" using Suc(1) [of "k + 1"] Suc(2) by simp
  then show ?case by (subst makenew_loop.simps) (simp add: Let_def)
qed

lemma makenew_loop_returns:
  "names D (temp_name V m j) = None \<Longrightarrow> create_works V (temp_name V m j) \<Longrightarrow> \<exists>p. makenew_loop V D m 0 = Some p"
  using makenew_loop_from [of D V m 0 j] by auto

definition exact_size :: "view \<Rightarrow> byte list \<Rightarrow> maildirquota" where
  "exact_size V m = \<lparr>nbytes = fst (tally (all_sizes V m) (0, 0)), nmessages = sint (snd (tally (all_sizes V m) (0, 0)))\<rparr>"

lemma quiet_recalculation:
  assumes "calls_work V" "plain_names V m" "rename_works V" "names D (temp_name V m j) = None"
    "create_works V (temp_name V m j)" "info_maildir info = Live m" "fd info \<noteq> None"
    "length (quota_line (info_quota info)) + length (change_line (nbytes (exact_size V m)) (nmessages (exact_size V m))) \<le> disk_room V"
    "\<not> (\<not> recalculation_needed info \<and> (within (add_size (info_size info) b n) (info_quota info) \<or>
        nlines info = 1 \<and> now V < st_mtime info + 15 * 60))"
  shows "\<exists>e pc info' D'. docheckquota V V info b n D = Some (e, pc, info', D') \<and> (e = None \<or> e = Some ENOSPC) \<and>
    (e = None \<longleftrightarrow> within (add_size (info_size info') b n) (info_quota info')) \<and>
    info_quota info' = info_quota info \<and> info_size info' = exact_size V m"
proof -
  obtain ce cp where ck: "checkQuota (add_size (info_size info) b n) (info_quota info) = (ce, cp)"
    by fastforce
  obtain ce' cp' where ck': "checkQuota (add_size (exact_size V m) b n) (info_quota info) = (ce', cp')"
    by fastforce
  obtain t where t: "count_maildir V m = Some (t, tally (all_sizes V m) (0, 0))" "stat_maildir V m = Some t"
    using count_maildir_tally [OF assms(1,2)] by blast
  obtain p where p: "makenew_loop V D m 0 = Some p" using makenew_loop_returns assms(4,5) by blast
  have m: "str_of (info_maildir info) = m" using assms(6) by (simp add: str_of_def)
  have new: "\<exists>i D1. makenewmaildirsizename V D m = Some (Some (p, i, D1))"
    using assms(1) p by (simp add: makenewmaildirsizename_def calls_work_def Let_def)
  then obtain i D1 where new: "makenewmaildirsizename V D m = Some (Some (p, i, D1))" by blast
  obtain s c where sc: "tally (all_sizes V m) (0, 0) = (s, c)" by fastforce
  have "fst (doaddquota V info i s (sint c) True D1)"
    using assms(8) by (simp add: doaddquota_def write_fd_def exact_size_def sc)
  then obtain D2 where w: "doaddquota V info i s (sint c) True D1 = (True, D2)"
    by (metis prod.collapse)
  have e: "exact_size V m = \<lparr>nbytes = s, nmessages = sint c\<rparr>" by (simp add: exact_size_def sc)
  have r: "\<exists>info' D'. replace_sizefile V V info b n pc (t, s, c) (p, i, D1) = (ce', cp', info', D') \<and>
      info_quota info' = info_quota info \<and> info_size info' = exact_size V m" for pc
    using assms(3) t(2) ck' by (simp add: replace_sizefile_def w Let_def m e)
  have "\<not> (\<not> recalculation_needed info \<and> (ce = None \<or> nlines info = 1 \<and> now V < st_mtime info + 15 * 60))"
    using assms(9) checkQuota_None [OF ck] by blast
  then obtain pc where "docheckquota V V info b n D = Some (replace_sizefile V V info b n pc (t, s, c) (p, i, D1))"
    using assms(7) by (auto simp: docheckquota_def ck Let_def m t(1) sc new)
  with r [of pc] checkQuota_None [OF ck'] checkQuota_errno [OF ck'] show ?thesis
    by auto
qed

text \<open>
  When a check counts the maildir: if opening asked for it, or if the recorded size plus the message is
  above the quota, unless the file has one line and was changed less than 15 minutes ago.
\<close>

definition count_due :: "view \<Rightarrow> maildirsize \<Rightarrow> int \<Rightarrow> int \<Rightarrow> bool" where
  "count_due V info b n \<longleftrightarrow> recalculation_needed info \<or>
     \<not> within (add_size (info_size info) b n) (info_quota info) \<and> \<not> (nlines info = 1 \<and> now V < st_mtime info + 15 * 60)"

text \<open>
  C22. With the size file open, on a maildir that nobody changes and whose names have no slash, with a system
  where no call fails and a temporary name is free, a check always decides, with success or \<open>ENOSPC\<close>. If a count is due, the size afterwards is the exact one and the decision is
  the one for the exact size; the check never takes its own two passes over the directories for a
  race. If none is due, nothing changes and the decision is the one for the recorded size.
\<close>

theorem quiet_check_decides:
  assumes "calls_work V" "plain_names V m" "rename_works V" "names D (temp_name V m j) = None"
    "create_works V (temp_name V m j)" "info_maildir info = Live m" "fd info \<noteq> None"
    "length (quota_line (info_quota info)) + length (change_line (nbytes (exact_size V m)) (nmessages (exact_size V m))) \<le> disk_room V"
  shows "if count_due V info b n
    then \<exists>info' D'. maildir_checkquota V V info b n D =
        Some (if within (add_size (exact_size V m) b n) (info_quota info) then None else Some ENOSPC, info', D') \<and>
      info_quota info' = info_quota info \<and> info_size info' = exact_size V m
    else maildir_checkquota V V info b n D =
        Some (if within (add_size (info_size info) b n) (info_quota info) then None else Some ENOSPC, info, D)"
proof (cases "count_due V info b n")
  case True
  then have "\<not> (\<not> recalculation_needed info \<and> (within (add_size (info_size info) b n) (info_quota info) \<or>
      nlines info = 1 \<and> now V < st_mtime info + 15 * 60))" by (auto simp: count_due_def)
  from quiet_recalculation [OF assms this] True show ?thesis
    by (auto simp: maildir_checkquota_def split: if_splits)
next
  case False
  obtain ce cp where ck: "checkQuota (add_size (info_size info) b n) (info_quota info) = (ce, cp)"
    by fastforce
  have "docheckquota V V info b n D = Some (ce, cp, info, D)"
    using False assms(7) checkQuota_None [OF ck] by (auto simp: docheckquota_def ck count_due_def)
  then show ?thesis
    using False checkQuota_None [OF ck] checkQuota_errno [OF ck] by (auto simp: maildir_checkquota_def)
qed

theorem quiet_check_decides_witness:
  "\<exists>info' D'. maildir_checkquota two_messages two_messages (sample_info\<lparr>recalculation_needed := True\<rparr>) 50 1
    (one_file sample_file) = Some (None, info', D') \<and> info_size info' = \<lparr>nbytes = 37, nmessages = 2\<rparr>"
proof -
  have e: "exact_size two_messages (asc ''m'') = \<lparr>nbytes = 37, nmessages = 2\<rparr>" by code_simp
  have "length (quota_line (info_quota sample_info)) + length (change_line 37 2) \<le> disk_room two_messages"
    by code_simp
  moreover have "within (add_size \<lparr>nbytes = 37, nmessages = 2\<rparr> 50 1) (info_quota sample_info)" by code_simp
  moreover have "names (one_file sample_file) (temp_name two_messages (asc ''m'') 0) = None" by code_simp
  moreover have "count_due two_messages (sample_info\<lparr>recalculation_needed := True\<rparr>) 50 1" by (simp add: count_due_def)
  moreover have "info_quota (sample_info\<lparr>recalculation_needed := True\<rparr>) = info_quota sample_info" by simp
  moreover have "rename_works two_messages" "create_works two_messages (temp_name two_messages (asc ''m'') 0)"
    "info_maildir (sample_info\<lparr>recalculation_needed := True\<rparr>) = Live (asc ''m'')" "fd (sample_info\<lparr>recalculation_needed := True\<rparr>) \<noteq> None"
    by (simp_all add: two_messages_def plain_view_def sample_info_def)
  ultimately show ?thesis
    using quiet_check_decides [of two_messages "asc ''m''" "one_file sample_file" 0
        "sample_info\<lparr>recalculation_needed := True\<rparr>" 50 1, OF conjunct1 [OF two_works] conjunct2 [OF two_works]] e by simp blast
qed

text \<open>
  C39. When the size file cannot be read, \<open>maildir_quota_add_start\<close> allows the message, and
  \<open>maildir_quota_add_end\<close>, called as the interface asks for, frees the two strings of the structure
  a second time.
\<close>

theorem read_error_frees_twice:
  assumes "\<forall>k. malloc_works (Vs 0) k" "\<not> folder_mark (Vs 0) m" "names D (m @ asc ''/maildirsize'') = Some i"
    "\<not> read_works (Vs 0)"
  shows "\<exists>info. maildir_quota_add_start Vs m b n None D = Some (True, info, D) \<and>
    misused (snd (maildir_quota_add_end V info b n D))"
proof -
  let ?i = "info_zero\<lparr>info_maildir := Dangling, info_file := Dangling, fd := None\<rparr>"
  have "open_at (Vs 0) D m None = (Some EOTHER, ?i)"
    using assms(3,4) by (simp add: open_at_def do_maildir_openquotafile_def info_zero_def)
  then have "open_or_none (Vs 0) m D = Some ?i"
    using assms(1,2) by (simp add: open_or_none_def maildir_openquotafile_def init_unfold [of _ _ m])
  then have "maildir_quota_add_start Vs m b n None D = Some (True, ?i, D)"
    by (simp add: maildir_quota_add_start_def use_newquota_def)
  moreover have "misused (snd (maildir_quota_add_end V ?i b n D))"
    by (simp add: maildir_quota_add_end_def maildir_addquota_def maildir_closequotafile_def free_ptr_def)
  ultimately show ?thesis by blast
qed

theorem read_error_frees_twice_witness:
  "\<exists>info. maildir_quota_add_start (\<lambda>_. plain_view\<lparr>read_works := False\<rparr>) (asc ''m'') 50 1 None (one_file sample_file) =
      Some (True, info, one_file sample_file) \<and>
    misused (snd (maildir_quota_add_end plain_view info 50 1 (one_file sample_file)))"
  by (rule read_error_frees_twice [where i = 1]) (simp_all add: plain_view_def one_file_def)

end
