(* ===== verification/Rfc822_Date.thy ===== *)
theory Rfc822_Date imports Numlib begin

text \<open>
  Dates of mail headers, \<open>wmail/rfc822\<close>: reading one (\<open>rfc822_parsedt.c\<close>) and making one
  (\<open>rfc822_mkdate.c\<close> and \<open>rfc822_mkdt\<close>). The calendar of C's \<open>gmtime\<close> is defined here;
  \<open>localtime\<close> and the variables of the C library that describe the zone are arguments.
\<close>

subsection \<open>The calendar\<close>

definition leap :: "nat \<Rightarrow> bool" where
  "leap y \<longleftrightarrow> y mod 400 = 0 \<or> (y mod 4 = 0 \<and> y mod 100 \<noteq> 0)"

definition mlength :: "nat list" where
  "mlength = [31, 28, 31, 30, 31, 30, 31, 31, 30, 31, 30, 31]"

definition mdays :: "nat \<Rightarrow> nat \<Rightarrow> nat" where
  "mdays m y = (if m \<noteq> 2 then mlength ! (m - 1) else if leap y then 29 else 28)"

text \<open>\<open>gmtime\<close> for times from 1970 on: days are taken off year by year, then month by month.\<close>

record tm =
  tm_year :: nat
  tm_mon :: nat
  tm_mday :: nat
  tm_hour :: nat
  tm_min :: nat
  tm_sec :: nat
  tm_wday :: nat

definition ydays :: "nat \<Rightarrow> nat" where "ydays y = (if leap y then 366 else 365)"

function civil_year :: "nat \<Rightarrow> nat \<Rightarrow> nat \<times> nat" where
  "civil_year d y = (if d < ydays y then (y, d) else civil_year (d - ydays y) (y + 1))"
  by pat_completeness auto
termination
  by (relation "measure fst") (auto simp: ydays_def)

declare civil_year.simps [simp del]

fun civil_month :: "nat \<Rightarrow> nat \<Rightarrow> nat \<Rightarrow> nat \<Rightarrow> nat \<times> nat" where
  "civil_month 0 d y m = (m, d)"
| "civil_month (Suc k) d y m = (if d < mdays m y then (m, d) else civil_month k (d - mdays m y) y (m + 1))"

definition gmtime :: "nat \<Rightarrow> tm" where
  "gmtime t =
     (let d = t div 86400; s = t mod 86400 in
      case civil_year d 1970 of (y, d') \<Rightarrow> case civil_month 11 d' y 1 of (m, d'') \<Rightarrow>
        \<lparr>tm_year = y - 1900, tm_mon = m - 1, tm_mday = d'' + 1, tm_hour = s div 3600, tm_min = s div 60 mod 60,
         tm_sec = s mod 60, tm_wday = (d + 4) mod 7\<rparr>)"

subsection \<open>Reading\<close>

text \<open>An \<open>unsigned\<close> wraps around.\<close>

definition parsedig :: "byte list \<Rightarrow> u32 \<times> byte list" where
  "parsedig p = (foldl (\<lambda>i c. i * 10 + ucast c - 48) 0 (takeWhile isdigit p), dropWhile isdigit p)"

definition weekdays :: "byte list list" where
  "weekdays = map asc [''Sun'', ''Mon'', ''Tue'', ''Wed'', ''Thu'', ''Fri'', ''Sat'']"

definition mnames :: "byte list list" where
  "mnames = map asc [''Jan'', ''Feb'', ''Mar'', ''Apr'', ''May'', ''Jun'', ''Jul'', ''Aug'', ''Sep'', ''Oct'', ''Nov'', ''Dec'']"

definition zonenames :: "byte list list" where
  "zonenames = map asc [''UT'', ''GMT'', ''EST'', ''EDT'', ''CST'', ''CDT'', ''MST'', ''MDT'', ''PST'', ''PDT'', ''Z''] @
     map (\<lambda>c. [c]) (asc ''ABCDEFGHIKLMNOPQRSTUVWXY'')"

definition ZH :: "int \<Rightarrow> int" where "ZH n = n * 60 * 60"

definition zoneoffset :: "int list" where
  "zoneoffset = [0, 0, ZH (-5), ZH (-4), ZH (-6), ZH (-5), ZH (-7), ZH (-6), ZH (-8), ZH (-7), 0,
     ZH (-1), ZH (-2), ZH (-3), ZH (-4), ZH (-5), ZH (-6), ZH (-7), ZH (-8), ZH (-9), ZH (-10), ZH (-11), ZH (-12),
     ZH 1, ZH 2, ZH 3, ZH 4, ZH 5, ZH 6, ZH 7, ZH 8, ZH 9, ZH 10, ZH 11, ZH 12]"

text \<open>Whether the text starts with the name, in either case; \<open>parsekey\<close> is 0 if no name fits.\<close>

fun key_match :: "byte list \<Rightarrow> byte list \<Rightarrow> bool" where
  "key_match [] mon = True"
| "key_match (a # ary) mon = (if tolower a \<noteq> tolower (at mon 0) then False else key_match ary (drop 1 mon))"

fun parsekey :: "byte list \<Rightarrow> nat \<Rightarrow> byte list list \<Rightarrow> nat \<times> byte list" where
  "parsekey mon m [] = (0, mon)"
| "parsekey mon m (a # ary) = (if key_match a mon then (m + 1, drop (length a) mon) else parsekey mon (m + 1) ary)"

text \<open>The seconds of the day, or -1, and what is left.\<close>

definition parsetime :: "byte list \<Rightarrow> int \<times> byte list" where
  "parsetime t =
     (if \<not> isdigit (at t 0) then (-1, t)
      else case parsedig t of (h, t) \<Rightarrow>
        if 23 < h then (-1, t)
        else if at t 0 \<noteq> ch CHR '':'' then (-1, t)
        else let t = drop 1 t in
          if \<not> isdigit (at t 0) then (-1, t)
          else case parsedig t of (m, t) \<Rightarrow>
            if at t 0 = ch CHR '':'' \<and> \<not> isdigit (at (drop 1 t) 0) then (-1, drop 1 t)
            else case (if at t 0 = ch CHR '':'' then parsedig (drop 1 t) else (0, t)) of (s, t) \<Rightarrow>
              if 59 < m \<or> 59 < s then (-1, t)
              else (uint (h * 60 * 60 + m * 60 + s), t))"

text \<open>The loop that looks for the day and the month, in either order; \<open>None\<close> is \<open>return (0)\<close>.\<close>

lemma parsekey_length: "length (snd (parsekey mon m ary)) \<le> length mon"
  by (induction mon m ary rule: parsekey.induct) auto

lemma parsekey_shorter: "fst (parsekey mon m ary) \<noteq> 0 \<Longrightarrow> mon \<noteq> [] \<Longrightarrow> [] \<notin> set ary \<Longrightarrow> length (snd (parsekey mon m ary)) < length mon"
  by (induction mon m ary rule: parsekey.induct) (auto split: if_splits)

lemma mnames_nonempty: "[] \<notin> set mnames"
  by (simp add: mnames_def)

lemma parsekey_mnames_shorter: "(m, s') = parsekey s 0 mnames \<Longrightarrow> 0 < m \<Longrightarrow> s \<noteq> [] \<Longrightarrow> length s' < length s"
  using parsekey_shorter [of s 0 mnames] mnames_nonempty by (metis fst_conv snd_conv not_gr_zero)

lemma dropWhile_shorter: "s \<noteq> [] \<Longrightarrow> P (hd s) \<Longrightarrow> length (dropWhile P s) < length s"
  by (cases s) (auto simp: le_imp_less_Suc length_dropWhile_le)

function day_month :: "byte list \<Rightarrow> u32 \<Rightarrow> nat \<Rightarrow> (u32 \<times> nat \<times> byte list) option" where
  "day_month s day mon =
     (if day \<noteq> 0 \<and> mon \<noteq> 0 then Some (day, mon, s)
      else if s = [] then None
      else if isalpha (hd s) then
        if mon \<noteq> 0 then None
        else case parsekey s 0 mnames of (mon, s') \<Rightarrow>
          day_month (if mon = 0 then dropWhile isalpha s else s') day mon
      else if isdigit (hd s) then
        if day \<noteq> 0 then None
        else case parsedig s of (day, s') \<Rightarrow> if day = 0 then None else day_month s' day mon
      else day_month (tl s) day mon)"
  by pat_completeness auto
termination
  by (relation "measure (\<lambda>(s, day, mon). length s)")
    (auto simp: parsedig_def dropWhile_shorter parsekey_mnames_shorter)

declare day_month.simps [simp del]

text \<open>The zone: a name, or a sign and four digits.\<close>

definition zone_start :: "byte \<Rightarrow> bool" where
  "zone_start c \<longleftrightarrow> isalnum c \<or> c = ch CHR ''+'' \<or> c = ch CHR ''-''"

definition parsezone :: "byte list \<Rightarrow> int" where
  "parsezone s =
     (let s = dropWhile (\<lambda>c. \<not> zone_start c) s in
      if isalpha (at s 0)
      then case parsekey s 0 zonenames of (n, _) \<Rightarrow> if 0 < n then zoneoffset ! (n - 1) else 0
      else let sign = (if at s 0 = ch CHR ''-'' then -1 else 1 :: int);
               s = (if at s 0 = ch CHR ''-'' \<or> at s 0 = ch CHR ''+'' then drop 1 s else s)
        in if isdigit (at s 0)
           then case parsedig s of (n, _) \<Rightarrow>
             let n = (if 2359 < n \<or> 59 < n mod 100 then 0 else n)
             in sign * uint (n mod 100 * 60 + n div 100 * 60 * 60)
           else 0)"

text \<open>The seconds before the year, four years at a time from a leap year on.\<close>

function year_loop :: "nat \<Rightarrow> nat \<Rightarrow> int \<Rightarrow> int" where
  "year_loop y year t =
     (if y < year then
        if leap y then
          if 4 \<le> year - y then year_loop (y + 4) year (t + (365 * 3 + 366) * 24 * 60 * 60)
          else year_loop (y + 1) year (t + 24 * 60 * 60 + 365 * 24 * 60 * 60)
        else year_loop (y + 1) year (t + 365 * 24 * 60 * 60)
      else t)"
  by pat_completeness auto
termination
  by (relation "measure (\<lambda>(y, year, t). year - y)") auto

declare year_loop.simps [simp del]

definition month_loop :: "nat \<Rightarrow> nat \<Rightarrow> int \<Rightarrow> int" where
  "month_loop mon year t = foldl (\<lambda>t y. t + int (mdays y year) * 24 * 60 * 60) t [1..<mon]"

definition full_year :: "u32 \<Rightarrow> u32" where
  "full_year year =
     (let year = (if year < 70 then year + 2000 else year) in if year < 100 then year + 1900 else year)"

definition rfc822_parsedt :: "byte list \<Rightarrow> int" where
  "rfc822_parsedt rfcdt =
     (case day_month rfcdt 0 0 of
        None \<Rightarrow> 0
      | Some (day, mon, s) \<Rightarrow>
          let s = dropWhile isspace s in
          if \<not> isdigit (at s 0) then 0
          else case parsedig s of (year, s) \<Rightarrow>
            let year = unat (full_year year); s = dropWhile isspace s; day = unat day in
            if day = 0 \<or> mon = 0 \<or> 12 < mon \<or> mdays mon year < day then 0
            else case parsetime s of (secs, s) \<Rightarrow>
              if secs < 0 then 0
              else let offset = parsezone s in
                if year < 1970 then 0
                else if 9999 < year then 0
                else month_loop mon year (year_loop 1970 year 0) + int (day - 1) * 24 * 60 * 60 + secs - offset)"

subsection \<open>Writing\<close>

text \<open>\<open>"%0<n>d"\<close> and \<open>"%+05d"\<close>\<close>

definition pad0 :: "nat \<Rightarrow> nat \<Rightarrow> byte list" where
  "pad0 n x = (let s = dec_loop (int x) [] in replicate (n - length s) 48 @ s)"

definition signed_05d :: "int \<Rightarrow> byte list" where
  "signed_05d x = (if x < 0 then ch CHR ''-'' else ch CHR ''+'') # pad0 4 (nat \<bar>x\<bar>)"

definition date_text :: "'a tm_scheme \<Rightarrow> byte list \<Rightarrow> byte list" where
  "date_text p z =
     weekdays ! tm_wday p @ asc '', '' @ pad0 2 (tm_mday p) @ asc '' '' @ mnames ! tm_mon p @ asc '' '' @
     pad0 4 (tm_year p + 1900) @ asc '' '' @ pad0 2 (tm_hour p) @ asc '':'' @ pad0 2 (tm_min p) @ asc '':'' @
     pad0 2 (tm_sec p) @ asc '' '' @ z"

definition rfc822_mkdt :: "nat \<Rightarrow> byte list" where
  "rfc822_mkdt t = date_text (gmtime t) (asc ''GMT'')"

text \<open>
  The C library: \<open>localtime\<close>, whose structure has two more members, and the values of the variables
  \<open>timezone\<close> and \<open>altzone\<close> after it was called for a time. The configuration chooses one of four ways
  to find the offset of the zone.
\<close>

record local_tm = tm +
  tm_isdst :: int
  tm_gmtoff :: int

record libc_time =
  localtime :: "int \<Rightarrow> local_tm"
  timezone :: "int \<Rightarrow> int"
  altzone :: "int \<Rightarrow> int"

datatype use_time = USE_TIME_ALTZONE | USE_TIME_DAYLIGHT | USE_TIME_GMTOFF | USE_TIME_NONE

definition tm_offset :: "use_time \<Rightarrow> libc_time \<Rightarrow> int \<Rightarrow> int" where
  "tm_offset V L t =
     (let p = localtime L t in
      case V of
        USE_TIME_ALTZONE \<Rightarrow> if 0 < tm_isdst p then - altzone L t else - timezone L t
      | USE_TIME_DAYLIGHT \<Rightarrow> if 0 < tm_isdst p then - timezone L t + 60 * 60 else - timezone L t
      | USE_TIME_GMTOFF \<Rightarrow> tm_gmtoff p
      | USE_TIME_NONE \<Rightarrow> 0)"

definition rfc822_mkdate_buf :: "use_time \<Rightarrow> libc_time \<Rightarrow> int \<Rightarrow> byte list" where
  "rfc822_mkdate_buf V L t =
     (let offset = tm_offset V L t;
          (offset, p) =
            (if V = USE_TIME_NONE \<or> offset smod 60 \<noteq> 0 then (0, gmtime (nat t)) else (offset, tm.truncate (localtime L t)));
          offset = offset sdiv 60;
          offset = offset smod 60 + offset sdiv 60 * 100
      in date_text p (signed_05d offset))"

definition rfc822_mkdate :: "use_time \<Rightarrow> libc_time \<Rightarrow> int \<Rightarrow> byte list" where
  "rfc822_mkdate V L t = rfc822_mkdate_buf V L t"

subsection \<open>The calendar and the loops of the parser\<close>

lemma sum_upt_Suc: "a < b \<Longrightarrow> sum_list (map f [a..<b]) = f a + sum_list (map f [Suc a..<b])"
  by (simp add: upt_conv_Cons)

lemma civil_year_sum:
  "civil_year d y0 = (y, d') \<Longrightarrow> y0 \<le> y \<and> d' < ydays y \<and> d = sum_list (map ydays [y0..<y]) + d'"
proof (induction d y0 arbitrary: y d' rule: civil_year.induct)
  case (1 d y0)
  show ?case
  proof (cases "d < ydays y0")
    case True
    then show ?thesis using 1(2) by (subst (asm) civil_year.simps) simp
  next
    case False
    then have "civil_year (d - ydays y0) (y0 + 1) = (y, d')"
      using 1(2) by (subst (asm) civil_year.simps) simp
    from 1(1) [OF False this] False show ?thesis by (auto simp: sum_upt_Suc)
  qed
qed

lemma civil_month_sum:
  "civil_month k d y m = (m', d') \<Longrightarrow> d < sum_list (map (\<lambda>i. mdays i y) [m..<m + k + 1]) \<Longrightarrow>
    m \<le> m' \<and> m' \<le> m + k \<and> d' < mdays m' y \<and> d = sum_list (map (\<lambda>i. mdays i y) [m..<m']) + d'"
proof (induction k arbitrary: d m)
  case 0
  then show ?case by simp
next
  case (Suc k)
  show ?case
  proof (cases "d < mdays m y")
    case True
    then show ?thesis using Suc(2) by simp
  next
    case False
    then have "civil_month k (d - mdays m y) y (m + 1) = (m', d')" using Suc(2) by simp
    moreover have "d - mdays m y < sum_list (map (\<lambda>i. mdays i y) [m + 1..<m + 1 + k + 1])"
      using Suc(3) False by (subst (asm) sum_upt_Suc) auto
    ultimately have "m + 1 \<le> m' \<and> m' \<le> m + 1 + k \<and> d' < mdays m' y \<and>
        d - mdays m y = sum_list (map (\<lambda>i. mdays i y) [m + 1..<m']) + d'"
      by (rule Suc(1))
    then show ?thesis using False by (auto simp: sum_upt_Suc [of m])
  qed
qed

lemma year_of_months: "sum_list (map (\<lambda>i. mdays i y) [1..<13]) = ydays y"
proof -
  have u: "[1..<13] = [1::nat, 2, 3, 4, 5, 6, 7, 8, 9, 10, 11, 12]" by (simp add: upt_rec)
  show ?thesis unfolding u by (simp add: mdays_def mlength_def ydays_def)
qed

lemma not_leap: "leap y \<Longrightarrow> 0 < k \<Longrightarrow> k < 4 \<Longrightarrow> \<not> leap (y + k)"
proof -
  assume l: "leap y" and k: "0 < k" "k < 4"
  have "y mod 4 = 0" using l by (auto simp: leap_def)
  then have m: "(y + k) mod 4 = k" using k by presburger
  have "(y + k) mod 400 mod 4 = (y + k) mod 4" by (rule mod_mod_cancel) simp
  then have "(y + k) mod 400 \<noteq> 0" using m k by auto
  then show ?thesis using m k by (auto simp: leap_def)
qed

lemma year_loop_sum: "year_loop y year t = t + 86400 * int (sum_list (map ydays [y..<year]))"
proof (induction y year t rule: year_loop.induct)
  case (1 y year t)
  show ?case
  proof (cases "y < year")
    case False
    then show ?thesis by (subst year_loop.simps) simp
  next
    case True
    note st = sum_upt_Suc [OF True, of ydays]
    show ?thesis
    proof (cases "leap y")
      case False
      then show ?thesis using 1(3) True st by (subst year_loop.simps) (simp add: ydays_def [of y])
    next
      case leap: True
      show ?thesis
      proof (cases "4 \<le> year - y")
        case False
        then show ?thesis using 1(2) True leap st by (subst year_loop.simps) (simp add: ydays_def [of y])
      next
        case four: True
        have "\<not> leap (Suc y)" "\<not> leap (Suc (Suc y))" "\<not> leap (Suc (Suc (Suc y)))"
          using not_leap [OF leap, of 1] not_leap [OF leap, of 2] not_leap [OF leap, of 3] by (simp_all add: eval_nat_numeral)
        then have "sum_list (map ydays [y..<year]) = 1461 + sum_list (map ydays [y + 4..<year])"
          using four leap sum_upt_Suc [of y year ydays] sum_upt_Suc [of "Suc y" year ydays]
            sum_upt_Suc [of "Suc (Suc y)" year ydays] sum_upt_Suc [of "Suc (Suc (Suc y))" year ydays]
          by (simp add: ydays_def [of y] ydays_def [of "Suc y"] ydays_def [of "Suc (Suc y)"] ydays_def [of "Suc (Suc (Suc y))"]
              eval_nat_numeral)
        then show ?thesis using 1(1) True leap four by (subst year_loop.simps) simp
      qed
    qed
  qed
qed

lemma month_loop_sum: "month_loop m y t = t + 86400 * int (sum_list (map (\<lambda>i. mdays i y) [1..<m]))"
proof -
  have "foldl (\<lambda>t y'. t + int (mdays y' y) * 24 * 60 * 60) t xs = t + 86400 * int (sum_list (map (\<lambda>i. mdays i y) xs))" for xs
    by (induction xs arbitrary: t) (simp_all add: algebra_simps)
  then show ?thesis by (simp add: month_loop_def)
qed

lemma clock_sum: "(s :: nat) = s div 3600 * 3600 + s div 60 mod 60 * 60 + s mod 60"
proof -
  define a where "a = s div 60"
  have "s = a * 60 + s mod 60" "a = a div 60 * 60 + a mod 60" by (simp_all add: a_def)
  moreover have "s div 3600 = a div 60" unfolding a_def by (simp only: div_mult2_eq [symmetric]) simp
  ultimately show ?thesis unfolding a_def [symmetric] by linarith
qed

text \<open>The fields of \<open>gmtime\<close> are in range and add up to the time.\<close>

lemma gmtime_fields:
  assumes "t < 252000000000" "p = gmtime t"
  shows "1970 \<le> tm_year p + 1900" "tm_year p + 1900 \<le> 9999" "tm_mon p < 12"
    "1 \<le> tm_mday p" "tm_mday p \<le> mdays (tm_mon p + 1) (tm_year p + 1900)"
    "tm_hour p < 24" "tm_min p < 60" "tm_sec p < 60" "tm_wday p < 7"
    "int t = month_loop (tm_mon p + 1) (tm_year p + 1900) (year_loop 1970 (tm_year p + 1900) 0) +
       int (tm_mday p - 1) * 86400 + int (tm_hour p * 3600 + tm_min p * 60 + tm_sec p)"
proof -
  let ?d = "t div 86400" and ?s = "t mod 86400"
  obtain y d' where y: "civil_year ?d 1970 = (y, d')" by fastforce
  obtain m d'' where m: "civil_month 11 d' y 1 = (m, d'')" by fastforce
  note ys = civil_year_sum [OF y]
  have "d' < sum_list (map (\<lambda>i. mdays i y) [1..<1 + 11 + 1])"
    using ys year_of_months [of y] by simp
  note ms = civil_month_sum [OF m this]
  have "365 * (y - 1970) \<le> sum_list (map ydays [1970..<y])"
  proof -
    have "sum_list (map (\<lambda>_. 365) [1970..<y]) \<le> sum_list (map ydays [1970..<y])"
      by (rule sum_list_mono) (simp add: ydays_def)
    then show ?thesis by (simp add: sum_list_triv mult.commute)
  qed
  then have "365 * (y - 1970) \<le> ?d" using ys by simp
  then have "y \<le> 9999" using assms(1) by linarith
  have p: "p = \<lparr>tm_year = y - 1900, tm_mon = m - 1, tm_mday = d'' + 1, tm_hour = ?s div 3600, tm_min = ?s div 60 mod 60,
         tm_sec = ?s mod 60, tm_wday = (?d + 4) mod 7\<rparr>"
    using m by (simp add: assms(2) gmtime_def Let_def y)
  have y1900: "y - 1900 + 1900 = y" and m1: "m - 1 + 1 = m" using ys ms by auto
  show "1970 \<le> tm_year p + 1900" "tm_year p + 1900 \<le> 9999" "tm_mon p < 12"
    "1 \<le> tm_mday p" "tm_mday p \<le> mdays (tm_mon p + 1) (tm_year p + 1900)" "tm_min p < 60" "tm_sec p < 60" "tm_wday p < 7"
    using ys ms \<open>y \<le> 9999\<close> y1900 m1 by (auto simp: p)
  have "?s < 86400" by simp
  then show "tm_hour p < 24" unfolding p tm.simps by (simp add: div_less_dividend less_mult_imp_div_less)
  have "?s = ?s div 3600 * 3600 + ?s div 60 mod 60 * 60 + ?s mod 60" by (rule clock_sum)
  moreover have "int t = 86400 * int ?d + int ?s" by (metis mult_div_mod_eq of_nat_add of_nat_mult of_nat_numeral)
  ultimately show "int t = month_loop (tm_mon p + 1) (tm_year p + 1900) (year_loop 1970 (tm_year p + 1900) 0) +
       int (tm_mday p - 1) * 86400 + int (tm_hour p * 3600 + tm_min p * 60 + tm_sec p)"
    using ys ms y1900 m1 by (simp add: p month_loop_sum year_loop_sum algebra_simps)
qed

subsection \<open>Numbers as text\<close>

lemma foldl_digits: "foldl (\<lambda>i c. i * 10 + ucast c - 48) (of_int v :: u32) ds = of_int (foldl (\<lambda>v c. v * 10 + (uint c - 48)) v ds)"
proof (induction ds arbitrary: v)
  case (Cons c ds)
  have "(of_int v * 10 + ucast c - 48 :: u32) = of_int (v * 10 + (uint c - 48))"
    by (simp add: of_int_uint)
  then show ?case unfolding foldl.simps by (simp only: Cons)
qed simp

lemma pad0_digits: "pad0 n x \<noteq> [] \<and> (\<forall>c\<in>set (pad0 n x). isdigit c) \<and> dec_value (pad0 n x) = int x"
proof -
  have z: "foldl (\<lambda>v c. v * 10 + (uint c - 48)) 0 (replicate k (48 :: byte)) = (0 :: int)" for k
    by (induction k) auto
  have "dec_loop (int x) [] \<noteq> [] \<and> (\<forall>c\<in>set (dec_loop (int x) []). isdigit c) \<and> dec_value (dec_loop (int x) []) = int x"
    using dec_loop_numeral [of "int x"] by (simp add: dec_numeral_def)
  then show ?thesis by (auto simp: pad0_def Let_def dec_value_def z isdigit_def)
qed

lemma parsedig_pad0: "r = [] \<or> \<not> isdigit (hd r) \<Longrightarrow> parsedig (pad0 n x @ r) = (of_nat x, r)"
proof -
  assume r: "r = [] \<or> \<not> isdigit (hd r)"
  have "takeWhile isdigit (pad0 n x @ r) = pad0 n x" "dropWhile isdigit (pad0 n x @ r) = r"
    using pad0_digits [of n x] r by (cases r; simp)+
  then show ?thesis
    using foldl_digits [of 0 "pad0 n x"] pad0_digits [of n x] by (simp add: parsedig_def dec_value_def)
qed

lemma pad0_head: "isdigit (at (pad0 n x @ r) 0)" "isdigit (hd (pad0 n x @ r))" "pad0 n x \<noteq> []"
proof -
  obtain c d where "pad0 n x = c # d" using pad0_digits [of n x] by (cases "pad0 n x") auto
  moreover from this have "isdigit c" using pad0_digits [of n x] by simp
  ultimately show "isdigit (at (pad0 n x @ r) 0)" "isdigit (hd (pad0 n x @ r))" "pad0 n x \<noteq> []" by simp_all
qed

lemma parsetime_text:
  assumes "h < 24" "m < 60" "s < 60" "r = [] \<or> \<not> isdigit (hd r)"
  shows "parsetime (pad0 2 h @ asc '':'' @ pad0 2 m @ asc '':'' @ pad0 2 s @ r) = (int (h * 3600 + m * 60 + s), r)"
proof -
  have nd: "\<not> isdigit (ch CHR '':'')" by (simp add: isdigit_def)
  have w: "unat (of_nat h :: u32) = h" "unat (of_nat m :: u32) = m" "unat (of_nat s :: u32) = s"
    using assms by (simp_all add: unat_of_nat take_bit_nat_eq_self)
  have le: "\<not> 23 < (of_nat h :: u32)" "\<not> 59 < (of_nat m :: u32)" "\<not> 59 < (of_nat s :: u32)"
    using assms by (simp_all add: word_less_nat_alt w)
  have "uint (of_nat h * 60 * 60 + of_nat m * 60 + of_nat s :: u32) = int (h * 3600 + m * 60 + s)"
  proof -
    have "(of_nat h * 60 * 60 + of_nat m * 60 + of_nat s :: u32) = of_nat (h * 3600 + m * 60 + s)" by simp
    then show ?thesis using assms by (simp only: uint_nat unat_of_nat) (simp add: take_bit_nat_eq_self)
  qed
  then show ?thesis
    using parsedig_pad0 [of "asc '':'' @ pad0 2 m @ asc '':'' @ pad0 2 s @ r" 2 h]
      parsedig_pad0 [of "asc '':'' @ pad0 2 s @ r" 2 m] parsedig_pad0 [OF assms(4), of 2 s] nd le
    by (simp add: parsetime_def pad0_head Let_def)
qed

lemma parsezone_gmt: "parsezone (asc '' GMT'') = 0"
  by code_simp

text \<open>A zone name that is not in the table is read as the military zone of its first letter.\<close>

lemma parsezone_cet: "parsezone (asc '' CET'') = ZH (-3)"
  by code_simp

text \<open>The number that is printed for an offset of whole minutes.\<close>

definition zone_code :: "int \<Rightarrow> int" where
  "zone_code offset = (offset sdiv 60) smod 60 + (offset sdiv 60) sdiv 60 * 100"

lemma zone_code_nonneg:
  assumes "0 \<le> x" "x < 86400" "x mod 60 = 0"
  shows "zone_code x = x div 60 mod 60 + x div 3600 * 100" "zone_code (- x) = - zone_code x"
    "zone_code x \<le> 2359" "zone_code x mod 100 = x div 60 mod 60" "zone_code x div 100 = x div 3600"
    "zone_code x mod 100 * 60 + zone_code x div 100 * 3600 = x"
proof -
  have d: "x div 60 div 60 = x div 3600" by (simp add: div_mult2_eq [symmetric] zdiv_zmult2_eq)
  have "- x div 60 = - (x div 60)" using assms(3) by (simp add: zdiv_zminus1_eq_if)
  show c: "zone_code x = x div 60 mod 60 + x div 3600 * 100"
    using assms(1) d by (simp add: zone_code_def signed_divide_int_def signed_modulo_int_def sgn_if div_pos_pos_trivial)
  show "zone_code (- x) = - zone_code x"
    using assms(1) by (auto simp: zone_code_def signed_divide_int_def signed_modulo_int_def sgn_if)
  have m: "0 \<le> x div 60 mod 60" "x div 60 mod 60 < 60" "x div 3600 < 24" "0 \<le> x div 3600" using assms by auto
  then show "zone_code x \<le> 2359" unfolding c by linarith
  show "zone_code x mod 100 = x div 60 mod 60" unfolding c using m by simp
  show "zone_code x div 100 = x div 3600" unfolding c using m by simp
  have "x = x div 60 * 60" using assms(3) div_mult_mod_eq [of x 60] by simp
  moreover have "x div 60 = x div 3600 * 60 + x div 60 mod 60" unfolding d [symmetric] by simp
  ultimately show "zone_code x mod 100 * 60 + zone_code x div 100 * 3600 = x"
    unfolding \<open>zone_code x mod 100 = x div 60 mod 60\<close> \<open>zone_code x div 100 = x div 3600\<close> by linarith
qed

lemma parsezone_number:
  assumes "n \<le> 2359" "n mod 100 \<le> 59" "sg = ch CHR ''+'' \<or> sg = ch CHR ''-''"
  shows "parsezone (asc '' '' @ sg # pad0 4 n) =
    (if sg = ch CHR ''-'' then -1 else 1) * int (n mod 100 * 60 + n div 100 * 3600)"
proof -
  have z: "dropWhile (\<lambda>c. \<not> zone_start c) (asc '' '' @ sg # pad0 4 n) = sg # pad0 4 n"
    using assms(3) by (auto simp: zone_start_def isalnum_def isalpha_def isupper_def islower_def isdigit_def)
  have a: "\<not> isalpha sg" using assms(3) by (auto simp: isalpha_def isupper_def islower_def)
  have u: "unat (of_nat n :: u32) = n" using assms(1) by (simp add: unat_of_nat take_bit_nat_eq_self)
  have le: "\<not> 2359 < (of_nat n :: u32)" "\<not> 59 < (of_nat n mod 100 :: u32)"
    using assms(1,2) by (simp_all add: word_less_nat_alt u unat_mod)
  have "(of_nat n mod 100 * 60 + of_nat n div 100 * 60 * 60 :: u32) = of_nat (n mod 100 * 60 + n div 100 * 3600)"
  proof -
    have "(of_nat n mod 100 :: u32) = of_nat (n mod 100)" "(of_nat n div 100 :: u32) = of_nat (n div 100)"
      using assms(1) by (simp_all add: word_unat_eq_iff unat_mod unat_div u)
        (simp_all add: unat_of_nat take_bit_nat_eq_self)
    then show ?thesis by simp
  qed
  moreover have "uint (of_nat (n mod 100 * 60 + n div 100 * 3600) :: u32) = int (n mod 100 * 60 + n div 100 * 3600)"
  proof -
    have "n div 100 \<le> 23" using assms(1) by auto
    then have "n mod 100 * 60 + n div 100 * 3600 < 2 ^ 32" using assms(2) by simp
    then show ?thesis by (simp only: uint_nat unat_of_nat) (simp add: take_bit_nat_eq_self)
  qed
  ultimately have v: "uint (of_nat n mod 100 * 60 + of_nat n div 100 * 60 * 60 :: u32) = int (n mod 100 * 60 + n div 100 * 3600)"
    by simp
  have d: "isdigit (at (pad0 4 n) 0)" using pad0_head(1) [of 4 n "[]"] by simp
  show ?thesis
    unfolding parsezone_def Let_def z
    using assms(3) a d parsedig_pad0 [of "[]" 4 n] le v by auto
qed

subsection \<open>Reading what was written\<close>

lemma ch_classes: "\<not> isalpha 44" "\<not> isdigit 44" "\<not> isalpha 32" "\<not> isdigit 32" "isspace 32"
  by (simp_all add: isalpha_def isupper_def islower_def isdigit_def isspace_def)

lemma digit_not_alpha: "isdigit c \<Longrightarrow> \<not> isalpha c \<and> \<not> isspace c"
  by (auto simp: isalpha_def isupper_def islower_def isdigit_def isspace_def word_le_def word_less_def)

lemma weekday_parse:
  "w < 7 \<Longrightarrow> parsekey (weekdays ! w @ 44 # r) 0 mnames = (0, weekdays ! w @ 44 # r) \<and> weekdays ! w \<noteq> [] \<and>
    isalpha (hd (weekdays ! w)) \<and> (\<forall>c\<in>set (weekdays ! w). isalpha c)"
proof -
  assume "w < 7"
  then have "w = 0 \<or> w = 1 \<or> w = 2 \<or> w = 3 \<or> w = 4 \<or> w = 5 \<or> w = 6" by linarith
  then show ?thesis
    by (elim disjE; simp add: weekdays_def mnames_def tolower_def isupper_def islower_def isalpha_def)
qed

lemma day_month_weekday: "w < 7 \<Longrightarrow> day_month (weekdays ! w @ 44 # r) 0 0 = day_month (44 # r) 0 0"
proof -
  assume "w < 7"
  note w = weekday_parse [OF this, of r]
  have "dropWhile isalpha (weekdays ! w @ 44 # r) = 44 # r"
    using w by (simp add: dropWhile_append ch_classes)
  then show ?thesis
    using w by (subst day_month.simps) simp
qed

lemma month_parse:
  "m < 12 \<Longrightarrow> parsekey (mnames ! m @ r) 0 mnames = (m + 1, r) \<and> mnames ! m \<noteq> [] \<and> isalpha (hd (mnames ! m))"
proof -
  assume "m < 12"
  then have "m = 0 \<or> m = 1 \<or> m = 2 \<or> m = 3 \<or> m = 4 \<or> m = 5 \<or> m = 6 \<or> m = 7 \<or> m = 8 \<or> m = 9 \<or> m = 10 \<or> m = 11"
    by presburger
  then show ?thesis
    by (elim disjE; simp add: mnames_def tolower_def isupper_def islower_def isalpha_def)
qed

lemma day_month_month: "m < 12 \<Longrightarrow> d \<noteq> 0 \<Longrightarrow> day_month (mnames ! m @ r) d 0 = Some (d, m + 1, r)"
  using month_parse [of m r]
  by (subst day_month.simps) (simp add: day_month.simps [of r d "Suc m"])

lemma day_month_text:
  assumes "w < 7" "m < 12" "1 \<le> d" "d < 100"
  shows "day_month (weekdays ! w @ asc '', '' @ pad0 2 d @ asc '' '' @ mnames ! m @ r) 0 0 = Some (of_nat d, m + 1, r)"
proof -
  have d: "(of_nat d :: u32) \<noteq> 0"
  proof
    assume "(of_nat d :: u32) = 0"
    then have "unat (of_nat d :: u32) = 0" by simp
    then show False using assms(3,4) by (simp add: unat_of_nat take_bit_nat_eq_self)
  qed
  let ?r = "asc '' '' @ mnames ! m @ r"
  have p: "parsedig (pad0 2 d @ ?r) = (of_nat d, ?r)" by (rule parsedig_pad0) (simp add: ch_classes)
  have "day_month (weekdays ! w @ asc '', '' @ pad0 2 d @ ?r) 0 0 = day_month (44 # 32 # pad0 2 d @ ?r) 0 0"
    using day_month_weekday [OF assms(1), of "32 # pad0 2 d @ ?r"] by simp
  also have "\<dots> = day_month (32 # pad0 2 d @ ?r) 0 0"
    by (subst day_month.simps) (simp add: ch_classes)
  also have "\<dots> = day_month (pad0 2 d @ ?r) 0 0"
    by (subst day_month.simps) (simp add: ch_classes)
  also have "\<dots> = day_month ?r (of_nat d) 0"
    using pad0_head(2) [of 2 d ?r] pad0_head(3) [of 2 d] p d digit_not_alpha [OF pad0_head(2) [of 2 d ?r]]
    by (subst day_month.simps) simp
  also have "\<dots> = day_month (mnames ! m @ r) (of_nat d) 0"
    using d by (subst day_month.simps) (simp add: ch_classes)
  finally show ?thesis using day_month_month [OF assms(2) d] by simp
qed

lemma mdays_le: "mdays m y \<le> 31" if "1 \<le> m" "m \<le> 12"
proof -
  have "m = 1 \<or> m = 2 \<or> m = 3 \<or> m = 4 \<or> m = 5 \<or> m = 6 \<or> m = 7 \<or> m = 8 \<or> m = 9 \<or> m = 10 \<or> m = 11 \<or> m = 12"
    using that by presburger
  then show ?thesis by (elim disjE; simp add: mdays_def mlength_def)
qed

text \<open>The text of the fields, with any text of a zone, is read back to the time of the fields.\<close>

lemma parsedt_text:
  assumes "t < 252000000000" "p = gmtime t"
  shows "rfc822_parsedt (date_text p z) = int t - parsezone (asc '' '' @ z)"
proof -
  note f = gmtime_fields [OF assms]
  let ?y = "tm_year p + 1900"
  let ?time = "pad0 2 (tm_hour p) @ asc '':'' @ pad0 2 (tm_min p) @ asc '':'' @ pad0 2 (tm_sec p) @ asc '' '' @ z"
  let ?year = "pad0 4 ?y @ asc '' '' @ ?time"
  have mon: "1 \<le> tm_mon p + 1" "tm_mon p + 1 \<le> 12" using f(3) by simp_all
  have d: "1 \<le> tm_mday p" "tm_mday p < 100" using f(4,5) mdays_le [OF mon, of ?y] by simp_all
  have dm: "day_month (weekdays ! tm_wday p @ asc '', '' @ pad0 2 (tm_mday p) @ asc '' '' @ mnames ! tm_mon p @ asc '' '' @ ?year) 0 0 =
      Some (of_nat (tm_mday p), tm_mon p + 1, asc '' '' @ ?year)"
    by (rule day_month_text [OF f(9,3) d])
  have sp: "dropWhile isspace (asc '' '' @ pad0 n x @ r) = pad0 n x @ r" for n x r
    using pad0_head(2) [of n x r] pad0_head(3) [of n x] digit_not_alpha [of "hd (pad0 n x @ r)"]
    by (cases "pad0 n x") (auto simp: ch_classes)
  have y: "parsedig ?year = (of_nat ?y, asc '' '' @ ?time)" by (rule parsedig_pad0) (simp add: ch_classes)
  have uy: "unat (of_nat ?y :: u32) = ?y" using f(2) by (simp only: unat_of_nat) (simp add: take_bit_nat_eq_self)
  have fy: "full_year (of_nat ?y) = of_nat ?y"
  proof -
    have "\<not> (of_nat ?y :: u32) < 70" "\<not> (of_nat ?y :: u32) < 100"
      using f(1) unfolding word_less_nat_alt uy by simp_all
    then show ?thesis unfolding full_year_def Let_def by simp
  qed
  have ud: "unat (of_nat (tm_mday p) :: u32) = tm_mday p" using d by (simp add: unat_of_nat take_bit_nat_eq_self)
  have time: "parsetime ?time = (int (tm_hour p * 3600 + tm_min p * 60 + tm_sec p), asc '' '' @ z)"
    by (rule parsetime_text [OF f(6-8)]) (simp add: ch_classes)
  have c: "\<not> (tm_mday p = 0 \<or> tm_mon p + 1 = 0 \<or> 12 < tm_mon p + 1 \<or> mdays (tm_mon p + 1) ?y < tm_mday p)"
    using d f(5) mon by auto
  show ?thesis
    unfolding rfc822_parsedt_def date_text_def dm option.case prod.case Let_def sp y fy uy ud time if_not_P [OF c]
    using f(1,2,10) pad0_head(1) [of 4 ?y "asc '' '' @ ?time"] by (simp add: algebra_simps)
qed

lemma smod_60: "x smod 60 = 0 \<longleftrightarrow> x mod (60 :: int) = 0"
  by (auto simp: signed_modulo_int_def sgn_if zmod_zminus1_eq_if minus_equation_iff)

lemma parsezone_code:
  assumes "\<bar>x\<bar> < 86400" "x mod 60 = 0"
  shows "parsezone (asc '' '' @ signed_05d (zone_code x)) = x"
proof -
  have a: "\<bar>x\<bar> mod 60 = 0" using assms(2) by (simp add: abs_if zmod_zminus1_eq_if)
  note z = zone_code_nonneg [of "\<bar>x\<bar>", OF abs_ge_zero assms(1) a]
  define n where "n = nat (zone_code \<bar>x\<bar>)"
  have "0 \<le> zone_code \<bar>x\<bar>" unfolding z(1) by simp
  then have n: "int n = zone_code \<bar>x\<bar>" by (simp add: n_def)
  have zn: "zone_code x = (if x < 0 then - int n else int n)" using z(2) n by (auto simp: abs_if split: if_splits)
  have "int (n mod 100 * 60 + n div 100 * 3600) = \<bar>x\<bar>" using z(6) n by (simp add: zmod_int zdiv_int)
  moreover have "n \<le> 2359" using z(3) n by linarith
  moreover have "n mod 100 \<le> 59"
  proof -
    have "int (n mod 100) < 60" using z(4) n by (simp add: zmod_int)
    then show ?thesis by linarith
  qed
  moreover have "x < 0 \<Longrightarrow> n \<noteq> 0" using calculation(1) by auto
  ultimately show ?thesis
    using parsezone_number [of n "if zone_code x < 0 then ch CHR ''-'' else ch CHR ''+''"]
    by (auto simp: signed_05d_def zn split: if_splits)
qed

text \<open>
  What the manuals say of the C library: \<open>localtime\<close> is the calendar of the time moved by \<open>tm_gmtoff\<close>
  seconds; outside daylight saving time that is \<open>- timezone\<close>, and during it \<open>- altzone\<close>. How far
  daylight saving time moves the clock is not said.
\<close>

definition documented :: "libc_time \<Rightarrow> int \<Rightarrow> bool" where
  "documented L t \<longleftrightarrow> (let p = localtime L t in
     tm.truncate p = gmtime (nat (t + tm_gmtoff p)) \<and> tm_gmtoff p = (if 0 < tm_isdst p then - altzone L t else - timezone L t))"

lemma dst_minutes: "(- x + 3600) mod 60 = 0 \<longleftrightarrow> x mod 60 = (0 :: int)"
  by presburger

lemma tm_offset_documented:
  assumes "documented L t" "V \<noteq> USE_TIME_NONE"
  shows "tm_offset V L t = (if V = USE_TIME_DAYLIGHT \<and> 0 < tm_isdst (localtime L t) then - timezone L t + 3600 else tm_gmtoff (localtime L t))"
  using assms by (cases V) (auto simp: documented_def tm_offset_def Let_def)

text \<open>
  C33. A date that the program writes is read back as the same time, for every time from 1970 to the
  year 9955 and every zone with an offset of less than a day, if the configuration takes the offset from
  \<open>altzone\<close> or \<open>tm_gmtoff\<close> or writes Greenwich time; dates with \<open>GMT\<close> are always read back. With the
  configuration for \<open>daylight\<close> it is read back outside daylight saving time; during it the time is
  wrong by as much as the move of the clock differs from one hour, if the offset is one of whole minutes.
\<close>

theorem date_roundtrip:
  assumes "documented L t" "0 \<le> t" "t < 251999000000" "p = localtime L t" "0 \<le> t + tm_gmtoff p" "\<bar>tm_gmtoff p\<bar> < 86400"
    "\<bar>tm_offset V L t\<bar> < 86400"
  shows "rfc822_parsedt (rfc822_mkdate V L t) =
      (if V = USE_TIME_DAYLIGHT \<and> 0 < tm_isdst p \<and> timezone L t mod 60 = 0 then t + (timezone L t - altzone L t - 3600) else t) \<and>
    rfc822_parsedt (rfc822_mkdt (nat t)) = t"
proof
  let ?off = "tm_offset V L t"
  have lt: "nat t < 252000000000" "nat (t + tm_gmtoff p) < 252000000000" using assms by auto
  have loc: "tm.truncate (localtime L t) = gmtime (nat (t + tm_gmtoff p))"
    using assms(1) by (simp add: documented_def Let_def assms(4))
  show "rfc822_parsedt (rfc822_mkdate V L t) =
      (if V = USE_TIME_DAYLIGHT \<and> 0 < tm_isdst p \<and> timezone L t mod 60 = 0 then t + (timezone L t - altzone L t - 3600) else t)"
  proof (cases "V \<noteq> USE_TIME_NONE \<and> ?off mod 60 = 0")
    case True
    then have s: "\<not> (V = USE_TIME_NONE \<or> ?off smod 60 \<noteq> 0)" by (simp add: smod_60)
    have "rfc822_parsedt (rfc822_mkdate V L t) = int (nat (t + tm_gmtoff p)) - parsezone (asc '' '' @ signed_05d (zone_code ?off))"
      unfolding rfc822_mkdate_def rfc822_mkdate_buf_def Let_def if_not_P [OF s] prod.case zone_code_def
      by (rule parsedt_text [OF lt(2) loc])
    then have r: "rfc822_parsedt (rfc822_mkdate V L t) = t + tm_gmtoff p - ?off"
      using parsezone_code [OF assms(7)] True assms(5) by simp
    have "?off = (if V = USE_TIME_DAYLIGHT \<and> 0 < tm_isdst p then - timezone L t + 3600 else tm_gmtoff p)"
      using tm_offset_documented [OF assms(1)] True by (simp add: assms(4))
    moreover note dst_minutes [of "timezone L t"]
    moreover have "0 < tm_isdst p \<Longrightarrow> tm_gmtoff p = - altzone L t"
      using assms(1) by (simp add: documented_def Let_def assms(4))
    ultimately show ?thesis unfolding r using True by (auto split: if_splits)
  next
    case False
    then have s: "V = USE_TIME_NONE \<or> ?off smod 60 \<noteq> 0" by (auto simp: smod_60)
    have "rfc822_parsedt (rfc822_mkdate V L t) = int (nat t) - parsezone (asc '' '' @ signed_05d (zone_code 0))"
      unfolding rfc822_mkdate_def rfc822_mkdate_buf_def Let_def if_P [OF s] prod.case zone_code_def
      by (rule parsedt_text [OF lt(1) refl])
    then have r: "rfc822_parsedt (rfc822_mkdate V L t) = t" using parsezone_code [of 0] assms(2) by simp
    have "\<not> (V = USE_TIME_DAYLIGHT \<and> 0 < tm_isdst p \<and> timezone L t mod 60 = 0)"
    proof
      assume h: "V = USE_TIME_DAYLIGHT \<and> 0 < tm_isdst p \<and> timezone L t mod 60 = 0"
      then have "?off = - timezone L t + 3600" using assms(4) by (simp add: tm_offset_def Let_def)
      then have "?off mod 60 = 0" using h dst_minutes [of "timezone L t"] by simp
      then show False using False h by simp
    qed
    then show ?thesis unfolding r by (rule if_not_P [symmetric])
  qed
  show "rfc822_parsedt (rfc822_mkdt (nat t)) = t"
    using parsedt_text [OF lt(1) refl, of "asc ''GMT''"] parsezone_gmt assms(2) by (simp add: rfc822_mkdt_def)
qed

text \<open>
  The zone of Lord Howe Island in summer, eleven hours east of Greenwich and half an hour more than in
  winter: with the configuration for \<open>daylight\<close> the date is read as half an hour too early.
\<close>

definition with_zone :: "tm \<Rightarrow> int \<Rightarrow> int \<Rightarrow> local_tm" where
  "with_zone p dst off = tm.extend p \<lparr>tm_isdst = dst, tm_gmtoff = off\<rparr>"

definition lord_howe :: libc_time where
  "lord_howe = \<lparr>localtime = (\<lambda>t. with_zone (gmtime (nat (t + 39600))) 1 39600), timezone = (\<lambda>t. - 37800), altzone = (\<lambda>t. - 39600)\<rparr>"

theorem date_roundtrip_witness:
  "rfc822_parsedt (rfc822_mkdate USE_TIME_GMTOFF lord_howe 1073000000) = 1073000000 \<and>
    rfc822_parsedt (rfc822_mkdate USE_TIME_DAYLIGHT lord_howe 1073000000) = 1073000000 - 1800"
proof -
  have z: "tm.truncate (with_zone p d f) = p" "tm_isdst (with_zone p d f) = d" "tm_gmtoff (with_zone p d f) = f" for p d f
    by (simp_all add: with_zone_def tm.defs local_tm.defs)
  have d: "documented lord_howe 1073000000" by (simp add: documented_def lord_howe_def z Let_def)
  show ?thesis
    using date_roundtrip [OF d, of "localtime lord_howe 1073000000" USE_TIME_GMTOFF]
      date_roundtrip [OF d, of "localtime lord_howe 1073000000" USE_TIME_DAYLIGHT]
    by (simp add: lord_howe_def z tm_offset_def Let_def)
qed

end
