(* ===== verification/Rfc822_Token.thy ===== *)
theory Rfc822_Token imports Prelude begin

text \<open>
  Tokens of mail headers, \<open>wmail/rfc822/rfc822.c\<close>: the tokenizer, which runs once to count and once
  to fill the array that was allocated for the count, and the printing of tokens.
\<close>

subsection \<open>Tokens\<close>

text \<open>
  A token points into the text; \<open>ptr\<close> is the index there. \<open>token\<close> is \<open>0\<close> for an atom, a quote for a
  quoted string, an opening parenthesis for a comment, and otherwise the character itself. The token
  made up for an empty address points to an empty string of its own; here it has length 0 and the
  index of the bracket. The link to the next token is the order of the lists.
\<close>

record tok =
  token :: byte
  ptr :: nat
  len :: nat

definition rfc822_is_atom :: "byte \<Rightarrow> bool" where
  "rfc822_is_atom p \<longleftrightarrow> p = 0 \<or> p = ch CHR 0x22 \<or> p = ch CHR ''(''"

definition QUOTE :: byte where "QUOTE = ch CHR 0x22"
definition BSLASH :: byte where "BSLASH = ch CHR 0x5C"
definition LPAREN :: byte where "LPAREN = ch CHR ''(''"
definition RPAREN :: byte where "RPAREN = ch CHR '')''"
definition LT :: byte where "LT = ch CHR ''<''"
definition GT :: byte where "GT = ch CHR ''>''"

text \<open>The characters that are tokens of their own, and those that end an atom.\<close>

definition single :: "byte list" where
  "single = asc ''<>@,;:.[]%!?=/''"

definition atom_end :: "byte list" where
  "atom_end = asc ''<>@,;:.[]()%!'' @ [QUOTE, BSLASH] @ asc ''?=/''"

text \<open>What the tokenizer has done: the tokens written, if there is an array, their number, and the
  positions at which it called \<open>err_func\<close>.\<close>

record tstate =
  out :: "tok list"
  toklen :: nat
  errs :: "nat list"

definition emit :: "bool \<Rightarrow> tok \<Rightarrow> tstate \<Rightarrow> tstate" where
  "emit tokp t st = st\<lparr>out := (if tokp then out st @ [t] else out st), toklen := toklen st + 1\<rparr>"

definition err :: "nat \<Rightarrow> tstate \<Rightarrow> tstate" where
  "err i st = st\<lparr>errs := errs st @ [i]\<rparr>"

text \<open>
  The loop of a comment: whether it ended before the text did, the length, and the rest. A
  backslash takes the next character with it.
\<close>

fun comment_loop :: "byte list \<Rightarrow> nat \<Rightarrow> nat \<Rightarrow> bool \<times> nat \<times> byte list" where
  "comment_loop [] level l = (False, l, [])"
| "comment_loop (c # p) level l =
     (if c = LPAREN then comment_loop p (level + 1) (l + 1)
      else if c = RPAREN then (if level - 1 = 0 then (True, l + 1, p) else comment_loop p (level - 1) (l + 1))
      else if c = BSLASH then (case p of [] \<Rightarrow> comment_loop p level (l + 1) | _ # p' \<Rightarrow> comment_loop p' level (l + 2))
      else comment_loop p level (l + 1))"

fun quote_loop :: "byte list \<Rightarrow> nat \<Rightarrow> bool \<times> nat \<times> byte list" where
  "quote_loop [] l = (False, l, [])"
| "quote_loop (c # p) l =
     (if c = QUOTE then (True, l, p)
      else if c = BSLASH then (case p of [] \<Rightarrow> quote_loop p (l + 1) | _ # p' \<Rightarrow> quote_loop p' (l + 2))
      else quote_loop p (l + 1))"

definition atom_char :: "byte \<Rightarrow> bool" where
  "atom_char c \<longleftrightarrow> \<not> isspace c \<and> c \<notin> set atom_end"

lemma comment_loop_length: "length (snd (snd (comment_loop p level l))) \<le> length p"
proof (induction p level l rule: comment_loop.induct)
  case (2 c p level l)
  then show ?case by (cases p) (simp_all add: le_SucI)
qed simp

lemma quote_loop_length: "length (snd (snd (quote_loop p l))) \<le> length p"
proof (induction p l rule: quote_loop.induct)
  case (2 c p l)
  then show ?case by (cases p) (simp_all add: le_SucI)
qed simp

lemma comment_loop_shorter:
  assumes "(b, n, r) = comment_loop (LPAREN # q) 0 0"
  shows "length r < Suc (length q)"
  using comment_loop_length [of q 1 1] arg_cong [OF assms, where f = "\<lambda>x. length (snd (snd x))"]
  by (simp add: le_imp_less_Suc)

lemma quote_loop_shorter: "(b, n, r) = quote_loop q 0 \<Longrightarrow> length r < Suc (length q)"
  using quote_loop_length [of q 0] by (metis le_imp_less_Suc snd_conv)

lemma atom_start: "\<not> isspace c \<Longrightarrow> c \<noteq> LPAREN \<Longrightarrow> c \<noteq> QUOTE \<Longrightarrow> c \<noteq> BSLASH \<Longrightarrow> c \<noteq> RPAREN \<Longrightarrow> c \<notin> set single \<Longrightarrow> atom_char c"
  by (auto simp: atom_char_def atom_end_def single_def LPAREN_def QUOTE_def BSLASH_def RPAREN_def)

text \<open>
  The tokenizer. \<open>i\<close> is the index of \<open>p\<close>; it is 0 at the start of the text only, where the code has
  a check for an atom that took no character.
\<close>

function tokenize :: "bool \<Rightarrow> byte list \<Rightarrow> nat \<Rightarrow> bool \<Rightarrow> tstate \<Rightarrow> tstate" where
  "tokenize tokp p i inbracket st =
     (case p of
        [] \<Rightarrow> st
      | c # q \<Rightarrow>
          if isspace c then tokenize tokp q (i + 1) inbracket st
          else if c = LPAREN then
            (case comment_loop p 0 0 of
               (False, n, r) \<Rightarrow> emit tokp \<lparr>token = QUOTE, ptr = i, len = n\<rparr> (err (i + n) st)
             | (True, n, r) \<Rightarrow> tokenize tokp r (i + n) inbracket (emit tokp \<lparr>token = LPAREN, ptr = i, len = n\<rparr> st))
          else if c = QUOTE then
            (case quote_loop q 0 of
               (False, n, r) \<Rightarrow> emit tokp \<lparr>token = QUOTE, ptr = i + 1, len = n\<rparr> (err (i + 1 + n) st)
             | (True, n, r) \<Rightarrow> tokenize tokp r (i + 1 + n + 1) inbracket (emit tokp \<lparr>token = QUOTE, ptr = i + 1, len = n\<rparr> st))
          else if c = BSLASH \<or> c = RPAREN then tokenize tokp q (i + 1) inbracket (err i st)
          else if c \<in> set single then
            if c = LT \<and> inbracket \<or> c = GT \<and> \<not> inbracket then tokenize tokp q (i + 1) inbracket (err i st)
            else let inbracket = (if c = LT then True else if c = GT then False else inbracket);
                     st = emit tokp \<lparr>token = c, ptr = i, len = 1\<rparr> st;
                     st = (if c = LT \<and> at q 0 = GT then emit tokp \<lparr>token = 0, ptr = i, len = 0\<rparr> st else st)
              in tokenize tokp q (i + 1) inbracket st
          else let n = length (takeWhile atom_char p) in
            if i + n = 0 then tokenize tokp q (i + 1) inbracket (emit tokp \<lparr>token = QUOTE, ptr = i, len = 1\<rparr> (err i st))
            else tokenize tokp (drop n p) (i + n) inbracket (emit tokp \<lparr>token = 0, ptr = i, len = n\<rparr> st))"
  by pat_completeness auto

termination
proof (relation "measure (\<lambda>(tokp, p, i, inbracket, st). length p)", goal_cases)
  case 1
  show ?case by simp
next
qed (auto simp: atom_start comment_loop_shorter quote_loop_shorter simp del: comment_loop.simps)

declare tokenize.simps [simp del]

text \<open>The two passes of \<open>rfc822t_alloc_new\<close>, given whether \<open>malloc\<close> and \<open>calloc\<close> find memory: the tokens and
  the errors.\<close>

definition tstate_zero :: tstate where
  "tstate_zero = \<lparr>out = [], toklen = 0, errs = []\<rparr>"

definition rfc822t_alloc_new :: "bool \<Rightarrow> (nat \<Rightarrow> bool) \<Rightarrow> byte list \<Rightarrow> (tok list \<times> nat list) option" where
  "rfc822t_alloc_new malloc_works calloc_works addr =
     (let count = tokenize False addr 0 False tstate_zero in
      if \<not> malloc_works then None
      else if toklen count \<noteq> 0 \<and> \<not> calloc_works (toklen count) then None
      else Some (out (tokenize True addr 0 False tstate_zero), errs count))"

subsection \<open>Printing\<close>

definition tok_text :: "byte list \<Rightarrow> tok \<Rightarrow> byte list" where
  "tok_text addr t = take (len t) (drop (ptr t) addr)"

fun quote_body :: "byte list \<Rightarrow> byte list" where
  "quote_body [] = []"
| "quote_body (c # p) =
     (if c = QUOTE \<or> c = BSLASH \<and> p = [] then BSLASH # c # quote_body p
      else if c = BSLASH then (case p of [] \<Rightarrow> [c] | d # p' \<Rightarrow> BSLASH # d # quote_body p')
      else c # quote_body p)"

text \<open>What is printed for a token with a text.\<close>

definition print_value :: "byte \<times> byte list \<Rightarrow> byte list" where
  "print_value v = (case v of (k, t) \<Rightarrow>
     if k = 0 \<or> k = LPAREN then t
     else if k \<noteq> QUOTE then [k]
     else [QUOTE] @ quote_body t @ [QUOTE])"

definition print_token :: "byte list \<Rightarrow> tok \<Rightarrow> byte list" where
  "print_token addr t = print_value (token t, tok_text addr t)"

fun tok_print_loop :: "byte list \<Rightarrow> bool \<Rightarrow> tok list \<Rightarrow> byte list" where
  "tok_print_loop addr prev_isatom [] = []"
| "tok_print_loop addr prev_isatom (t # ts) =
     (let isatom = rfc822_is_atom (token t)
      in (if prev_isatom \<and> isatom then asc '' '' else []) @ print_token addr t @ tok_print_loop addr isatom ts)"

definition rfc822tok_print :: "byte list \<Rightarrow> tok list \<Rightarrow> byte list" where
  "rfc822tok_print addr ts = tok_print_loop addr False ts"

subsection \<open>The cases of the tokenizer\<close>

lemma consts_neq [simp]:
  "LPAREN \<noteq> QUOTE" "QUOTE \<noteq> LPAREN" "LPAREN \<noteq> BSLASH" "BSLASH \<noteq> LPAREN" "LPAREN \<noteq> RPAREN" "RPAREN \<noteq> LPAREN"
  "QUOTE \<noteq> BSLASH" "BSLASH \<noteq> QUOTE" "QUOTE \<noteq> RPAREN" "RPAREN \<noteq> QUOTE" "BSLASH \<noteq> RPAREN" "RPAREN \<noteq> BSLASH"
  "LT \<noteq> GT" "GT \<noteq> LT" "\<not> isspace LPAREN" "\<not> isspace QUOTE" "\<not> isspace BSLASH" "\<not> isspace RPAREN"
  "LT \<in> set single" "GT \<in> set single" "LPAREN \<notin> set single" "QUOTE \<notin> set single" "BSLASH \<notin> set single" "RPAREN \<notin> set single"
  "LPAREN \<noteq> 0" "QUOTE \<noteq> 0"
  by (simp_all add: LPAREN_def QUOTE_def BSLASH_def RPAREN_def LT_def GT_def isspace_def single_def)

lemma single_neq: "c \<in> set single \<Longrightarrow> \<not> isspace c \<and> c \<noteq> LPAREN \<and> c \<noteq> QUOTE \<and> c \<noteq> BSLASH \<and> c \<noteq> RPAREN \<and> c \<noteq> 0"
  by (auto simp: single_def isspace_def LPAREN_def QUOTE_def BSLASH_def RPAREN_def)

lemma atom_char_neq: "atom_char c \<Longrightarrow> \<not> isspace c \<and> c \<noteq> LPAREN \<and> c \<noteq> QUOTE \<and> c \<noteq> BSLASH \<and> c \<noteq> RPAREN \<and> c \<notin> set single"
  by (auto simp: atom_char_def atom_end_def single_def LPAREN_def QUOTE_def BSLASH_def RPAREN_def)

text \<open>The brackets after a character, and the tokens it makes.\<close>

definition bracket :: "byte \<Rightarrow> bool \<Rightarrow> bool" where
  "bracket c br = (if c = LT then True else if c = GT then False else br)"

definition bad_bracket :: "byte \<Rightarrow> bool \<Rightarrow> bool" where
  "bad_bracket c br \<longleftrightarrow> c = LT \<and> br \<or> c = GT \<and> \<not> br"

definition emit_single :: "bool \<Rightarrow> byte \<Rightarrow> byte list \<Rightarrow> nat \<Rightarrow> tstate \<Rightarrow> tstate" where
  "emit_single tokp c q i st =
     (if c = LT \<and> at q 0 = GT
      then emit tokp \<lparr>token = 0, ptr = i, len = 0\<rparr> (emit tokp \<lparr>token = c, ptr = i, len = 1\<rparr> st)
      else emit tokp \<lparr>token = c, ptr = i, len = 1\<rparr> st)"

lemma tok_Nil: "tokenize b [] i br st = st"
  by (simp add: tokenize.simps)

lemma tok_space: "isspace c \<Longrightarrow> tokenize b (c # q) i br st = tokenize b q (i + 1) br st"
  by (subst tokenize.simps) simp

lemma tok_comment_open: "comment_loop (LPAREN # q) 0 0 = (False, n, r) \<Longrightarrow>
    tokenize b (LPAREN # q) i br st = emit b \<lparr>token = QUOTE, ptr = i, len = n\<rparr> (err (i + n) st)"
  by (subst tokenize.simps) (simp del: comment_loop.simps)

lemma tok_comment: "comment_loop (LPAREN # q) 0 0 = (True, n, r) \<Longrightarrow>
    tokenize b (LPAREN # q) i br st = tokenize b r (i + n) br (emit b \<lparr>token = LPAREN, ptr = i, len = n\<rparr> st)"
  by (subst tokenize.simps) (simp del: comment_loop.simps)

lemma tok_quote_open: "quote_loop q 0 = (False, n, r) \<Longrightarrow>
    tokenize b (QUOTE # q) i br st = emit b \<lparr>token = QUOTE, ptr = i + 1, len = n\<rparr> (err (i + 1 + n) st)"
  by (subst tokenize.simps) simp

lemma tok_quote: "quote_loop q 0 = (True, n, r) \<Longrightarrow>
    tokenize b (QUOTE # q) i br st = tokenize b r (i + 1 + n + 1) br (emit b \<lparr>token = QUOTE, ptr = i + 1, len = n\<rparr> st)"
  by (subst tokenize.simps) simp

lemma tok_stray: "c = BSLASH \<or> c = RPAREN \<Longrightarrow> tokenize b (c # q) i br st = tokenize b q (i + 1) br (err i st)"
  by (subst tokenize.simps) auto

lemma tok_bad_bracket: "c \<in> set single \<Longrightarrow> bad_bracket c br \<Longrightarrow> tokenize b (c # q) i br st = tokenize b q (i + 1) br (err i st)"
  using single_neq [of c] by (subst tokenize.simps) (auto simp: bad_bracket_def)

lemma tok_single: "c \<in> set single \<Longrightarrow> \<not> bad_bracket c br \<Longrightarrow>
    tokenize b (c # q) i br st = tokenize b q (i + 1) (bracket c br) (emit_single b c q i st)"
  using single_neq [of c] by (subst tokenize.simps) (auto simp: bad_bracket_def bracket_def emit_single_def)

lemma tok_atom: "atom_char c \<Longrightarrow> tokenize b (c # q) i br st =
    tokenize b (dropWhile atom_char q) (i + 1 + length (takeWhile atom_char q)) br
      (emit b \<lparr>token = 0, ptr = i, len = 1 + length (takeWhile atom_char q)\<rparr> st)"
  using atom_char_neq [of c] by (subst tokenize.simps) (simp add: dropWhile_eq_drop)

text \<open>The tokenizer looks at a text in these cases.\<close>

lemma token_induct [case_names Nil space comment_open comment quote_open quote stray bad_bracket single atom]:
  assumes "\<And>i br. P [] i br"
    and "\<And>c q i br. isspace c \<Longrightarrow> P q (i + 1) br \<Longrightarrow> P (c # q) i br"
    and "\<And>q i br n r. comment_loop (LPAREN # q) 0 0 = (False, n, r) \<Longrightarrow> P (LPAREN # q) i br"
    and "\<And>q i br n r. comment_loop (LPAREN # q) 0 0 = (True, n, r) \<Longrightarrow> P r (i + n) br \<Longrightarrow> P (LPAREN # q) i br"
    and "\<And>q i br n r. quote_loop q 0 = (False, n, r) \<Longrightarrow> P (QUOTE # q) i br"
    and "\<And>q i br n r. quote_loop q 0 = (True, n, r) \<Longrightarrow> P r (i + 1 + n + 1) br \<Longrightarrow> P (QUOTE # q) i br"
    and "\<And>c q i br. c = BSLASH \<or> c = RPAREN \<Longrightarrow> P q (i + 1) br \<Longrightarrow> P (c # q) i br"
    and "\<And>c q i br. c \<in> set single \<Longrightarrow> bad_bracket c br \<Longrightarrow> P q (i + 1) br \<Longrightarrow> P (c # q) i br"
    and "\<And>c q i br. c \<in> set single \<Longrightarrow> \<not> bad_bracket c br \<Longrightarrow> P q (i + 1) (bracket c br) \<Longrightarrow> P (c # q) i br"
    and "\<And>c q i br. atom_char c \<Longrightarrow> P (dropWhile atom_char q) (i + 1 + length (takeWhile atom_char q)) br \<Longrightarrow> P (c # q) i br"
  shows "P p i br"
proof (induction "length p" arbitrary: p i br rule: less_induct)
  case (less p i br)
  show ?case
  proof (cases p)
    case (Cons c q)
    have q: "P q j br'" for j br' using less Cons by simp
    consider "isspace c" | "c = LPAREN" | "c = QUOTE" | "c = BSLASH \<or> c = RPAREN" | "c \<in> set single" | "atom_char c"
      using atom_start by blast
    then show ?thesis
    proof cases
      case 2
      obtain b n r where l: "comment_loop (LPAREN # q) 0 0 = (b, n, r)" by (metis prod_cases3)
      then have "length r < length p" using comment_loop_shorter [of b n r q] Cons by simp
      then have "P r (i + n) br" by (rule less)
      then show ?thesis using l assms(3) [of q n r i br] assms(4) [of q n r i br] by (cases b) (simp_all add: 2 Cons)
    next
      case 3
      obtain b n r where l: "quote_loop q 0 = (b, n, r)" by (metis prod_cases3)
      then have "length r < length p" using quote_loop_shorter [of b n r q] Cons by simp
      then have "P r (i + 1 + n + 1) br" by (rule less)
      then show ?thesis using l assms(5) [of q n r i br] assms(6) [of q n r i br] by (cases b) (simp_all add: 3 Cons)
    next
      case 6
      have "length (dropWhile atom_char q) < length p" using Cons by (simp add: le_imp_less_Suc length_dropWhile_le)
      then show ?thesis using 6 Cons less assms(10) by blast
    next
      case 1
      then show ?thesis unfolding Cons by (rule assms(2)) (rule q)
    next
      case 4
      then show ?thesis unfolding Cons by (rule assms(7)) (rule q)
    next
      case 5
      then show ?thesis unfolding Cons by (cases "bad_bracket c br") (auto intro: assms(8) assms(9) q)
    qed
  qed (simp add: assms(1))
qed

lemmas tok_cases = tok_Nil tok_space tok_comment_open tok_comment tok_quote_open tok_quote tok_stray
  tok_bad_bracket tok_single tok_atom

subsection \<open>The passes agree\<close>

lemma emit_simps [simp]:
  "out (emit True t st) = out st @ [t]" "out (emit False t st) = out st" "toklen (emit b t st) = toklen st + 1"
  "errs (emit b t st) = errs st" "out (err i st) = out st" "toklen (err i st) = toklen st" "errs (err i st) = errs st @ [i]"
  by (simp_all add: emit_def err_def)

text \<open>The first pass does what the second does, without the tokens.\<close>

definition uncounted :: "tstate \<Rightarrow> tstate" where "uncounted st = st\<lparr>out := []\<rparr>"

lemma uncounted_emit:
  "emit False t (uncounted st) = uncounted (emit True t st)" "err i (uncounted st) = uncounted (err i st)"
  "emit_single False c q i (uncounted st) = uncounted (emit_single True c q i st)"
  by (simp_all add: uncounted_def emit_def err_def emit_single_def)

lemma tokenize_count: "tokenize False p i br (uncounted st) = uncounted (tokenize True p i br st)"
  by (induction p i br arbitrary: st rule: token_induct)
    (simp_all add: tok_cases uncounted_emit del: comment_loop.simps)

lemma tokenize_toklen:
  "toklen st = length (out st) \<Longrightarrow> toklen (tokenize True p i br st) = length (out (tokenize True p i br st))"
  by (induction p i br arbitrary: st rule: token_induct)
    (simp_all add: tok_cases emit_single_def del: comment_loop.simps)

text \<open>Every token lies within the text, so that the writes of the second pass point into the header.\<close>

definition within :: "nat \<Rightarrow> tok list \<Rightarrow> bool" where
  "within m ts \<longleftrightarrow> (\<forall>t\<in>set ts. ptr t + len t \<le> m)"

lemma within_simps [simp]: "within m []" "within m (ts @ us) \<longleftrightarrow> within m ts \<and> within m us"
    "within m [t] \<longleftrightarrow> ptr t + len t \<le> m"
  by (auto simp: within_def)

lemma comment_loop_total: "comment_loop p level l = (b, n, r) \<Longrightarrow> n + length r = l + length p"
proof (induction p level l rule: comment_loop.induct)
  case (2 c p level l)
  then show ?case by (cases p) (auto split: if_splits)
qed simp

lemma quote_loop_total: "quote_loop p l = (b, n, r) \<Longrightarrow> n + length r + (if b then 1 else 0) = l + length p"
proof (induction p l rule: quote_loop.induct)
  case (2 c p l)
  then show ?case by (cases p) (auto split: if_splits)
qed simp

lemma takeWhile_total: "length (takeWhile P q) + length (dropWhile P q) = length q"
  by (metis length_append takeWhile_dropWhile_id)

lemma tokenize_within:
  "i + length p = m \<Longrightarrow> within m (out st) \<Longrightarrow> within m (out (tokenize True p i br st))"
proof (induction p i br arbitrary: st rule: token_induct)
  case (comment_open q i br n r)
  then show ?case using comment_loop_total [OF comment_open(1)] by (simp add: tok_comment_open del: comment_loop.simps)
next
  case (comment q i br n r)
  then show ?case using comment_loop_total [OF comment(1)] by (simp add: tok_comment del: comment_loop.simps)
next
  case (quote_open q i br n r)
  then show ?case using quote_loop_total [OF quote_open(1)] by (simp add: tok_quote_open)
next
  case (quote q i br n r)
  then show ?case using quote_loop_total [OF quote(1)] by (simp add: tok_quote)
next
  case (single c q i br)
  have "within m (out (emit_single True c q i st))" using single(4,5) by (simp add: emit_single_def within_def)
  then show ?case using single by (simp add: tok_single)
next
  case (atom c q i br)
  then show ?case using takeWhile_total [of atom_char q] by (simp add: tok_atom)
qed (simp_all add: tok_cases)

text \<open>
  What a comment or a string takes from a text, which it takes whatever follows; a string that ends
  is printed as it is.
\<close>

lemma comment_loop_split:
  "comment_loop p level l = (True, n, r) \<Longrightarrow>
    \<exists>t. p = t @ r \<and> n = l + length t \<and> (\<forall>r'. comment_loop (t @ r') level l = (True, n, r'))"
proof (induction "length p" arbitrary: p level l rule: less_induct)
  case (less p level l)
  show ?case
  proof (cases p)
    case (Cons c q)
    have IH: "\<exists>t. q' = t @ r \<and> n = l' + length t \<and> (\<forall>r'. comment_loop (t @ r') lv l' = (True, n, r'))"
      if "comment_loop q' lv l' = (True, n, r)" "length q' \<le> length q" for q' lv l'
      using less(1) [OF _ that(1)] that(2) Cons by simp
    show ?thesis
    proof (cases "c = BSLASH")
      case True
      with less(2) Cons obtain d q' where d: "q = d # q'" "comment_loop q' level (Suc (Suc l)) = (True, n, r)"
        by (cases q) auto
      then obtain t where "q' = t @ r \<and> n = Suc (Suc l) + length t \<and> (\<forall>r'. comment_loop (t @ r') level (Suc (Suc l)) = (True, n, r'))"
        using IH [of q' level "Suc (Suc l)"] by auto
      then show ?thesis using True by (intro exI [of _ "c # d # t"]) (simp add: Cons d(1))
    next
      case F: False
      show ?thesis
      proof (cases "c = RPAREN \<and> level - 1 = 0")
        case True
        then show ?thesis using less(2) Cons by (intro exI [of _ "[c]"]) auto
      next
        case False
        define lv where "lv = (if c = LPAREN then level + 1 else if c = RPAREN then level - 1 else level)"
        have "comment_loop q lv (Suc l) = (True, n, r)" using less(2) F False Cons by (auto simp: lv_def split: if_splits)
        then obtain t where "q = t @ r \<and> n = Suc l + length t \<and> (\<forall>r'. comment_loop (t @ r') lv (Suc l) = (True, n, r'))"
          using IH [of q lv "Suc l"] by auto
        then show ?thesis using F False by (intro exI [of _ "c # t"]) (auto simp: Cons lv_def)
      qed
    qed
  qed (use less(2) in simp)
qed

lemma quote_loop_split:
  "quote_loop p l = (True, n, r) \<Longrightarrow>
    \<exists>t. p = t @ QUOTE # r \<and> n = l + length t \<and> quote_body t = t \<and> (\<forall>r'. quote_loop (t @ QUOTE # r') l = (True, n, r'))"
proof (induction "length p" arbitrary: p l rule: less_induct)
  case (less p l)
  show ?case
  proof (cases p)
    case (Cons c q)
    have IH: "\<exists>t. q' = t @ QUOTE # r \<and> n = l' + length t \<and> quote_body t = t \<and> (\<forall>r'. quote_loop (t @ QUOTE # r') l' = (True, n, r'))"
      if "quote_loop q' l' = (True, n, r)" "length q' \<le> length q" for q' l'
      using less(1) [OF _ that(1)] that(2) Cons by simp
    show ?thesis
    proof (cases "c = QUOTE")
      case True
      then show ?thesis using less(2) Cons by (intro exI [of _ "[]"]) simp
    next
      case F: False
      show ?thesis
      proof (cases "c = BSLASH")
        case True
        with less(2) Cons obtain d q' where d: "q = d # q'" "quote_loop q' (Suc (Suc l)) = (True, n, r)"
          by (cases q) auto
        then obtain t where "q' = t @ QUOTE # r \<and> n = Suc (Suc l) + length t \<and> quote_body t = t \<and>
            (\<forall>r'. quote_loop (t @ QUOTE # r') (Suc (Suc l)) = (True, n, r'))"
          using IH [of q' "Suc (Suc l)"] by auto
        then show ?thesis using True by (intro exI [of _ "c # d # t"]) (simp add: Cons d(1))
      next
        case False
        have "quote_loop q (Suc l) = (True, n, r)" using less(2) F False Cons by simp
        then obtain t where "q = t @ QUOTE # r \<and> n = Suc l + length t \<and> quote_body t = t \<and>
            (\<forall>r'. quote_loop (t @ QUOTE # r') (Suc l) = (True, n, r'))"
          using IH [of q "Suc l"] by auto
        then show ?thesis using F False by (intro exI [of _ "c # t"]) (simp add: Cons)
      qed
    qed
  qed (use less(2) in simp)
qed

subsection \<open>What a text means\<close>

text \<open>
  The tokens of a text as pairs of kind and text, if it has no error: unended comments and strings,
  stray backslashes and parentheses, brackets that do not match.
\<close>

function lexed :: "byte list \<Rightarrow> bool \<Rightarrow> (byte \<times> byte list) list option" where
  "lexed p br =
     (case p of
        [] \<Rightarrow> Some []
      | c # q \<Rightarrow>
          if isspace c then lexed q br
          else if c = LPAREN then
            (case comment_loop p 0 0 of
               (False, n, r) \<Rightarrow> None
             | (True, n, r) \<Rightarrow> map_option ((#) (LPAREN, take n p)) (lexed r br))
          else if c = QUOTE then
            (case quote_loop q 0 of
               (False, n, r) \<Rightarrow> None
             | (True, n, r) \<Rightarrow> map_option ((#) (QUOTE, take n q)) (lexed r br))
          else if c = BSLASH \<or> c = RPAREN then None
          else if c \<in> set single then
            if bad_bracket c br then None
            else map_option (\<lambda>vs. (c, [c]) # (if c = LT \<and> at q 0 = GT then [(0, [])] else []) @ vs) (lexed q (bracket c br))
          else map_option ((#) (0, takeWhile atom_char p)) (lexed (dropWhile atom_char p) br))"
  by pat_completeness auto
termination
  by (relation "measure (\<lambda>(p, br). length p)")
    (auto simp: atom_start comment_loop_shorter quote_loop_shorter le_imp_less_Suc length_dropWhile_le
      simp del: comment_loop.simps)

declare lexed.simps [simp del]

lemma lex_cases:
  "lexed [] br = Some []"
  "isspace c \<Longrightarrow> lexed (c # q) br = lexed q br"
  "comment_loop (LPAREN # q) 0 0 = (False, n, r) \<Longrightarrow> lexed (LPAREN # q) br = None"
  "comment_loop (LPAREN # q) 0 0 = (True, n, r) \<Longrightarrow>
    lexed (LPAREN # q) br = map_option ((#) (LPAREN, take n (LPAREN # q))) (lexed r br)"
  "quote_loop q 0 = (False, n, r) \<Longrightarrow> lexed (QUOTE # q) br = None"
  "quote_loop q 0 = (True, n, r) \<Longrightarrow> lexed (QUOTE # q) br = map_option ((#) (QUOTE, take n q)) (lexed r br)"
  "c = BSLASH \<or> c = RPAREN \<Longrightarrow> lexed (c # q) br = None"
  "c \<in> set single \<Longrightarrow> bad_bracket c br \<Longrightarrow> lexed (c # q) br = None"
  "c \<in> set single \<Longrightarrow> \<not> bad_bracket c br \<Longrightarrow> lexed (c # q) br =
    map_option (\<lambda>vs. (c, [c]) # (if c = LT \<and> at q 0 = GT then [(0, [])] else []) @ vs) (lexed q (bracket c br))"
  "atom_char c \<Longrightarrow> lexed (c # q) br =
    map_option ((#) (0, c # takeWhile atom_char q)) (lexed (dropWhile atom_char q) br)"
  using single_neq [of c] atom_char_neq [of c]
  by (subst lexed.simps, auto simp del: comment_loop.simps)+

definition meaning :: "byte list \<Rightarrow> tok \<Rightarrow> byte \<times> byte list" where
  "meaning s t = (token t, tok_text s t)"

lemma errs_emit_single [simp]: "errs (emit_single b c q i st) = errs st"
  by (simp add: emit_single_def)

lemma errs_grow: "length (errs st) \<le> length (errs (tokenize True p i br st))"
proof (induction p i br arbitrary: st rule: token_induct)
  case (comment q i br n r)
  then show ?case using comment(2) [of "emit True \<lparr>token = LPAREN, ptr = i, len = n\<rparr> st"]
    by (simp add: tok_comment del: comment_loop.simps)
next
  case (quote q i br n r)
  then show ?case using quote(2) [of "emit True \<lparr>token = QUOTE, ptr = i + 1, len = n\<rparr> st"] by (simp add: tok_quote)
next
  case (stray c q i br)
  then show ?case using stray(2) [of "err i st"] by (simp add: tok_stray)
next
  case (bad_bracket c q i br)
  then show ?case using bad_bracket(3) [of "err i st"] by (simp add: tok_bad_bracket)
next
  case (single c q i br)
  then show ?case using single(3) [of "emit_single True c q i st"] by (simp add: tok_single)
next
  case (atom c q i br)
  then show ?case
    using atom(2) [of "emit True \<lparr>token = 0, ptr = i, len = 1 + length (takeWhile atom_char q)\<rparr> st"] by (simp add: tok_atom)
qed (simp_all add: tok_Nil tok_space tok_comment_open tok_quote_open del: comment_loop.simps)

lemma tok_text_at: "drop i s = t @ r \<Longrightarrow> tok_text s \<lparr>token = k, ptr = i, len = length t\<rparr> = t"
  by (simp add: tok_text_def)

lemma drop_step: "drop i s = t @ r \<Longrightarrow> drop (i + length t) s = r"
  by (metis append_eq_conv_conj drop_drop add.commute)

text \<open>The tokenizer without errors gives the meaning; with errors there is none.\<close>

lemma tokenize_lex:
  "drop i s = p \<Longrightarrow>
    (case lexed p br of
       None \<Rightarrow> length (errs st) < length (errs (tokenize True p i br st))
     | Some vs \<Rightarrow> errs (tokenize True p i br st) = errs st \<and>
         map (meaning s) (out (tokenize True p i br st)) = map (meaning s) (out st) @ vs)"
proof (induction p i br arbitrary: st rule: token_induct)
  case (Nil i br)
  then show ?case by (simp add: tok_Nil lex_cases(1))
next
  case (space c q i br)
  have "drop (i + 1) s = q" using space(3) drop_step [of i s "[c]" q] by simp
  then show ?case
    using space(2) [of st] by (simp add: tok_space [OF space(1)] lex_cases(2) [OF space(1)] split: option.splits)
next
  case (comment_open q i br n r)
  then show ?case by (simp add: tok_comment_open lex_cases(3) del: comment_loop.simps)
next
  case (comment q i br n r)
  obtain t where t: "LPAREN # q = t @ r" "n = length t" using comment_loop_split [OF comment(1)] by auto
  have d: "drop (i + n) s = r" using comment(3) t drop_step [of i s t r] by simp
  have m: "meaning s \<lparr>token = LPAREN, ptr = i, len = n\<rparr> = (LPAREN, take n (LPAREN # q))"
    using comment(3) t tok_text_at [of i s t r LPAREN] by (simp add: meaning_def)
  show ?case
    using comment(2) [OF d, of "emit True \<lparr>token = LPAREN, ptr = i, len = n\<rparr> st"] m
    by (simp add: tok_comment [OF comment(1)] lex_cases(4) [OF comment(1)] split: option.splits del: comment_loop.simps)
next
  case (quote_open q i br n r)
  then show ?case by (simp add: tok_quote_open lex_cases(5))
next
  case (quote q i br n r)
  obtain t where t: "q = t @ QUOTE # r" "n = length t" using quote_loop_split [OF quote(1)] by auto
  have e: "drop (i + 1) s = t @ QUOTE # r" using quote(3) t drop_step [of i s "[QUOTE]" q] by simp
  have d: "drop (i + 1 + n + 1) s = r" using drop_step [of "i + 1" s "t @ [QUOTE]" r] e t by (simp add: add.assoc)
  have m: "meaning s \<lparr>token = QUOTE, ptr = i + 1, len = n\<rparr> = (QUOTE, take n q)"
    using t tok_text_at [OF e, of QUOTE] by (simp add: meaning_def)
  show ?case
    using quote(2) [OF d, of "emit True \<lparr>token = QUOTE, ptr = i + 1, len = n\<rparr> st"] m
    by (simp add: tok_quote [OF quote(1)] lex_cases(6) [OF quote(1)] split: option.splits)
next
  case (stray c q i br)
  then show ?case using errs_grow [of "err i st" q "i + 1" br] by (simp add: tok_stray lex_cases(7))
next
  case (bad_bracket c q i br)
  then show ?case using errs_grow [of "err i st" q "i + 1" br] by (simp add: tok_bad_bracket lex_cases(8))
next
  case (single c q i br)
  have d: "drop (i + 1) s = q" using single(4) drop_step [of i s "[c]" q] by simp
  have m: "meaning s \<lparr>token = c, ptr = i, len = 1\<rparr> = (c, [c])"
    using single(4) tok_text_at [of i s "[c]" q c] by (simp add: meaning_def)
  have z: "meaning s \<lparr>token = 0, ptr = i, len = 0\<rparr> = (0, [])" by (simp add: meaning_def tok_text_def)
  have o: "map (meaning s) (out (emit_single True c q i st)) =
      map (meaning s) (out st) @ (c, [c]) # (if c = LT \<and> at q 0 = GT then [(0, [])] else [])"
    using m z by (cases "c = LT \<and> at q 0 = GT") (simp_all only: emit_single_def emit_simps map_append list.map append_assoc append.simps simp_thms if_True if_False)
  show ?case
    using single(3) [OF d, of "emit_single True c q i st"]
    unfolding tok_single [OF single(1,2)] lex_cases(9) [OF single(1,2)] errs_emit_single o
    by (cases "lexed q (bracket c br)") simp_all
next
  case (atom c q i br)
  let ?t = "c # takeWhile atom_char q"
  have e: "drop i s = ?t @ dropWhile atom_char q" using atom(3) by simp
  have d: "drop (i + 1 + length (takeWhile atom_char q)) s = dropWhile atom_char q"
    using drop_step [OF e] by simp
  have m: "meaning s \<lparr>token = 0, ptr = i, len = 1 + length (takeWhile atom_char q)\<rparr> = (0, ?t)"
    using tok_text_at [OF e, of 0] by (simp add: meaning_def)
  show ?case
    using atom(2) [OF d, of "emit True \<lparr>token = 0, ptr = i, len = 1 + length (takeWhile atom_char q)\<rparr> st"] m
    by (simp add: tok_atom [OF atom(1)] lex_cases(10) [OF atom(1)] split: option.splits)
qed

subsection \<open>Printing and reading again\<close>

fun print_meanings :: "bool \<Rightarrow> (byte \<times> byte list) list \<Rightarrow> byte list" where
  "print_meanings prev [] = []"
| "print_meanings prev (v # vs) =
     (if prev \<and> rfc822_is_atom (fst v) then asc '' '' else []) @ print_value v @ print_meanings (rfc822_is_atom (fst v)) vs"

lemma tok_print_meanings: "tok_print_loop s prev ts = print_meanings prev (map (meaning s) ts)"
  by (induction ts arbitrary: prev) (simp_all add: Let_def print_token_def meaning_def)

text \<open>The tokens without the empty addresses that the tokenizer makes up.\<close>

definition core :: "(byte \<times> byte list) list \<Rightarrow> (byte \<times> byte list) list" where
  "core vs = filter (\<lambda>v. v \<noteq> (0, [])) vs"

lemma core_simps [simp]: "core [] = []" "core (v # vs) = (if v = (0, []) then core vs else v # core vs)"
  by (simp_all add: core_def)

lemma is_atom_simps [simp]: "rfc822_is_atom 0" "rfc822_is_atom LPAREN" "rfc822_is_atom QUOTE" "c \<in> set single \<Longrightarrow> \<not> rfc822_is_atom c"
  by (auto simp: rfc822_is_atom_def LPAREN_def QUOTE_def single_def)

lemma print_value_single: "c \<in> set single \<Longrightarrow> print_value (c, t) = [c]"
  using single_neq [of c] by (simp add: print_value_def)

lemma print_value_empty: "print_value (0, []) = []"
  by (simp add: print_value_def)

lemma lexed_gt: "lexed (GT # q) True = Some vs \<Longrightarrow> \<exists>us. vs = (GT, [GT]) # us"
  by (auto simp: lex_cases(9) bad_bracket_def bracket_def)

lemma lexed_induct [case_names Nil space comment_open comment quote_open quote stray bad_bracket single atom]:
  assumes "\<And>br. P [] br"
    and "\<And>c q br. isspace c \<Longrightarrow> P q br \<Longrightarrow> P (c # q) br"
    and "\<And>q br n r. comment_loop (LPAREN # q) 0 0 = (False, n, r) \<Longrightarrow> P (LPAREN # q) br"
    and "\<And>q br n r. comment_loop (LPAREN # q) 0 0 = (True, n, r) \<Longrightarrow> P r br \<Longrightarrow> P (LPAREN # q) br"
    and "\<And>q br n r. quote_loop q 0 = (False, n, r) \<Longrightarrow> P (QUOTE # q) br"
    and "\<And>q br n r. quote_loop q 0 = (True, n, r) \<Longrightarrow> P r br \<Longrightarrow> P (QUOTE # q) br"
    and "\<And>c q br. c = BSLASH \<or> c = RPAREN \<Longrightarrow> P q br \<Longrightarrow> P (c # q) br"
    and "\<And>c q br. c \<in> set single \<Longrightarrow> bad_bracket c br \<Longrightarrow> P q br \<Longrightarrow> P (c # q) br"
    and "\<And>c q br. c \<in> set single \<Longrightarrow> \<not> bad_bracket c br \<Longrightarrow> P q (bracket c br) \<Longrightarrow> P (c # q) br"
    and "\<And>c q br. atom_char c \<Longrightarrow> P (dropWhile atom_char q) br \<Longrightarrow> P (c # q) br"
  shows "P p br"
  by (rule token_induct [where P = "\<lambda>p i br. P p br" and i = 0]) (fact assms)+

text \<open>Tokens that are printed to a text with just their meaning.\<close>

definition comment_ok :: "byte list \<Rightarrow> bool" where
  "comment_ok t \<longleftrightarrow> (\<exists>u. t = LPAREN # u) \<and> (\<forall>r. comment_loop (t @ r) 0 0 = (True, length t, r))"

definition quote_ok :: "byte list \<Rightarrow> bool" where
  "quote_ok t \<longleftrightarrow> quote_body t = t \<and> (\<forall>r. quote_loop (t @ QUOTE # r) 0 = (True, length t, r))"

fun good :: "bool \<Rightarrow> (byte \<times> byte list) list \<Rightarrow> bool" where
  "good br [] = True"
| "good br ((k, t) # us) =
     (if k = 0 then t \<noteq> [] \<and> (\<forall>c\<in>set t. atom_char c) \<and> good br us
      else if k = LPAREN then comment_ok t \<and> good br us
      else if k = QUOTE then quote_ok t \<and> good br us
      else k \<in> set single \<and> t = [k] \<and> \<not> bad_bracket k br \<and> good (bracket k br) us)"

lemma lexed_good:
  "lexed p br = Some vs \<Longrightarrow> good br (core vs) \<and> print_meanings prev vs = print_meanings prev (core vs)"
proof (induction p br arbitrary: vs prev rule: lexed_induct)
  case (Nil br)
  then show ?case by (simp add: lex_cases(1))
next
  case (space c q br)
  then show ?case by (simp add: lex_cases(2))
next
  case (comment q br n r)
  obtain t where t: "LPAREN # q = t @ r" "n = length t" "\<forall>r'. comment_loop (t @ r') 0 0 = (True, n, r')"
    using comment_loop_split [OF comment(1)] by auto
  have "t \<noteq> []" using t(3) [rule_format, of "[]"] by (cases t) auto
  then have ok: "comment_ok t" using t by (cases t) (auto simp: comment_ok_def)
  obtain us where us: "lexed r br = Some us" "vs = (LPAREN, t) # us"
    using comment(3) unfolding lex_cases(4) [OF comment(1)] unfolding t(1,2) by auto
  show ?case using comment(2) [OF us(1)] ok us(2) by simp
next
  case (quote q br n r)
  obtain t where t: "q = t @ QUOTE # r" "n = length t" "quote_body t = t" "\<forall>r'. quote_loop (t @ QUOTE # r') 0 = (True, n, r')"
    using quote_loop_split [OF quote(1)] by auto
  obtain us where us: "lexed r br = Some us" "vs = (QUOTE, t) # us"
    using quote(3) unfolding lex_cases(6) [OF quote(1)] unfolding t(1,2) by auto
  show ?case using quote(2) [OF us(1)] t us(2) by (simp add: quote_ok_def)
next
  case (single c q br)
  obtain us where us: "lexed q (bracket c br) = Some us"
      "vs = (c, [c]) # (if c = LT \<and> at q 0 = GT then [(0, [])] else []) @ us"
    using single(4) by (auto simp: lex_cases(9) [OF single(1,2)])
  note IH = single(3) [OF us(1)]
  have p: "print_meanings False ((if c = LT \<and> at q 0 = GT then [(0, [])] else []) @ us) = print_meanings False us"
  proof (cases "c = LT \<and> at q 0 = GT")
    case True
    then obtain q' where "q = GT # q'" by (cases q) (auto simp: GT_def)
    then obtain ws where "us = (GT, [GT]) # ws" using lexed_gt us(1) True by (auto simp: bracket_def)
    then show ?thesis unfolding if_P [OF True] by (simp add: print_value_single print_value_empty)
  next
    case False
    show ?thesis unfolding if_not_P [OF False] by simp
  qed
  have "core vs = (c, [c]) # core us" using us(2) single_neq [OF single(1)] by (simp add: core_def)
  then show ?case
    using IH p single single_neq [OF single(1)] us(2) by simp
next
  case (atom c q br)
  obtain us where us: "lexed (dropWhile atom_char q) br = Some us" "vs = (0, c # takeWhile atom_char q) # us"
    using atom(3) by (auto simp: lex_cases(10) [OF atom(1)])
  show ?case using atom(2) [OF us(1)] us(2) atom(1) by (auto dest: set_takeWhileD)
qed (simp_all add: lex_cases del: comment_loop.simps)

lemma print_head: "good br us \<Longrightarrow> print_meanings True us = [] \<or> \<not> atom_char (hd (print_meanings True us))"
proof (cases us)
  case (Cons v ws)
  assume g: "good br us"
  obtain k t where v: "v = (k, t)" by (cases v)
  show ?thesis
  proof (cases "rfc822_is_atom k")
    case False
    then have k: "k \<in> set single" using g Cons v by (auto split: if_splits)
    then show ?thesis using Cons v print_value_single [OF k] atom_char_neq [of k] by auto
  qed (simp add: Cons v atom_char_def isspace_def)
qed simp

lemma good_lexed: "good br us \<Longrightarrow> \<exists>vs. lexed (print_meanings prev us) br = Some vs \<and> core vs = us"
proof (induction us arbitrary: br prev)
  case Nil
  then show ?case by (simp add: lex_cases(1))
next
  case (Cons v us)
  obtain k t where v: "v = (k, t)" by (cases v)
  let ?p = "print_value v @ print_meanings (rfc822_is_atom k) us"
  have sp: "lexed (print_meanings prev (v # us)) br = lexed ?p br"
    using lex_cases(2) [of "ch CHR '' ''" ?p br] by (cases "prev \<and> rfc822_is_atom k") (auto simp: v isspace_def)
  show ?case
  proof (cases "k \<in> set single")
    case True
    then have g: "t = [k]" "\<not> bad_bracket k br" "good (bracket k br) us" using Cons(2) single_neq [OF True] by (auto simp: v)
    obtain vs where "lexed (print_meanings False us) (bracket k br) = Some vs" "core vs = us" using Cons(1) [OF g(3)] by blast
    then show ?thesis
      using True g single_neq [OF True] unfolding sp by (simp add: v print_value_single lex_cases(9) core_def)
  next
    case False
    then have a: "rfc822_is_atom k" "good br us" using Cons(2) by (auto simp: v split: if_splits)
    obtain vs where vs: "lexed (print_meanings True us) br = Some vs" "core vs = us" using Cons(1) [OF a(2)] by blast
    consider "k = 0" | "k = LPAREN" | "k = QUOTE" using False Cons(2) by (auto simp: v split: if_splits)
    then show ?thesis
    proof cases
      case 1
      then obtain c u where t: "t = c # u" "atom_char c" "\<forall>x\<in>set u. atom_char x" using Cons(2) by (cases t) (auto simp: v)
      have "takeWhile atom_char (u @ print_meanings True us) = u" "dropWhile atom_char (u @ print_meanings True us) = print_meanings True us"
        using t(3) print_head [OF a(2)] by (cases "print_meanings True us"; simp)+
      then show ?thesis using 1 t vs unfolding sp by (simp add: v print_value_def lex_cases(10) [OF t(2)])
    next
      case 2
      then obtain u where u: "t = LPAREN # u" "comment_loop (t @ print_meanings True us) 0 0 = (True, length t, print_meanings True us)"
        using Cons(2) by (auto simp: v comment_ok_def)
      then show ?thesis
        using 2 vs lex_cases(4) [of "u @ print_meanings True us" "length t" "print_meanings True us" br]
        unfolding sp by (simp add: v print_value_def del: comment_loop.simps)
    next
      case 3
      then have q: "quote_body t = t" "quote_loop (t @ QUOTE # print_meanings True us) 0 = (True, length t, print_meanings True us)"
        using Cons(2) by (auto simp: v quote_ok_def)
      then show ?thesis using 3 vs lex_cases(6) [OF q(2), of br] unfolding sp by (simp add: v print_value_def)
    qed
  qed
qed

subsection \<open>The properties\<close>

lemma alloc_new_Some:
  "rfc822t_alloc_new m w s = Some (ts, es) \<longleftrightarrow>
    m \<and> (w (length ts) \<or> ts = []) \<and> ts = out (tokenize True s 0 False tstate_zero) \<and> es = errs (tokenize True s 0 False tstate_zero)"
proof -
  let ?st = "tokenize True s 0 False tstate_zero"
  have z: "uncounted tstate_zero = tstate_zero" by (simp add: uncounted_def tstate_zero_def)
  have f: "tokenize False s 0 False tstate_zero = uncounted ?st" using tokenize_count [of s 0 False tstate_zero] by (simp add: z)
  have n: "toklen ?st = length (out ?st)" using tokenize_toklen [of tstate_zero s 0 False] by (simp add: tstate_zero_def)
  show ?thesis by (auto simp: rfc822t_alloc_new_def f uncounted_def n Let_def split: if_splits)
qed

text \<open>
  The array that \<open>rfc822t_alloc_new\<close> allocates for the tokens it has counted is filled exactly,
  neither overrun nor left short, and every token lies within the header; it fails only if memory
  is exhausted.
\<close>

theorem tokens_fit:
  "case rfc822t_alloc_new m w s of
     None \<Rightarrow> \<not> (m \<and> w (toklen (tokenize False s 0 False tstate_zero)))
   | Some (ts, es) \<Rightarrow> toklen (tokenize False s 0 False tstate_zero) = length ts \<and> within (length s) ts"
proof -
  let ?st = "tokenize True s 0 False tstate_zero"
  have z: "uncounted tstate_zero = tstate_zero" by (simp add: uncounted_def tstate_zero_def)
  have f: "toklen (tokenize False s 0 False tstate_zero) = toklen ?st"
    using tokenize_count [of s 0 False tstate_zero] unfolding z by (simp add: uncounted_def)
  have n: "toklen ?st = length (out ?st)" using tokenize_toklen [of tstate_zero s 0 False] by (simp add: tstate_zero_def)
  have "within (length s) (out ?st)" using tokenize_within [of 0 s "length s" tstate_zero] by (simp add: tstate_zero_def)
  then show ?thesis using n
    by (cases "rfc822t_alloc_new m w s") (auto simp: alloc_new_Some f, simp add: rfc822t_alloc_new_def f Let_def split: if_splits)
qed

lemma alloc_new_lexed:
  assumes "rfc822t_alloc_new m w s = Some (ts, es)"
  shows "case lexed s False of None \<Rightarrow> es \<noteq> [] | Some vs \<Rightarrow> es = [] \<and> map (meaning s) ts = vs"
  using tokenize_lex [of 0 s s tstate_zero False] assms
  by (auto simp: alloc_new_Some tstate_zero_def split: option.splits)

text \<open>
  C34. Printing the tokens of a header without errors and reading the text again gives the same
  tokens, in kind and text; only the empty addresses that the tokenizer makes up are new or gone.
\<close>

theorem tokens_reread:
  assumes "rfc822t_alloc_new m w s = Some (ts, [])" "rfc822t_alloc_new m' w' (rfc822tok_print s ts) = Some (us, es)"
  shows "es = [] \<and> core (map (meaning (rfc822tok_print s ts)) us) = core (map (meaning s) ts)"
proof -
  let ?p = "rfc822tok_print s ts" and ?vs = "map (meaning s) ts"
  have l: "lexed s False = Some ?vs" using alloc_new_lexed [OF assms(1)] by (simp split: option.splits)
  have p: "?p = print_meanings False (core ?vs)" using lexed_good [OF l] by (simp add: rfc822tok_print_def tok_print_meanings)
  obtain ws where ws: "lexed ?p False = Some ws" "core ws = core ?vs" using good_lexed lexed_good [OF l] p by metis
  show ?thesis using alloc_new_lexed [OF assms(2)] ws by simp
qed

lemma tokens_reread_witness:
  "\<exists>ts us. rfc822t_alloc_new True (\<lambda>_. True) (asc ''a b(c)'') = Some (ts, []) \<and>
    rfc822tok_print (asc ''a b(c)'') ts = asc ''a b (c)'' \<and>
    rfc822t_alloc_new True (\<lambda>_. True) (asc ''a b (c)'') = Some (us, []) \<and>
    core (map (meaning (asc ''a b (c)'')) us) = [(0, asc ''a''), (0, asc ''b''), (LPAREN, asc ''(c)'')]"
proof -
  let ?s = "asc ''a b(c)''" and ?q = "asc ''a b (c)''" and ?w = "\<lambda>_. True"
  let ?ts = "[\<lparr>token = 0, ptr = 0, len = 1\<rparr>, \<lparr>token = 0, ptr = 2, len = 1\<rparr>, \<lparr>token = LPAREN, ptr = 3, len = 3\<rparr>]"
  have a: "rfc822t_alloc_new True ?w ?s = Some (?ts, [])" by code_simp
  have p: "rfc822tok_print ?s ?ts = ?q" by code_simp
  obtain us es where u: "rfc822t_alloc_new True ?w ?q = Some (us, es)"
    by (simp add: rfc822t_alloc_new_def Let_def)
  have m: "core (map (meaning ?s) ?ts) = [(0, asc ''a''), (0, asc ''b''), (LPAREN, asc ''(c)'')]" by code_simp
  have r: "es = []" "core (map (meaning ?q) us) = core (map (meaning ?s) ?ts)"
    using tokens_reread [OF a, of True ?w us es, unfolded p, OF u] by fast+
  show ?thesis by (rule exI [of _ ?ts], rule exI [of _ us], intro conjI a p u [unfolded r(1)] trans [OF r(2) m])
qed

end
