(* ===== verification/Rfc822_Addr.thy ===== *)
theory Rfc822_Addr imports Rfc822_Token begin

text \<open>
  Mail addresses, the second half of \<open>wmail/rfc822/rfc822.c\<close> with \<open>rfc822_getaddr.c\<close> and
  \<open>rfc822_getaddrs.c\<close>: taking the array of tokens apart into addresses, which works in the array itself
  and runs twice, and printing them again.

  Cells of the array are named by their index. A chain of \<open>next\<close> pointers is the list of the cells
  it links, a null pointer the empty list.
\<close>

subsection \<open>Parsing\<close>

record rfc822addr =
  tokens :: "nat list"
  name :: "nat list"

definition COLON :: byte where "COLON = ch CHR '':''"
definition SEMI :: byte where "SEMI = ch CHR '';''"
definition COMMA :: byte where "COMMA = ch CHR '',''"

text \<open>The kinds of token that loops run over.\<close>

definition wordish :: "tok \<Rightarrow> bool" where
  "wordish t \<longleftrightarrow> token t = 0 \<or> token t = QUOTE"

definition before_angle :: "tok \<Rightarrow> bool" where
  "before_angle t \<longleftrightarrow> token t \<noteq> SEMI \<and> token t \<noteq> COMMA \<and> token t \<noteq> LT"

definition plain_name :: "tok \<Rightarrow> bool" where
  "plain_name t \<longleftrightarrow> token t = 0 \<or> token t = LPAREN"

definition not_gt :: "tok \<Rightarrow> bool" where
  "not_gt t \<longleftrightarrow> token t \<noteq> GT"

definition not_comment :: "tok \<Rightarrow> bool" where
  "not_comment t \<longleftrightarrow> token t \<noteq> LPAREN"

text \<open>
  Such a loop over the \<open>n\<close> cells from \<open>b\<close> on: \<open>b\<close> is the pointer \<open>tokens\<close>, \<open>n\<close> the count \<open>ntokens\<close>.
\<close>

definition run :: "(tok \<Rightarrow> bool) \<Rightarrow> tok list \<Rightarrow> nat \<Rightarrow> nat \<Rightarrow> nat" where
  "run P a b n = length (takeWhile P (take n (drop b a)))"

text \<open>Where an old style address ends: at a comma or semicolon, or between two words.\<close>

fun addr_end :: "tok list \<Rightarrow> bool \<Rightarrow> nat" where
  "addr_end [] flag = 0"
| "addr_end (t # ts) flag =
     (if token t = COMMA \<or> token t = SEMI then 0
      else if token t = LPAREN then Suc (addr_end ts flag)
      else if token t = 0 \<or> token t = QUOTE then (if flag then 0 else Suc (addr_end ts True))
      else Suc (addr_end ts False))"

text \<open>The name in front of a bracket: its words, or all of it as one quoted string.\<close>

definition comment_to_quote :: "tok \<Rightarrow> tok" where
  "comment_to_quote t = (if token t = LPAREN then t\<lparr>token := QUOTE\<rparr> else t)"

definition quote_comments :: "nat list \<Rightarrow> tok list \<Rightarrow> tok list" where
  "quote_comments nm a = fold (\<lambda>i a. a[i := comment_to_quote (a ! i)]) nm a"

definition phrase_name :: "tok list \<Rightarrow> nat \<Rightarrow> nat \<Rightarrow> tok list \<times> nat list" where
  "phrase_name a b i =
     (let (a, nm) =
        (if run plain_name a b i = i then (a, [b..<b + i])
         else (a[b := (a ! b)\<lparr>token := QUOTE, len := ptr (a ! (b + i - 1)) + len (a ! (b + i - 1)) - ptr (a ! b)\<rparr>], [b]))
      in (quote_comments nm a, nm))"

text \<open>
  An old style address: the comments are squeezed out of its cells, and the last one is put into
  the last cell as the name.
\<close>

fun squeeze :: "tok list \<Rightarrow> nat \<Rightarrow> nat \<Rightarrow> nat \<Rightarrow> nat \<Rightarrow> tok option \<Rightarrow> tok list \<times> nat \<times> tok option" where
  "squeeze a b 0 j k save = (a, k, save)"
| "squeeze a b (Suc m) j k save =
     (if token (a ! (b + j)) = LPAREN then squeeze a b m (j + 1) k (Some (a ! (b + j)))
      else squeeze (a[b + k := a ! (b + j)]) b m (j + 1) (k + 1) save)"

definition old_style :: "tok list \<Rightarrow> nat \<Rightarrow> nat \<Rightarrow> tok list \<times> rfc822addr" where
  "old_style a b i =
     (case squeeze a b i 0 0 None of
        (a, k, None) \<Rightarrow> (a, \<lparr>tokens = [b..<b + k], name = []\<rparr>)
      | (a, k, Some t) \<Rightarrow> (a[b + i - 1 := t], \<lparr>tokens = [b..<b + k], name = [b + i - 1]\<rparr>))"

text \<open>
  The loop. \<open>addrsp\<close> says whether there is an array of addresses; without one the tokens are left
  as they are.
\<close>

definition put_addr :: "bool \<Rightarrow> rfc822addr \<Rightarrow> rfc822addr list \<Rightarrow> rfc822addr list" where
  "put_addr addrsp x addrs = (if addrsp then addrs @ [x] else addrs)"

function parse_loop :: "bool \<Rightarrow> tok list \<Rightarrow> nat \<Rightarrow> nat \<Rightarrow> rfc822addr list \<Rightarrow> nat \<Rightarrow> tok list \<times> rfc822addr list \<times> nat" where
  "parse_loop addrsp a b n addrs naddrs =
     (if n = 0 then (a, addrs, naddrs)
      else let i = run wordish a b n in
      if i < n \<and> token (a ! (b + i)) = COLON then
        parse_loop addrsp a (b + i + 1) (n - (i + 1))
          (put_addr addrsp \<lparr>tokens = [], name = [b..<b + i + 1]\<rparr> addrs) (naddrs + 1)
      else if token (a ! b) = COMMA then parse_loop addrsp a (b + 1) (n - 1) addrs naddrs
      else if token (a ! b) = SEMI then
        parse_loop addrsp a (b + 1) (n - 1) (put_addr addrsp \<lparr>tokens = [], name = [b]\<rparr> addrs) (naddrs + 1)
      else let i = run before_angle a b n in
      if i < n \<and> token (a ! (b + i)) = LT then
        let (a, nm) = (if addrsp then phrase_name a b i else (a, []));
            b = b + (i + 1); n = n - (i + 1); i = run not_gt a b n
        in parse_loop addrsp a (if n - i = 0 then b + i else b + i + 1) (n - i - 1)
             (put_addr addrsp \<lparr>tokens = [b..<b + i], name = nm\<rparr> addrs) (naddrs + 1)
      else let i = addr_end (take n (drop b a)) False in
      if i = 0 then parse_loop addrsp a (b + 1) (n - 1) addrs naddrs
      else if addrsp then
        let (a, x) = old_style a b i in parse_loop addrsp a (b + i) (n - i) (put_addr addrsp x addrs) (naddrs + 1)
      else parse_loop addrsp a (b + i) (n - i) addrs (naddrs + 1))"
  by pat_completeness auto
termination
  by (relation "measure (\<lambda>(addrsp, a, b, n, addrs, naddrs). n)") auto

declare parse_loop.simps [simp del]

definition parseaddr :: "bool \<Rightarrow> tok list \<Rightarrow> tok list \<times> rfc822addr list \<times> nat" where
  "parseaddr addrsp ts = parse_loop addrsp ts 0 (length ts) [] 0"

text \<open>The array of tokens, changed, and that of the addresses.\<close>

definition rfc822a_alloc :: "bool \<Rightarrow> (nat \<Rightarrow> bool) \<Rightarrow> tok list \<Rightarrow> (tok list \<times> rfc822addr list) option" where
  "rfc822a_alloc malloc_works calloc_works ts =
     (case parseaddr False ts of (_, _, naddrs) \<Rightarrow>
        if \<not> malloc_works then None
        else if naddrs \<noteq> 0 \<and> \<not> calloc_works naddrs then None
        else case parseaddr True ts of (a, addrs, _) \<Rightarrow> Some (a, addrs))"

subsection \<open>What is parsed\<close>

text \<open>
  The same on a list of tokens, without the array: the first address with its name, if the list
  begins with one, and the number of tokens it takes.
\<close>

definition phrase :: "tok list \<Rightarrow> tok list" where
  "phrase p =
     (if \<forall>t\<in>set p. plain_name t then map comment_to_quote p
      else [(hd p)\<lparr>token := QUOTE, len := ptr (last p) + len (last p) - ptr (hd p)\<rparr>])"

definition last_comment :: "tok list \<Rightarrow> tok list" where
  "last_comment x = (case filter (\<lambda>t. \<not> not_comment t) x of [] \<Rightarrow> [] | c # cs \<Rightarrow> [last (c # cs)])"

definition first_addr :: "tok list \<Rightarrow> (tok list \<times> tok list) list \<times> nat" where
  "first_addr ts =
     (let w = takeWhile wordish ts; p = takeWhile before_angle ts; e = addr_end ts False in
      if length w < length ts \<and> token (ts ! length w) = COLON then ([(take (length w + 1) ts, [])], length w + 1)
      else if token (ts ! 0) = COMMA then ([], 1)
      else if token (ts ! 0) = SEMI then ([([ts ! 0], [])], 1)
      else if length p < length ts \<and> token (ts ! length p) = LT then
        let q = takeWhile not_gt (drop (length p + 1) ts) in ([(phrase p, q)], min (length p + length q + 2) (length ts))
      else if e = 0 then ([], 1)
      else ([(last_comment (take e ts), filter not_comment (take e ts))], e))"

lemma COLON_neq: "COLON \<noteq> COMMA" "COLON \<noteq> SEMI" "COMMA \<noteq> SEMI" "COMMA \<noteq> COLON" "SEMI \<noteq> COLON" "SEMI \<noteq> COMMA"
  by (simp_all add: COLON_def COMMA_def SEMI_def)

lemma addr_end_le: "addr_end ts flag \<le> length ts"
  by (induction ts flag rule: addr_end.induct) auto

lemma first_addr_takes:
  assumes "first_addr ts = (xs, k)" "ts \<noteq> []"
  shows "0 < k \<and> k \<le> length ts"
  using assms addr_end_le [of ts False] by (auto simp: first_addr_def Let_def Suc_le_eq split: if_splits)

function addresses :: "tok list \<Rightarrow> (tok list \<times> tok list) list" where
  "addresses ts = (if ts = [] then [] else case first_addr ts of (xs, k) \<Rightarrow> xs @ addresses (drop k ts))"
  by pat_completeness auto
termination
proof (relation "measure length", goal_cases)
  case (2 ts xs k)
  then show ?case using first_addr_takes [of ts xs k] by simp
qed simp

declare addresses.simps [simp del]

text \<open>What an address of the array stands for.\<close>

definition view :: "tok list \<Rightarrow> rfc822addr \<Rightarrow> tok list \<times> tok list" where
  "view a x = (map ((!) a) (name x), map ((!) a) (tokens x))"

definition cells :: "rfc822addr \<Rightarrow> nat set" where
  "cells x = set (name x) \<union> set (tokens x)"

lemma view_cong: "(\<And>i. i \<in> cells x \<Longrightarrow> a ! i = a' ! i) \<Longrightarrow> view a x = view a' x"
  by (simp add: view_def cells_def)

lemma map_nth_upt: "b + i \<le> length a \<Longrightarrow> map ((!) a) [b..<b + i] = take i (drop b a)"
  by (rule nth_equalityI) auto

lemma run_eq: "n = length a - b \<Longrightarrow> run P a b n = length (takeWhile P (drop b a))"
  by (simp add: run_def)

text \<open>The cells before \<open>b\<close> and from \<open>e\<close> on are the same in both arrays.\<close>

definition outside :: "nat \<Rightarrow> nat \<Rightarrow> tok list \<Rightarrow> tok list \<Rightarrow> bool" where
  "outside b e a a' \<longleftrightarrow> length a' = length a \<and> (\<forall>i < length a. i < b \<or> e \<le> i \<longrightarrow> a' ! i = a ! i)"

lemma outside_refl [simp]: "outside b e a a"
  by (simp add: outside_def)

lemma outside_update: "b \<le> i \<Longrightarrow> i < e \<Longrightarrow> outside b e a a' \<Longrightarrow> outside b e a (a'[i := t])"
  by (auto simp: outside_def)

lemma outside_drop: "outside b e a a' \<Longrightarrow> drop e a' = drop e a"
  by (rule nth_equalityI) (auto simp: outside_def)

lemma outside_length: "outside b e a a' \<Longrightarrow> length a' = length a"
  by (simp add: outside_def)

lemma outside_nth: "outside b e a a' \<Longrightarrow> i < b \<Longrightarrow> e \<le> length a \<Longrightarrow> b \<le> e \<Longrightarrow> a' ! i = a ! i"
  by (simp add: outside_def)

lemma comment_to_quote_idem [simp]: "comment_to_quote (comment_to_quote t) = comment_to_quote t"
  by (simp add: comment_to_quote_def)

lemma length_quote_comments [simp]: "length (quote_comments nm a) = length a"
  unfolding quote_comments_def by (induction nm arbitrary: a) auto

lemma nth_quote_comments:
  "j < length a \<Longrightarrow> quote_comments nm a ! j = (if j \<in> set nm then comment_to_quote (a ! j) else a ! j)"
proof (induction nm arbitrary: a)
  case (Cons i nm)
  have "quote_comments (i # nm) a = quote_comments nm (a[i := comment_to_quote (a ! i)])" by (simp add: quote_comments_def)
  then show ?case using Cons by (cases "i = j") auto
qed (simp add: quote_comments_def)

lemma phrase_name:
  assumes "b + i \<le> length a" "phrase_name a b i = (a', nm)"
  shows "outside b (b + i) a a'" "map ((!) a') nm = phrase (take i (drop b a))" "set nm \<subseteq> {b..<b + i}"
proof -
  let ?p = "take i (drop b a)"
  have r: "run plain_name a b i = i \<longleftrightarrow> (\<forall>t\<in>set ?p. plain_name t)"
    using assms(1) takeWhile_eq_all_conv [of plain_name ?p]
    by (metis add_le_imp_le_diff add.commute length_drop length_take min.absorb2 run_def takeWhile_eq_take take_all order_refl)
  show "outside b (b + i) a a'" "map ((!) a') nm = phrase ?p" "set nm \<subseteq> {b..<b + i}"
  proof (atomize (full), cases "run plain_name a b i = i")
    case True
    then have "a' = quote_comments [b..<b + i] a" "nm = [b..<b + i]" using assms(2) by (auto simp: phrase_name_def)
    moreover have "map ((!) (quote_comments [b..<b + i] a)) [b..<b + i] = map comment_to_quote ?p"
      using assms(1) by (simp add: map_nth_upt [symmetric] nth_quote_comments)
    ultimately show "outside b (b + i) a a' \<and> map ((!) a') nm = phrase ?p \<and> set nm \<subseteq> {b..<b + i}"
      using True r by (simp add: phrase_def outside_def nth_quote_comments)
  next
    case False
    then have i: "0 < i" by (cases i) (simp_all add: run_def)
    let ?t = "(a ! b)\<lparr>token := QUOTE, len := ptr (a ! (b + i - 1)) + len (a ! (b + i - 1)) - ptr (a ! b)\<rparr>"
    have e: "a' = quote_comments [b] (a[b := ?t])" "nm = [b]" using False assms(2) by (auto simp: phrase_name_def)
    have lp: "length ?p = i" and bi: "b + (i - 1) = b + i - 1" using i assms(1) by simp_all
    then have "?p \<noteq> []" using i by auto
    then have "hd ?p = a ! b" "last ?p = a ! (b + i - 1)"
      using i lp assms(1) unfolding hd_conv_nth [OF \<open>?p \<noteq> []\<close>] last_conv_nth [OF \<open>?p \<noteq> []\<close>] lp bi [symmetric] by simp_all
    moreover have "comment_to_quote ?t = ?t" by (simp add: comment_to_quote_def)
    ultimately show "outside b (b + i) a a' \<and> map ((!) a') nm = phrase ?p \<and> set nm \<subseteq> {b..<b + i}"
      using False r i assms(1) unfolding e
      by (auto simp: phrase_def outside_def nth_quote_comments nth_list_update)
  qed
qed

lemma squeeze:
  assumes "squeeze a b m j k save = (a', k', save')" "k \<le> j" "b + j + m \<le> length a"
  defines "x \<equiv> take m (drop (b + j) a)"
  shows "outside (b + k) (b + j + m) a a' \<and> k' = k + length (filter not_comment x) \<and>
    take (k' - k) (drop (b + k) a') = filter not_comment x \<and>
    save' = (case filter (\<lambda>t. \<not> not_comment t) x of [] \<Rightarrow> save | c # cs \<Rightarrow> Some (last (c # cs)))"
  using assms(1-3) unfolding x_def
proof (induction m arbitrary: a j k save)
  case (Suc m)
  let ?t = "a ! (b + j)"
  have x: "take (Suc m) (drop (b + j) a) = ?t # take m (drop (b + (j + 1)) a)"
    using Suc(4) by (simp add: Cons_nth_drop_Suc [symmetric])
  show ?case
  proof (cases "token ?t = LPAREN")
    case True
    then have s: "squeeze a b m (j + 1) k (Some ?t) = (a', k', save')" using Suc(2) by simp
    show ?thesis using Suc(1) [OF s] Suc(3,4) True unfolding x
      by (auto simp: not_comment_def outside_def split: list.splits)
  next
    case False
    let ?a = "a[b + k := ?t]"
    have s: "squeeze ?a b m (j + 1) (k + 1) save = (a', k', save')" using Suc(2) False by simp
    have d: "drop (b + (j + 1)) ?a = drop (b + (j + 1)) a" using Suc(3) by simp
    note I = Suc(1) [OF s, unfolded d]
    have o: "outside (b + (k + 1)) (b + (j + 1) + m) ?a a'" and k': "k' = k + 1 + length (filter not_comment (take m (drop (b + (j + 1)) a)))"
      and f: "take (k' - (k + 1)) (drop (b + (k + 1)) a') = filter not_comment (take m (drop (b + (j + 1)) a))"
      and v: "save' = (case filter (\<lambda>t. \<not> not_comment t) (take m (drop (b + (j + 1)) a)) of [] \<Rightarrow> save | c # cs \<Rightarrow> Some (last (c # cs)))"
      using I Suc(3,4) by auto
    have "a' ! (b + k) = ?t" using o Suc(3,4) by (simp add: outside_def)
    moreover have "length a' = length a" using o by (simp add: outside_def)
    ultimately have t: "drop (b + k) a' = ?t # drop (b + (k + 1)) a'"
      using Suc(3,4) by (simp add: Cons_nth_drop_Suc [symmetric])
    have o': "outside (b + k) (b + j + Suc m) a a'"
      using o Suc(3) by (auto simp: outside_def nth_list_update)
    have "not_comment ?t" using False by (simp add: not_comment_def)
    then show ?thesis unfolding x t using o' k' f v by (simp add: Suc_diff_le)
  qed
qed simp

lemma old_style:
  assumes "0 < i" "b + i \<le> length a" "old_style a b i = (a', x)"
  shows "outside b (b + i) a a'"
    "view a' x = (last_comment (take i (drop b a)), filter not_comment (take i (drop b a)))"
    "cells x \<subseteq> {b..<b + i}"
proof -
  let ?x = "take i (drop b a)"
  obtain a1 k save where s: "squeeze a b i 0 0 None = (a1, k, save)" by (metis prod_cases3)
  have o: "outside b (b + i) a a1" and k: "k = length (filter not_comment ?x)" and f: "take k (drop b a1) = filter not_comment ?x"
    and v: "save = (case filter (\<lambda>t. \<not> not_comment t) ?x of [] \<Rightarrow> None | c # cs \<Rightarrow> Some (last (c # cs)))"
    using squeeze [OF s] assms(2) by auto
  have l: "length a1 = length a" using o by (rule outside_length)
  have ki: "k \<le> i" using k length_filter_le [of not_comment ?x] by simp
  show "outside b (b + i) a a'" "view a' x = (last_comment ?x, filter not_comment ?x)" "cells x \<subseteq> {b..<b + i}"
  proof (atomize (full), cases "filter (\<lambda>t. \<not> not_comment t) ?x")
    case Nil
    then have "a' = a1" "x = \<lparr>tokens = [b..<b + k], name = []\<rparr>" using assms(3) s v by (auto simp: old_style_def)
    then show "outside b (b + i) a a' \<and> view a' x = (last_comment ?x, filter not_comment ?x) \<and> cells x \<subseteq> {b..<b + i}"
      using o f Nil l ki assms(2) by (auto simp: view_def last_comment_def cells_def map_nth_upt)
  next
    case (Cons c cs)
    let ?t = "last (c # cs)"
    have e: "a' = a1[b + i - 1 := ?t]" "x = \<lparr>tokens = [b..<b + k], name = [b + i - 1]\<rparr>"
      using assms(3) s v Cons by (auto simp: old_style_def)
    have "k < i"
      using sum_length_filter_compl [of not_comment ?x] Cons k assms(2) by simp
    then have "map ((!) a') [b..<b + k] = take k (drop b a1)"
      using l assms(2) unfolding e by (auto simp: map_nth_upt [symmetric])
    then show "outside b (b + i) a a' \<and> view a' x = (last_comment ?x, filter not_comment ?x) \<and> cells x \<subseteq> {b..<b + i}"
      using o f Cons l \<open>k < i\<close> assms(1,2) unfolding e
      by (auto simp: view_def last_comment_def cells_def intro: outside_update)
  qed
qed

text \<open>One round of the loop.\<close>

definition round_ok :: "bool \<Rightarrow> tok list \<Rightarrow> nat \<Rightarrow> tok list \<Rightarrow> rfc822addr list \<Rightarrow> (tok list \<times> tok list) list \<Rightarrow> nat \<Rightarrow> bool" where
  "round_ok addrsp a b a' new xs e \<longleftrightarrow>
     outside b e a a' \<and> (if addrsp then map (view a') new = xs \<and> (\<forall>x\<in>set new. cells x \<subseteq> {b..<e}) else new = [] \<and> a' = a)"

lemma parse_round:
  assumes "b < length a" "first_addr (drop b a) = (xs, k)"
  shows "\<exists>a' new. round_ok addrsp a b a' new xs (b + k) \<and>
    parse_loop addrsp a b (length a - b) addrs naddrs =
    parse_loop addrsp a' (b + k) (length a - (b + k)) (addrs @ new) (naddrs + length xs)"
proof -
  let ?ts = "drop b a"
  define n where "n = length a - b"
  define w where "w = length (takeWhile wordish ?ts)"
  define p where "p = length (takeWhile before_angle ?ts)"
  define e where "e = addr_end ?ts False"
  have n: "0 < n" "length ?ts = n" "?ts ! 0 = a ! b" using assms(1) by (simp_all add: n_def)
  have run: "run wordish a b n = w" "run before_angle a b n = p" "take n ?ts = ?ts"
    by (simp_all add: run_def w_def p_def n_def)
  have nth: "?ts ! i = a ! (b + i)" for i using assms(1) by simp
  note F = assms(2) [unfolded first_addr_def Let_def n nth, folded w_def p_def e_def]
  note L = parse_loop.simps [of addrsp a b n addrs naddrs, unfolded Let_def run, folded e_def]
  consider (group) "w < n" "token (a ! (b + w)) = COLON"
    | (comma) "\<not> (w < n \<and> token (a ! (b + w)) = COLON)" "token (a ! b) = COMMA"
    | (semi) "\<not> (w < n \<and> token (a ! (b + w)) = COLON)" "token (a ! b) \<noteq> COMMA" "token (a ! b) = SEMI"
    | (angle) "\<not> (w < n \<and> token (a ! (b + w)) = COLON)" "token (a ! b) \<noteq> COMMA" "token (a ! b) \<noteq> SEMI"
        "p < n" "token (a ! (b + p)) = LT"
    | (old) "\<not> (w < n \<and> token (a ! (b + w)) = COLON)" "token (a ! b) \<noteq> COMMA" "token (a ! b) \<noteq> SEMI"
        "\<not> (p < n \<and> token (a ! (b + p)) = LT)"
    by blast
  then show ?thesis
  proof cases
    case group
    let ?x = "\<lparr>tokens = [], name = [b..<b + w + 1]\<rparr>"
    have f: "xs = [(take (w + 1) ?ts, [])]" "k = w + 1" using F group by auto
    have "view a ?x = (take (w + 1) ?ts, [])"
      using map_nth_upt [of b "w + 1" a] group by (simp add: view_def n_def)
    then show ?thesis
      using n(1) group unfolding n_def [symmetric] L f
      by (intro exI [of _ a] exI [of _ "if addrsp then [?x] else []"])
        (auto simp: put_addr_def round_ok_def cells_def n_def)
  next
    case comma
    then have f: "xs = []" "k = 1" using F comma by auto
    show ?thesis
      using n(1) comma unfolding n_def [symmetric] L f by (intro exI [of _ a] exI [of _ "[]"]) (auto simp: round_ok_def n_def)
  next
    case semi
    let ?x = "\<lparr>tokens = [], name = [b]\<rparr>"
    have f: "xs = [([a ! b], [])]" "k = 1" using F semi COLON_neq by auto
    show ?thesis
      using n(1) semi unfolding n_def [symmetric] L f
      by (intro exI [of _ a] exI [of _ "if addrsp then [?x] else []"])
        (auto simp: put_addr_def round_ok_def cells_def view_def n_def)
  next
    case angle
    let ?n = "n - (p + 1)" and ?b = "b + (p + 1)"
    obtain a' nm where a': "phrase_name a b p = (a', nm)" by (cases "phrase_name a b p")
    have pn: "b + p \<le> length a" using angle(4) by (simp add: n_def)
    note ph = phrase_name [OF pn a']
    define a1 where "a1 = (if addrsp then a' else a)"
    have o: "outside b (b + p) a a1" using ph(1) by (simp add: a1_def)
    have d: "drop ?b a1 = drop ?b a" using outside_drop [of b ?b a a1] o by (auto simp: outside_def)
    define q where "q = takeWhile not_gt (drop ?b a)"
    have r: "run not_gt a1 ?b ?n = length q"
      unfolding run_def d q_def using outside_length [OF o] by (simp add: n_def)
    have q: "length q \<le> ?n" using length_takeWhile_le [of not_gt "drop ?b a"] by (simp add: q_def n_def)
    let ?x = "\<lparr>tokens = [?b..<?b + length q], name = nm\<rparr>"
    have pp: "takeWhile before_angle ?ts = take p ?ts" unfolding p_def by (rule takeWhile_eq_take)
    have dq: "drop (p + 1) ?ts = drop ?b a" by (simp add: add.commute)
    have f: "xs = [(phrase (take p ?ts), q)]" "k = min (p + length q + 2) n"
      using F angle unfolding pp dq q_def [symmetric] by auto
    have vw: "view a1 ?x = (phrase (take p ?ts), q)" if addrsp
    proof -
      have "map ((!) a1) [?b..<?b + length q] = q"
        using map_nth_upt [of ?b "length q" a1] q angle(4) outside_length [OF o]
          takeWhile_eq_take [of not_gt "drop ?b a", folded q_def]
        unfolding d by (simp add: n_def)
      then show ?thesis using ph(2) that by (simp add: view_def a1_def)
    qed
    have sub: "cells ?x \<subseteq> {b..<b + k}"
    proof
      fix i assume "i \<in> cells ?x"
      then have "i \<in> set nm \<or> ?b \<le> i \<and> i < ?b + length q" by (auto simp: cells_def)
      moreover have "i < b + p \<and> b \<le> i" if "i \<in> set nm" using subsetD [OF ph(3) that] by simp
      ultimately show "i \<in> {b..<b + k}" using q angle(4) unfolding f by auto
    qed
    have o': "outside b (b + k) a a1" using o by (auto simp: outside_def f n_def)
    have k1: "(if ?n - length q = 0 then ?b + length q else ?b + length q + 1) = b + k" "?n - length q - 1 = n - k"
      using q angle(4) unfolding f by auto
    have pa: "(if addrsp then phrase_name a b p else (a, [])) = (a1, if addrsp then nm else [])" by (simp add: a' a1_def)
    have "parse_loop addrsp a b n addrs naddrs = parse_loop addrsp a1 (b + k) (n - k)
        (put_addr addrsp \<lparr>tokens = [?b..<?b + length q], name = if addrsp then nm else []\<rparr> addrs) (naddrs + 1)"
      unfolding L if_not_P [OF angle(1)] if_not_P [OF angle(2)] if_not_P [OF angle(3)] if_P [OF conjI [OF angle(4,5)]]
        pa prod.case r k1 using n(1) by simp
    then show ?thesis
      using o' vw sub f(1)
      by (intro exI [of _ a1] exI [of _ "if addrsp then [?x] else []"])
        (simp add: put_addr_def round_ok_def a1_def n_def)
  next
    case old
    show ?thesis
    proof (cases "e = 0")
      case True
      then have f: "xs = []" "k = 1" using F old True by auto
      show ?thesis
        using n(1) old True unfolding n_def [symmetric] L f by (intro exI [of _ a] exI [of _ "[]"]) (auto simp: round_ok_def n_def)
    next
      case False
      have en: "b + e \<le> length a" using addr_end_le [of ?ts False] assms(1) by (simp add: e_def)
      obtain a' x where a': "old_style a b e = (a', x)" by (cases "old_style a b e")
      have f: "xs = [(last_comment (take e ?ts), filter not_comment (take e ?ts))]" "k = e" using F old False by auto
      note os = old_style [OF _ en a', of]
      show ?thesis
        using n(1) old False os a' unfolding n_def [symmetric] L f
        by (intro exI [of _ "if addrsp then a' else a"] exI [of _ "if addrsp then [x] else []"])
          (auto simp: put_addr_def round_ok_def n_def)
    qed
  qed
qed

lemma round_ok_trans:
  assumes "round_ok p a b a1 new1 xs e" "round_ok p a1 e a2 new2 ys f" "b \<le> e" "e \<le> f" "f \<le> length a"
  shows "round_ok p a b a2 (new1 @ new2) (xs @ ys) f"
proof (cases p)
  case True
  have v: "view a2 x = view a1 x" if "x \<in> set new1" for x
  proof (rule view_cong)
    fix i assume "i \<in> cells x"
    then have "i < e" using assms(1) that True by (force simp: round_ok_def)
    then show "a2 ! i = a1 ! i" using assms(1,2,4,5) by (auto simp: round_ok_def outside_def)
  qed
  have c: "cells x \<subseteq> {b..<f}" if "x \<in> set (new1 @ new2)" for x
  proof
    fix i assume "i \<in> cells x"
    then have "b \<le> i \<and> i < e \<or> e \<le> i \<and> i < f" using assms(1,2) that True by (force simp: round_ok_def)
    then show "i \<in> {b..<f}" using assms(3,4) by auto
  qed
  then show ?thesis using assms True v by (auto simp: round_ok_def outside_def)
next
  case False
  then show ?thesis using assms(1,2) by (simp add: round_ok_def)
qed

lemma parse_loop_addresses:
  "b \<le> length a \<Longrightarrow> \<exists>a' new. round_ok p a b a' new (addresses (drop b a)) (length a) \<and>
    parse_loop p a b (length a - b) as m = (a', as @ new, m + length (addresses (drop b a)))"
proof (induction "length a - b" arbitrary: a b as m rule: less_induct)
  case (less a b as m)
  show ?case
  proof (cases "b = length a")
    case True
    then show ?thesis
      by (intro exI [of _ a] exI [of _ "[]"]) (simp add: parse_loop.simps addresses.simps [of "[]"] round_ok_def)
  next
    case False
    then have b: "b < length a" "drop b a \<noteq> []" using less(2) by simp_all
    obtain xs k where f: "first_addr (drop b a) = (xs, k)" by (cases "first_addr (drop b a)")
    then have k: "0 < k" "b + k \<le> length a" using first_addr_takes [OF f b(2)] b(1) by auto
    obtain a1 new1 where r1: "round_ok p a b a1 new1 xs (b + k)" and
      l1: "parse_loop p a b (length a - b) as m = parse_loop p a1 (b + k) (length a - (b + k)) (as @ new1) (m + length xs)"
      using parse_round [OF b(1) f] by blast
    then have a1: "length a1 = length a" "drop (b + k) a1 = drop (b + k) a"
      using outside_length outside_drop by (auto simp: round_ok_def)
    have "length a1 - (b + k) < length a - b" "b + k \<le> length a1" using a1(1) b k by simp_all
    from less(1) [OF this, of "as @ new1" "m + length xs"]
    obtain a2 new2 where r2: "round_ok p a1 (b + k) a2 new2 (addresses (drop (b + k) a)) (length a)" and
      l2: "parse_loop p a1 (b + k) (length a - (b + k)) (as @ new1) (m + length xs) =
        (a2, (as @ new1) @ new2, m + length xs + length (addresses (drop (b + k) a)))"
      unfolding a1 by blast
    have s: "addresses (drop b a) = xs @ addresses (drop (b + k) a)"
      using b(1) by (subst addresses.simps) (simp add: f add.commute)
    show ?thesis
      using round_ok_trans [OF r1 r2] k unfolding s l1 l2
      by (intro exI [of _ a2] exI [of _ "new1 @ new2"]) simp
  qed
qed

lemma parseaddr_addresses:
  "\<exists>a' new. parseaddr p ts = (a', new, length (addresses ts)) \<and>
    (if p then map (view a') new = addresses ts else new = [] \<and> a' = ts)"
  using parse_loop_addresses [of 0 ts p "[]" 0] by (cases p) (auto simp: parseaddr_def round_ok_def)

text \<open>
  C8. Parsing in the array gives what parsing the list of tokens gives: the count of the first
  pass is the number of addresses, which fill the array allocated for them, and each address
  stands for its tokens and its name although later addresses have changed the array of tokens. It
  fails only if memory is exhausted.
\<close>

theorem rfc822a_alloc_addresses:
  "case rfc822a_alloc m w ts of
     None \<Rightarrow> \<not> (m \<and> w (length (addresses ts)))
   | Some (a, addrs) \<Rightarrow> snd (snd (parseaddr False ts)) = length addrs \<and> map (view a) addrs = addresses ts"
proof -
  obtain a addrs where "parseaddr True ts = (a, addrs, length (addresses ts))" "map (view a) addrs = addresses ts"
    using parseaddr_addresses [of True ts] by auto
  moreover have "parseaddr False ts = (ts, [], length (addresses ts))"
    using parseaddr_addresses [of False ts] by auto
  moreover have "length addrs = length (addresses ts)" using calculation(2) by (metis length_map)
  ultimately show ?thesis by (simp add: rfc822a_alloc_def)
qed

end
