(* ===== verification/Rfc822_Print.thy ===== *)
theory Rfc822_Print imports Rfc822_Addr begin

text \<open>
  Printing mail addresses, \<open>rfc822_print_common\<close> and its neighbours in \<open>wmail/rfc822/rfc822.c\<close>,
  \<open>rfc822_getaddr.c\<close> and \<open>rfc822_getaddrs.c\<close>. The arguments \<open>s\<close> and \<open>a\<close> are the header and the array
  of its tokens; the functions that are called with the characters are the list of the characters,
  \<open>sep\<close> what the separator function makes of a separator, and \<open>mem n\<close> whether \<open>malloc(n)\<close> succeeds.
\<close>

subsection \<open>Printing\<close>

definition print_cells :: "byte list \<Rightarrow> tok list \<Rightarrow> nat list \<Rightarrow> byte list" where
  "print_cells s a cs = rfc822tok_print s (map ((!) a) cs)"

text \<open>The functions of \<open>rfc822_getaddr.c\<close> that count and save leave newlines out.\<close>

definition save_text :: "(nat \<Rightarrow> bool) \<Rightarrow> byte list \<Rightarrow> byte list option" where
  "save_text mem t = (let t = filter (\<lambda>c. c \<noteq> NL) t in if mem (length t + 1) then Some t else None)"

definition rfc822_gettok :: "(nat \<Rightarrow> bool) \<Rightarrow> byte list \<Rightarrow> tok list \<Rightarrow> nat list \<Rightarrow> byte list option" where
  "rfc822_gettok mem s a cs = save_text mem (print_cells s a cs)"

text \<open>\<open>decode_func\<close> applied to the character set, if there is one; what it returns may be null.\<close>

type_synonym decode_func = "(byte list \<Rightarrow> byte list option) option"

definition print_name :: "(nat \<Rightarrow> bool) \<Rightarrow> decode_func \<Rightarrow> byte list \<Rightarrow> tok list \<Rightarrow> nat list \<Rightarrow> byte list" where
  "print_name mem decode s a cs =
     (case decode of
        None \<Rightarrow> print_cells s a cs
      | Some f \<Rightarrow>
          (case rfc822_gettok mem s a cs of
             None \<Rightarrow> print_cells s a cs
           | Some p \<Rightarrow> (case f p of None \<Rightarrow> [] | Some q \<Rightarrow> q)))"

fun adjacent_atoms :: "tok list \<Rightarrow> bool" where
  "adjacent_atoms (t # u # ts) \<longleftrightarrow> rfc822_is_atom (token t) \<and> rfc822_is_atom (token u) \<or> adjacent_atoms (u # ts)"
| "adjacent_atoms _ \<longleftrightarrow> False"

fun rfc822_print_common ::
    "(nat \<Rightarrow> bool) \<Rightarrow> decode_func \<Rightarrow> (byte list \<Rightarrow> byte list) \<Rightarrow> byte list \<Rightarrow> tok list \<Rightarrow> rfc822addr list \<Rightarrow> byte list" where
  "rfc822_print_common mem decode sep s a [] = []"
| "rfc822_print_common mem decode sep s a (x # xs) =
     (if tokens x = [] then
        print_cells s a (name x) @
        (if name x \<noteq> [] \<and> xs \<noteq> [] \<and> (token (a ! last (name x)) = COLON \<or> token (a ! last (name x)) = SEMI)
         then sep (asc '' '') else []) @
        rfc822_print_common mem decode sep s a xs
      else
        (if name x \<noteq> [] \<and> token (a ! hd (name x)) = LPAREN then
           print_cells s a (tokens x) @ asc '' '' @ print_name mem decode s a (name x)
         else
           let print_braces = name x \<noteq> [] \<or> adjacent_atoms (map ((!) a) (tokens x)) in
           (if name x \<noteq> [] then print_name mem decode s a (name x) @ asc '' '' else []) @
           (if print_braces then [LT] else []) @ print_cells s a (tokens x) @ (if print_braces then [GT] else [])) @
        (case xs of
           [] \<Rightarrow> []
         | y # _ \<Rightarrow>
             if tokens y \<noteq> [] \<or> name y \<noteq> [] \<and> rfc822_is_atom (token (a ! hd (name y))) then sep (asc '', '') else []) @
        rfc822_print_common mem decode sep s a xs)"

definition rfc822_print :: "(byte list \<Rightarrow> byte list) \<Rightarrow> byte list \<Rightarrow> tok list \<Rightarrow> rfc822addr list \<Rightarrow> byte list" where
  "rfc822_print sep s a addrs = rfc822_print_common (\<lambda>_. True) None sep s a addrs"

definition rfc822_getaddrs :: "(nat \<Rightarrow> bool) \<Rightarrow> byte list \<Rightarrow> tok list \<Rightarrow> rfc822addr list \<Rightarrow> byte list option" where
  "rfc822_getaddrs mem s a addrs =
     (let addrbuf = rfc822_print id s a addrs in if mem (length addrbuf + 1) then Some addrbuf else None)"

text \<open>
  The same wrapped at \<open>w\<close> characters: blanks of separators are newlines at first, and those that are
  not needed become blanks again.
\<close>

definition saveaddrsep_wrap :: "byte list \<Rightarrow> byte list" where
  "saveaddrsep_wrap p = map (\<lambda>c. if c = ch CHR '' '' then NL else c) p"

lemma wrap_next:
  assumes "pos < length buf" "p = pos + length (takeWhile (\<lambda>c. c \<noteq> NL) (drop pos buf))"
  shows "pos \<le> p" "p \<le> length buf" "p < length buf \<Longrightarrow> buf ! p = NL"
proof -
  let ?t = "takeWhile (\<lambda>c. c \<noteq> NL) (drop pos buf)"
  have "length ?t \<le> length buf - pos" using length_takeWhile_le [of _ "drop pos buf"] by simp
  then show "pos \<le> p" "p \<le> length buf" using assms by auto
  assume "p < length buf"
  then have "length ?t < length (drop pos buf)" using assms by auto
  from nth_length_takeWhile [OF this] show "buf ! p = NL" using assms by simp
qed

function wrap_loop :: "int \<Rightarrow> byte list \<Rightarrow> nat \<Rightarrow> nat \<Rightarrow> nat option \<Rightarrow> byte list" where
  "wrap_loop w buf start pos lastnl =
     (if length buf \<le> pos then buf
      else let p = pos + length (takeWhile (\<lambda>c. c \<noteq> NL) (drop pos buf)); nx = (if p < length buf then p + 1 else p) in
        if int p - int start < w then
          wrap_loop w (case lastnl of None \<Rightarrow> buf | Some l \<Rightarrow> buf[l := ch CHR '' '']) start nx (Some p)
        else case lastnl of
          Some l \<Rightarrow> wrap_loop w buf (l + 1) p None
        | None \<Rightarrow> wrap_loop w buf (p + 1) nx None)"
  by pat_completeness auto

termination
proof (relation "measure (\<lambda>(w, buf, start, pos, lastnl). 2 * (length buf - pos) + (if lastnl = None then 0 else 1))", goal_cases)
  case 1
  show ?case by simp
next
  case (2 w buf start pos lastnl p nx)
  then show ?case using wrap_next [of pos buf p] by (auto split: option.splits if_splits)
next
  case (3 w buf start pos lastnl p nx)
  then show ?case using wrap_next [of pos buf p] by (auto split: option.splits if_splits)
next
  case (4 w buf start pos lastnl p nx l)
  then show ?case using wrap_next [of pos buf p] by (auto split: option.splits if_splits)
qed

declare wrap_loop.simps [simp del]

definition rfc822_getaddrs_wrap :: "(nat \<Rightarrow> bool) \<Rightarrow> byte list \<Rightarrow> tok list \<Rightarrow> rfc822addr list \<Rightarrow> int \<Rightarrow> byte list option" where
  "rfc822_getaddrs_wrap mem s a addrs w =
     (if mem (length (rfc822_print id s a addrs) + 1)
      then Some (wrap_loop w (rfc822_print saveaddrsep_wrap s a addrs) 0 0 None) else None)"

text \<open>The addresses alone, each on a line.\<close>

definition rfc822_praddr :: "byte list \<Rightarrow> tok list \<Rightarrow> rfc822addr list \<Rightarrow> int \<Rightarrow> byte list" where
  "rfc822_praddr s a addrs index =
     (if index < 0 \<or> int (length addrs) \<le> index then []
      else let x = addrs ! nat index in if tokens x \<noteq> [] then print_cells s a (tokens x) @ [NL] else [])"

definition rfc822_addrlist :: "byte list \<Rightarrow> tok list \<Rightarrow> rfc822addr list \<Rightarrow> byte list" where
  "rfc822_addrlist s a addrs = concat (map (\<lambda>i. rfc822_praddr s a addrs (int i)) [0..<length addrs])"

definition rfc822_getaddr :: "(nat \<Rightarrow> bool) \<Rightarrow> byte list \<Rightarrow> tok list \<Rightarrow> rfc822addr list \<Rightarrow> int \<Rightarrow> byte list option" where
  "rfc822_getaddr mem s a addrs n = save_text mem (rfc822_praddr s a addrs n)"

text \<open>The names alone: without the quotes of strings and the parentheses of comments.\<close>

fun unquoted :: "byte list \<Rightarrow> byte list" where
  "unquoted [] = []"
| "unquoted (c # p) = (if c = BSLASH then (case p of [] \<Rightarrow> [c] | d # p' \<Rightarrow> d # unquoted p') else c # unquoted p)"

fun prname_loop :: "byte list \<Rightarrow> bool \<Rightarrow> tok list \<Rightarrow> byte list" where
  "prname_loop s prev_isatom [] = []"
| "prname_loop s prev_isatom (t # ts) =
     (let isatom = rfc822_is_atom (token t) in
      (if isatom \<and> prev_isatom then asc '' '' else []) @
      (if token t = QUOTE then unquoted (tok_text s t)
       else if token t \<noteq> LPAREN then print_token s t
       else drop 1 (take (len t - 1) (tok_text s t))) @
      prname_loop s isatom ts)"

definition rfc822_prname_orlist :: "byte list \<Rightarrow> tok list \<Rightarrow> rfc822addr list \<Rightarrow> int \<Rightarrow> byte list" where
  "rfc822_prname_orlist s a addrs index =
     (if index < 0 \<or> int (length addrs) \<le> index then []
      else let x = addrs ! nat index in
        (if name x \<noteq> [] then prname_loop s False (map ((!) a) (name x)) else print_cells s a (tokens x)) @ [NL])"

definition rfc822_prname :: "byte list \<Rightarrow> tok list \<Rightarrow> rfc822addr list \<Rightarrow> int \<Rightarrow> byte list" where
  "rfc822_prname s a addrs index =
     (if index < 0 \<or> int (length addrs) \<le> index then []
      else if tokens (addrs ! nat index) = [] then [] else rfc822_prname_orlist s a addrs index)"

definition rfc822_namelist :: "byte list \<Rightarrow> tok list \<Rightarrow> rfc822addr list \<Rightarrow> byte list" where
  "rfc822_namelist s a addrs = concat (map (\<lambda>i. rfc822_prname s a addrs (int i)) [0..<length addrs])"

definition no_quotes :: "byte list \<Rightarrow> byte list" where
  "no_quotes t = filter (\<lambda>c. c \<noteq> QUOTE) t"

definition rfc822_getname :: "(nat \<Rightarrow> bool) \<Rightarrow> byte list \<Rightarrow> tok list \<Rightarrow> rfc822addr list \<Rightarrow> int \<Rightarrow> byte list option" where
  "rfc822_getname mem s a addrs n = map_option no_quotes (save_text mem (rfc822_prname s a addrs n))"

definition rfc822_getname_orlist :: "(nat \<Rightarrow> bool) \<Rightarrow> byte list \<Rightarrow> tok list \<Rightarrow> rfc822addr list \<Rightarrow> int \<Rightarrow> byte list option" where
  "rfc822_getname_orlist mem s a addrs n = map_option no_quotes (save_text mem (rfc822_prname_orlist s a addrs n))"

definition rfc822_deladdr :: "rfc822addr list \<Rightarrow> int \<Rightarrow> rfc822addr list" where
  "rfc822_deladdr addrs index =
     (if index < 0 \<or> int (length addrs) \<le> index then addrs
      else take (nat index) addrs @ drop (nat index + 1) addrs)"

subsection \<open>Well-formed addresses\<close>

text \<open>Tokens by their meaning: words, comments, and single characters other than the brackets.\<close>

type_synonym mtok = "byte \<times> byte list"

definition word_tok :: "mtok \<Rightarrow> bool" where
  "word_tok v \<longleftrightarrow>
     fst v = 0 \<and> snd v \<noteq> [] \<and> list_all atom_char (snd v) \<or>
     fst v = QUOTE \<and> quote_body (snd v) = snd v \<and> quote_loop (snd v @ [QUOTE]) 0 = (True, length (snd v), [])"

definition comment_tok :: "mtok \<Rightarrow> bool" where
  "comment_tok v \<longleftrightarrow> fst v = LPAREN \<and> at (snd v) 0 = LPAREN \<and> comment_loop (snd v) 0 0 = (True, length (snd v), [])"

definition char_tok :: "byte list \<Rightarrow> mtok \<Rightarrow> bool" where
  "char_tok cs v \<longleftrightarrow> fst v \<in> set cs \<and> snd v = [fst v]"

abbreviation (input) tok1 :: "byte \<Rightarrow> mtok" where "tok1 c \<equiv> (c, [c])"

fun adjacent :: "mtok list \<Rightarrow> bool" where
  "adjacent (t # u # ts) \<longleftrightarrow> rfc822_is_atom (fst t) \<and> rfc822_is_atom (fst u) \<or> adjacent (u # ts)"
| "adjacent _ \<longleftrightarrow> False"

text \<open>An address that needs no brackets, and one that is written in brackets.\<close>

definition bare :: "mtok list \<Rightarrow> bool" where
  "bare ts \<longleftrightarrow> ts \<noteq> [] \<and> list_all (\<lambda>v. word_tok v \<or> char_tok (asc ''@.[]%!?=/'') v) ts \<and> \<not> adjacent ts"

definition route :: "mtok list \<Rightarrow> bool" where
  "route ts \<longleftrightarrow> ts \<noteq> [] \<and> list_all (\<lambda>v. word_tok v \<or> comment_tok v \<or> char_tok (asc ''@,;:.[]%!?=/'') v) ts"

text \<open>
  The addresses a mail program means, as pairs of name and address: the start of a group, the end
  of one, an address alone, with its name as a comment, or in brackets with or without a name of
  atoms or a string in front.
\<close>

definition well_formed :: "mtok list \<times> mtok list \<Rightarrow> bool" where
  "well_formed x \<longleftrightarrow> (case x of (nm, ts) \<Rightarrow>
     ts = [] \<and> nm = [tok1 SEMI] \<or>
     ts = [] \<and> nm \<noteq> [] \<and> last nm = tok1 COLON \<and> butlast nm \<noteq> [] \<and> list_all word_tok (butlast nm) \<or>
     bare ts \<and> (nm = [] \<or> length nm = 1 \<and> list_all comment_tok nm) \<or>
     route ts \<and> (nm = [] \<and> adjacent ts \<or>
       nm \<noteq> [] \<and> list_all word_tok nm \<and> (length nm = 1 \<or> list_all (\<lambda>v. fst v = 0) nm)))"


subsection \<open>Reading what is printed\<close>

lemma word_tok_cases:
  assumes "word_tok v"
  obtains (atom) c u where "v = (0, c # u)" "atom_char c" "\<forall>x\<in>set u. atom_char x"
    | (quoted) t where "v = (QUOTE, t)" "quote_body t = t" "\<forall>r. quote_loop (t @ QUOTE # r) 0 = (True, length t, r)"
proof (cases "fst v = 0")
  case True
  then show ?thesis using assms atom by (cases v; cases "snd v") (auto simp: word_tok_def list_all_iff)
next
  case False
  then have q: "fst v = QUOTE" "quote_body (snd v) = snd v" "quote_loop (snd v @ [QUOTE]) 0 = (True, length (snd v), [])"
    using assms by (auto simp: word_tok_def)
  then show ?thesis using quote_loop_split [OF q(3)] quoted [of "snd v"] by (cases v) auto
qed

lemma comment_tok_all:
  assumes "comment_tok v"
  shows "\<exists>u. v = (LPAREN, LPAREN # u) \<and> (\<forall>r. comment_loop ((LPAREN # u) @ r) 0 0 = (True, length (LPAREN # u), r))"
proof -
  obtain k t where v: "v = (k, t)" by (cases v)
  have a: "k = LPAREN" "comment_loop t 0 0 = (True, length t, [])" "at t 0 = LPAREN" using assms v by (auto simp: comment_tok_def)
  obtain u where "t = LPAREN # u" using a(3) by (cases t) auto
  then show ?thesis using comment_loop_split [OF a(2)] v a(1) by auto
qed

text \<open>The tokens that may stand anywhere outside brackets.\<close>

definition plain_tok :: "mtok \<Rightarrow> bool" where
  "plain_tok v \<longleftrightarrow> word_tok v \<or> comment_tok v \<or> char_tok (asc ''@,;:.[]%!?=/'') v"

lemma plain_char:
  assumes "char_tok (asc ''@,;:.[]%!?=/'') v"
  shows "fst v \<in> set single \<and> fst v \<noteq> LT \<and> fst v \<noteq> GT \<and> \<not> bad_bracket (fst v) br \<and> bracket (fst v) br = br"
  using assms by (auto simp: char_tok_def single_def bad_bracket_def bracket_def LT_def GT_def)

definition ends_word :: "byte list \<Rightarrow> bool" where
  "ends_word r \<longleftrightarrow> r = [] \<or> \<not> atom_char (hd r)"

lemma lexed_tok:
  assumes "plain_tok v" "rfc822_is_atom (fst v) \<longrightarrow> ends_word r"
  shows "lexed (print_value v @ r) br = map_option ((#) v) (lexed r br)"
  using assms(1) unfolding plain_tok_def
proof (elim disjE)
  assume "word_tok v"
  then show ?thesis
  proof (cases rule: word_tok_cases)
    case (atom c u)
    then have "takeWhile atom_char (u @ r) = u" "dropWhile atom_char (u @ r) = r"
      using assms(2) by (cases r; auto simp: ends_word_def)+
    then show ?thesis using atom by (simp add: print_value_def lex_cases(10) [OF atom(2)])
  next
    case (quoted t)
    then show ?thesis
      using lex_cases(6) [of "t @ QUOTE # r" "length t" r br] by (simp add: print_value_def)
  qed
next
  assume "comment_tok v"
  then obtain u where u1: "v = (LPAREN, LPAREN # u)" and "\<forall>r. comment_loop ((LPAREN # u) @ r) 0 0 = (True, length (LPAREN # u), r)"
    using comment_tok_all by blast
  then have u: "v = (LPAREN, LPAREN # u)" "comment_loop (LPAREN # u @ r) 0 0 = (True, length (LPAREN # u), r)"
    unfolding append.simps by blast+
  have "print_value v = LPAREN # u" "take (length (LPAREN # u)) (LPAREN # u @ r) = LPAREN # u" by (simp_all add: u(1) print_value_def)
  then show ?thesis unfolding u(1) using lex_cases(4) [OF u(2), of br] by (simp only: append.simps)
next
  assume c: "char_tok (asc ''@,;:.[]%!?=/'') v"
  then have "v = (fst v, [fst v])" by (metis char_tok_def prod.collapse)
  then obtain k where v: "v = (k, [k])" by blast
  then have "k \<in> set single" "k \<noteq> LT" "\<not> bad_bracket k br" "bracket k br = br" using plain_char [OF c, of br] by simp_all
  then show ?thesis by (simp add: v print_value_single lex_cases(9) option.map_ident)
qed

lemma gt_neq: "LPAREN \<noteq> GT"
  by (simp add: LPAREN_def GT_def)

lemma print_tok_head:
  assumes "plain_tok v"
  shows "\<exists>c cs. print_value v = c # cs \<and> c \<noteq> GT \<and> (rfc822_is_atom (fst v) \<or> \<not> atom_char c)"
  using assms unfolding plain_tok_def
proof (elim disjE)
  assume "word_tok v"
  then show ?thesis
  proof (cases rule: word_tok_cases)
    case (atom c u)
    then have "c \<noteq> GT" using atom_char_neq [of c] by auto
    then show ?thesis using atom by (simp add: print_value_def)
  next
    case (quoted t)
    have "QUOTE \<noteq> GT" by (simp add: QUOTE_def GT_def)
    then show ?thesis using quoted by (simp add: print_value_def)
  qed
next
  assume "comment_tok v"
  then show ?thesis using comment_tok_all [of v] gt_neq by (auto simp: print_value_def)
next
  assume c: "char_tok (asc ''@,;:.[]%!?=/'') v"
  then have "fst v \<in> set single" "fst v \<noteq> GT" using plain_char by blast+
  then show ?thesis using print_value_single [of "fst v" "snd v"] atom_char_neq [of "fst v"] by auto
qed

lemma ends_word_print:
  "list_all plain_tok us \<Longrightarrow> ends_word r \<Longrightarrow> ends_word (print_meanings True us @ r)"
  using print_tok_head [of "hd us"]
  by (cases us) (auto simp: ends_word_def atom_char_def isspace_def)

lemma lexed_prints:
  "list_all plain_tok us \<Longrightarrow> ends_word r \<Longrightarrow> lexed (print_meanings prev us @ r) br = map_option ((@) us) (lexed r br)"
proof (induction us arbitrary: prev)
  case Nil
  then show ?case by (simp add: option.map_ident)
next
  case (Cons v us)
  let ?r = "print_meanings (rfc822_is_atom (fst v)) us @ r"
  have "lexed (print_meanings prev (v # us) @ r) br = lexed (print_value v @ ?r) br"
    using lex_cases(2) [of "ch CHR '' ''" "print_value v @ ?r" br] by (cases "prev \<and> rfc822_is_atom (fst v)") (auto simp: isspace_def)
  also have "\<dots> = map_option ((#) v) (lexed ?r br)"
    using Cons(2,3) ends_word_print [of us r] by (intro lexed_tok) auto
  also have "\<dots> = map_option ((@) (v # us)) (lexed r br)"
    using Cons by (cases "lexed r br") simp_all
  finally show ?case .
qed

text \<open>The printing of addresses in terms of meanings, and the tokens that are read from it.\<close>

fun print_pairs :: "(mtok list \<times> mtok list) list \<Rightarrow> byte list" where
  "print_pairs [] = []"
| "print_pairs ((nm, ts) # xs) =
     (if ts = [] then
        print_meanings False nm @ (if nm \<noteq> [] \<and> xs \<noteq> [] \<and> (fst (last nm) = COLON \<or> fst (last nm) = SEMI) then asc '' '' else []) @
        print_pairs xs
      else
        (if nm \<noteq> [] \<and> fst (hd nm) = LPAREN then print_meanings False ts @ asc '' '' @ print_meanings False nm
         else
           (if nm \<noteq> [] then print_meanings False nm @ asc '' '' else []) @
           (if nm \<noteq> [] \<or> adjacent ts then [LT] @ print_meanings False ts @ [GT] else print_meanings False ts)) @
        (case xs of [] \<Rightarrow> [] | (nm', ts') # _ \<Rightarrow> if ts' \<noteq> [] \<or> nm' \<noteq> [] \<and> rfc822_is_atom (fst (hd nm')) then asc '', '' else []) @
        print_pairs xs)"

definition mview :: "byte list \<Rightarrow> tok list \<times> tok list \<Rightarrow> mtok list \<times> mtok list" where
  "mview s x = (map (meaning s) (fst x), map (meaning s) (snd x))"

lemma fst_meaning: "fst (meaning s t) = token t"
  by (simp add: meaning_def)

lemma adjacent_map: "adjacent_atoms ts = adjacent (map (meaning s) ts)"
  by (induction ts rule: adjacent_atoms.induct) (simp_all add: fst_meaning)

lemma print_common_pairs:
  "rfc822_print_common mem None id s a addrs = print_pairs (map (mview s \<circ> view a) addrs)"
proof (induction addrs)
  case (Cons x xs)
  let ?f = "mview s \<circ> view a"
  define P where "P = print_pairs (map ?f xs)"
  have x: "?f x = (map (meaning s) (map ((!) a) (name x)), map (meaning s) (map ((!) a) (tokens x)))"
    by (simp add: mview_def view_def)
  have p: "print_cells s a cs = print_meanings False (map (meaning s) (map ((!) a) cs))" for cs
    by (simp add: print_cells_def rfc822tok_print_def tok_print_meanings)
  have L: "rfc822_print_common mem None id s a xs = P" unfolding P_def by (rule Cons)
  show ?case
    unfolding list.map(2) x rfc822_print_common.simps(2) print_pairs.simps(2) L P_def [symmetric]
      print_name_def option.case p adjacent_map [where s = s] Let_def
    by (cases xs) (simp_all add: mview_def view_def fst_meaning last_map hd_map cong: conj_cong)
qed simp

fun flat :: "(mtok list \<times> mtok list) list \<Rightarrow> mtok list" where
  "flat [] = []"
| "flat ((nm, ts) # xs) =
     (if ts = [] then nm @ flat xs
      else
        (if nm \<noteq> [] \<and> fst (hd nm) = LPAREN then ts @ nm
         else if nm \<noteq> [] \<or> adjacent ts then nm @ [tok1 LT] @ ts @ [tok1 GT] else ts) @
        (case xs of [] \<Rightarrow> [] | (nm', ts') # _ \<Rightarrow> if ts' \<noteq> [] \<or> nm' \<noteq> [] \<and> rfc822_is_atom (fst (hd nm')) then [tok1 COMMA] else []) @
        flat xs)"

lemma ends_word_simps [simp]:
  "ends_word []" "ends_word (asc '' '' @ r)" "ends_word (32 # r)" "ends_word (LT # r)" "ends_word (GT # r)" "ends_word (COMMA # r)" "ends_word (SEMI # r)"
  by (simp_all add: ends_word_def atom_char_def isspace_def atom_end_def LT_def GT_def COMMA_def SEMI_def)

lemma well_formed_plain:
  assumes "well_formed (nm, ts)"
  shows "list_all plain_tok nm" "list_all plain_tok ts"
proof -
  have b: "list_all plain_tok ts" if "bare ts"
    using that by (auto simp: bare_def plain_tok_def char_tok_def list_all_iff)
  have r: "list_all plain_tok ts" if "route ts"
    using that by (auto simp: route_def plain_tok_def list_all_iff)
  have w: "list_all plain_tok xs" if "list_all word_tok xs" for xs
    using that by (auto simp: plain_tok_def list_all_iff)
  have c: "list_all plain_tok xs" if "list_all comment_tok xs" for xs
    using that by (auto simp: plain_tok_def list_all_iff)
  have g: "list_all plain_tok nm" if "nm \<noteq> []" "last nm = tok1 COLON" "list_all word_tok (butlast nm)"
  proof -
    have "nm = butlast nm @ [tok1 COLON]" using that by (metis append_butlast_last_id)
    moreover have "plain_tok (tok1 COLON)" by (simp add: plain_tok_def char_tok_def COLON_def)
    ultimately show ?thesis using w [OF that(3)] by (metis list_all_append list.pred_inject)
  qed
  have s: "plain_tok (tok1 SEMI)" by (simp add: plain_tok_def char_tok_def SEMI_def)
  show "list_all plain_tok ts" using assms b r by (auto simp: well_formed_def)
  show "list_all plain_tok nm" using assms w c g s by (auto simp: well_formed_def)
qed

lemma lexed_angle:
  assumes "list_all plain_tok ts" "ts \<noteq> []"
  shows "lexed (LT # print_meanings False ts @ GT # r) False = map_option (\<lambda>us. tok1 LT # ts @ tok1 GT # us) (lexed r False)"
proof -
  obtain v vs where v: "ts = v # vs" using assms(2) by (cases ts) auto
  have "at (print_meanings False ts @ GT # r) 0 \<noteq> GT"
    using print_tok_head [of v] assms(1) by (auto simp: v)
  then have "lexed (LT # print_meanings False ts @ GT # r) False =
      map_option ((#) (tok1 LT)) (lexed (print_meanings False ts @ GT # r) True)"
    by (simp add: lex_cases(9) bad_bracket_def bracket_def option.map_ident cong: map_option_cong)
  also have "lexed (print_meanings False ts @ GT # r) True = map_option ((@) ts) (lexed (GT # r) True)"
    using assms(1) by (rule lexed_prints) simp
  also have "lexed (GT # r) True = map_option ((#) (tok1 GT)) (lexed r False)"
    by (simp add: lex_cases(9) bad_bracket_def bracket_def cong: map_option_cong)
  finally show ?thesis by (cases "lexed r False") simp_all
qed

lemma lexed_space: "lexed (asc '' '' @ r) br = lexed r br"
  using lex_cases(2) [of "32" r br] by (simp add: isspace_def)

lemma lexed_comma: "lexed (asc '', '' @ r) br = map_option ((#) (tok1 COMMA)) (lexed r br)"
  using lexed_tok [of "tok1 COMMA" "asc '' '' @ r" br] lexed_space [of r br]
  by (simp add: plain_tok_def char_tok_def COMMA_def print_value_single single_def)

lemma bare_nonempty: "bare ts \<Longrightarrow> ts \<noteq> []" and route_nonempty: "route ts \<Longrightarrow> ts \<noteq> []"
  by (simp_all add: bare_def route_def)

lemma well_formed_cases:
  assumes "well_formed (nm, ts)"
  obtains (semi) "ts = []" "nm = [tok1 SEMI]"
    | (group) ws where "ts = []" "nm = ws @ [tok1 COLON]" "ws \<noteq> []" "list_all word_tok ws"
    | (bare) "nm = []" "bare ts" "ts \<noteq> []"
    | (comment) c where "nm = [c]" "comment_tok c" "bare ts" "ts \<noteq> []"
    | (route) "nm = []" "adjacent ts" "route ts" "ts \<noteq> []"
    | (name) "nm \<noteq> []" "list_all word_tok nm" "length nm = 1 \<or> list_all (\<lambda>v. fst v = 0) nm" "route ts" "ts \<noteq> []"
proof -
  have g: thesis if "ts = []" "nm \<noteq> []" "last nm = tok1 COLON" "butlast nm \<noteq> []" "list_all word_tok (butlast nm)"
    using that group [of "butlast nm"] by (metis append_butlast_last_id)
  have c: thesis if b: "bare ts" and l: "length nm = 1" "list_all comment_tok nm"
  proof -
    obtain x where "nm = [x]" using l(1) by (auto simp: length_Suc_conv)
    then show thesis using b l(2) bare_nonempty comment [of x] by simp
  qed
  from assms consider "ts = []" "nm = [tok1 SEMI]"
    | "ts = []" "nm \<noteq> []" "last nm = tok1 COLON" "butlast nm \<noteq> []" "list_all word_tok (butlast nm)"
    | "nm = []" "bare ts" | "bare ts" "length nm = 1" "list_all comment_tok nm" | "nm = []" "adjacent ts" "route ts"
    | "nm \<noteq> []" "list_all word_tok nm" "length nm = 1 \<or> list_all (\<lambda>v. fst v = 0) nm" "route ts"
    unfolding well_formed_def prod.case by blast
  then show thesis
  proof cases
    case 1
    then show thesis by (rule semi)
  next
    case 2
    then show thesis by (rule g)
  next
    case 3
    then show thesis using bare bare_nonempty by blast
  next
    case 4
    then show thesis by (rule c)
  next
    case 5
    then show thesis using route route_nonempty by blast
  next
    case 6
    then show thesis using name route_nonempty by blast
  qed
qed

lemma word_is_atom: "word_tok v \<Longrightarrow> rfc822_is_atom (fst v) \<and> fst v \<noteq> LPAREN"
  by (auto simp: word_tok_def rfc822_is_atom_def QUOTE_def LPAREN_def)

lemma sep_not_atom:
  assumes "well_formed (nm, ts)" "\<not> (ts \<noteq> [] \<or> nm \<noteq> [] \<and> rfc822_is_atom (fst (hd nm)))"
  shows "ts = [] \<and> nm = [tok1 SEMI]"
  using assms(1)
proof (cases rule: well_formed_cases)
  case (group ws)
  then show ?thesis using assms(2) word_is_atom [of "hd ws"] by (cases ws) auto
qed (use assms(2) in auto)

lemma ends_word_pairs:
  assumes "\<forall>x\<in>set xs. well_formed x"
  shows "ends_word ((case xs of [] \<Rightarrow> [] | (nm', ts') # _ \<Rightarrow>
    if ts' \<noteq> [] \<or> nm' \<noteq> [] \<and> rfc822_is_atom (fst (hd nm')) then asc '', '' else []) @ print_pairs xs)"
proof (cases xs)
  case (Cons x ys)
  obtain nm ts where x: "x = (nm, ts)" by (cases x)
  have c: "ends_word (asc '', '' @ r)" for r using ends_word_simps(6) [of "asc '' '' @ r"] by (simp add: COMMA_def)
  show ?thesis
  proof (cases "ts \<noteq> [] \<or> nm \<noteq> [] \<and> rfc822_is_atom (fst (hd nm))")
    case True
    then show ?thesis using c by (simp add: Cons x)
  next
    case False
    have "well_formed (nm, ts)" using assms Cons x by simp
    then have "ts = []" "nm = [tok1 SEMI]" using False sep_not_atom [of nm ts] by blast+
    moreover have "\<not> rfc822_is_atom SEMI" "SEMI \<in> set single" by (simp_all add: single_def SEMI_def rfc822_is_atom_def)
    ultimately show ?thesis by (simp add: Cons x print_value_single)
  qed
qed simp

lemma lexed_flat:
  "\<forall>x\<in>set xs. well_formed x \<Longrightarrow> lexed (print_pairs xs) False = Some (flat xs)"
proof (induction xs)
  case Nil
  then show ?case by (simp add: lex_cases(1))
next
  case (Cons x xs)
  obtain nm ts where x: "x = (nm, ts)" by (cases x)
  have wf: "well_formed (nm, ts)" and IH: "lexed (print_pairs xs) False = Some (flat xs)" and W: "\<forall>x\<in>set xs. well_formed x"
    using Cons by (simp_all add: x)
  note pl = well_formed_plain [OF wf]
  let ?s = "case xs of [] \<Rightarrow> [] | (nm', ts') # _ \<Rightarrow> if ts' \<noteq> [] \<or> nm' \<noteq> [] \<and> rfc822_is_atom (fst (hd nm')) then asc '', '' else []"
  let ?c = "case xs of [] \<Rightarrow> [] | (nm', ts') # _ \<Rightarrow> if ts' \<noteq> [] \<or> nm' \<noteq> [] \<and> rfc822_is_atom (fst (hd nm')) then [tok1 COMMA] else []"
  let ?r = "?s @ print_pairs xs"
  have r: "lexed ?r False = Some (?c @ flat xs)" 
  proof -
    have "?s = [] \<and> ?c = [] \<or> ?s = asc '', '' \<and> ?c = [tok1 COMMA]" by (simp split: list.split prod.split)
    then show ?thesis
    proof (elim disjE conjE)
      assume "?s = []" "?c = []"
      then show ?thesis unfolding \<open>?s = []\<close> \<open>?c = []\<close> using IH by simp
    next
      assume "?s = asc '', ''" "?c = [tok1 COMMA]"
      then show ?thesis unfolding \<open>?s = asc '', ''\<close> \<open>?c = [tok1 COMMA]\<close> lexed_comma IH by simp
    qed
  qed
  have er: "ends_word ?r" by (rule ends_word_pairs [OF W])
  note lp = lexed_prints [OF pl(1)] lexed_prints [OF pl(2)]
  show ?case
  proof (cases "ts = []")
    case True
    let ?b = "if nm \<noteq> [] \<and> xs \<noteq> [] \<and> (fst (last nm) = COLON \<or> fst (last nm) = SEMI) then asc '' '' else []"
    have "fst (last nm) = COLON \<or> fst (last nm) = SEMI" "nm \<noteq> []"
      using wf True by (cases rule: well_formed_cases; simp)+
    then have "ends_word (?b @ print_pairs xs)" "lexed (?b @ print_pairs xs) False = Some (flat xs)"
      using IH lexed_space [of "print_pairs xs" False] by (cases xs; simp)+
    then show ?thesis using True lp(1) [of "?b @ print_pairs xs" False False] by (simp add: x)
  next
    case F: False
    have e: "print_pairs (x # xs) =
      (if nm \<noteq> [] \<and> fst (hd nm) = LPAREN then print_meanings False ts @ asc '' '' @ print_meanings False nm @ ?r
       else if nm = [] \<and> \<not> adjacent ts then print_meanings False ts @ ?r
       else (if nm \<noteq> [] then print_meanings False nm @ asc '' '' else []) @ LT # print_meanings False ts @ GT # ?r)"
      using F by (simp add: x)
    consider "nm \<noteq> [] \<and> fst (hd nm) = LPAREN" | "nm = []" "\<not> adjacent ts"
      | "nm \<noteq> [] \<and> fst (hd nm) \<noteq> LPAREN" | "nm = []" "adjacent ts" by blast
    then show ?thesis
    proof cases
      case 1
      then show ?thesis unfolding e
        using F lp(1) [OF er, of False False] lp(2) [of "asc '' '' @ print_meanings False nm @ ?r" False False]
          lexed_space [of "print_meanings False nm @ ?r" False] r
        by (simp add: x)
    next
      case 2
      then show ?thesis unfolding e using F lp(2) [OF er, of False False] r by (simp add: x)
    next
      case 3
      let ?t = "LT # print_meanings False ts @ GT # ?r"
      show ?thesis unfolding e
        using 3 F lp(1) [of "asc '' '' @ ?t" False False] lexed_space [of ?t False] lexed_angle [OF pl(2) F, of ?r] r
        by (simp add: x)
    next
      case 4
      then show ?thesis unfolding e using F lexed_angle [OF pl(2) F, of ?r] r by (simp add: x)
    qed
  qed
qed

subsection \<open>Parsing what is read\<close>

lemmas sep_neq = COLON_neq QUOTE_def LPAREN_def LT_def GT_def COLON_def COMMA_def SEMI_def

lemma kinds_neq [simp]:
  "COLON \<noteq> LT" "LT \<noteq> COLON" "COMMA \<noteq> LT" "SEMI \<noteq> LT" "LT \<noteq> SEMI" "LT \<noteq> COMMA"
  "COLON \<noteq> 0" "COMMA \<noteq> 0" "SEMI \<noteq> 0" "LT \<noteq> 0" "COLON \<noteq> QUOTE" "COMMA \<noteq> QUOTE" "SEMI \<noteq> QUOTE" "LT \<noteq> QUOTE"
  "COLON \<noteq> LPAREN" "COMMA \<noteq> LPAREN" "SEMI \<noteq> LPAREN" "LT \<noteq> LPAREN"
  "LPAREN \<noteq> COLON" "LPAREN \<noteq> COMMA" "LPAREN \<noteq> SEMI" "LPAREN \<noteq> LT" "QUOTE \<noteq> COLON" "QUOTE \<noteq> COMMA" "QUOTE \<noteq> SEMI" "QUOTE \<noteq> LT" "QUOTE \<noteq> GT"
  by (simp_all add: sep_neq)

declare COLON_neq [simp]

definition boundary :: "tok list \<Rightarrow> bool" where
  "boundary v \<longleftrightarrow> v = [] \<or> token (hd v) = COMMA \<or> token (hd v) = SEMI"

text \<open>A loop over tokens that stops at the latest at a boundary.\<close>

lemma takeWhile_stop:
  assumes "v = [] \<or> \<not> P (hd v)" "length (takeWhile P (u @ v)) < length (u @ v)"
  shows "(u @ v) ! length (takeWhile P (u @ v)) \<in> set u \<or>
    v \<noteq> [] \<and> (u @ v) ! length (takeWhile P (u @ v)) = hd v"
proof (cases "\<forall>x\<in>set u. P x")
  case True
  then have "takeWhile P (u @ v) = u" using assms(1) by (cases v) simp_all
  then show ?thesis using assms(2) by (cases v) simp_all
next
  case False
  then obtain x where "x \<in> set u" "\<not> P x" by blast
  then have "takeWhile P (u @ v) = takeWhile P u" "length (takeWhile P u) < length u"
    by (auto simp: takeWhile_append1) (induction u; auto)
  then show ?thesis by (simp add: nth_append)
qed

lemma addr_end_append: "addr_end u flag = length u \<Longrightarrow> boundary v \<Longrightarrow> addr_end (u @ v) flag = length u"
proof (induction u flag rule: addr_end.induct)
  case (1 flag)
  then show ?case by (cases v) (auto simp: boundary_def)
next
  case (2 t ts flag)
  then show ?case by (auto split: if_splits)
qed

lemma first_old:
  assumes "u \<noteq> []" "\<forall>t\<in>set u. token t \<noteq> COLON \<and> token t \<noteq> COMMA \<and> token t \<noteq> SEMI \<and> token t \<noteq> LT"
    "addr_end u False = length u" "boundary v"
  shows "first_addr (u @ v) = ([(last_comment u, filter not_comment u)], length u)"
proof -
  let ?w = "length (takeWhile wordish (u @ v))" and ?p = "length (takeWhile before_angle (u @ v))"
  have w: "\<not> (?w < length (u @ v) \<and> token ((u @ v) ! ?w) = COLON)"
    using takeWhile_stop [of v wordish u] assms(2,4) by (auto simp: boundary_def wordish_def)
  have p: "\<not> (?p < length (u @ v) \<and> token ((u @ v) ! ?p) = LT)"
    using takeWhile_stop [of v before_angle u] assms(2,4) by (auto simp: boundary_def before_angle_def)
  have h: "token ((u @ v) ! 0) \<noteq> COMMA" "token ((u @ v) ! 0) \<noteq> SEMI" using assms(1,2) by (cases u; simp)+
  show ?thesis
    unfolding first_addr_def Let_def if_not_P [OF w] if_not_P [OF p] if_not_P [OF h(1)] if_not_P [OF h(2)]
    using addr_end_append [OF assms(3,4)] assms(1) by simp
qed

lemma first_angle:
  assumes "\<forall>t\<in>set n. wordish t" "token l = LT" "\<forall>t\<in>set q. token t \<noteq> GT" "token g = GT"
  shows "first_addr (n @ l # q @ g # v) = ([(phrase n, q)], length n + length q + 2)"
proof -
  have b: "\<forall>t\<in>set n. before_angle t" using assms(1) by (auto simp: wordish_def before_angle_def)
  have w: "takeWhile wordish (n @ l # q @ g # v) = n" and p: "takeWhile before_angle (n @ l # q @ g # v) = n"
    using assms(1,2) b by (simp_all add: takeWhile_append2) (simp_all add: wordish_def before_angle_def)
  have q: "takeWhile not_gt (q @ g # v) = q" using assms(3,4) by (simp add: not_gt_def takeWhile_append2)
  have h: "token ((n @ l # q @ g # v) ! 0) \<noteq> COMMA" "token ((n @ l # q @ g # v) ! 0) \<noteq> SEMI"
    using assms(1,2) by (cases n; auto simp: wordish_def)+
  show ?thesis unfolding first_addr_def Let_def w p using h assms(2) by (simp add: q)
qed

lemma first_group: "\<forall>t\<in>set ws. wordish t \<Longrightarrow> token c = COLON \<Longrightarrow> first_addr (ws @ c # v) = ([(ws @ [c], [])], length ws + 1)"
proof -
  assume a: "\<forall>t\<in>set ws. wordish t" "token c = COLON"
  have "takeWhile wordish (ws @ c # v) = ws" using a by (simp add: wordish_def takeWhile_append2)
  then show ?thesis using a(2) by (simp add: first_addr_def)
qed

lemma first_char:
  "token c = SEMI \<Longrightarrow> first_addr (c # v) = ([([c], [])], 1)" "token c = COMMA \<Longrightarrow> first_addr (c # v) = ([], 1)"
  by (simp_all add: first_addr_def wordish_def)

lemma addresses_step: "first_addr (u @ v) = (xs, length u) \<Longrightarrow> u \<noteq> [] \<Longrightarrow> addresses (u @ v) = xs @ addresses v"
  by (subst addresses.simps) simp

lemma addr_end_bare:
  assumes "\<forall>t\<in>set u. token t \<noteq> LPAREN \<and> token t \<noteq> COMMA \<and> token t \<noteq> SEMI" "\<not> adjacent_atoms u"
    "flag \<longrightarrow> u = [] \<or> \<not> rfc822_is_atom (token (hd u))" "\<forall>t\<in>set c. token t = LPAREN"
  shows "addr_end (u @ c) flag = length (u @ c)"
  using assms
proof (induction u arbitrary: flag)
  case Nil
  have "addr_end c flag = length c" using Nil(4) by (induction c) auto
  then show ?case by simp
next
  case (Cons t u)
  have "\<not> adjacent_atoms u" "rfc822_is_atom (token t) \<longrightarrow> u = [] \<or> \<not> rfc822_is_atom (token (hd u))"
    using Cons(3) by (cases u; auto)+
  then show ?case using Cons by (auto simp: rfc822_is_atom_def QUOTE_def LPAREN_def)
qed

lemma phrase_same:
  assumes "\<forall>t\<in>set n. wordish t" "length n = 1 \<or> (\<forall>t\<in>set n. token t = 0)"
  shows "phrase n = n"
proof (cases "\<forall>t\<in>set n. plain_name t")
  case True
  then have "map comment_to_quote n = n" using assms(1)
    by (intro map_idI) (auto simp: wordish_def comment_to_quote_def)
  then show ?thesis using True by (simp add: phrase_def)
next
  case False
  then obtain t where "n = [t]" "token t = QUOTE"
    using assms by (auto simp: length_Suc_conv plain_name_def wordish_def)
  then show ?thesis by (simp add: phrase_def plain_name_def)
qed

text \<open>Tokens whose meanings are the tokens of addresses parse to these addresses.\<close>

lemma token_wordish: "word_tok (meaning s t) \<Longrightarrow> wordish t"
  by (auto simp: word_tok_def wordish_def meaning_def)

lemma token_bare:
  "bare (map (meaning s) u) \<Longrightarrow> t \<in> set u \<Longrightarrow>
    token t \<noteq> LPAREN \<and> token t \<noteq> COLON \<and> token t \<noteq> COMMA \<and> token t \<noteq> SEMI \<and> token t \<noteq> LT"
  by (auto simp: bare_def word_tok_def char_tok_def meaning_def list_all_iff sep_neq)

lemma token_route: "route (map (meaning s) u) \<Longrightarrow> t \<in> set u \<Longrightarrow> token t \<noteq> GT"
  by (auto simp: route_def word_tok_def comment_tok_def char_tok_def meaning_def list_all_iff sep_neq)

lemma wordish_all: "list_all word_tok (map (meaning s) u) \<Longrightarrow> t \<in> set u \<Longrightarrow> wordish t"
  by (auto simp: list_all_iff intro: token_wordish)

lemma meaning_tok1: "meaning s t = tok1 k \<Longrightarrow> token t = k"
  by (simp add: meaning_def)

lemma map_append_split:
  assumes "map f us = xs @ ys"
  obtains u v where "us = u @ v" "map f u = xs" "map f v = ys"
  using assms by (auto simp: map_eq_append_conv)

lemma map_Cons_split:
  assumes "map f us = x # xs"
  obtains u v where "us = u # v" "f u = x" "map f v = xs"
  using assms by (auto simp: map_eq_Cons_conv)

lemma mview_pair: "mview s (n, t) = (map (meaning s) n, map (meaning s) t)"
  by (simp add: mview_def)

lemma addresses_angle:
  assumes "map (meaning s) us = nm @ [tok1 LT] @ ts @ [tok1 GT] @ m" "list_all word_tok nm"
    "length nm = 1 \<or> list_all (\<lambda>v. fst v = 0) nm" "route ts"
  shows "\<exists>us'. map (meaning s) us' = m \<and> map (mview s) (addresses us) = (nm, ts) # map (mview s) (addresses us')"
proof -
  have a: "map (meaning s) us = nm @ tok1 LT # ts @ tok1 GT # m" using assms(1) by simp
  obtain n u1 where u1: "us = n @ u1" "map (meaning s) n = nm" "map (meaning s) u1 = tok1 LT # ts @ tok1 GT # m"
    by (rule map_append_split [OF a])
  obtain l u2 where u2: "u1 = l # u2" "meaning s l = tok1 LT" "map (meaning s) u2 = ts @ tok1 GT # m"
    by (rule map_Cons_split [OF u1(3)])
  obtain q u3 where u3: "u2 = q @ u3" "map (meaning s) q = ts" "map (meaning s) u3 = tok1 GT # m"
    by (rule map_append_split [OF u2(3)])
  obtain g us' where u4: "u3 = g # us'" "meaning s g = tok1 GT" "map (meaning s) us' = m"
    by (rule map_Cons_split [OF u3(3)])
  note u = u1(1) [unfolded u2 u3 u4] u1(2) u2(2) u3(2) u4(2,3)
  have w: "\<forall>t\<in>set n. wordish t" using assms(2) wordish_all u(2) by blast
  have q: "\<forall>t\<in>set q. token t \<noteq> GT" using assms(4) token_route u(4) by blast
  have z: "length n = 1 \<or> (\<forall>t\<in>set n. token t = 0)" using assms(3) by (auto simp: u(2) [symmetric] list_all_iff fst_meaning)
  have "first_addr ((n @ l # q @ [g]) @ us') = ([(n, q)], length (n @ l # q @ [g]))"
    using first_angle [OF w meaning_tok1 [OF u(3)] q meaning_tok1 [OF u(5)], of us'] phrase_same [OF w z] by simp
  from addresses_step [OF this] have "addresses us = (n, q) # addresses us'" by (simp add: u(1))
  then show ?thesis using u by (auto simp: mview_pair)
qed

lemma addresses_flat:
  "\<forall>x\<in>set xs. well_formed x \<Longrightarrow> map (meaning s) us = flat xs \<Longrightarrow> map (mview s) (addresses us) = xs"
proof (induction xs arbitrary: us)
  case Nil
  then show ?case by (simp add: addresses.simps)
next
  case (Cons x xs)
  obtain nm ts where x: "x = (nm, ts)" by (cases x)
  have wf: "well_formed (nm, ts)" and W: "\<forall>x\<in>set xs. well_formed x" using Cons(2) by (simp_all add: x)
  let ?c = "case xs of [] \<Rightarrow> [] | (nm', ts') # _ \<Rightarrow> if ts' \<noteq> [] \<or> nm' \<noteq> [] \<and> rfc822_is_atom (fst (hd nm')) then [tok1 COMMA] else []"
  have sep: "map (mview s) (addresses us') = xs \<and> boundary us'" if u: "map (meaning s) us' = ?c @ flat xs" for us'
  proof (cases "?c = [tok1 COMMA]")
    case True
    then have "map (meaning s) us' = tok1 COMMA # flat xs" using u by simp
    then obtain k v where k: "us' = k # v" "meaning s k = tok1 COMMA" "map (meaning s) v = flat xs" by (rule map_Cons_split)
    have "addresses us' = addresses v"
      using addresses_step [of "[k]" v "[]"] first_char(2) [OF meaning_tok1 [OF k(2)]] by (simp add: k(1))
    then show ?thesis using Cons(1) [OF W k(3)] meaning_tok1 [OF k(2)] by (simp add: boundary_def k(1))
  next
    case False
    moreover have "?c = [] \<or> ?c = [tok1 COMMA]" by (simp split: list.split prod.split)
    ultimately have c: "?c = []" by blast
    have m: "map (meaning s) us' = flat xs" using u unfolding c by simp
    have "boundary us'"
    proof (cases xs)
      case Nil
      then show ?thesis using m by (simp add: boundary_def)
    next
      case (Cons y ys)
      obtain nm' ts' where y: "y = (nm', ts')" by (cases y)
      then have "\<not> (ts' \<noteq> [] \<or> nm' \<noteq> [] \<and> rfc822_is_atom (fst (hd nm')))" using False Cons by (intro notI) simp
      moreover have "well_formed (nm', ts')" using W Cons y by simp
      ultimately have "ts' = []" "nm' = [tok1 SEMI]" using sep_not_atom by blast+
      then have "map (meaning s) us' = tok1 SEMI # flat ys" using m Cons y by simp
      then obtain k v where "us' = k # v" "meaning s k = tok1 SEMI" by (rule map_Cons_split)
      then show ?thesis by (simp add: boundary_def meaning_tok1 [of s k SEMI])
    qed
    then show ?thesis using Cons(1) [OF W m] by simp
  qed
  from wf show ?case
  proof (cases rule: well_formed_cases)
    case semi
    then have "map (meaning s) us = tok1 SEMI # flat xs" using Cons(3) by (simp add: x)
    then obtain k v where k: "us = k # v" "meaning s k = tok1 SEMI" "map (meaning s) v = flat xs" by (rule map_Cons_split)
    have "addresses us = ([k], []) # addresses v"
      using addresses_step [of "[k]" v] first_char(1) [OF meaning_tok1 [OF k(2)], of v] by (simp add: k(1))
    then show ?thesis using Cons(1) [OF W k(3)] k(2) semi by (simp add: x mview_pair)
  next
    case (group ws)
    then have "map (meaning s) us = ws @ tok1 COLON # flat xs" using Cons(3) by (simp add: x)
    then obtain w u where w: "us = w @ u" "map (meaning s) w = ws" "map (meaning s) u = tok1 COLON # flat xs" by (rule map_append_split)
    obtain k v where "u = k # v" "meaning s k = tok1 COLON" "map (meaning s) v = flat xs" by (rule map_Cons_split [OF w(3)])
    with w have k: "us = w @ k # v" "map (meaning s) w = ws" "meaning s k = tok1 COLON" "map (meaning s) v = flat xs" by simp_all
    have "first_addr ((w @ [k]) @ v) = ([(w @ [k], [])], length (w @ [k]))"
      using first_group [of w k v] wordish_all [of s w] group(4) meaning_tok1 [OF k(3)] by (simp add: k(2))
    from addresses_step [OF this] have "addresses us = (w @ [k], []) # addresses v" by (simp add: k(1))
    then show ?thesis using Cons(1) [OF W k(4)] k(2,3) group by (simp add: x mview_pair)
  next
    case bare
    then have "\<not> adjacent ts" by (simp add: bare_def)
    then have "map (meaning s) us = ts @ ?c @ flat xs" using Cons(3) bare by (simp add: x)
    then obtain u v where u: "us = u @ v" "map (meaning s) u = ts" "map (meaning s) v = ?c @ flat xs" by (rule map_append_split)
    have k: "\<forall>t\<in>set u. token t \<noteq> LPAREN \<and> token t \<noteq> COLON \<and> token t \<noteq> COMMA \<and> token t \<noteq> SEMI \<and> token t \<noteq> LT"
      using token_bare [of s u] bare(2) u(2) by blast
    have e: "addr_end u False = length u"
      using addr_end_bare [of u False "[]"] k \<open>\<not> adjacent ts\<close> by (simp add: adjacent_map [where s = s] u(2))
    have "u \<noteq> []" using u(2) bare(3) by auto
    then have "first_addr (u @ v) = ([(last_comment u, filter not_comment u)], length u)"
      using k e sep [OF u(3)] by (intro first_old) auto
    moreover have "last_comment u = []" "filter not_comment u = u"
      using k by (auto simp: last_comment_def not_comment_def filter_empty_conv filter_id_conv split: list.splits)
    ultimately have "addresses us = ([], u) # addresses v"
      using addresses_step [of u v] \<open>u \<noteq> []\<close> by (simp add: u(1))
    then show ?thesis using sep [OF u(3)] u(2) bare by (simp add: x mview_pair)
  next
    case (comment c)
    have "fst c = LPAREN" "\<not> adjacent ts" using comment by (simp_all add: comment_tok_def bare_def)
    then have "map (meaning s) us = ts @ c # ?c @ flat xs" using Cons(3) comment by (simp add: x)
    then obtain u u' where u': "us = u @ u'" "map (meaning s) u = ts" "map (meaning s) u' = c # ?c @ flat xs" by (rule map_append_split)
    obtain w v where "u' = w # v" "meaning s w = c" "map (meaning s) v = ?c @ flat xs" by (rule map_Cons_split [OF u'(3)])
    with u' have u: "us = (u @ [w]) @ v" "map (meaning s) u = ts" "meaning s w = c" "map (meaning s) v = ?c @ flat xs" by simp_all
    have w: "token w = LPAREN" using \<open>fst c = LPAREN\<close> u(3) fst_meaning [of s w] by simp
    have k: "\<forall>t\<in>set u. token t \<noteq> LPAREN \<and> token t \<noteq> COLON \<and> token t \<noteq> COMMA \<and> token t \<noteq> SEMI \<and> token t \<noteq> LT"
      using token_bare [of s u] comment(3) u(2) by blast
    have e: "addr_end (u @ [w]) False = length (u @ [w])"
      using addr_end_bare [of u False "[w]"] k w \<open>\<not> adjacent ts\<close> by (simp add: adjacent_map [where s = s] u(2))
    have "first_addr ((u @ [w]) @ v) = ([(last_comment (u @ [w]), filter not_comment (u @ [w]))], length (u @ [w]))"
      using k e w sep [OF u(4)] by (intro first_old) auto
    moreover have "filter (\<lambda>t. \<not> not_comment t) u = []" "filter not_comment u = u"
      using k by (auto simp: not_comment_def filter_empty_conv filter_id_conv)
    ultimately have "addresses us = ([w], u) # addresses v"
      using addresses_step [of "u @ [w]" v] w by (simp add: u(1) last_comment_def not_comment_def)
    then show ?thesis using sep [OF u(4)] u(2,3) comment by (simp add: x mview_pair)
  next
    case route
    have "map (meaning s) us = [] @ [tok1 LT] @ ts @ [tok1 GT] @ ?c @ flat xs" using Cons(3) route by (simp add: x)
    then show ?thesis using addresses_angle [of s us "[]" ts] sep route(1,3) by (force simp: x)
  next
    case name
    have "fst (hd nm) \<noteq> LPAREN" using name(1,2) word_is_atom by (cases nm) auto
    then have "map (meaning s) us = nm @ [tok1 LT] @ ts @ [tok1 GT] @ ?c @ flat xs" using Cons(3) name by (simp add: x)
    then show ?thesis using addresses_angle [of s us nm ts] sep name by (force simp: x)
  qed
qed

subsection \<open>The properties\<close>

lemma alloc_new_meanings:
  "rfc822t_alloc_new m w s = Some (ts, []) \<Longrightarrow> lexed s False = Some (map (meaning s) ts)"
  by (drule alloc_new_lexed) (simp split: option.splits)

lemma lexed_alloc_new:
  assumes "lexed s False = Some vs" "rfc822t_alloc_new m w s = Some (ts, es)"
  shows "es = [] \<and> map (meaning s) ts = vs"
  using alloc_new_lexed [OF assms(2)] assms(1) by simp

lemma alloc_views:
  assumes "rfc822a_alloc m w ts = Some (a, addrs)"
  shows "map (view a) addrs = addresses ts"
  using parseaddr_addresses [of True ts] assms by (auto simp: rfc822a_alloc_def split: if_splits prod.splits)

text \<open>
  C7. Reading the text that \<open>rfc822_getaddrs\<close> prints gives the addresses that were printed, names and
  groups included: for addresses of any source \<open>(s, a, addrs)\<close> that are well-formed, the text has no
  errors, and its addresses have the tokens of the printed ones in kind and text.
\<close>

theorem addresses_reread:
  assumes "\<forall>x\<in>set addrs. well_formed (mview s (view a x))" "rfc822_getaddrs mem s a addrs = Some p"
    "rfc822t_alloc_new m w p = Some (ts, es)" "rfc822a_alloc m' w' ts = Some (b, addrs')"
  shows "es = [] \<and> map (mview p \<circ> view b) addrs' = map (mview s \<circ> view a) addrs"
proof -
  let ?xs = "map (mview s \<circ> view a) addrs"
  have p: "p = print_pairs ?xs"
    using assms(2) by (simp add: rfc822_getaddrs_def rfc822_print_def print_common_pairs Let_def split: if_splits)
  have wf: "\<forall>x\<in>set ?xs. well_formed x" using assms(1) by simp
  have l: "lexed p False = Some (flat ?xs)" unfolding p by (rule lexed_flat [OF wf])
  note t = lexed_alloc_new [OF l assms(3)]
  have "map (mview p) (addresses ts) = ?xs" by (rule addresses_flat [OF wf]) (use t in simp)
  then show ?thesis using t alloc_views [OF assms(4)] by (metis map_map)
qed

definition sample_source :: "byte list" where "sample_source = asc ''Joe<a@b>,c(d),friends:e;''"
definition sample_tokens :: "tok list" where
  "sample_tokens =
    [\<lparr>token = 0, ptr = 0, len = 3\<rparr>, \<lparr>token = LT, ptr = 3, len = 1\<rparr>, \<lparr>token = 0, ptr = 4, len = 1\<rparr>,
     \<lparr>token = ch CHR ''@'', ptr = 5, len = 1\<rparr>, \<lparr>token = 0, ptr = 6, len = 1\<rparr>, \<lparr>token = GT, ptr = 7, len = 1\<rparr>,
     \<lparr>token = COMMA, ptr = 8, len = 1\<rparr>, \<lparr>token = 0, ptr = 9, len = 1\<rparr>, \<lparr>token = LPAREN, ptr = 10, len = 3\<rparr>,
     \<lparr>token = COMMA, ptr = 13, len = 1\<rparr>, \<lparr>token = 0, ptr = 14, len = 7\<rparr>, \<lparr>token = COLON, ptr = 21, len = 1\<rparr>,
     \<lparr>token = 0, ptr = 22, len = 1\<rparr>, \<lparr>token = SEMI, ptr = 23, len = 1\<rparr>]"

definition sample_addrs :: "rfc822addr list" where
  "sample_addrs =
    [\<lparr>tokens = [2, 3, 4], name = [0]\<rparr>, \<lparr>tokens = [7], name = [8]\<rparr>, \<lparr>tokens = [], name = [10, 11]\<rparr>,
     \<lparr>tokens = [12], name = []\<rparr>, \<lparr>tokens = [], name = [13]\<rparr>]"

lemma sample_parsed:
  "rfc822t_alloc_new True (\<lambda>_. True) sample_source = Some (sample_tokens, [])"
  "rfc822a_alloc True (\<lambda>_. True) sample_tokens = Some (sample_tokens, sample_addrs)"
  by code_simp+

definition sample_meaning :: "(mtok list \<times> mtok list) list" where
  "sample_meaning =
    [([(0, asc ''Joe'')], [(0, asc ''a''), (ch CHR ''@'', asc ''@''), (0, asc ''b'')]),
     ([(LPAREN, asc ''(d)'')], [(0, asc ''c'')]),
     ([(0, asc ''friends''), (COLON, [COLON])], []),
     ([], [(0, asc ''e'')]),
     ([(SEMI, [SEMI])], [])]"

lemma sample_printed: "rfc822_getaddrs (\<lambda>_. True) sample_source sample_tokens sample_addrs = Some (asc ''Joe <a@b>, c (d), friends: e;'')"
  by code_simp

lemma sample_views: "map (mview sample_source \<circ> view sample_tokens) sample_addrs = sample_meaning"
  by code_simp

lemma sample_well_formed: "list_all well_formed sample_meaning"
  by code_simp

lemma addresses_reread_witness:
  "\<exists>ts b addrs. rfc822t_alloc_new True (\<lambda>_. True) (asc ''Joe <a@b>, c (d), friends: e;'') = Some (ts, []) \<and>
    rfc822a_alloc True (\<lambda>_. True) ts = Some (b, addrs) \<and>
    map (mview (asc ''Joe <a@b>, c (d), friends: e;'') \<circ> view b) addrs = sample_meaning"
proof -
  let ?w = "\<lambda>_. True" and ?p = "asc ''Joe <a@b>, c (d), friends: e;''"
  have wf: "\<forall>x\<in>set sample_addrs. well_formed (mview sample_source (view sample_tokens x))"
    using sample_well_formed by (simp add: sample_views [symmetric] list_all_iff)
  obtain ts es where t: "rfc822t_alloc_new True ?w ?p = Some (ts, es)"
    by (simp add: rfc822t_alloc_new_def Let_def)
  obtain b addrs where a: "rfc822a_alloc True ?w ts = Some (b, addrs)"
    by (cases "parseaddr True ts"; cases "parseaddr False ts") (simp add: rfc822a_alloc_def)
  have r: "es = [] \<and> map (mview ?p \<circ> view b) addrs = sample_meaning"
    using addresses_reread [OF wf sample_printed t a] unfolding sample_views .
  show ?thesis
    by (rule exI [of _ ts], rule exI [of _ b], rule exI [of _ addrs], intro conjI t [unfolded conjunct1 [OF r]] a conjunct2 [OF r])
qed

subsection \<open>Wrapping\<close>

definition unwrap :: "byte list \<Rightarrow> byte list" where
  "unwrap t = map (\<lambda>c. if c = NL then ch CHR '' '' else c) t"

lemma unwrap_append [simp]: "unwrap (t @ u) = unwrap t @ unwrap u" "unwrap [] = []"
  by (simp_all add: unwrap_def)

lemma unwrap_sep [simp]: "unwrap (saveaddrsep_wrap p) = unwrap p"
  by (auto simp: unwrap_def saveaddrsep_wrap_def)

lemma unwrap_print:
  "unwrap (rfc822_print_common mem None saveaddrsep_wrap s a addrs) = unwrap (rfc822_print_common mem None id s a addrs)"
proof (induction addrs)
  case (Cons x xs)
  then show ?case by (cases xs) (simp_all add: Let_def)
qed simp

lemma unwrap_update: "l < length t \<Longrightarrow> t ! l = NL \<Longrightarrow> unwrap (t[l := ch CHR '' '']) = unwrap t"
  by (rule nth_equalityI) (auto simp: unwrap_def nth_list_update)

lemma unwrap_loop:
  "(pos < length buf \<longrightarrow> (\<forall>l. lastnl = Some l \<longrightarrow> l < pos \<and> buf ! l = NL)) \<Longrightarrow>
    unwrap (wrap_loop w buf start pos lastnl) = unwrap buf"
proof (induction w buf start pos lastnl rule: wrap_loop.induct)
  case (1 w buf start pos lastnl)
  show ?case
  proof (cases "length buf \<le> pos")
    case True
    then show ?thesis by (simp add: wrap_loop.simps)
  next
    case False
    define p where "p = pos + length (takeWhile (\<lambda>c. c \<noteq> NL) (drop pos buf))"
    define nx where "nx = (if p < length buf then p + 1 else p)"
    have p: "p \<le> length buf" "p < length buf \<Longrightarrow> buf ! p = NL" using wrap_next [OF _ p_def] False by simp_all
    note IH = "1.IH" [OF False p_def nx_def]
    note L = wrap_loop.simps [of w buf start pos lastnl, folded p_def, unfolded Let_def, folded nx_def]
    show ?thesis
    proof (cases "int p - int start < w")
      case True
      let ?b = "case lastnl of None \<Rightarrow> buf | Some l \<Rightarrow> buf[l := ch CHR '' '']"
      have u: "unwrap ?b = unwrap buf" using "1.prems" False unwrap_update by (auto split: option.splits)
      have "nx < length ?b \<longrightarrow> p < nx \<and> ?b ! p = NL"
        using "1.prems" False p wrap_next(1) [OF _ p_def] by (auto simp: nx_def nth_list_update split: option.splits)
      then have "unwrap (wrap_loop w ?b start nx (Some p)) = unwrap ?b" using IH(1) [OF True] by simp
      then show ?thesis using True False u by (simp add: L)
    next
      case nf: False
      show ?thesis
      proof (cases lastnl)
        case None
        then show ?thesis unfolding L using IH(2) [OF nf None] nf False by simp
      next
        case (Some l)
        then show ?thesis unfolding L using IH(3) [OF nf Some] nf False by simp
      qed
    qed
  qed
qed

text \<open>Wrapping only exchanges blanks and newlines.\<close>

lemma getaddrs_wrap_text:
  "rfc822_getaddrs_wrap mem s a addrs w = Some p \<Longrightarrow> \<exists>q. rfc822_getaddrs mem s a addrs = Some q \<and> unwrap p = unwrap q"
  by (auto simp: rfc822_getaddrs_wrap_def rfc822_getaddrs_def rfc822_print_def unwrap_loop unwrap_print Let_def split: if_splits)
end
