(* ===== verification/Rfc2047.thy ===== *)
theory Rfc2047 imports Rfc822_Print Mime_Encode begin

text \<open>
  Encoded words in headers, \<open>wmail/rfc822/rfc2047.c\<close>: encoding the words of a text that need it,
  decoding a text, and headers of addresses whose names are encoded.

  Strings are NUL-free byte lists. The encoder hands its output to a callback as in \<open>Mime_Encode\<close>. It
  is a loop that may not end, so it is a partial function: \<open>None\<close> is a run without end. \<open>mem n\<close>
  says whether \<open>malloc(n)\<close> succeeds.
\<close>

subsection \<open>Encoding\<close>

definition ENC :: byte where "ENC = ch CHR ''=''"
definition QUESTION :: byte where "QUESTION = ch CHR ''?''"
definition SP :: byte where "SP = ch CHR '' ''"

definition rfc2047_xdigit :: "byte list" where "rfc2047_xdigit = asc ''0123456789ABCDEF''"

definition DOENCODE :: "byte \<Rightarrow> bool" where
  "DOENCODE c \<longleftrightarrow> c AND 0x80 \<noteq> 0 \<or> c = QUOTE \<or> c = ENC"

definition ISSPACE :: "byte \<Rightarrow> bool" where
  "ISSPACE c \<longleftrightarrow> c AND 0x80 = 0 \<and> isspace c"

text \<open>The index of the word that the character before \<open>i\<close> is in.\<close>

fun word_start :: "byte list \<Rightarrow> nat \<Rightarrow> nat" where
  "word_start str 0 = 0"
| "word_start str (Suc i) = (if ISSPACE (at str i) then Suc i else word_start str i)"

text \<open>Where the encoded text ends: consecutive words that need encoding are encoded together.\<close>

definition skip :: "(byte \<Rightarrow> bool) \<Rightarrow> byte list \<Rightarrow> nat \<Rightarrow> nat" where
  "skip P str i = i + length (takeWhile P (drop i str))"

lemma skip_le: "i \<le> skip P str i"
  by (simp add: skip_def)

lemma skip_more: "i < length str \<Longrightarrow> P (str ! i) \<Longrightarrow> i < skip P str i"
  by (simp add: skip_def Cons_nth_drop_Suc [symmetric])

lemma skip_stop: "i \<le> length str \<Longrightarrow> skip P str i \<le> length str \<and> (skip P str i < length str \<longrightarrow> \<not> P (str ! skip P str i))"
proof -
  assume i: "i \<le> length str"
  have "length (takeWhile P (drop i str)) \<le> length str - i" using length_takeWhile_le [of P "drop i str"] by simp
  moreover have "\<not> P (str ! skip P str i)" if "skip P str i < length str"
    using nth_length_takeWhile [of P "drop i str"] that i by (simp add: skip_def add.commute)
  ultimately show ?thesis using i by (auto simp: skip_def)
qed

function group_end :: "byte list \<Rightarrow> nat \<Rightarrow> nat" where
  "group_end str i =
     (let i = skip (\<lambda>c. \<not> ISSPACE c) str i in
      if length str \<le> i then i
      else let c = skip (\<lambda>c. \<not> ISSPACE c \<and> \<not> DOENCODE c) str (skip ISSPACE str i) in
        if length str \<le> c \<or> ISSPACE (str ! c) then i else group_end str c)"
  by pat_completeness auto
termination
proof (relation "measure (\<lambda>(str, i). length str - i)", goal_cases)
  case 1
  show ?case by simp
next
  case (2 str i j c)
  have "j \<le> length str" using 2 skip_stop [of i str] by (metis linorder_not_le nle_le order_trans skip_le)
  then have "ISSPACE (str ! j)" using 2 skip_stop [of i str "\<lambda>c. \<not> ISSPACE c"] by (metis linorder_not_le nle_le order_trans skip_le)
  then have "j < skip ISSPACE str j" using 2 skip_more [of j str ISSPACE] by simp
  then have "i < c" using 2 skip_le [of i "\<lambda>c. \<not> ISSPACE c" str] skip_le [of "skip ISSPACE str j"] by (metis le_less_trans less_le_trans)
  moreover have "c < length str" using 2 by simp
  ultimately show ?case by simp
qed

declare group_end.simps [simp del]

text \<open>The characters that are encoded, all others stand for themselves.\<close>

definition must_quote :: "byte \<Rightarrow> bool" where
  "must_quote c \<longleftrightarrow> c AND 0x80 \<noteq> 0 \<or> c = QUOTE \<or> c = SP \<or> c = ch CHR ''_'' \<or> c = ENC \<or> c = QUESTION"

definition quoted :: "byte \<Rightarrow> byte list" where
  "quoted c = [ENC, rfc2047_xdigit ! unat (drop_bit 4 c AND 0x0F), rfc2047_xdigit ! unat (c AND 0x0F)]"

text \<open>
  The loop that encodes the first \<open>i\<close> characters of \<open>str\<close>; \<open>c\<close> is the length of the encoded word so
  far. The result is the code, the text after these characters, and the callback's state.
\<close>

definition encode_start :: "'s callback \<Rightarrow> byte list \<Rightarrow> nat \<Rightarrow> 's \<Rightarrow> int \<times> 's" where
  "encode_start func charset c s =
     (if c = 0 then rc_then (func (asc ''=?'') s) (\<lambda>s. rc_then (func charset s) (func (asc ''?Q?''))) else (0, s))"

text \<open>The next characters that go out in one call, their number, and the length after them.\<close>

definition next_piece :: "byte list \<Rightarrow> nat \<Rightarrow> nat \<Rightarrow> byte list \<times> nat \<times> nat" where
  "next_piece str i c =
     (if must_quote (at str 0) then
        if at str 0 = SP then (asc ''_'', 1, c + 1) else (quoted (at str 0), 1, c + 3)
      else
        let j = min (length (takeWhile (\<lambda>x. \<not> must_quote x) (take i str))) (50 - c) in (take j str, j, c + j))"

partial_function (option) encode_word ::
    "'s callback \<Rightarrow> byte list \<Rightarrow> byte list \<Rightarrow> nat \<Rightarrow> nat \<Rightarrow> 's \<Rightarrow> (int \<times> byte list \<times> 's) option" where
  "encode_word func charset str i c s =
     (if i = 0 then Some (0, str, s)
      else case encode_start func charset c s of (rc, s) \<Rightarrow>
        if rc \<noteq> 0 then Some (rc, str, s)
        else case next_piece str i (if c = 0 then length charset + 5 else c) of (piece, n, c) \<Rightarrow>
          case func piece s of (rc, s) \<Rightarrow>
          if rc \<noteq> 0 then Some (rc, str, s)
          else if i - n = 0 \<or> 50 \<le> c then
            (case func (if i - n = 0 then asc ''?='' else asc ''?= '') s of (rc, s) \<Rightarrow>
               if rc \<noteq> 0 then Some (rc, drop n str, s) else encode_word func charset (drop n str) (i - n) 0 s)
          else encode_word func charset (drop n str) (i - n) c s)"

partial_function (option) rfc2047_encode_callback :: "byte list \<Rightarrow> byte list \<Rightarrow> 's callback \<Rightarrow> 's \<Rightarrow> (int \<times> 's) option" where
  "rfc2047_encode_callback str charset func s =
     (if str = [] then Some (0, s)
      else let i = length (takeWhile (\<lambda>c. \<not> DOENCODE c) str) in
      if i = length str then Some (func str s)
      else let i = word_start str i in
        case (if i \<noteq> 0 then func (take i str) s else (0, s)) of (rc, s) \<Rightarrow>
          if rc \<noteq> 0 then Some (rc, s)
          else let str = drop i str in
            (case encode_word func charset str (group_end str 0) 0 s of
               None \<Rightarrow> None
             | Some (rc, str, s) \<Rightarrow> if rc \<noteq> 0 then Some (rc, s) else rfc2047_encode_callback str charset func s))"

text \<open>Two passes, one that counts and one that saves.\<close>

definition count_char :: "nat callback" where
  "count_char c i = (0, i + length c)"

definition save_char :: "byte list callback" where
  "save_char c s = (0, s @ c)"

definition rfc2047_encode_str :: "(nat \<Rightarrow> bool) \<Rightarrow> byte list \<Rightarrow> byte list \<Rightarrow> byte list option option" where
  "rfc2047_encode_str mem str charset =
     (case rfc2047_encode_callback str charset count_char 1 of
        None \<Rightarrow> None
      | Some (_, i) \<Rightarrow>
          if \<not> mem i then Some None
          else map_option (\<lambda>(_, s). Some s) (rfc2047_encode_callback str charset save_char []))"

subsection \<open>Decoding\<close>

text \<open>The text, the character set and the language of a piece, and the caller's state.\<close>

type_synonym 's decode_callback = "byte list \<Rightarrow> byte list option \<Rightarrow> byte list option \<Rightarrow> 's \<Rightarrow> int \<times> 's"

definition nyb :: "byte \<Rightarrow> nat" where
  "nyb c = (case strchr rfc2047_xdigit (toupper c) of None \<Rightarrow> 0 | Some i \<Rightarrow> i)"

fun q_text :: "byte list \<Rightarrow> byte list" where
  "q_text [] = []"
| "q_text (c # q) =
     (if c = ENC \<and> 2 \<le> length q then of_nat (nyb (at q 0) * 16 + nyb (at q 1)) # q_text (drop 2 q)
      else (if c = ch CHR ''_'' then SP else c) # q_text q)"

definition word_decode64tab :: "byte \<Rightarrow> u32" where
  "word_decode64tab c = (if c = ENC then 99 else case strchr base64tab c of None \<Rightarrow> 0 | Some i \<Rightarrow> of_nat i)"

text \<open>
  In place: what is written of four characters never passes the first of them before they are
  read, so that it is a function of the text.
\<close>

fun decodebase64 :: "byte list \<Rightarrow> byte list" where
  "decodebase64 (p # q # r # t # rest) =
     (let w = word_decode64tab p; x = word_decode64tab q; y = word_decode64tab r; z = word_decode64tab t in
      [low8 (push_bit 2 w OR drop_bit 4 x)] @
      (if r \<noteq> ENC then [low8 (push_bit 4 x OR drop_bit 2 y)] else []) @
      (if t \<noteq> ENC then [low8 (push_bit 6 y OR z)] else []) @ decodebase64 rest)"
| "decodebase64 _ = []"

definition rfc2047_search_quote :: "byte list \<Rightarrow> byte list" where
  "rfc2047_search_quote text = takeWhile (\<lambda>c. c \<noteq> QUESTION) text"

text \<open>The character set, the encoding, the encoded text, and what follows.\<close>

definition encoded_word :: "byte list \<Rightarrow> byte list \<times> byte list \<times> byte list \<times> byte list" where
  "encoded_word text =
     (let chset = rfc2047_search_quote text; text = drop (length chset + 1) text;
          encoding = rfc2047_search_quote text; text = drop (length encoding + 1) text;
          enctext = rfc2047_search_quote text; text = drop (length enctext) text;
          text = (if at text 0 = QUESTION \<and> at text 1 = ENC then drop 2 text else text)
      in (chset, encoding, enctext, text))"

definition decoded_text :: "byte list \<Rightarrow> byte list \<Rightarrow> byte list" where
  "decoded_text encoding enctext =
     (if encoding = asc ''Q'' \<or> encoding = asc ''q'' then cstr (q_text enctext)
      else if encoding = asc ''B'' \<or> encoding = asc ''b'' then cstr (decodebase64 enctext)
      else enctext)"

definition split_lang :: "byte list \<Rightarrow> byte list \<times> byte list option" where
  "split_lang chset =
     (if ch CHR ''*'' \<in> set chset then
        let lang = rev (takeWhile (\<lambda>c. c \<noteq> ch CHR ''*'') (rev chset))
        in (take (length chset - length lang - 1) chset, Some lang)
      else (chset, None))"

fun plain_len :: "byte list \<Rightarrow> nat" where
  "plain_len [] = 0"
| "plain_len (c # text) = (if c = ENC \<and> at text 0 = QUESTION then 0 else Suc (plain_len text))"

lemma encoded_word_shorter: "(cs, e, t, rest) = encoded_word (drop 2 str) \<Longrightarrow> str \<noteq> [] \<Longrightarrow> length rest < length str"
  by (cases str) (auto simp: encoded_word_def Let_def)

function decode_loop ::
    "(nat \<Rightarrow> bool) \<Rightarrow> 's decode_callback \<Rightarrow> byte list \<Rightarrow> bool \<Rightarrow> 's \<Rightarrow> int \<times> 's" where
  "decode_loop mem func text had_last_word s =
     (if text = [] then (0, s)
      else if \<not> (at text 0 = ENC \<and> at text 1 = QUESTION) then
        let n = plain_len text; had_last_word = (had_last_word \<and> (\<forall>c\<in>set (take n text). isspace c)) in
        case (if \<not> had_last_word then func (take n text) None None s else (0, s)) of (rc, s) \<Rightarrow>
          if rc \<noteq> 0 then (rc, s) else decode_loop mem func (drop n text) had_last_word s
      else case encoded_word (drop 2 text) of (chset, encoding, enctext, text') \<Rightarrow>
        if \<not> (mem (length chset + 1) \<and> mem (length encoding + 1) \<and> mem (length enctext + 1)) then (-1, s)
        else case split_lang chset of (chset, lang) \<Rightarrow>
          case func (decoded_text encoding enctext) (Some chset) lang s of (rc, s) \<Rightarrow>
            if rc \<noteq> 0 then (rc, s) else decode_loop mem func text' True s)"
  by pat_completeness auto
termination
proof (relation "measure (\<lambda>(mem, func, text, had, s). length text)", goal_cases)
  case 1
  show ?case by simp
next
  case (2 mem func str had s n had' x rc)
  then have "0 < n" by (cases str) auto
  then show ?case using 2 by simp
next
  case 3
  then show ?case by (auto dest: encoded_word_shorter)
qed

declare decode_loop.simps [simp del]

definition rfc2047_decode :: "(nat \<Rightarrow> bool) \<Rightarrow> byte list \<Rightarrow> 's decode_callback \<Rightarrow> 's \<Rightarrow> int \<times> 's" where
  "rfc2047_decode mem text func s = decode_loop mem func text False s"

text \<open>Decoding in two passes, without the character sets, or with those that are not the own one in brackets.\<close>

definition count_simple :: "nat decode_callback" where
  "count_simple txt chset lang i = (0, i + length txt)"

definition save_simple :: "byte list decode_callback" where
  "save_simple txt chset lang s = (0, s @ txt)"

definition decode_passes :: "(nat \<Rightarrow> bool) \<Rightarrow> byte list \<Rightarrow> nat decode_callback \<Rightarrow> byte list decode_callback \<Rightarrow> byte list option" where
  "decode_passes mem text count save =
     (case rfc2047_decode mem text count 1 of (rc, i) \<Rightarrow>
        if rc \<noteq> 0 then None
        else if \<not> mem i then None
        else case rfc2047_decode mem text save [] of (rc, s) \<Rightarrow> if rc \<noteq> 0 then None else Some s)"

definition rfc2047_decode_simple :: "(nat \<Rightarrow> bool) \<Rightarrow> byte list \<Rightarrow> byte list option" where
  "rfc2047_decode_simple mem text = decode_passes mem text count_simple save_simple"

definition do_enhanced :: "byte list option \<Rightarrow> 's decode_callback \<Rightarrow> 's decode_callback" where
  "do_enhanced mychset func txt chset lang s =
     (let chset = (case (chset, mychset) of
                     (Some c, Some m) \<Rightarrow> if map tolower c = map tolower m then None else Some c
                   | _ \<Rightarrow> chset)
      in rc_then
        (case chset of
           None \<Rightarrow> (0, s)
         | Some c \<Rightarrow>
             rc_then (func (asc '' ['') None None s) (\<lambda>s. rc_then (func c None None s) (\<lambda>s.
               rc_then (case lang of None \<Rightarrow> (0, s) | Some l \<Rightarrow> rc_then (func (asc ''*'') None None s) (func l None None))
                 (func (asc ''] '') None None))))
        (func txt None None))"

definition rfc2047_decode_enhanced :: "(nat \<Rightarrow> bool) \<Rightarrow> byte list \<Rightarrow> byte list option \<Rightarrow> byte list option" where
  "rfc2047_decode_enhanced mem text mychset =
     decode_passes mem text (do_enhanced mychset count_simple) (do_enhanced mychset save_simple)"

subsection \<open>Headers of addresses\<close>

definition rfc2047_print :: "(nat \<Rightarrow> bool) \<Rightarrow> (byte list \<Rightarrow> byte list) \<Rightarrow> byte list \<Rightarrow> tok list \<Rightarrow> rfc822addr list \<Rightarrow> byte list \<Rightarrow> byte list" where
  "rfc2047_print mem sep s a addrs charset =
     rfc822_print_common mem (Some (\<lambda>p. rfc2047_decode_enhanced mem p (Some charset))) sep s a addrs"

text \<open>
  Quotes and parentheses are taken off a name before it is encoded and put on again. Of a name
  that is a single quote the source would copy \<open>l - 2\<close>, a huge number of bytes; names are
  printed with both quotes, so that does not occur, and it is \<open>None\<close> here.
\<close>

definition a_rfc2047_encode_str :: "(nat \<Rightarrow> bool) \<Rightarrow> byte list \<Rightarrow> byte list \<Rightarrow> byte list option option" where
  "a_rfc2047_encode_str mem str charset =
     (let l = length str in
      if l = 0 then Some (if mem 1 then Some [] else None)
      else if str ! 0 = QUOTE \<and> last str = QUOTE \<or> str ! 0 = LPAREN \<and> last str = RPAREN then
        if l = 1 then None
        else if \<not> mem l then Some None
        else
          (case rfc2047_encode_str mem (take (l - 2) (drop 1 str)) charset of
             None \<Rightarrow> None
           | Some None \<Rightarrow> Some None
           | Some (Some s) \<Rightarrow> Some (if mem (length s + 3) then Some ([str ! 0] @ s @ [last str]) else None))
      else rfc2047_encode_str mem str charset)"

definition fold_sep :: "byte list \<Rightarrow> byte list" where
  "fold_sep c = (if c = asc '', '' then asc '','' @ [NL] @ asc ''  '' else c)"

text \<open>The names that are encoded.\<close>

definition encoded_names :: "(nat \<Rightarrow> bool) \<Rightarrow> byte list \<Rightarrow> tok list \<Rightarrow> rfc822addr list \<Rightarrow> byte list list" where
  "encoded_names mem s a addrs =
     List.map_filter (\<lambda>x. if tokens x \<noteq> [] \<and> name x \<noteq> [] then rfc822_gettok mem s a (name x) else None) addrs"

definition rfc2047_encode_header :: "(nat \<Rightarrow> bool) \<Rightarrow> byte list \<Rightarrow> tok list \<Rightarrow> rfc822addr list \<Rightarrow> byte list \<Rightarrow> byte list option option" where
  "rfc2047_encode_header mem s a addrs charset =
     (if \<exists>p\<in>set (encoded_names mem s a addrs). a_rfc2047_encode_str mem p charset = None then None
      else let t = rfc822_print_common mem (Some (\<lambda>p. the (a_rfc2047_encode_str mem p charset))) fold_sep s a addrs in
        Some (if mem (length t + 1) then Some t else None))"

subsection \<open>What the encoder writes\<close>

definition never_fails :: "'s callback \<Rightarrow> bool" where
  "never_fails func \<longleftrightarrow> (\<forall>bs s. fst (func bs s) = 0)"

definition feed :: "'s callback \<Rightarrow> byte list list \<Rightarrow> 's \<Rightarrow> 's" where
  "feed func ps s = fold (\<lambda>bs s. snd (func bs s)) ps s"

lemma feed_simps [simp]:
  "feed func [] s = s" "feed func qs (feed func ps s) = feed func (ps @ qs) s"
  by (simp_all add: feed_def)

lemma never_fails_call: "never_fails func \<Longrightarrow> func bs s = (0, feed func [bs] s)"
  unfolding never_fails_def feed_def by (cases "func bs s") (metis fold_simps fst_conv snd_conv)

text \<open>The calls for one group of words, and for a whole text.\<close>

function word_pieces :: "byte list \<Rightarrow> byte list \<Rightarrow> nat \<Rightarrow> nat \<Rightarrow> byte list list" where
  "word_pieces charset str i c =
     (if i = 0 then []
      else (if c = 0 then [asc ''=?'', charset, asc ''?Q?''] else []) @
        (case next_piece str i (if c = 0 then length charset + 5 else c) of (piece, n, c) \<Rightarrow>
           if n = 0 then []
           else if i - n = 0 \<or> 50 \<le> c then
             piece # (if i - n = 0 then asc ''?='' else asc ''?= '') # word_pieces charset (drop n str) (i - n) 0
           else piece # word_pieces charset (drop n str) (i - n) c))"
  by pat_completeness auto
termination
  by (relation "measure (\<lambda>(charset, str, i, c). i)") auto

declare word_pieces.simps [simp del]

lemma next_piece_takes:
  assumes "next_piece str i c = (p, n, c')" "c < 50" "0 < i" "i \<le> length str"
  shows "0 < n \<and> n \<le> i \<and> c \<le> c'"
proof -
  obtain x xs where x: "str = x # xs" using assms(3,4) by (cases str) auto
  obtain k where "i = Suc k" using assms(3) by (cases i) auto
  then have "\<not> must_quote x \<Longrightarrow> 0 < length (takeWhile (\<lambda>x. \<not> must_quote x) (take i str))" by (simp add: x)
  moreover have "length (takeWhile (\<lambda>x. \<not> must_quote x) (take i str)) \<le> i"
    using length_takeWhile_le [of _ "take i str"] assms(4) by simp
  ultimately show ?thesis using assms(1-3) by (auto simp: next_piece_def x Let_def split: if_splits)
qed

lemma encode_word_0 [simp]: "encode_word func charset str 0 c s = Some (0, str, s)" "word_pieces charset str 0 c = []"
  by (subst encode_word.simps, simp) (subst word_pieces.simps, simp)

lemma encode_word_start:
  assumes "never_fails func" "0 < i"
  shows "encode_word func charset str i 0 s =
    encode_word func charset str i (length charset + 5) (feed func [asc ''=?'', charset, asc ''?Q?''] s)"
  using assms(2)
  by (subst (1 2) encode_word.simps) (simp add: encode_start_def never_fails_call [OF assms(1)])

lemma word_pieces_start:
  "0 < i \<Longrightarrow> word_pieces charset str i 0 = [asc ''=?'', charset, asc ''?Q?''] @ word_pieces charset str i (length charset + 5)"
  by (subst (1 2) word_pieces.simps) simp

lemma encode_word_mid:
  assumes "never_fails func" "length charset < 45"
  shows "0 < c \<Longrightarrow> c < 50 \<Longrightarrow> i \<le> length str \<Longrightarrow>
    encode_word func charset str i c s = Some (0, drop i str, feed func (word_pieces charset str i c) s)"
proof (induction i arbitrary: str c s rule: less_induct)
  case (less i)
  show ?case
  proof (cases "i = 0")
    case True
    then show ?thesis by simp
  next
    case False
    obtain p n c' where p: "next_piece str i c = (p, n, c')" by (metis prod_cases3)
    have n: "0 < n" "n \<le> i" "c \<le> c'" using next_piece_takes [OF p less(3) _ less(4)] False by simp_all
    have E: "encode_word func charset str i c s =
       (if i - n = 0 \<or> 50 \<le> c'
        then encode_word func charset (drop n str) (i - n) 0 (feed func [p, if i - n = 0 then asc ''?='' else asc ''?= ''] s)
        else encode_word func charset (drop n str) (i - n) c' (feed func [p] s))"
      using False less(2) by (subst encode_word.simps) (simp add: encode_start_def p never_fails_call [OF assms(1)])
    have W: "word_pieces charset str i c =
       (if i - n = 0 \<or> 50 \<le> c'
        then [p, if i - n = 0 then asc ''?='' else asc ''?= ''] @ word_pieces charset (drop n str) (i - n) 0
        else [p] @ word_pieces charset (drop n str) (i - n) c')"
      using False less(2) n(1) by (subst word_pieces.simps) (simp add: p)
    show ?thesis
    proof (cases "i - n = 0")
      case True
      show ?thesis unfolding E W using True n(2) by simp
    next
      case m: False
      have IH: "encode_word func charset (drop n str) (i - n) d t =
          Some (0, drop i str, feed func (word_pieces charset (drop n str) (i - n) d) t)" if "0 < d" "d < 50" for d t
        using less(1) [of "i - n" d "drop n str" t] that n less(4) m by simp
      show ?thesis
      proof (cases "50 \<le> c'")
        case True
        show ?thesis
          using True m assms(2) encode_word_start [OF assms(1), of "i - n"] word_pieces_start [of "i - n"] IH
          by (simp add: E W)
      next
        case False
        then show ?thesis using m IH n less(2) by (simp add: E W)
      qed
    qed
  qed
qed

lemma encode_word_pieces:
  assumes "never_fails func" "length charset < 45" "i \<le> length str"
  shows "encode_word func charset str i 0 s = Some (0, drop i str, feed func (word_pieces charset str i 0) s)"
proof (cases "i = 0")
  case True
  then show ?thesis by simp
next
  case False
  then show ?thesis using encode_word_start [OF assms(1)] word_pieces_start encode_word_mid [OF assms(1,2) _ _ assms(3)] assms(2) by simp
qed

text \<open>A name of 45 characters or more leaves no room for a plain character: the loop never ends.\<close>

lemma encode_word_endless:
  assumes "never_fails func" "45 \<le> length charset" "0 < i" "\<not> must_quote (at str 0)"
  shows "encode_word func charset str i 0 s = None"
proof (rule ccontr)
  assume "encode_word func charset str i 0 s \<noteq> None"
  then obtain r where "encode_word func charset str i 0 s = Some r" by blast
  then have "\<not> (never_fails func \<and> 45 \<le> length charset \<and> 0 < i \<and> \<not> must_quote (at str 0) \<and> (0::nat) = 0)"
  proof (induction func charset str i "0::nat" s r rule: encode_word.raw_induct [rotated, consumes 1, case_names step])
    case (step rec func charset str i s r)
    show ?case
    proof (intro notI, elim conjE)
      assume a: "never_fails func" "45 \<le> length charset" "0 < i" "\<not> must_quote (at str 0)"
      then have "next_piece str i (length charset + 5) = ([], 0, length charset + 5)" by (simp add: next_piece_def)
      then have "rec func charset str i 0 (feed func [asc ''=?'', charset, asc ''?Q?'', [], asc ''?= ''] s) = Some r"
        using step(2) a by (simp add: encode_start_def never_fails_call [OF a(1)])
      then show False using step(1) a by blast
    qed
  qed
  then show False using assms by blast
qed

lemma skip_drop: "drop (skip P str i) str = dropWhile P (drop i str)"
  by (simp add: skip_def dropWhile_eq_drop add.commute)

lemma group_end_bounds: "i \<le> length str \<Longrightarrow> i \<le> group_end str i \<and> group_end str i \<le> length str"
proof (induction str i rule: group_end.induct)
  case (1 str i)
  define j where "j = skip (\<lambda>c. \<not> ISSPACE c) str i"
  define c where "c = skip (\<lambda>c. \<not> ISSPACE c \<and> \<not> DOENCODE c) str (skip ISSPACE str j)"
  have j: "i \<le> j" "j \<le> length str" using skip_le skip_stop 1(2) by (simp_all add: j_def)
  have c: "j \<le> c" "c \<le> length str"
    using skip_le [of j ISSPACE str] skip_le [of "skip ISSPACE str j"] skip_stop j(2) by (auto simp: c_def intro: order_trans)
  have G: "group_end str i = (if length str \<le> j \<or> length str \<le> c \<or> ISSPACE (str ! c) then j else group_end str c)"
    by (subst group_end.simps) (simp add: j_def c_def Let_def)
  show ?case
  proof (cases "length str \<le> j \<or> length str \<le> c \<or> ISSPACE (str ! c)")
    case True
    then show ?thesis using j by (simp add: G)
  next
    case False
    then show ?thesis using 1(1) [OF j_def _ c_def] j c by (simp add: G)
  qed
qed

lemma group_end_pos: "str \<noteq> [] \<Longrightarrow> \<not> ISSPACE (hd str) \<Longrightarrow> 0 < group_end str 0"
proof -
  assume a: "str \<noteq> []" "\<not> ISSPACE (hd str)"
  define j where "j = skip (\<lambda>c. \<not> ISSPACE c) str 0"
  define c where "c = skip (\<lambda>c. \<not> ISSPACE c \<and> \<not> DOENCODE c) str (skip ISSPACE str j)"
  have j: "0 < j" using a skip_more [of 0 str "\<lambda>c. \<not> ISSPACE c"] by (simp add: j_def hd_conv_nth)
  have G: "group_end str 0 = (if length str \<le> j \<or> length str \<le> c \<or> ISSPACE (str ! c) then j else group_end str c)"
    by (subst group_end.simps) (simp add: j_def c_def Let_def)
  have "j \<le> c" using skip_le [of j ISSPACE str] skip_le [of "skip ISSPACE str j"] by (auto simp: c_def intro: order_trans)
  then show ?thesis using j group_end_bounds [of c str] by (auto simp: G)
qed

lemma word_start:
  "word_start str i \<le> i" "word_start str i \<le> k \<Longrightarrow> k < i \<Longrightarrow> \<not> ISSPACE (at str k)"
proof (induction i)
  case (Suc i)
  { case 1 then show ?case using Suc by auto }
  { case 2 then show ?case using Suc by (cases "k = i") (auto split: if_splits) }
qed simp_all

lemma doencode_nonspace: "DOENCODE c \<Longrightarrow> \<not> ISSPACE c"
  by (auto simp: DOENCODE_def ISSPACE_def isspace_def QUOTE_def ENC_def)

text \<open>The calls for a whole text.\<close>

function message_pieces :: "byte list \<Rightarrow> byte list \<Rightarrow> byte list list" where
  "message_pieces charset str =
     (if str = [] then []
      else let i = length (takeWhile (\<lambda>c. \<not> DOENCODE c) str) in
      if i = length str then [str]
      else let i = word_start str i; g = group_end (drop i str) 0 in
        (if i \<noteq> 0 then [take i str] else []) @
        (if g = 0 then [] else word_pieces charset (drop i str) g 0 @ message_pieces charset (drop g (drop i str))))"
  by pat_completeness auto
termination
  by (relation "measure (\<lambda>(charset, str). length str)") auto

declare message_pieces.simps [simp del]

text \<open>The first word that needs encoding.\<close>

lemma first_word:
  assumes "i = length (takeWhile (\<lambda>c. \<not> DOENCODE c) str)" "i \<noteq> length str" "ws = word_start str i"
  shows "ws \<le> i" "i < length str" "DOENCODE (str ! i)" "\<forall>k<i. \<not> DOENCODE (str ! k)"
    "drop ws str \<noteq> []" "\<not> ISSPACE (hd (drop ws str))" "0 < group_end (drop ws str) 0"
proof -
  show i: "i < length str" using assms(1,2) length_takeWhile_le [of "\<lambda>c. \<not> DOENCODE c" str] by simp
  show d: "DOENCODE (str ! i)" using nth_length_takeWhile [of "\<lambda>c. \<not> DOENCODE c" str] i assms(1) by simp
  show "\<forall>k<i. \<not> DOENCODE (str ! k)"
    using assms(1) nth_mem takeWhile_nth [of _ "\<lambda>c. \<not> DOENCODE c" str] set_takeWhileD by (metis (no_types, lifting))
  show w: "ws \<le> i" using word_start(1) assms(3) by simp
  show n: "drop ws str \<noteq> []" using w i by simp
  have "\<not> ISSPACE (at str ws)"
    using word_start(2) [of str i ws] w assms(3) doencode_nonspace [OF d] i by (cases "ws = i") (auto simp: at_def)
  then show h: "\<not> ISSPACE (hd (drop ws str))" using w i by (simp add: at_def hd_drop_conv_nth)
  show "0 < group_end (drop ws str) 0" by (rule group_end_pos [OF n h])
qed

lemma encode_callback_pieces:
  assumes "never_fails func" "length charset < 45"
  shows "rfc2047_encode_callback str charset func s = Some (0, feed func (message_pieces charset str) s)"
proof (induction "length str" arbitrary: str s rule: less_induct)
  case less
  show ?case
  proof (cases "str = []")
    case True
    then show ?thesis by (subst rfc2047_encode_callback.simps, subst message_pieces.simps) simp
  next
    case ne: False
    define i where "i = length (takeWhile (\<lambda>c. \<not> DOENCODE c) str)"
    show ?thesis
    proof (cases "i = length str")
      case True
      then show ?thesis
        using ne by (subst rfc2047_encode_callback.simps, subst message_pieces.simps)
          (simp add: i_def [symmetric] never_fails_call [OF assms(1)])
    next
      case False
      define ws where "ws = word_start str i"
      define g where "g = group_end (drop ws str) 0"
      note fw = first_word [OF i_def False ws_def, folded g_def]
      have gl: "g \<le> length (drop ws str)" using group_end_bounds [of 0 "drop ws str"] by (simp add: g_def)
      have M: "message_pieces charset str =
          (if ws \<noteq> 0 then [take ws str] else []) @ word_pieces charset (drop ws str) g 0 @ message_pieces charset (drop g (drop ws str))"
        using ne False fw(7) by (subst message_pieces.simps) (simp add: i_def [symmetric] ws_def [symmetric] g_def [symmetric] Let_def)
      have E: "rfc2047_encode_callback str charset func s =
          rfc2047_encode_callback (drop g (drop ws str)) charset func
            (feed func (word_pieces charset (drop ws str) g 0) (feed func (if ws \<noteq> 0 then [take ws str] else []) s))"
      proof -
        have f: "(if ws \<noteq> 0 then func (take ws str) s else (0, s)) = (0, feed func (if ws \<noteq> 0 then [take ws str] else []) s)"
          by (simp add: never_fails_call [OF assms(1)])
        show ?thesis
          using ne False unfolding rfc2047_encode_callback.simps [of str] Let_def i_def [symmetric] ws_def [symmetric] g_def [symmetric] f
          by (simp add: encode_word_pieces [OF assms gl] del: feed_simps)
      qed
      have "length (drop g (drop ws str)) < length str" using fw(7) ne by (simp add: length_greater_0_conv [symmetric] del: length_greater_0_conv)
      then show ?thesis unfolding E M by (simp add: less)
    qed
  qed
qed

end
