(* ===== verification/Rfc2047_Decode.thy ===== *)
theory Rfc2047_Decode imports Rfc2047 begin

text \<open>
  What the decoder of \<open>rfc2047.c\<close> reads of what the encoder writes: the encoded words of a group,
  the blanks between them that it leaves out, and the text between groups that it keeps.
\<close>

subsection \<open>What the decoder reads\<close>

definition q_char :: "byte \<Rightarrow> byte list" where
  "q_char c = (if must_quote c then if c = SP then asc ''_'' else quoted c else [c])"

definition q_encoded :: "byte list \<Rightarrow> byte list" where
  "q_encoded s = concat (map q_char s)"

lemma q_encoded_simps [simp]: "q_encoded [] = []" "q_encoded (c # s) = q_char c @ q_encoded s" "q_encoded (s @ t) = q_encoded s @ q_encoded t"
  by (simp_all add: q_encoded_def)

definition word :: "byte list \<Rightarrow> byte list \<Rightarrow> byte list" where
  "word charset x = asc ''=?'' @ charset @ asc ''?Q?'' @ q_encoded x @ asc ''?=''"

lemma next_piece_encoded:
  assumes "next_piece str i c = (p, n, c')" "0 < i" "i \<le> length str"
  shows "p = q_encoded (take n str)"
proof -
  obtain x xs where x: "str = x # xs" using assms(2,3) by (cases str) auto
  have t: "q_encoded y = y" if "\<forall>c\<in>set y. \<not> must_quote c" for y
    using that by (induction y) (auto simp: q_char_def)
  show ?thesis
  proof (cases "must_quote x")
    case True
    then show ?thesis using assms(1) by (auto simp: next_piece_def x q_char_def split: if_splits)
  next
    case False
    define m where "m = length (takeWhile (\<lambda>x. \<not> must_quote x) (take i str))"
    have n: "n = min m (50 - c)" "p = take n str"
      using assms(1) False by (auto simp: next_piece_def x Let_def m_def)
    have "take m str = takeWhile (\<lambda>x. \<not> must_quote x) (take i str)"
      using length_takeWhile_le [of "\<lambda>x. \<not> must_quote x" "take i str"]
      unfolding m_def by (metis (no_types) length_take min.bounded_iff take_take takeWhile_eq_take min.absorb1)
    then have "\<forall>c\<in>set (take m str). \<not> must_quote c" by (auto dest: set_takeWhileD)
    then have "\<forall>c\<in>set (take n str). \<not> must_quote c" using set_take_subset_set_take [of n m str] n(1) by auto
    then show ?thesis using t n(2) by simp
  qed
qed

lemma word_pieces_mid:
  assumes "length charset < 45"
  shows "0 < c \<Longrightarrow> c < 50 \<Longrightarrow> 0 < i \<Longrightarrow> i \<le> length str \<Longrightarrow>
    \<exists>h chunks. h @ concat chunks = take i str \<and>
      concat (word_pieces charset str i c) = q_encoded h @ asc ''?='' @ concat (map (\<lambda>x. SP # word charset x) chunks)"
proof (induction i arbitrary: str c rule: less_induct)
  case (less i)
  obtain p n c' where p: "next_piece str i c = (p, n, c')" by (metis prod_cases3)
  have n: "0 < n" "n \<le> i" "c \<le> c'" using next_piece_takes [OF p less(3,4,5)] by simp_all
  have q: "p = q_encoded (take n str)" by (rule next_piece_encoded [OF p less(4,5)])
  have W: "word_pieces charset str i c =
     (if i - n = 0 \<or> 50 \<le> c'
      then [p, if i - n = 0 then asc ''?='' else asc ''?= ''] @ word_pieces charset (drop n str) (i - n) 0
      else [p] @ word_pieces charset (drop n str) (i - n) c')"
    using less(2,4) n(1) by (subst word_pieces.simps) (simp add: p)
  have t: "take i str = take n str @ take (i - n) (drop n str)" using n(2) by (metis le_add_diff_inverse take_add)
  show ?case
  proof (cases "i - n = 0")
    case True
    then show ?thesis unfolding W using n(2) q t by (intro exI [of _ "take n str"] exI [of _ "[]"]) simp
  next
    case m: False
    have IH: "\<exists>h chunks. h @ concat chunks = take (i - n) (drop n str) \<and>
        concat (word_pieces charset (drop n str) (i - n) d) = q_encoded h @ asc ''?='' @ concat (map (\<lambda>x. SP # word charset x) chunks)"
      if "0 < d" "d < 50" for d
      using less(1) [of "i - n" d "drop n str"] that n less(5) m by simp
    show ?thesis
    proof (cases "50 \<le> c'")
      case True
      obtain h chunks where h: "h @ concat chunks = take (i - n) (drop n str)"
          "concat (word_pieces charset (drop n str) (i - n) (length charset + 5)) = q_encoded h @ asc ''?='' @ concat (map (\<lambda>x. SP # word charset x) chunks)"
        using IH [of "length charset + 5"] assms by auto
      have "word_pieces charset str i c =
          [p, asc ''?= ''] @ [asc ''=?'', charset, asc ''?Q?''] @ word_pieces charset (drop n str) (i - n) (length charset + 5)"
        using W True m word_pieces_start [of "i - n"] by simp
      then show ?thesis using h t q
        by (intro exI [of _ "take n str"] exI [of _ "h # chunks"]) (simp add: word_def SP_def)
    next
      case False
      obtain h chunks where h: "h @ concat chunks = take (i - n) (drop n str)"
          "concat (word_pieces charset (drop n str) (i - n) c') = q_encoded h @ asc ''?='' @ concat (map (\<lambda>x. SP # word charset x) chunks)"
        using IH [of c'] False n less(2) by auto
      then show ?thesis using t q m False
        by (intro exI [of _ "take n str @ h"] exI [of _ chunks]) (simp add: W)
    qed
  qed
qed

lemma word_pieces_words:
  assumes "length charset < 45" "0 < i" "i \<le> length str"
  obtains h chunks where "h @ concat chunks = take i str"
    "concat (word_pieces charset str i 0) = word charset h @ concat (map (\<lambda>x. SP # word charset x) chunks)"
  using word_pieces_mid [OF assms(1) _ _ assms(2,3), of "length charset + 5"] assms(1) word_pieces_start [OF assms(2)]
  by (auto simp: word_def)

text \<open>The decoder's two callbacks see the same text.\<close>

definition decodes :: "byte list \<Rightarrow> bool \<Rightarrow> byte list \<Rightarrow> bool" where
  "decodes str had t \<longleftrightarrow>
     (\<forall>i. decode_loop (\<lambda>_. True) count_simple str had i = (0, i + length t)) \<and>
     (\<forall>s. decode_loop (\<lambda>_. True) save_simple str had s = (0, s @ t))"

lemma decodes_Nil [simp]: "decodes [] had []"
  by (simp add: decodes_def decode_loop.simps)

lemma plain_len_append:
  "ENC \<notin> set p \<Longrightarrow> r = [] \<or> at r 0 = ENC \<and> at r 1 = QUESTION \<Longrightarrow> plain_len (p @ r) = length p"
proof (induction p)
  case Nil
  then show ?case by (cases r) (auto simp: at_def)
qed (auto simp: at_def)

lemma decodes_plain:
  assumes "p \<noteq> []" "ENC \<notin> set p" "r = [] \<or> at r 0 = ENC \<and> at r 1 = QUESTION" "decodes r (had \<and> (\<forall>c\<in>set p. isspace c)) t"
  shows "decodes (p @ r) had ((if had \<and> (\<forall>c\<in>set p. isspace c) then [] else p) @ t)"
proof -
  have n: "plain_len (p @ r) = length p" by (rule plain_len_append [OF assms(2,3)])
  have "\<not> (at (p @ r) 0 = ENC \<and> at (p @ r) 1 = QUESTION)" using assms(1,2) by (cases p) (auto simp: at_def)
  then show ?thesis
    using assms(1,4) unfolding decodes_def decode_loop.simps [of _ _ "p @ r"]
    by (auto simp: n count_simple_def save_simple_def)
qed

definition charset_ok :: "byte list \<Rightarrow> bool" where
  "charset_ok charset \<longleftrightarrow> length charset < 45 \<and> 0 \<notin> set charset \<and> QUESTION \<notin> set charset \<and> ch CHR ''*'' \<notin> set charset"

lemma xdigit_cases:
  "i < 16 \<Longrightarrow> nyb (rfc2047_xdigit ! i) = i \<and> rfc2047_xdigit ! i \<noteq> QUESTION"
proof -
  have "\<forall>i\<in>{0..<16}. nyb (rfc2047_xdigit ! i) = i \<and> rfc2047_xdigit ! i \<noteq> QUESTION" by code_simp
  then show "i < 16 \<Longrightarrow> ?thesis" by simp
qed

lemma nibbles_16: "unat (drop_bit 4 c AND 0x0F :: byte) < 16" "unat (c AND 0x0F :: byte) < 16"
  by (rule unat_lt_16; auto simp: byte_bits)+

lemma nibbles_byte: "(drop_bit 4 c AND 0x0F) * 16 + (c AND 0x0F) = (c::byte)"
proof -
  have "push_bit 4 (drop_bit 4 c AND 0x0F) + (c AND 0x0F) = push_bit 4 (drop_bit 4 c AND 0x0F) OR (c AND 0x0F)"
    by (rule disjunctive_add) (auto simp: byte_bits)
  also have "\<dots> = c" by (rule bit_word_eqI) (auto simp: byte_bits)
  finally show ?thesis by (simp add: push_bit_eq_mult)
qed

lemma q_text_quoted: "q_text (quoted c @ r) = c # q_text r"
proof -
  have "q_text (quoted c @ r) = of_nat (unat (drop_bit 4 c AND 0x0F) * 16 + unat (c AND 0x0F)) # q_text r"
    using xdigit_cases [OF nibbles_16(1), of c] xdigit_cases [OF nibbles_16(2), of c] by (simp add: quoted_def)
  then show ?thesis using nibbles_byte [of c] by simp
qed

lemma quoted_question: "QUESTION \<notin> set (quoted c)"
proof -
  have "ENC \<noteq> QUESTION" by (simp add: ENC_def QUESTION_def)
  then show ?thesis
    using xdigit_cases [OF nibbles_16(1), of c] xdigit_cases [OF nibbles_16(2), of c] by (auto simp: quoted_def)
qed

lemma q_text_char: "q_text (q_char c @ r) = c # q_text r"
proof (cases "must_quote c \<and> c \<noteq> SP")
  case True
  then show ?thesis by (simp add: q_char_def q_text_quoted)
next
  case False
  then show ?thesis by (auto simp: q_char_def must_quote_def SP_def ENC_def)
qed

lemma q_text_encoded: "q_text (q_encoded x) = x"
  by (induction x) (simp_all add: q_text_char)

lemma q_encoded_question: "QUESTION \<notin> set (q_encoded x)"
proof (induction x)
  case (Cons c x)
  have "QUESTION \<notin> set (q_char c)"
  proof (cases "must_quote c \<and> c \<noteq> SP")
    case True
    then show ?thesis by (simp add: q_char_def quoted_question)
  next
    case False
    then show ?thesis by (auto simp: q_char_def must_quote_def QUESTION_def SP_def)
  qed
  then show ?case using Cons by simp
qed simp

lemma takeWhile_question: "QUESTION \<notin> set x \<Longrightarrow> takeWhile (\<lambda>c. c \<noteq> QUESTION) (x @ QUESTION # r) = x"
  by (simp add: takeWhile_tail) (metis takeWhile_eq_all_conv)

lemma decodes_word:
  assumes "charset_ok charset" "0 \<notin> set x" "decodes r True t"
  shows "decodes (word charset x @ r) had (x @ t)"
proof -
  let ?w = "word charset x @ r"
  have c: "QUESTION \<notin> set charset" "split_lang charset = (charset, None)" using assms(1) by (auto simp: charset_ok_def split_lang_def)
  have w: "drop 2 ?w = charset @ QUESTION # ch CHR ''Q'' # QUESTION # q_encoded x @ QUESTION # ENC # r"
    by (simp add: word_def QUESTION_def ENC_def)
  have e: "encoded_word (drop 2 ?w) = (charset, asc ''Q'', q_encoded x, r)"
    unfolding w encoded_word_def rfc2047_search_quote_def Let_def
    by (simp add: takeWhile_question [OF c(1)] takeWhile_question [OF q_encoded_question]) (simp add: QUESTION_def)
  have d: "decoded_text (asc ''Q'') (q_encoded x) = x"
    using assms(2) by (simp add: decoded_text_def q_text_encoded cstr_id)
  have h: "word charset x \<noteq> []" "at ?w 0 = ENC" "at ?w 1 = QUESTION" by (simp_all add: word_def ENC_def QUESTION_def at_def)
  show ?thesis
    using assms(3) h unfolding decodes_def decode_loop.simps [of _ _ ?w] e
    by (simp add: c(2) d [simplified] count_simple_def save_simple_def)
qed

lemma decodes_words:
  assumes "charset_ok charset" "decodes r True t"
  shows "0 \<notin> set (concat chunks) \<Longrightarrow> decodes (concat (map (\<lambda>x. SP # word charset x) chunks) @ r) True (concat chunks @ t)"
proof (induction chunks)
  case Nil
  then show ?case using assms(2) by simp
next
  case (Cons x chunks)
  let ?r = "word charset x @ concat (map (\<lambda>x. SP # word charset x) chunks) @ r"
  have "decodes ?r True (x @ concat chunks @ t)" using Cons by (intro decodes_word [OF assms(1)]) auto
  moreover have "at ?r 0 = ENC \<and> at ?r 1 = QUESTION" by (simp add: word_def ENC_def QUESTION_def at_def)
  moreover have "isspace SP" "ENC \<noteq> SP" by (simp_all add: isspace_def SP_def ENC_def)
  ultimately show ?case using decodes_plain [of "[SP]" ?r True "x @ concat chunks @ t"] by simp
qed

text \<open>A text that does not begin with a word to encode, after blanks.\<close>

definition plain_first :: "byte list \<Rightarrow> bool" where
  "plain_first str \<longleftrightarrow> str = [] \<or>
     (\<exists>sp w r. str = sp @ w @ r \<and> w \<noteq> [] \<and> (\<forall>c\<in>set w. \<not> ISSPACE c \<and> \<not> DOENCODE c) \<and> (\<forall>c\<in>set sp. ISSPACE c) \<and>
       (r = [] \<or> ISSPACE (hd r)))"

lemma ISSPACE_eq: "ISSPACE c = isspace c"
proof -
  have "c AND 0x80 = 0" if "isspace c"
  proof -
    have "c = 32 \<or> c = 9 \<or> c = 10 \<or> c = 11 \<or> c = 12 \<or> c = 13" using that unfolding isspace_def by (unat_arith) 
    then show ?thesis by auto
  qed
  then show ?thesis by (auto simp: ISSPACE_def)
qed

lemma group_end_plain:
  "i \<le> length str \<Longrightarrow> \<not> ISSPACE (last str) \<Longrightarrow> plain_first (drop (group_end str i) str)"
proof (induction str i rule: group_end.induct)
  case (1 str i)
  define j where "j = skip (\<lambda>c. \<not> ISSPACE c) str i"
  define k where "k = skip ISSPACE str j"
  define c where "c = skip (\<lambda>c. \<not> ISSPACE c \<and> \<not> DOENCODE c) str k"
  have j: "j \<le> length str" using skip_stop 1(2) by (simp add: j_def)
  have k: "k \<le> length str" "k < length str \<Longrightarrow> \<not> ISSPACE (str ! k)" using skip_stop [OF j, of ISSPACE] by (auto simp: k_def)
  have c: "c \<le> length str" using skip_stop k(1) by (simp add: c_def)
  have G: "group_end str i = (if length str \<le> j \<or> length str \<le> c \<or> ISSPACE (str ! c) then j else group_end str c)"
    by (subst group_end.simps) (simp add: j_def k_def c_def Let_def)
  show ?case
  proof (cases "length str \<le> j \<or> length str \<le> c \<or> ISSPACE (str ! c)")
    case False
    then show ?thesis using 1(1) [OF j_def _ c_def [unfolded k_def]] c 1(3) by (simp add: G)
  next
    case T: True
    show ?thesis
    proof (cases "length str \<le> j")
      case True
      then show ?thesis by (simp add: G plain_first_def)
    next
      case F: False
      define sp where "sp = takeWhile ISSPACE (drop j str)"
      define w where "w = takeWhile (\<lambda>c. \<not> ISSPACE c \<and> \<not> DOENCODE c) (drop k str)"
      have dk: "drop k str = dropWhile ISSPACE (drop j str)" and dc: "drop c str = dropWhile (\<lambda>c. \<not> ISSPACE c \<and> \<not> DOENCODE c) (drop k str)"
        by (simp_all add: k_def c_def skip_drop)
      have s: "drop j str = sp @ w @ drop c str" unfolding sp_def w_def dc by (metis dk takeWhile_dropWhile_id)
      have "k \<noteq> length str"
      proof
        assume "k = length str"
        then have "\<forall>x\<in>set (drop j str). ISSPACE x" using dk by (metis drop_all dropWhile_eq_Nil_conv order_refl)
        then show False using F 1(3) by (metis drop_eq_Nil last_drop last_in_set not_le)
      qed
      then have kl: "k < length str" using k(1) by simp
      have "w \<noteq> []"
      proof
        assume "w = []"
        then have "c = k" by (simp add: c_def skip_def w_def [symmetric])
        then have "ISSPACE (str ! k)" using T F kl by auto
        then show False using k(2) [OF kl] by simp
      qed
      moreover have "drop c str = [] \<or> ISSPACE (hd (drop c str))" using T F c by (cases "c = length str") (auto simp: hd_drop_conv_nth)
      ultimately have "plain_first (drop j str)" unfolding plain_first_def
        by (intro disjI2 exI [of _ sp] exI [of _ w] exI [of _ "drop c str"]) (use s in \<open>auto simp: sp_def w_def dest: set_takeWhileD\<close>)
      then show ?thesis using T by (simp add: G)
    qed
  qed
qed

text \<open>After an encoded word the next piece that is not encoded has a character that is no blank.\<close>

lemma plain_first_prefix:
  assumes "plain_first str" "i < length str" "DOENCODE (str ! i)" "\<forall>k<i. \<not> DOENCODE (str ! k)" "ws \<le> i"
    "\<forall>k. ws \<le> k \<and> k < i \<longrightarrow> \<not> ISSPACE (at str k)"
  shows "\<exists>c\<in>set (take ws str). \<not> isspace c"
proof -
  have "str \<noteq> []" using assms(2) by auto
  then obtain sp w r where s: "str = sp @ w @ r" "w \<noteq> []" "\<forall>c\<in>set w. \<not> ISSPACE c \<and> \<not> DOENCODE c" "\<forall>c\<in>set sp. ISSPACE c" "r = [] \<or> ISSPACE (hd r)"
    using assms(1) by (auto simp: plain_first_def)
  let ?n = "length sp + length w"
  have "\<not> i < ?n"
  proof
    assume "i < ?n"
    then have "str ! i \<in> set sp \<or> str ! i \<in> set w" unfolding s(1) by (auto simp: nth_append)
    then show False using s(3,4) assms(3) doencode_nonspace by blast
  qed
  moreover have "r \<noteq> []" using assms(2) calculation unfolding s(1) by auto
  then have "ISSPACE (str ! ?n)" "?n < length str" using s(5) by (simp_all add: s(1) nth_append hd_conv_nth)
  ultimately have "?n < i" using doencode_nonspace [OF assms(3)] by (cases "i = ?n") auto
  then have "\<not> ws \<le> ?n" using assms(6) \<open>ISSPACE (str ! ?n)\<close> \<open>?n < length str\<close> by (auto simp: at_def)
  then have "set w \<subseteq> set (take ws str)" by (auto simp: s(1))
  then show ?thesis using s(2,3) unfolding ISSPACE_eq by (metis last_in_set subsetD)
qed

lemma decodes_message:
  assumes "charset_ok charset"
  shows "0 \<notin> set str \<Longrightarrow> str = [] \<or> \<not> isspace (last str) \<Longrightarrow> (had \<longrightarrow> plain_first str) \<Longrightarrow>
    decodes (concat (message_pieces charset str)) had str"
proof (induction "length str" arbitrary: str had rule: less_induct)
  case less
  have cs: "length charset < 45" using assms by (simp add: charset_ok_def)
  show ?case
  proof (cases "str = []")
    case True
    then show ?thesis by (simp add: message_pieces.simps)
  next
    case ne: False
    define i where "i = length (takeWhile (\<lambda>c. \<not> DOENCODE c) str)"
    have sp: "\<exists>c\<in>set str. \<not> isspace c" using less(3) ne by (metis last_in_set)
    show ?thesis
    proof (cases "i = length str")
      case True
      then have "\<forall>c\<in>set str. \<not> DOENCODE c" unfolding i_def by (metis takeWhile_eq_take take_all_iff order_refl takeWhile_eq_all_conv)
      then have "ENC \<notin> set str" by (auto simp: DOENCODE_def)
      moreover have "\<not> (had \<and> (\<forall>c\<in>set str. isspace c))" using sp by blast
      ultimately have "decodes (str @ []) had (str @ [])"
        using decodes_plain [OF ne, of "[]" had "[]"] by (simp only: if_False) simp
      then show ?thesis using ne True by (subst message_pieces.simps) (simp add: i_def [symmetric])
    next
      case False
      define ws where "ws = word_start str i"
      define g where "g = group_end (drop ws str) 0"
      define rest where "rest = drop g (drop ws str)"
      note fw = first_word [OF i_def False ws_def, folded g_def]
      have gl: "g \<le> length (drop ws str)" using group_end_bounds [of 0 "drop ws str"] by (simp add: g_def)
      have M: "concat (message_pieces charset str) =
          take ws str @ concat (word_pieces charset (drop ws str) g 0) @ concat (message_pieces charset rest)"
        using ne False fw(7)
        by (subst message_pieces.simps) (simp add: i_def [symmetric] ws_def [symmetric] g_def [symmetric] rest_def Let_def)
      obtain h chunks where h: "h @ concat chunks = take g (drop ws str)"
          "concat (word_pieces charset (drop ws str) g 0) = word charset h @ concat (map (\<lambda>x. SP # word charset x) chunks)"
        using word_pieces_words [OF cs fw(7) gl] by blast
      have z: "0 \<notin> set (h @ concat chunks)" using less(2) unfolding h(1) by (auto dest: in_set_takeD in_set_dropD)
      have l: "\<not> isspace (last (drop ws str))" using less(3) ne fw(5) by (auto simp: last_drop)
      have "plain_first rest"
        using group_end_plain [of 0 "drop ws str"] l by (simp add: rest_def g_def ISSPACE_eq)
      moreover have "rest = [] \<or> \<not> isspace (last rest)" using l by (auto simp: rest_def last_drop)
      moreover have "0 \<notin> set rest" using less(2) by (auto simp: rest_def dest: in_set_dropD)
      moreover have "length rest < length str" using fw(7) gl ne by (simp add: rest_def)
      ultimately have R: "decodes (concat (message_pieces charset rest)) True rest" using less(1) by blast
      let ?m = "word charset h @ concat (map (\<lambda>x. SP # word charset x) chunks) @ concat (message_pieces charset rest)"
      have D: "decodes ?m had' (h @ concat chunks @ rest)" for had'
        using z by (intro decodes_word [OF assms] decodes_words [OF assms R]) auto
      have e: "?m \<noteq> [] \<and> at ?m 0 = ENC \<and> at ?m 1 = QUESTION" by (simp add: word_def ENC_def QUESTION_def at_def)
      have s: "str = take ws str @ h @ concat chunks @ rest"
        using h(1) by (metis append.assoc append_take_drop_id rest_def)
      show ?thesis
      proof (cases "ws = 0")
        case True
        then show ?thesis using D [of had] s unfolding M h(2) by simp
      next
        case False
        have p: "take ws str \<noteq> []" using False ne by simp
        have "ENC \<notin> set (take ws str)"
        proof
          assume "ENC \<in> set (take ws str)"
          then obtain k where "k < ws" "str ! k = ENC" by (auto simp: in_set_conv_nth)
          then show False using fw(1,4) by (auto simp: DOENCODE_def)
        qed
        then have "decodes (take ws str @ ?m) had
            ((if had \<and> (\<forall>c\<in>set (take ws str). isspace c) then [] else take ws str) @ h @ concat chunks @ rest)"
          using e by (intro decodes_plain [OF p _ _ D]) auto
        moreover have "\<not> (had \<and> (\<forall>c\<in>set (take ws str). isspace c))"
          using plain_first_prefix [OF _ fw(2,3,4,1)] less(4) word_start(2) [of str i] ws_def by blast
        ultimately have "decodes (take ws str @ ?m) had str" by (simp only: if_False s [symmetric])
        then show ?thesis unfolding M h(2) by simp
      qed
    qed
  qed
qed

subsection \<open>The properties\<close>

lemma feed_count: "feed count_char ps i = i + length (concat ps)"
  by (induction ps arbitrary: i) (simp_all add: feed_def count_char_def)

lemma feed_save: "feed save_char ps s = s @ concat ps"
  by (induction ps arbitrary: s) (simp_all add: feed_def save_char_def)

lemma encode_str_pieces:
  assumes "length charset < 45"
  shows "rfc2047_encode_str mem str charset =
    Some (if mem (1 + length (concat (message_pieces charset str))) then Some (concat (message_pieces charset str)) else None)"
  unfolding rfc2047_encode_str_def
  by (simp add: encode_callback_pieces [OF _ assms] never_fails_def count_char_def save_char_def feed_count feed_save)

text \<open>
  C9. If the name of the character set is shorter than 45 characters and has no NUL, question mark or
  asterisk, and the text has no NUL and does not end in white space, which the decoder would drop after
  an encoded word, then encoding the text ends, fails only if memory is exhausted, and decoding the
  result gives the text back.
\<close>

theorem encoded_words_roundtrip:
  assumes "charset_ok charset" "0 \<notin> set str" "str = [] \<or> \<not> isspace (last str)"
  shows "case rfc2047_encode_str mem str charset of
      None \<Rightarrow> False
    | Some None \<Rightarrow> \<exists>n. \<not> mem n
    | Some (Some t) \<Rightarrow> rfc2047_decode_simple (\<lambda>_. True) t = Some str"
proof -
  let ?t = "concat (message_pieces charset str)"
  have "decodes ?t False str" using decodes_message [OF assms(1,2,3), of False] by simp
  then have "rfc2047_decode_simple (\<lambda>_. True) ?t = Some str"
    by (simp add: rfc2047_decode_simple_def decode_passes_def rfc2047_decode_def decodes_def)
  then show ?thesis using assms(1) by (auto simp: encode_str_pieces charset_ok_def)
qed

lemma encoded_words_roundtrip_witness:
  "rfc2047_encode_str (\<lambda>_. True) (asc ''un caf'' @ [0xC3, 0xA9] @ asc '' et'') (asc ''utf-8'') = Some (Some (asc ''un =?utf-8?Q?caf=C3=A9?= et'')) \<and>
    rfc2047_decode_simple (\<lambda>_. True) (asc ''un =?utf-8?Q?caf=C3=A9?= et'') = Some (asc ''un caf'' @ [0xC3, 0xA9] @ asc '' et'')"
proof -
  let ?cs = "asc ''utf-8''" and ?str = "asc ''un caf'' @ [0xC3, 0xA9] @ asc '' et''"
  have c: "charset_ok ?cs" by code_simp
  have p: "concat (message_pieces ?cs ?str) = asc ''un =?utf-8?Q?caf=C3=A9?= et''" by code_simp
  have l: "length ?cs < 45" by simp
  have e: "rfc2047_encode_str (\<lambda>_. True) ?str ?cs = Some (Some (asc ''un =?utf-8?Q?caf=C3=A9?= et''))"
    unfolding encode_str_pieces [OF l] p by simp
  have "0 \<notin> set ?str" "?str = [] \<or> \<not> isspace (last ?str)" by (simp_all add: isspace_def)
  from encoded_words_roundtrip [OF c this, of "\<lambda>_. True"] e show ?thesis unfolding e by simp
qed

text \<open>
  C40. With a name of 45 characters or more the encoder never ends on a word that begins with a
  character that needs no encoding but has one that does: the encoded word is full before that character
  is written, and the next one is as well.
\<close>

theorem long_charset_endless:
  assumes "45 \<le> length charset" "w \<noteq> []" "\<forall>c\<in>set w. \<not> must_quote c \<and> \<not> isspace c" "DOENCODE e"
  shows "rfc2047_encode_str mem (w @ e # r) charset = None"
proof -
  let ?s = "w @ e # r"
  have d: "\<not> DOENCODE c" if "c \<in> set w" for c using assms(3) that by (auto simp: must_quote_def DOENCODE_def)
  have i: "length (takeWhile (\<lambda>c. \<not> DOENCODE c) ?s) = length w" using d assms(4) by (simp add: takeWhile_append2)
  have ws: "word_start ?s k = 0" if "k \<le> length w" for k
    using that assms(3) by (induction k) (auto simp: at_def nth_append ISSPACE_eq)
  have h: "\<not> ISSPACE (hd ?s)" "\<not> must_quote (at ?s 0)" using assms(2,3) by (cases w; simp add: ISSPACE_eq)+
  have g: "0 < group_end ?s 0" using group_end_pos [of ?s] h(1) by simp
  have n: "encode_word count_char charset ?s (group_end ?s 0) 0 1 = None"
    by (rule encode_word_endless [OF _ assms(1) g h(2)]) (simp add: never_fails_def count_char_def)
  have "rfc2047_encode_callback ?s charset count_char 1 = None"
    by (subst rfc2047_encode_callback.simps) (simp add: i ws n [unfolded One_nat_def] Let_def)
  then show ?thesis by (simp add: rfc2047_encode_str_def)
qed

lemma long_charset_endless_witness:
  "rfc2047_encode_str (\<lambda>_. True) (asc ''a'' @ 0xE9 # []) (replicate 45 (ch CHR ''x'')) = None"
  by (rule long_charset_endless) (simp_all add: must_quote_def isspace_def DOENCODE_def QUOTE_def SP_def ENC_def QUESTION_def)

end
