(* ===== verification/Mime_Struct.thy ===== *)
theory Mime_Struct imports Rfc822_Print Numlib begin

text \<open>
  The structure that describes a MIME message, \<open>wmail/rfc2045/rfc2045.h\<close> and the first part of
  \<open>rfc2045.c\<close>: one \<open>struct rfc2045\<close> per section of the message, linked by pointers to the enclosing
  section, to its first and last section, and to the next one.

  The structures of a message are a list in the order of their allocation, and a pointer is an index
  into it; the message itself is 0. A section is allocated after the one it is part of, so the
  loops follow a pointer upwards only to a smaller index and downwards only to a larger one, which
  \<open>Mime_Wf\<close> shows to be no restriction. Positions in the message stay below \<open>2 ^ 63\<close>. Memory that
  runs out ends the program (\<open>rfc2045_enomem\<close>), except while a header is split into tokens.
\<close>

definition MAXPARTS :: nat where "MAXPARTS = 300"

definition RFC2045_ERR8BITHEADER :: u32 where "RFC2045_ERR8BITHEADER = 1"
definition RFC2045_ERR8BITCONTENT :: u32 where "RFC2045_ERR8BITCONTENT = 2"
definition RFC2045_ERR2COMPLEX :: u32 where "RFC2045_ERR2COMPLEX = 4"
definition RFC2045_ERRBADBOUNDARY :: u32 where "RFC2045_ERRBADBOUNDARY = 8"

text \<open>The list of the attributes of a header, \<open>struct rfc2045attr\<close>, as names and values.\<close>

type_synonym rfc2045attr = "(byte list \<times> byte list) list"

record rfc2045 =
  parent :: "nat option"
  pindex :: nat
  next_part :: "nat option"
  startpos :: nat
  endpos :: nat
  startbody :: nat
  endbody :: nat
  nlines :: nat
  nbodylines :: nat
  mime_version :: "byte list option"
  content_type :: "byte list option"
  content_type_attr :: rfc2045attr
  content_disposition :: "byte list option"
  boundary :: "byte list option"
  content_disposition_attr :: rfc2045attr
  content_transfer_encoding :: "byte list option"
  content_8bit :: bool
  content_id :: "byte list option"
  content_description :: "byte list option"
  content_language :: "byte list option"
  content_md5 :: "byte list option"
  content_base :: "byte list option"
  content_location :: "byte list option"
  rfc2045acptr :: bool
  has8bitchars :: bool
  haslongline :: bool
  rfcviolation :: u32
  numparts :: nat
  rw_transfer_encoding :: "byte list option"
  firstpart :: "nat option"
  lastpart :: "nat option"
  workbuf :: "byte list"
  workinheader :: bool
  workclosed :: bool
  isdummy :: bool
  informdata :: bool
  header :: "byte list"

text \<open>
  The only functions \<open>rfc2045acptr\<close> ever points to are those of \<open>rfc2045acprep.c\<close>, so it is a flag;
  the static variables of that file are part of the state.
\<close>

datatype state_t = raw | quotedprint | qpseeneq | qpseeneqh | base64

record message =
  heap :: "rfc2045 list"
  currwp :: "nat option"
  curlinepos :: nat
  curstate :: state_t
  statechar :: byte

definition part :: "message \<Rightarrow> nat \<Rightarrow> rfc2045" where
  "part m p = heap m ! p"

definition set_part :: "nat \<Rightarrow> (rfc2045 \<Rightarrow> rfc2045) \<Rightarrow> message \<Rightarrow> message" where
  "set_part p f m = m\<lparr>heap := (heap m)[p := f (heap m ! p)]\<rparr>"

subsection \<open>Allocation and attributes\<close>

definition rfc2045_alloc :: rfc2045 where
  "rfc2045_alloc =
     \<lparr>parent = None, pindex = 1, next_part = None, startpos = 0, endpos = 0, startbody = 0, endbody = 0,
      nlines = 0, nbodylines = 0, mime_version = None, content_type = None, content_type_attr = [],
      content_disposition = None, boundary = None, content_disposition_attr = [],
      content_transfer_encoding = None, content_8bit = False, content_id = None,
      content_description = None, content_language = None, content_md5 = None, content_base = None,
      content_location = None, rfc2045acptr = False, has8bitchars = False, haslongline = False,
      rfcviolation = 0, numparts = 0, rw_transfer_encoding = None, firstpart = None, lastpart = None,
      workbuf = [], workinheader = True, workclosed = False, isdummy = False, informdata = False,
      header = []\<rparr>"

text \<open>A new message, and one that is prepared for being rewritten.\<close>

definition new_message :: message where
  "new_message = \<lparr>heap = [rfc2045_alloc], currwp = None, curlinepos = 0, curstate = raw, statechar = 0\<rparr>"

definition rfc2045_alloc_ac :: message where
  "rfc2045_alloc_ac = new_message\<lparr>heap := [rfc2045_alloc\<lparr>rfc2045acptr := True\<rparr>]\<rparr>"

fun rfc2045_getattr :: "rfc2045attr \<Rightarrow> byte list \<Rightarrow> byte list option" where
  "rfc2045_getattr [] nm = None"
| "rfc2045_getattr ((n, v) # p) nm = (if n = nm then Some v else rfc2045_getattr p nm)"

fun rfc2045_setattr :: "rfc2045attr \<Rightarrow> byte list \<Rightarrow> byte list option \<Rightarrow> rfc2045attr" where
  "rfc2045_setattr [] nm val = (case val of None \<Rightarrow> [] | Some v \<Rightarrow> [(nm, v)])"
| "rfc2045_setattr ((n, w) # p) nm val =
     (if n = nm then (case val of None \<Rightarrow> p | Some v \<Rightarrow> (n, v) # p) else (n, w) # rfc2045_setattr p nm val)"

subsection \<open>Following the pointers\<close>

definition up :: "message \<Rightarrow> nat \<Rightarrow> nat option" where
  "up m p = (case parent (part m p) of None \<Rightarrow> None | Some q \<Rightarrow> if q < p then Some q else None)"

definition down :: "message \<Rightarrow> nat \<Rightarrow> nat option" where
  "down m p = (case lastpart (part m p) of None \<Rightarrow> None | Some q \<Rightarrow> if p < q \<and> q < length (heap m) then Some q else None)"

lemma up_less: "up m p = Some q \<Longrightarrow> q < p"
  by (simp add: up_def split: option.splits if_splits)

lemma down_less: "down m p = Some q \<Longrightarrow> p < q \<and> q < length (heap m)"
  by (simp add: down_def split: option.splits if_splits)

text \<open>A section and all that enclose it, in the order of the loops \<open>p=p->parent\<close>.\<close>

function path :: "message \<Rightarrow> nat \<Rightarrow> nat list" where
  "path m p = p # (case up m p of None \<Rightarrow> [] | Some q \<Rightarrow> path m q)"
  by pat_completeness auto
termination by (relation "measure snd") (auto dest: up_less)

declare path.simps [simp del]

definition root_of :: "message \<Rightarrow> nat \<Rightarrow> nat" where
  "root_of m p = last (path m p)"

definition along :: "nat list \<Rightarrow> (rfc2045 \<Rightarrow> rfc2045) \<Rightarrow> message \<Rightarrow> message" where
  "along ps f m = fold (\<lambda>p. set_part p f) ps m"

definition update_counts :: "nat \<Rightarrow> nat \<Rightarrow> nat \<Rightarrow> nat \<Rightarrow> message \<Rightarrow> message" where
  "update_counts p newcnt newendcnt lines m =
     along (path m p) (\<lambda>r. r\<lparr>endpos := newcnt, endbody := newendcnt, nlines := nlines r + lines,
       nbodylines := (if workinheader r then nbodylines r else nbodylines r + lines)\<rparr>) m"

definition set_violation :: "u32 \<Rightarrow> rfc2045 \<Rightarrow> rfc2045" where
  "set_violation flag r = r\<lparr>rfcviolation := rfcviolation r OR flag\<rparr>"

subsection \<open>New sections\<close>

definition append_part_noinherit :: "nat \<Rightarrow> nat \<Rightarrow> message \<Rightarrow> message \<times> nat" where
  "append_part_noinherit p start m =
     (let newp = length (heap m);
          m = m\<lparr>heap := heap m @ [rfc2045_alloc]\<rparr>;
          m = (case lastpart (part m p) of
                 Some l \<Rightarrow> set_part newp (\<lambda>r. r\<lparr>pindex := pindex (part m l) + 1\<rparr>) (set_part l (\<lambda>r. r\<lparr>next_part := Some newp\<rparr>) m)
               | None \<Rightarrow> set_part newp (\<lambda>r. r\<lparr>pindex := 0\<rparr>) (set_part p (\<lambda>r. r\<lparr>firstpart := Some newp\<rparr>) m));
          m = set_part p (\<lambda>r. r\<lparr>lastpart := Some newp\<rparr>) m;
          m = set_part newp (\<lambda>r. r\<lparr>parent := Some p, startpos := start, endpos := start, startbody := start, endbody := start\<rparr>) m
      in (set_part (root_of m p) (\<lambda>r. r\<lparr>numparts := numparts r + 1\<rparr>) m, newp))"

definition append_part :: "nat \<Rightarrow> nat \<Rightarrow> message \<Rightarrow> message \<times> nat" where
  "append_part p start m =
     (case append_part_noinherit p start m of (m, newp) \<Rightarrow>
        (set_part newp (\<lambda>r. r\<lparr>content_transfer_encoding := content_transfer_encoding (part m p),
           content_type_attr := rfc2045_setattr (content_type_attr r) (asc ''charset'')
             (rfc2045_getattr (content_type_attr (part m p)) (asc ''charset''))\<rparr>) m, newp))"

subsection \<open>Preparing for a rewrite\<close>

text \<open>\<open>start_rwprep\<close>, \<open>do_rwprep\<close> and \<open>h2nyb\<close> of \<open>rfc2045acprep.c\<close>; \<open>end_rwprep\<close> does nothing.\<close>

definition start_rwprep :: "nat \<Rightarrow> message \<Rightarrow> message" where
  "start_rwprep p m = m\<lparr>currwp := Some p, curlinepos := 0,
     curstate := (case content_transfer_encoding (part m p) of
         None \<Rightarrow> raw
       | Some e \<Rightarrow> if e = asc ''quoted-printable'' then quotedprint else if e = asc ''base64'' then base64 else raw)\<rparr>"

definition h2nyb :: "byte \<Rightarrow> byte" where
  "h2nyb c = (if ch CHR ''a'' \<le> c \<and> c \<le> ch CHR ''f'' then c - (ch CHR ''a'' - 10)
     else if ch CHR ''A'' \<le> c \<and> c \<le> ch CHR ''F'' then c - (ch CHR ''A'' - 10) else c - ch CHR ''0'')"

definition rw_char :: "nat \<Rightarrow> byte \<Rightarrow> message \<Rightarrow> message" where
  "rw_char w c m =
     (let m = (if c = CR \<or> c = NL then m\<lparr>curlinepos := 0\<rparr>
               else if 500 < curlinepos m + 1 then set_part w (\<lambda>r. r\<lparr>haslongline := True\<rparr>) (m\<lparr>curlinepos := curlinepos m + 1\<rparr>)
               else m\<lparr>curlinepos := curlinepos m + 1\<rparr>)
      in if 127 \<le> c then set_part w (\<lambda>r. r\<lparr>has8bitchars := True\<rparr>) m else m)"

definition rwprep_step :: "nat \<Rightarrow> byte \<Rightarrow> message \<Rightarrow> message" where
  "rwprep_step w c m =
     (case curstate m of
        quotedprint \<Rightarrow> if c = ch CHR ''='' then m\<lparr>curstate := qpseeneq\<rparr> else rw_char w c m
      | raw \<Rightarrow> rw_char w c m
      | qpseeneq \<Rightarrow> if c = NL then m\<lparr>curstate := quotedprint\<rparr> else if isspace c then m
                    else m\<lparr>statechar := c, curstate := qpseeneqh\<rparr>
      | qpseeneqh \<Rightarrow>
          let m' = (if 127 \<le> h2nyb (statechar m) * 16 + h2nyb c
                    then set_part w (\<lambda>r. r\<lparr>has8bitchars := True\<rparr>) m else m);
              m' = m'\<lparr>curstate := quotedprint, curlinepos := curlinepos m + 1\<rparr>
          in if 500 < curlinepos m + 1 then set_part w (\<lambda>r. r\<lparr>haslongline := True\<rparr>) m' else m'
      | base64 \<Rightarrow> m)"

definition do_rwprep :: "byte list \<Rightarrow> message \<Rightarrow> message" where
  "do_rwprep s m = (case currwp m of None \<Rightarrow> m | Some w \<Rightarrow> fold (rwprep_step w) s m)"

end
