(* ===== verification/Mime_Header.thy ===== *)
theory Mime_Header imports Mime_Struct begin

text \<open>
  The headers of a section, the second part of \<open>wmail/rfc2045/rfc2045.c\<close>: a complete header line is
  split into tokens, and what the MIME headers say goes into the structure. \<open>mem h\<close> says whether there
  is memory for the tokens of \<open>h\<close>; \<open>reformime\<close> is the global \<open>rfc2045_in_reformime\<close>.
\<close>

subsection \<open>Text of tokens\<close>

text \<open>Tokens of the header \<open>s\<close> recombined, without comments and quotes.\<close>

definition paste_one :: "byte list \<Rightarrow> tok \<Rightarrow> byte list" where
  "paste_one s t = (if token t = LPAREN then [] else if rfc822_is_atom (token t) then tok_text s t else [token t])"

definition paste_tokens :: "byte list \<Rightarrow> tok list \<Rightarrow> nat \<Rightarrow> nat \<Rightarrow> byte list" where
  "paste_tokens s ts start cnt = concat (map (paste_one s) (take cnt (drop start ts)))"

definition lower_paste_tokens :: "byte list \<Rightarrow> tok list \<Rightarrow> nat \<Rightarrow> nat \<Rightarrow> byte list" where
  "lower_paste_tokens s ts start cnt = map tolower (paste_tokens s ts start cnt)"

definition paste_token :: "byte list \<Rightarrow> tok list \<Rightarrow> nat \<Rightarrow> byte list option" where
  "paste_token s ts i = (if length ts \<le> i then None else Some (paste_tokens s ts i 1))"

definition lower_paste_token :: "byte list \<Rightarrow> tok list \<Rightarrow> nat \<Rightarrow> byte list option" where
  "lower_paste_token s ts i = map_option (map tolower) (paste_token s ts i)"

subsection \<open>Headers with parameters\<close>

definition EQUALS :: byte where "EQUALS = ch CHR ''=''"

text \<open>The first token from \<open>i\<close> on that is a semicolon, or the end.\<close>

definition next_semi :: "tok list \<Rightarrow> nat \<Rightarrow> nat" where
  "next_semi ts i = i + length (takeWhile (\<lambda>t. token t \<noteq> SEMI) (drop i ts))"

text \<open>
  The value of the parameter between \<open>start\<close> and \<open>i\<close>, if there is an equals sign after its first
  token and comments: where the value begins, and where it ends.
\<close>

definition param_value :: "bool \<Rightarrow> tok list \<Rightarrow> nat \<Rightarrow> nat \<Rightarrow> (nat \<times> nat) option" where
  "param_value reformime ts start i =
     (let j = start + 1 + length (takeWhile (\<lambda>t. token t = LPAREN) (take (i - (start + 1)) (drop (start + 1) ts))) in
      if j < i \<and> token (ts ! j) = EQUALS
      then Some (j + 1, if reformime \<and> j + 1 < i \<and> token (ts ! (j + 1)) = QUOTE then j + 2 else i)
      else None)"

lemma next_semi_le: "i \<le> next_semi ts i"
  by (simp add: next_semi_def)

lemma param_value_le: "param_value reformime ts start i = Some (j, k) \<Longrightarrow> start < j \<and> start < k"
  by (auto simp: param_value_def Let_def split: if_splits)

type_synonym init_parameter = "byte list \<Rightarrow> byte list \<Rightarrow> tok list \<Rightarrow> nat \<Rightarrow> nat \<Rightarrow> message \<Rightarrow> message"

function param_loop :: "bool \<Rightarrow> init_parameter \<Rightarrow> byte list \<Rightarrow> tok list \<Rightarrow> nat \<Rightarrow> message \<Rightarrow> message" where
  "param_loop reformime init s ts start m =
     (if length ts \<le> start then m
      else let i = next_semi ts start in
        case (if start < i then param_value reformime ts start i else None) of
          None \<Rightarrow> param_loop reformime init s ts (if i < length ts then i + 1 else i) m
        | Some (j, i) \<Rightarrow>
            let m = (case lower_paste_token s ts start of None \<Rightarrow> m | Some nm \<Rightarrow> init nm s ts j (i - j) m)
            in param_loop reformime init s ts (if i < length ts then i + 1 else i) m)"
  by pat_completeness auto
termination
proof (relation "measure (\<lambda>(reformime, init, s, ts, start, m). length ts - start)", goal_cases)
  case (2 reformime init s ts start m i)
  then show ?case using next_semi_le [of start ts] by (cases "i = start") auto
next
  case (3 reformime init s ts start m i jk j k m')
  then show ?case using param_value_le [of reformime ts start i j k] by (auto split: if_splits)
qed simp

declare param_loop.simps [simp del]

definition parse_content_header ::
    "bool \<Rightarrow> (byte list \<Rightarrow> message \<Rightarrow> message) \<Rightarrow> init_parameter \<Rightarrow> byte list \<Rightarrow> tok list \<Rightarrow> message \<Rightarrow> message" where
  "parse_content_header reformime init_token init_parameter s ts m =
     (let start = next_semi ts 2;
          m = init_token (lower_paste_tokens s ts 2 (start - 2)) m
      in param_loop reformime init_parameter s ts (if start < length ts then start + 1 else start) m)"

subsection \<open>Content-Type\<close>

definition save_content_type :: "nat \<Rightarrow> byte list \<Rightarrow> message \<Rightarrow> message" where
  "save_content_type r ct = set_part r (\<lambda>q. q\<lparr>content_type := Some ct\<rparr>)"

text \<open>Whether one of two boundaries is the beginning of the other.\<close>

definition ambiguous :: "byte list \<Rightarrow> byte list \<Rightarrow> bool" where
  "ambiguous a b \<longleftrightarrow> has_prefix a b \<or> has_prefix b a"

definition check_boundary :: "nat \<Rightarrow> byte list \<Rightarrow> message \<Rightarrow> message" where
  "check_boundary r b m =
     (if \<exists>q\<in>set (tl (path m r)). case boundary (part m q) of None \<Rightarrow> False | Some a \<Rightarrow> ambiguous a b
      then set_part (root_of m r) (set_violation RFC2045_ERRBADBOUNDARY) m else m)"

definition save_content_type_parameter :: "nat \<Rightarrow> init_parameter" where
  "save_content_type_parameter r nm s ts start cnt m =
     (let p = (if nm = asc ''charset'' then lower_paste_tokens else paste_tokens) s ts start cnt;
          m = set_part r (\<lambda>q. q\<lparr>content_type_attr := rfc2045_setattr (content_type_attr q) nm (Some p)\<rparr>) m
      in if nm = asc ''boundary''
         then let b = lower_paste_tokens s ts start cnt
              in check_boundary r b (set_part r (\<lambda>q. q\<lparr>boundary := Some b\<rparr>) m)
         else m)"

definition content_type_header :: "bool \<Rightarrow> nat \<Rightarrow> byte list \<Rightarrow> tok list \<Rightarrow> message \<Rightarrow> message" where
  "content_type_header reformime r = parse_content_header reformime (save_content_type r) (save_content_type_parameter r)"

subsection \<open>The other headers\<close>

definition save_content_disposition :: "nat \<Rightarrow> byte list \<Rightarrow> message \<Rightarrow> message" where
  "save_content_disposition r cd = set_part r (\<lambda>q. q\<lparr>content_disposition := Some cd\<rparr>)"

definition save_content_disposition_parameter :: "nat \<Rightarrow> init_parameter" where
  "save_content_disposition_parameter r nm s ts start cnt =
     set_part r (\<lambda>q. q\<lparr>content_disposition_attr :=
       rfc2045_setattr (content_disposition_attr q) nm (Some (paste_tokens s ts start cnt))\<rparr>)"

definition content_disposition_header :: "bool \<Rightarrow> nat \<Rightarrow> byte list \<Rightarrow> tok list \<Rightarrow> message \<Rightarrow> message" where
  "content_disposition_header reformime r =
     parse_content_header reformime (save_content_disposition r) (save_content_disposition_parameter r)"

definition mime_version_header :: "nat \<Rightarrow> byte list \<Rightarrow> tok list \<Rightarrow> message \<Rightarrow> message" where
  "mime_version_header p s ts = set_part p (\<lambda>q. q\<lparr>mime_version := Some (paste_tokens s ts 2 (length ts - 2))\<rparr>)"

definition content_transfer_encoding_header :: "nat \<Rightarrow> byte list \<Rightarrow> tok list \<Rightarrow> message \<Rightarrow> message" where
  "content_transfer_encoding_header r s ts =
     (let p = lower_paste_tokens s ts 2 (length ts - 2)
      in set_part r (\<lambda>q. q\<lparr>content_transfer_encoding := Some p, content_8bit := content_8bit q \<or> p = asc ''8bit''\<rparr>))"

text \<open>The first address of a text, with memory for it: \<open>content_id\<close>, and \<open>rfc2045_related_start\<close>.\<close>

definition first_address :: "byte list \<Rightarrow> tok list \<Rightarrow> byte list option" where
  "first_address s ts =
     (case rfc822a_alloc True (\<lambda>_. True) ts of
        None \<Rightarrow> None
      | Some (a, addrs) \<Rightarrow>
          (case filter (\<lambda>i. tokens (addrs ! i) \<noteq> []) [0..<length addrs] of
             [] \<Rightarrow> None
           | i # _ \<Rightarrow> rfc822_getaddr (\<lambda>_. True) s a addrs (int i)))"

definition content_id_header :: "nat \<Rightarrow> byte list \<Rightarrow> tok list \<Rightarrow> message \<Rightarrow> message" where
  "content_id_header p s ts =
     (case first_address s ts of None \<Rightarrow> id | Some a \<Rightarrow> set_part p (\<lambda>q. q\<lparr>content_id := Some a\<rparr>))"

definition rfc2045_related_start :: "(byte list \<Rightarrow> bool) \<Rightarrow> rfc2045 \<Rightarrow> byte list option" where
  "rfc2045_related_start mem p =
     (case rfc2045_getattr (content_type_attr p) (asc ''start'') of
        None \<Rightarrow> None
      | Some cb \<Rightarrow>
          if cb = [] then None
          else case rfc822t_alloc_new (mem cb) (\<lambda>_. True) cb of
            None \<Rightarrow> None
          | Some (ts, _) \<Rightarrow> first_address cb ts)"

text \<open>What follows the colon and blanks, for headers that are kept as they are.\<close>

definition plain_value :: "byte list \<Rightarrow> byte list" where
  "plain_value h = dropWhile isspace (tl (dropWhile (\<lambda>c. c \<noteq> COLON) h))"

definition keep :: "nat \<Rightarrow> (byte list \<Rightarrow> rfc2045 \<Rightarrow> rfc2045) \<Rightarrow> byte list \<Rightarrow> message \<Rightarrow> message" where
  "keep p f v = (if v \<noteq> [] then set_part p (f v) else id)"

text \<open>\<open>content_base\<close> and \<open>content_location\<close> first turn quoted strings into atoms.\<close>

definition unquote_tokens :: "tok list \<Rightarrow> tok list" where
  "unquote_tokens = map (\<lambda>t. if token t = QUOTE then t\<lparr>token := 0\<rparr> else t)"

definition content_base_header :: "nat \<Rightarrow> byte list \<Rightarrow> tok list \<Rightarrow> message \<Rightarrow> message" where
  "content_base_header p s ts =
     set_part p (\<lambda>q. q\<lparr>content_base := Some (paste_tokens s (unquote_tokens ts) 2 (length ts - 2))\<rparr>)"

definition content_location_header :: "nat \<Rightarrow> byte list \<Rightarrow> tok list \<Rightarrow> message \<Rightarrow> message" where
  "content_location_header p s ts =
     set_part p (\<lambda>q. q\<lparr>content_location := Some (paste_tokens s (unquote_tokens ts) 2 (length ts - 2))\<rparr>)"

definition header_field :: "bool \<Rightarrow> nat \<Rightarrow> byte list \<Rightarrow> tok list \<Rightarrow> byte list \<Rightarrow> message \<Rightarrow> message" where
  "header_field reformime p s ts t =
     (if t = asc ''mime-version'' then mime_version_header p s ts
      else if t = asc ''content-type'' then content_type_header reformime p s ts
      else if t = asc ''content-transfer-encoding'' then content_transfer_encoding_header p s ts
      else if t = asc ''content-disposition'' then content_disposition_header reformime p s ts
      else if t = asc ''content-id'' then content_id_header p s ts
      else if t = asc ''content-description'' then keep p (\<lambda>v q. q\<lparr>content_description := Some v\<rparr>) (plain_value s)
      else if t = asc ''content-language'' then keep p (\<lambda>v q. q\<lparr>content_language := Some v\<rparr>) (plain_value s)
      else if t = asc ''content-base'' then content_base_header p s ts
      else if t = asc ''content-location'' then content_location_header p s ts
      else if t = asc ''content-md5'' then keep p (\<lambda>v q. q\<lparr>content_md5 := Some v\<rparr>) (plain_value s)
      else id)"

definition do_header :: "(byte list \<Rightarrow> bool) \<Rightarrow> bool \<Rightarrow> nat \<Rightarrow> message \<Rightarrow> message" where
  "do_header mem reformime p m =
     (let s = cstr (header (part m p)) in
      if header (part m p) = [] then m
      else case rfc822t_alloc_new (mem s) (\<lambda>_. True) s of
        None \<Rightarrow> m
      | Some (ts, _) \<Rightarrow>
          if length ts < 2 \<or> token (ts ! 0) \<noteq> 0 \<or> token (ts ! 1) \<noteq> COLON then m
          else case lower_paste_token s ts 0 of
            None \<Rightarrow> m
          | Some t \<Rightarrow> header_field reformime p s ts t m)"

end
