(* ===== verification/Mime_Parse.thy ===== *)
theory Mime_Parse imports Mime_Header begin

text \<open>
  Parsing a message, \<open>doline\<close>, \<open>rfc2045_parse\<close> and \<open>rfc2045_parse_partial\<close> of
  \<open>wmail/rfc2045/rfc2045.c\<close> and the reading of files in \<open>rfc2045_fromfd.c\<close>. The input comes in
  pieces; it is cut into lines, and each line goes to the innermost section that is still open unless
  it is a boundary of that section or of one around it.
\<close>

subsection \<open>One line\<close>

definition RFC2045_ISMIME1 :: "byte list option \<Rightarrow> bool" where
  "RFC2045_ISMIME1 p = (case p of None \<Rightarrow> False | Some v \<Rightarrow> atoi v = 1)"

text \<open>The section that is the target of a line: the innermost open one.\<close>

definition open_child :: "message \<Rightarrow> nat \<Rightarrow> nat option" where
  "open_child m p = (case down m p of None \<Rightarrow> None | Some q \<Rightarrow> if workclosed (part m q) then None else Some q)"

lemma open_child_less: "open_child m p = Some q \<Longrightarrow> p < q \<and> q < length (heap m)"
  by (auto simp: open_child_def dest: down_less split: option.splits if_splits)

text \<open>A section with long lines in the middle of which no boundary can be: the look ahead of \<open>doline\<close>.\<close>

function form_data :: "message \<Rightarrow> nat \<Rightarrow> nat option" where
  "form_data m p =
     (case open_child m p of
        None \<Rightarrow> None
      | Some q \<Rightarrow> if boundary (part m p) \<noteq> None \<and> \<not> workinheader (part m p) \<and> informdata (part m q) then Some q else form_data m q)"
  by pat_completeness auto
termination by (relation "measure (\<lambda>(m, p). length (heap m) - p)") (auto dest!: open_child_less)

declare form_data.simps [simp del]

definition boundary_line :: "byte list \<Rightarrow> nat \<Rightarrow> byte list \<Rightarrow> bool" where
  "boundary_line c n cb \<longleftrightarrow> at c 0 = ch CHR ''-'' \<and> at c 1 = ch CHR ''-'' \<and> 2 + length cb \<le> n \<and> has_prefix_nocase (drop 2 c) cb"

definition last_boundary :: "byte list \<Rightarrow> nat \<Rightarrow> byte list \<Rightarrow> bool" where
  "last_boundary c n cb \<longleftrightarrow> 4 + length cb \<le> n \<and> has_prefix (drop (2 + length cb) c) (asc ''--'')"

definition at_boundary :: "byte list \<Rightarrow> nat \<Rightarrow> nat \<Rightarrow> nat \<Rightarrow> byte list \<Rightarrow> message \<Rightarrow> message" where
  "at_boundary c n p l cb m =
     (let cnt = length c; e = endpos (part m p) in
      if last_boundary c n cb
      then update_counts p (e + cnt) (e + cnt) 1 (set_part l (\<lambda>r. r\<lparr>workclosed := True\<rparr>) m)
      else case append_part p (e + cnt) m of (m, newp) \<Rightarrow>
        let m = update_counts p (e + cnt) (e + n) 1 m
        in set_part newp (\<lambda>r. r\<lparr>mime_version := mime_version (part m p)\<rparr>) m)"

text \<open>
  Down through the open sections: the line is dealt with if it is behind the last boundary of a
  section or is a boundary; else it belongs to the section that is returned.
\<close>

function drill :: "byte list \<Rightarrow> nat \<Rightarrow> message \<Rightarrow> nat \<Rightarrow> message \<times> nat option" where
  "drill c n m p =
     (case down m p of
        None \<Rightarrow> (m, Some p)
      | Some l \<Rightarrow>
          if workclosed (part m l)
          then (update_counts p (endpos (part m p) + length c) (endpos (part m p) + n) 1 m, None)
          else case boundary (part m p) of
            None \<Rightarrow> drill c n m l
          | Some cb \<Rightarrow>
              if workinheader (part m p) \<or> \<not> boundary_line c n cb then drill c n m l
              else (at_boundary c n p l cb m, None))"
  by pat_completeness auto
termination by (relation "measure (\<lambda>(c, n, m, p). length (heap m) - p)") (auto dest!: down_less)

declare drill.simps [simp del]

definition multipart :: "byte list option \<Rightarrow> bool" where
  "multipart ct \<longleftrightarrow> (case ct of None \<Rightarrow> False | Some t \<Rightarrow> has_prefix t (asc ''multipart/''))"

definition multipart_nocase :: "byte list option \<Rightarrow> bool" where
  "multipart_nocase ct \<longleftrightarrow> (case ct of None \<Rightarrow> False | Some t \<Rightarrow> has_prefix_nocase t (asc ''multipart/''))"

definition parent_type :: "message \<Rightarrow> nat \<Rightarrow> byte list option" where
  "parent_type m p = (case up m p of None \<Rightarrow> None | Some q \<Rightarrow> content_type (part m q))"

text \<open>A line of a body.\<close>

definition body_line :: "byte list \<Rightarrow> nat \<Rightarrow> bool \<Rightarrow> nat \<Rightarrow> message \<Rightarrow> message" where
  "body_line c n bit8 p m =
     (let m = (if bit8 \<and> \<not> content_8bit (part m p) \<and> rfcviolation (part m p) AND RFC2045_ERR8BITCONTENT = 0
               then along (path m p) (set_violation RFC2045_ERR8BITCONTENT) m else m);
          cnt_update = (if multipart_nocase (parent_type m p) then n else length c)
      in if (case down m p of None \<Rightarrow> True | Some l \<Rightarrow> \<not> workclosed (part m l))
         then let m = (if rfc2045acptr (part m 0) \<and> \<not> isdummy (part m p) then do_rwprep c m else m)
              in update_counts p (endpos (part m p) + length c) (endpos (part m p) + cnt_update) 1 m
         else m)"

text \<open>The empty line behind the headers: what section this is becomes clear.\<close>

definition no_mime :: "rfc2045 \<Rightarrow> rfc2045" where
  "no_mime r = r\<lparr>content_type := None, content_type_attr := [], content_disposition := None,
     content_disposition_attr := [], boundary := None\<rparr>"

definition default_type :: "message \<Rightarrow> nat \<Rightarrow> byte list" where
  "default_type m p = (if parent_type m p = Some (asc ''multipart/digest'') then asc ''message/rfc822'' else asc ''text/plain'')"

definition section_type :: "nat \<Rightarrow> message \<Rightarrow> message" where
  "section_type p m =
     (let m = (if RFC2045_ISMIME1 (mime_version (part m p)) then m else set_part p no_mime m);
          m = (if RFC2045_ISMIME1 (mime_version (part m p)) \<and> content_type (part m p) = None
               then set_part p (\<lambda>r. r\<lparr>content_type := Some (default_type m p)\<rparr>) m else m)
      in if multipart (content_type (part m p)) then m else set_part p (\<lambda>r. r\<lparr>boundary := None\<rparr>) m)"

definition start_body :: "nat \<Rightarrow> message \<Rightarrow> message" where
  "start_body p m =
     (if content_type (part m p) = Some (asc ''message/rfc822'')
      then case append_part_noinherit p (startbody (part m p)) m of (m, newp) \<Rightarrow>
        set_part newp (\<lambda>r. r\<lparr>workinheader := True\<rparr>) m
      else if boundary (part m p) \<noteq> None
      then case append_part p (startbody (part m p)) m of (m, newp) \<Rightarrow>
        set_part newp (\<lambda>r. r\<lparr>workinheader := False, isdummy := True\<rparr>) m
      else if rfc2045acptr (part m 0) then start_rwprep p m else m)"

definition end_of_header :: "(byte list \<Rightarrow> bool) \<Rightarrow> bool \<Rightarrow> byte list \<Rightarrow> nat \<Rightarrow> message \<Rightarrow> message" where
  "end_of_header mem reformime c p m =
     (let m = do_header mem reformime p m;
          start = endpos (part m p) + length c;
          m = set_part p (\<lambda>r. r\<lparr>workinheader := False, startbody := start\<rparr>) m;
          m = update_counts p start start 1 m;
          m = set_part p (\<lambda>r. r\<lparr>nbodylines := nbodylines r - 1\<rparr>) m
      in start_body p (section_type p m))"

definition header_line :: "(byte list \<Rightarrow> bool) \<Rightarrow> bool \<Rightarrow> byte list \<Rightarrow> nat \<Rightarrow> nat \<Rightarrow> message \<Rightarrow> message" where
  "header_line mem reformime c n p m =
     (let m = update_counts p (endpos (part m p) + length c) (endpos (part m p) + n) 1 m;
          m = (if isspace (at c 0) then set_part p (\<lambda>r. r\<lparr>header := header r @ [32]\<rparr>) m
               else set_part p (\<lambda>r. r\<lparr>header := []\<rparr>) (do_header mem reformime p m))
      in set_part p (\<lambda>r. r\<lparr>header := header r @ take n c\<rparr>) m)"

text \<open>The length of a line without its end; the line is in the work buffer of the message.\<close>

definition stripped :: "byte list \<Rightarrow> nat" where
  "stripped c = (let n = length c - 1 in if n \<noteq> 0 \<and> c ! (n - 1) = CR then n - 1 else n)"

definition section_line :: "(byte list \<Rightarrow> bool) \<Rightarrow> bool \<Rightarrow> byte list \<Rightarrow> nat \<Rightarrow> message \<Rightarrow> message" where
  "section_line mem reformime c p m =
     (let n = stripped c; bit8 = (\<exists>x\<in>set c. x AND 0x80 \<noteq> 0) in
      if \<not> workinheader (part m p) then body_line c n bit8 p m
      else let m = (if bit8 \<and> rfcviolation (part m p) AND RFC2045_ERR8BITHEADER = 0
                    then along (path m p) (set_violation RFC2045_ERR8BITHEADER) m else m)
        in if n = 0 then end_of_header mem reformime c p m else header_line mem reformime c n p m)"

definition no_NUL :: "byte list \<Rightarrow> byte list" where
  "no_NUL = map (\<lambda>x. if x = 0 then 32 else x)"

definition doline :: "(byte list \<Rightarrow> bool) \<Rightarrow> bool \<Rightarrow> message \<Rightarrow> message" where
  "doline mem reformime m =
     (if MAXPARTS < numparts (part m 0) then set_part 0 (set_violation RFC2045_ERR2COMPLEX) m
      else let c = no_NUL (workbuf (part m 0)) in
        case (case form_data m 0 of None \<Rightarrow> (m, 0) | Some q \<Rightarrow> (set_part q (\<lambda>r. r\<lparr>informdata := False\<rparr>) m, q)) of
          (m, p) \<Rightarrow>
            (case drill c (stripped c) m p of
               (m, None) \<Rightarrow> m
             | (m, Some p) \<Rightarrow> section_line mem reformime c p m))"

subsection \<open>A piece of the input\<close>

definition set_workbuf :: "byte list \<Rightarrow> message \<Rightarrow> message" where
  "set_workbuf s = set_part 0 (\<lambda>r. r\<lparr>workbuf := s\<rparr>)"

definition add_workbuf :: "byte list \<Rightarrow> message \<Rightarrow> message" where
  "add_workbuf s = set_part 0 (\<lambda>r. r\<lparr>workbuf := workbuf r @ s\<rparr>)"

function innermost :: "message \<Rightarrow> nat \<Rightarrow> nat" where
  "innermost m p = (case open_child m p of None \<Rightarrow> p | Some q \<Rightarrow> innermost m q)"
  by pat_completeness auto
termination by (relation "measure (\<lambda>(m, p). length (heap m) - p)") (auto dest!: open_child_less)

declare innermost.simps [simp del]

definition rfc2045_parse_partial :: "message \<Rightarrow> message" where
  "rfc2045_parse_partial m =
     (let b = workbuf (part m 0) in
      if b = [] then m
      else let p = innermost m 0;
               l = (if last b = CR then length b - 1 else length b);
               m = (if rfc2045acptr (part m 0) \<and> \<not> workinheader (part m p) \<and>
                       (case down m p of None \<Rightarrow> True | Some q \<Rightarrow> \<not> workclosed (part m q))
                    then do_rwprep (take l b) m else m);
               m = update_counts p (endpos (part m p) + l) (endpos (part m p) + l) 0 m;
               m = set_part p (\<lambda>r. r\<lparr>informdata := True\<rparr>) m
        in set_workbuf (drop l b) m)"

function parse_lines :: "(byte list \<Rightarrow> bool) \<Rightarrow> bool \<Rightarrow> byte list \<Rightarrow> message \<Rightarrow> message" where
  "parse_lines mem reformime buf m =
     (if buf = [] then m
      else let line = takeWhile (\<lambda>c. c \<noteq> NL) buf; rest = drop (length line) buf in
        if rest \<noteq> []
        then parse_lines mem reformime (tl rest) (set_workbuf [] (doline mem reformime (add_workbuf (line @ [NL]) m)))
        else add_workbuf line m)"
  by pat_completeness auto
termination by (relation "measure (\<lambda>(mem, reformime, buf, m). length buf)") auto

declare parse_lines.simps [simp del]

definition rfc2045_parse :: "(byte list \<Rightarrow> bool) \<Rightarrow> bool \<Rightarrow> byte list \<Rightarrow> message \<Rightarrow> message" where
  "rfc2045_parse mem reformime buf m =
     (let m = parse_lines mem reformime buf m in if 1024 < length (workbuf (part m 0)) then rfc2045_parse_partial m else m)"

text \<open>
  Reading a file: \<open>bufs\<close> are the pieces \<open>read\<close> returns, \<open>seek_back\<close> says whether the file can be set
  back to where it was. \<open>rfc2045header_fromfd\<close> stops behind the header.
\<close>

definition rfc2045_fromfd :: "(byte list \<Rightarrow> bool) \<Rightarrow> bool \<Rightarrow> bool \<Rightarrow> byte list list \<Rightarrow> message option" where
  "rfc2045_fromfd mem reformime seek_back bufs =
     (let m = rfc2045_parse_partial (fold (rfc2045_parse mem reformime) bufs new_message)
      in if seek_back then Some m else None)"

fun header_bufs :: "(byte list \<Rightarrow> bool) \<Rightarrow> bool \<Rightarrow> byte list list \<Rightarrow> message \<Rightarrow> message" where
  "header_bufs mem reformime [] m = m"
| "header_bufs mem reformime (b # bs) m =
     (if workinheader (part m 0) then header_bufs mem reformime bs (rfc2045_parse mem reformime b m) else m)"

definition rfc2045header_fromfd :: "(byte list \<Rightarrow> bool) \<Rightarrow> bool \<Rightarrow> bool \<Rightarrow> byte list list \<Rightarrow> message option" where
  "rfc2045header_fromfd mem reformime seek_back bufs =
     (let m = header_bufs mem reformime bufs new_message in if seek_back then Some m else None)"

end
