(* ===== verification/Mime_Wf.thy ===== *)
theory Mime_Wf imports Mime_Parse begin

text \<open>
  What every operation of the parser keeps: the pointers are those of a tree whose sections are in the
  order of their allocation (\<open>tree_ok\<close>), and the positions of the sections are nested and in order
  (\<open>positions_ok\<close>).
\<close>

subsection \<open>Reading what was written\<close>

abbreviation size_of :: "message \<Rightarrow> nat" where "size_of m \<equiv> length (heap m)"

lemma length_set_part [simp]: "size_of (set_part p f m) = size_of m"
  by (simp add: set_part_def)

lemma length_along [simp]: "size_of (along ps f m) = size_of m"
  by (induction ps arbitrary: m) (simp_all add: along_def)

lemma part_set_part: "part (set_part p f m) q = (if q = p \<and> p < size_of m then f (part m p) else part m q)"
  by (cases "p < size_of m") (auto simp: set_part_def part_def nth_list_update list_update_beyond)

lemma part_along:
  assumes "distinct ps" "\<And>p. p \<in> set ps \<Longrightarrow> p < size_of m"
  shows "part (along ps f m) q = (if q \<in> set ps then f (part m q) else part m q)"
  using assms
proof (induction ps arbitrary: m)
  case Nil
  then show ?case by (simp add: along_def)
next
  case (Cons p ps)
  have "part (along (p # ps) f m) q = part (along ps f (set_part p f m)) q" by (simp add: along_def)
  also have "\<dots> = (if q \<in> set ps then f (part (set_part p f m) q) else part (set_part p f m) q)"
    by (rule Cons.IH) (use Cons.prems in auto)
  finally show ?case using Cons.prems by (auto simp: part_set_part)
qed

lemma path_le: "q \<in> set (path m p) \<Longrightarrow> q \<le> p"
proof (induction m p rule: path.induct)
  case (1 m p)
  show ?case
  proof (cases "up m p")
    case (Some r)
    then show ?thesis using 1(1) [OF Some] 1(2) up_less [OF Some] by (auto simp: path.simps [of m p])
  qed (use 1(2) in \<open>simp add: path.simps [of m p]\<close>)
qed

lemma path_head: "path m p = p # tl (path m p)"
  by (subst path.simps) (simp add: path.simps [of m p])

lemma path_self [simp]: "p \<in> set (path m p)"
  by (subst path.simps) simp

lemma path_not_Nil [simp]: "path m p \<noteq> []"
  by (subst path.simps) simp

lemma distinct_path: "distinct (path m p)"
proof (induction m p rule: path.induct)
  case (1 m p)
  show ?case
  proof (cases "up m p")
    case None
    then show ?thesis by (simp add: path.simps [of m p])
  next
    case (Some q)
    have "p \<notin> set (path m q)" using path_le [of p m q] up_less [OF Some] by auto
    then show ?thesis using 1 [OF Some] by (simp add: path.simps [of m p] Some)
  qed
qed

lemma path_cong: "(\<And>q. q \<le> p \<Longrightarrow> parent (part m' q) = parent (part m q)) \<Longrightarrow> path m' p = path m p"
proof (induction m p rule: path.induct)
  case (1 m p)
  have u: "up m' p = up m p" using 1(2) [of p] by (simp add: up_def)
  show ?case
  proof (cases "up m p")
    case None
    then show ?thesis by (simp add: path.simps [of _ p] u)
  next
    case (Some q)
    have "path m' q = path m q" using 1(1) [OF Some] 1(2) up_less [OF Some] by simp
    then show ?thesis by (simp add: path.simps [of _ p] u Some)
  qed
qed

subsection \<open>The tree\<close>

text \<open>The sections of a section, in the order of their allocation.\<close>

definition kids :: "message \<Rightarrow> nat \<Rightarrow> nat list" where
  "kids m p = filter (\<lambda>c. parent (part m c) = Some p) [0..<size_of m]"

definition hd_option :: "'a list \<Rightarrow> 'a option" where
  "hd_option xs = (case xs of [] \<Rightarrow> None | x # _ \<Rightarrow> Some x)"

definition links_ok :: "message \<Rightarrow> nat \<Rightarrow> bool" where
  "links_ok m p \<longleftrightarrow>
     (case parent (part m p) of None \<Rightarrow> p = 0 | Some q \<Rightarrow> q < p) \<and>
     firstpart (part m p) = hd_option (kids m p) \<and>
     lastpart (part m p) = hd_option (rev (kids m p)) \<and>
     next_part (part m p) = (case parent (part m p) of None \<Rightarrow> None | Some q \<Rightarrow> hd_option (filter (\<lambda>c. p < c) (kids m q)))"

definition tree_ok :: "message \<Rightarrow> bool" where
  "tree_ok m \<longleftrightarrow> numparts (part m 0) + 1 = size_of m \<and> (\<forall>p < size_of m. links_ok m p)"

lemma hd_option_simps [simp]: "hd_option [] = None" "hd_option (x # xs) = Some x"
  by (simp_all add: hd_option_def)

lemma hd_option_None [simp]: "hd_option xs = None \<longleftrightarrow> xs = []"
  by (simp add: hd_option_def split: list.split)

lemma hd_option_in: "hd_option xs = Some x \<Longrightarrow> x \<in> set xs"
  by (cases xs) auto

lemma kids_iff [simp]: "c \<in> set (kids m p) \<longleftrightarrow> c < size_of m \<and> parent (part m c) = Some p"
  by (auto simp: kids_def)

lemma tree_links: "tree_ok m \<Longrightarrow> p < size_of m \<Longrightarrow> links_ok m p"
  by (simp add: tree_ok_def)

lemma tree_parent: "tree_ok m \<Longrightarrow> p < size_of m \<Longrightarrow> parent (part m p) = Some q \<Longrightarrow> q < p"
  using tree_links [of m p] by (simp add: links_ok_def)

lemma tree_lastpart: "tree_ok m \<Longrightarrow> p < size_of m \<Longrightarrow> lastpart (part m p) = Some q \<Longrightarrow> p < q \<and> q < size_of m \<and> parent (part m q) = Some p"
  using tree_links [of m p] hd_option_in [of "rev (kids m p)" q] tree_parent [of m q p] by (auto simp: links_ok_def)

lemma tree_up: "tree_ok m \<Longrightarrow> p < size_of m \<Longrightarrow> up m p = parent (part m p)"
  by (cases "parent (part m p)") (auto simp: up_def dest: tree_parent)

lemma tree_down: "tree_ok m \<Longrightarrow> p < size_of m \<Longrightarrow> down m p = lastpart (part m p)"
  by (cases "lastpart (part m p)") (auto simp: down_def dest: tree_lastpart)

lemma tree_root: "tree_ok m \<Longrightarrow> 0 < size_of m"
  by (auto simp: tree_ok_def)

lemma tree_path_0: "tree_ok m \<Longrightarrow> p < size_of m \<Longrightarrow> last (path m p) = 0"
proof (induction m p rule: path.induct)
  case (1 m p)
  show ?case
  proof (cases "up m p")
    case None
    then have "p = 0" using tree_links [OF 1(2,3)] tree_up [OF 1(2,3)] by (simp add: links_ok_def)
    then show ?thesis using None by (simp add: path.simps [of m 0])
  next
    case (Some q)
    then have "last (path m q) = 0" using 1 up_less [OF Some] by simp
    then show ?thesis by (simp add: path.simps [of m p] Some)
  qed
qed

lemma tree_next:
  assumes "tree_ok m" "p < size_of m" "next_part (part m p) = Some s"
  shows "\<exists>q. parent (part m p) = Some q \<and> p < s \<and> s < size_of m \<and> parent (part m s) = Some q"
proof -
  obtain q where q: "parent (part m p) = Some q" "hd_option (filter (\<lambda>c. p < c) (kids m q)) = Some s"
    using tree_links [OF assms(1,2)] assms(3) by (auto simp: links_ok_def split: option.splits)
  then show ?thesis using hd_option_in [OF q(2)] by auto
qed

lemma path_up:
  assumes "tree_ok m" "r \<in> set (path m p)" "p < size_of m" "parent (part m r) = Some q"
  shows "q \<in> set (path m p)"
  using assms
proof (induction m p rule: path.induct)
  case (1 m p)
  show ?case
  proof (cases "r = p")
    case True
    then show ?thesis using tree_up [OF 1(2,4)] 1(5) by (subst path.simps) simp
  next
    case False
    then obtain u where u: "up m p = Some u" "r \<in> set (path m u)"
      using 1(3) by (cases "up m p") (auto simp: path.simps [of m p])
    then have "q \<in> set (path m u)" using 1 up_less [OF u(1)] by simp
    then show ?thesis using u(1) by (simp add: path.simps [of m p])
  qed
qed

lemma root_of_0: "tree_ok m \<Longrightarrow> p < size_of m \<Longrightarrow> root_of m p = 0"
  by (simp add: root_of_def tree_path_0)

lemma path_within: "p < size_of m \<Longrightarrow> q \<in> set (path m p) \<Longrightarrow> q < size_of m"
  using path_le [of q m p] by simp

lemma root_in_path: "tree_ok m \<Longrightarrow> p < size_of m \<Longrightarrow> 0 \<in> set (path m p)"
  using tree_path_0 [of m p] last_in_set [of "path m p"] path_head [of m p] by force

lemma part_along_path: "p < size_of m \<Longrightarrow> part (along (path m p) f m) q = (if q \<in> set (path m p) then f (part m q) else part m q)"
  by (rule part_along [OF distinct_path path_within])

subsection \<open>Operations on contents\<close>

text \<open>
  \<open>quiet P m m'\<close>: no pointer, position or parsing state differs, and what a section contains differs
  only in the sections of \<open>P\<close>; the flags that report violations or prepare a rewrite may differ
  anywhere.
\<close>

definition core :: "rfc2045 \<Rightarrow> rfc2045" where
  "core r = r\<lparr>rfcviolation := 0, has8bitchars := False, haslongline := False\<rparr>"

definition shape :: "rfc2045 \<Rightarrow> rfc2045" where
  "shape r = (core r)\<lparr>mime_version := None, content_type := None, content_type_attr := [], content_disposition := None,
     boundary := None, content_disposition_attr := [], content_transfer_encoding := None, content_8bit := False,
     content_id := None, content_description := None, content_language := None, content_md5 := None,
     content_base := None, content_location := None, header := []\<rparr>"

definition quiet :: "nat set \<Rightarrow> message \<Rightarrow> message \<Rightarrow> bool" where
  "quiet P m m' \<longleftrightarrow> size_of m' = size_of m \<and>
     (\<forall>q < size_of m. shape (part m' q) = shape (part m q) \<and> (q \<notin> P \<longrightarrow> core (part m' q) = core (part m q)))"

lemma quiet_refl [simp]: "quiet P m m"
  by (simp add: quiet_def)

lemma quiet_trans [trans]: "quiet P m m' \<Longrightarrow> quiet P m' m'' \<Longrightarrow> quiet P m m''"
  by (simp add: quiet_def)

lemma quiet_mono: "quiet P m m' \<Longrightarrow> P \<subseteq> Q \<Longrightarrow> quiet Q m m'"
  by (auto simp: quiet_def)

lemma quiet_set_part: "(\<And>r. shape (f r) = shape r) \<Longrightarrow> p \<in> P \<or> (\<forall>r. core (f r) = core r) \<Longrightarrow> quiet P m (set_part p f m)"
  by (auto simp: quiet_def part_set_part)

lemma quiet_along: "(\<And>r. core (f r) = core r) \<Longrightarrow> quiet P m (along ps f m)"
proof (induction ps arbitrary: m)
  case Nil
  then show ?case by (simp add: along_def)
next
  case (Cons p ps)
  have sh: "shape (f r) = shape r" for r using Cons.prems [of r] by (simp add: shape_def)
  have "quiet P m (set_part p f m)" by (rule quiet_set_part) (use Cons.prems sh in auto)
  also have "quiet P (set_part p f m) (along ps f (set_part p f m))" by (rule Cons.IH) (rule Cons.prems)
  finally show ?case by (simp add: along_def)
qed

lemma shape_fields:
  assumes "shape r = shape r'"
  shows "parent r = parent r'" "pindex r = pindex r'" "next_part r = next_part r'" "startpos r = startpos r'" "endpos r = endpos r'"
    "startbody r = startbody r'" "endbody r = endbody r'" "nlines r = nlines r'" "nbodylines r = nbodylines r'"
    "numparts r = numparts r'" "firstpart r = firstpart r'" "lastpart r = lastpart r'" "workbuf r = workbuf r'"
    "workinheader r = workinheader r'" "workclosed r = workclosed r'" "isdummy r = isdummy r'" "informdata r = informdata r'"
    "rfc2045acptr r = rfc2045acptr r'"
  using arg_cong [OF assms, of parent] arg_cong [OF assms, of pindex] arg_cong [OF assms, of next_part]
    arg_cong [OF assms, of startpos] arg_cong [OF assms, of endpos] arg_cong [OF assms, of startbody]
    arg_cong [OF assms, of endbody] arg_cong [OF assms, of nlines] arg_cong [OF assms, of nbodylines]
    arg_cong [OF assms, of numparts] arg_cong [OF assms, of firstpart] arg_cong [OF assms, of lastpart]
    arg_cong [OF assms, of workbuf] arg_cong [OF assms, of workinheader] arg_cong [OF assms, of workclosed]
    arg_cong [OF assms, of isdummy] arg_cong [OF assms, of informdata] arg_cong [OF assms, of rfc2045acptr]
  by (simp_all add: shape_def core_def)

lemma core_fields:
  assumes "core r = core r'"
  shows "mime_version r = mime_version r'" "content_type r = content_type r'" "boundary r = boundary r'"
    "content_type_attr r = content_type_attr r'" "content_transfer_encoding r = content_transfer_encoding r'"
    "header r = header r'" "content_8bit r = content_8bit r'"
  using arg_cong [OF assms, of mime_version] arg_cong [OF assms, of content_type] arg_cong [OF assms, of boundary]
    arg_cong [OF assms, of content_type_attr] arg_cong [OF assms, of content_transfer_encoding]
    arg_cong [OF assms, of header] arg_cong [OF assms, of content_8bit]
  by (simp_all add: core_def)

lemmas set_part_quiet = quiet_set_part [of _ _ _, simplified shape_def core_def]

lemma quiet_size: "quiet P m m' \<Longrightarrow> size_of m' = size_of m"
  by (simp add: quiet_def)

lemma quiet_shape: "quiet P m m' \<Longrightarrow> q < size_of m \<Longrightarrow> shape (part m' q) = shape (part m q)"
  by (simp add: quiet_def)

lemmas quiet_fields = shape_fields [OF quiet_shape]

text \<open>The pointers of two states agree.\<close>

definition links :: "rfc2045 \<Rightarrow> nat option \<times> nat option \<times> nat option \<times> nat option \<times> nat" where
  "links r = (parent r, next_part r, firstpart r, lastpart r, numparts r)"

definition same_links :: "message \<Rightarrow> message \<Rightarrow> bool" where
  "same_links m m' \<longleftrightarrow> size_of m' = size_of m \<and> (\<forall>q < size_of m. links (part m' q) = links (part m q))"

lemma same_links_refl [simp]: "same_links m m"
  by (simp add: same_links_def)

lemma same_links_trans [trans]: "same_links m m' \<Longrightarrow> same_links m' m'' \<Longrightarrow> same_links m m''"
  by (simp add: same_links_def)

lemma same_links_size: "same_links m m' \<Longrightarrow> size_of m' = size_of m"
  by (simp add: same_links_def)

lemma same_links_fields:
  assumes "same_links m m'" "q < size_of m"
  shows "parent (part m' q) = parent (part m q)" "next_part (part m' q) = next_part (part m q)"
    "firstpart (part m' q) = firstpart (part m q)" "lastpart (part m' q) = lastpart (part m q)"
    "numparts (part m' q) = numparts (part m q)"
  using assms by (simp_all add: same_links_def links_def)

lemma quiet_links: "quiet P m m' \<Longrightarrow> same_links m m'"
  by (simp add: same_links_def links_def quiet_fields quiet_size)

lemma set_part_links: "(\<And>r. links (f r) = links r) \<Longrightarrow> same_links m (set_part p f m)"
  by (auto simp: same_links_def part_set_part)

lemma along_links: "(\<And>r. links (f r) = links r) \<Longrightarrow> same_links m (along ps f m)"
proof (induction ps arbitrary: m)
  case Nil
  then show ?case by (simp add: along_def)
next
  case (Cons p ps)
  have "same_links m (set_part p f m)" by (rule set_part_links) (rule Cons.prems)
  also have "same_links (set_part p f m) (along ps f (set_part p f m))" by (rule Cons.IH) (rule Cons.prems)
  finally show ?case by (simp add: along_def)
qed

lemma update_counts_links: "same_links m (update_counts p a b l m)"
  unfolding update_counts_def by (rule along_links) (simp add: links_def)

lemma same_kids:
  assumes "same_links m m'"
  shows "kids m' = kids m"
proof
  fix p
  show "kids m' p = kids m p"
    unfolding kids_def same_links_size [OF assms] by (rule filter_cong) (simp_all add: same_links_fields [OF assms])
qed

lemma same_tree_ok:
  assumes "same_links m m'" "tree_ok m"
  shows "tree_ok m'"
  using tree_root [OF assms(2)] assms(2)
  by (simp add: tree_ok_def links_ok_def same_kids [OF assms(1)] same_links_size [OF assms(1)] same_links_fields [OF assms(1)] split: option.split)

lemma same_path: "same_links m m' \<Longrightarrow> p < size_of m \<Longrightarrow> path m' p = path m p"
  by (rule path_cong) (simp add: same_links_fields)

lemma same_down: "same_links m m' \<Longrightarrow> p < size_of m \<Longrightarrow> down m' p = down m p"
  by (simp add: down_def same_links_fields same_links_size split: option.split)

subsection \<open>A new section\<close>

definition new_part :: "nat \<Rightarrow> nat \<Rightarrow> nat \<Rightarrow> rfc2045" where
  "new_part p start k = rfc2045_alloc\<lparr>pindex := k, parent := Some p, startpos := start, endpos := start, startbody := start, endbody := start\<rparr>"

text \<open>What \<open>append_part_noinherit\<close> changes in the sections there were.\<close>

definition relink :: "message \<Rightarrow> nat \<Rightarrow> nat \<Rightarrow> rfc2045" where
  "relink m p q =
     (let n = size_of m; r = part m q;
          r = (if q = p then r\<lparr>firstpart := (if lastpart r = None then Some n else firstpart r), lastpart := Some n\<rparr> else r);
          r = (if lastpart (part m p) = Some q then r\<lparr>next_part := Some n\<rparr> else r)
      in if q = 0 then r\<lparr>numparts := numparts r + 1\<rparr> else r)"

lemma part_grow: "q < size_of m \<Longrightarrow> part (m\<lparr>heap := heap m @ rs\<rparr>) q = part m q"
  "part (m\<lparr>heap := heap m @ [r]\<rparr>) (size_of m) = r"
  by (simp_all add: part_def nth_append)

lemma append_part_noinherit:
  assumes "tree_ok m" "p < size_of m"
  shows "\<exists>m1 k. append_part_noinherit p start m = (m1, size_of m) \<and> size_of m1 = size_of m + 1 \<and>
    part m1 (size_of m) = new_part p start k \<and> (\<forall>q < size_of m. part m1 q = relink m p q)"
proof -
  let ?n = "size_of m" and ?m = "m\<lparr>heap := heap m @ [rfc2045_alloc]\<rparr>"
  have l: "l < ?n \<and> p < l" if "lastpart (part m p) = Some l" for l using tree_lastpart [OF assms that] by simp
  obtain m' k where m': "(case lastpart (part ?m p) of
      Some l \<Rightarrow> set_part ?n (\<lambda>r. r\<lparr>pindex := pindex (part ?m l) + 1\<rparr>) (set_part l (\<lambda>r. r\<lparr>next_part := Some ?n\<rparr>) ?m)
    | None \<Rightarrow> set_part ?n (\<lambda>r. r\<lparr>pindex := 0\<rparr>) (set_part p (\<lambda>r. r\<lparr>firstpart := Some ?n\<rparr>) ?m)) = m'"
    "part m' ?n = rfc2045_alloc\<lparr>pindex := k\<rparr>" "size_of m' = ?n + 1"
    "\<forall>q < ?n. part m' q = (if lastpart (part m p) = Some q then (part m q)\<lparr>next_part := Some ?n\<rparr>
       else if q = p \<and> lastpart (part m p) = None then (part m q)\<lparr>firstpart := Some ?n\<rparr> else part m q)"
    using l assms(2) by (cases "lastpart (part m p)") (auto simp: part_set_part part_grow)
  let ?m2 = "set_part ?n (\<lambda>r. r\<lparr>parent := Some p, startpos := start, endpos := start, startbody := start, endbody := start\<rparr>)
    (set_part p (\<lambda>r. r\<lparr>lastpart := Some ?n\<rparr>) m')"
  have "path ?m2 p = path m p"
    by (rule path_cong) (use assms(2) m'(3,4) in \<open>auto simp: part_set_part\<close>)
  then have r: "root_of ?m2 p = 0" using root_of_0 [OF assms] by (simp add: root_of_def)
  have "append_part_noinherit p start m = (set_part 0 (\<lambda>r. r\<lparr>numparts := numparts r + 1\<rparr>) ?m2, ?n)"
    unfolding append_part_noinherit_def Let_def m'(1) r ..
  moreover have "part (set_part 0 (\<lambda>r. r\<lparr>numparts := numparts r + 1\<rparr>) ?m2) ?n = new_part p start k"
    using assms(2) m'(2,3) tree_root [OF assms(1)] by (simp add: part_set_part new_part_def)
  moreover have "part (set_part 0 (\<lambda>r. r\<lparr>numparts := numparts r + 1\<rparr>) ?m2) q = relink m p q" if "q < ?n" for q
    using that assms(2) m'(3,4) l by (auto simp: part_set_part relink_def Let_def)
  ultimately show ?thesis using m'(3) by auto
qed

lemma relink_fields [simp]:
  "parent (relink m p q) = parent (part m q)" "startpos (relink m p q) = startpos (part m q)"
  "endpos (relink m p q) = endpos (part m q)" "startbody (relink m p q) = startbody (part m q)"
  "endbody (relink m p q) = endbody (part m q)" "workclosed (relink m p q) = workclosed (part m q)"
  "workinheader (relink m p q) = workinheader (part m q)" "boundary (relink m p q) = boundary (part m q)"
  "mime_version (relink m p q) = mime_version (part m q)" "content_type (relink m p q) = content_type (part m q)"
  "workbuf (relink m p q) = workbuf (part m q)" "informdata (relink m p q) = informdata (part m q)"
  "isdummy (relink m p q) = isdummy (part m q)" "header (relink m p q) = header (part m q)"
  by (simp_all add: relink_def Let_def)

lemma relink_links:
  "firstpart (relink m p q) = (if q = p \<and> lastpart (part m p) = None then Some (size_of m) else firstpart (part m q))"
  "lastpart (relink m p q) = (if q = p then Some (size_of m) else lastpart (part m q))"
  "next_part (relink m p q) = (if lastpart (part m p) = Some q then Some (size_of m) else next_part (part m q))"
  "numparts (relink m p q) = (if q = 0 then numparts (part m q) + 1 else numparts (part m q))"
  by (simp_all add: relink_def Let_def)

lemma tree_grow:
  assumes tree_ok: "tree_ok m" and p: "p < size_of m" and n: "size_of m' = size_of m + 1"
    and new: "links (part m' (size_of m)) = links (new_part p start k)"
    and old: "\<And>q. q < size_of m \<Longrightarrow> links (part m' q) = links (relink m p q)"
  shows "tree_ok m'"
proof -
  let ?n = "size_of m"
  have par: "parent (part m' q) = parent (part m q)" if "q < ?n" for q using old [OF that] by (simp add: links_def)
  have new': "parent (part m' ?n) = Some p" "next_part (part m' ?n) = None" "firstpart (part m' ?n) = None" "lastpart (part m' ?n) = None"
    using new by (simp_all add: links_def new_part_def rfc2045_alloc_def)
  have kids: "kids m' q = (if q = p then kids m p @ [?n] else kids m q)" for q
  proof -
    have "filter (\<lambda>c. parent (part m' c) = Some q) [0..<?n] = kids m q"
      unfolding kids_def by (rule filter_cong) (simp_all add: par)
    then show ?thesis using new' by (simp add: kids_def n)
  qed
  have kn: "kids m ?n = []" using tree_parent [OF tree_ok, of _ ?n] by (auto simp: kids_def filter_empty_conv)
  have "links_ok m' ?n" using p new' kn by (auto simp: links_ok_def kids)
  moreover have "links_ok m' q" if q: "q < ?n" for q
  proof -
    have ok: "links_ok m q" by (rule tree_links [OF tree_ok q])
    have o: "firstpart (part m' q) = firstpart (relink m p q)" "lastpart (part m' q) = lastpart (relink m p q)"
      "next_part (part m' q) = next_part (relink m p q)" using old [OF q] by (simp_all add: links_def)
    have f: "firstpart (part m' q) = hd_option (kids m' q)" "lastpart (part m' q) = hd_option (rev (kids m' q))"
      using ok o by (cases "kids m p"; auto simp: links_ok_def kids relink_links)+
    have nx: "next_part (part m' q) = (case parent (part m' q) of None \<Rightarrow> None | Some r \<Rightarrow> hd_option (filter (\<lambda>c. q < c) (kids m' r)))"
    proof (cases "lastpart (part m p) = Some q")
      case True
      then have "hd_option (rev (kids m p)) = Some q" using tree_links [OF tree_ok p] by (simp add: links_ok_def)
      then obtain ks where ks: "kids m p = ks @ [q]" by (cases "kids m p" rule: rev_cases) auto
      have "sorted_wrt (<) (kids m p)" unfolding kids_def by (rule sorted_wrt_filter) simp
      then have "filter (\<lambda>c. q < c) (kids m p) = []" unfolding ks by (auto simp: sorted_wrt_append filter_empty_conv)
      moreover have "parent (part m q) = Some p" using tree_lastpart [OF tree_ok p True] by simp
      ultimately show ?thesis using o(3) q True by (simp add: par kids relink_links)
    next
      case False
      have "hd_option (filter (\<lambda>c. q < c) (kids m' r)) = hd_option (filter (\<lambda>c. q < c) (kids m r))" if r: "parent (part m q) = Some r" for r
      proof (cases "r = p")
        case True
        have "filter (\<lambda>c. q < c) (kids m p) \<noteq> []"
        proof -
          have "q \<in> set (kids m p)" using q r True by simp
          then obtain ks c where ks: "kids m p = ks @ [c]" by (cases "kids m p" rule: rev_cases) auto
          have "hd_option (rev (kids m p)) \<noteq> Some q" using False tree_links [OF tree_ok p] by (simp add: links_ok_def)
          then have "q \<noteq> c" "q \<in> set ks" using ks \<open>q \<in> set (kids m p)\<close> by auto
          moreover have "sorted_wrt (<) (kids m p)" unfolding kids_def by (rule sorted_wrt_filter) simp
          ultimately have "q < c" unfolding ks by (simp add: sorted_wrt_append)
          then show ?thesis by (simp add: ks)
        qed
        then show ?thesis using True by (cases "filter (\<lambda>c. q < c) (kids m p)") (simp_all add: kids)
      qed (simp add: kids)
      then show ?thesis using ok o(3) q False by (simp add: links_ok_def par relink_links split: option.split)
    qed
    show ?thesis using ok f nx q by (simp add: links_ok_def par)
  qed
  moreover have "numparts (part m' 0) + 1 = size_of m'"
    using tree_ok tree_root [OF tree_ok] old [of 0] n by (simp add: links_def tree_ok_def relink_links)
  ultimately show ?thesis using n by (auto simp: tree_ok_def less_Suc_eq)
qed

end
