(* ===== verification/Mime_Inv.thy ===== *)
theory Mime_Inv imports Mime_Wf begin

text \<open>
  The positions of the sections: where each begins, where its body begins, and where it ends, are nested
  in those of the section around it and in the order of the sections; and every line moves the end of
  the message by its length.
\<close>

subsection \<open>Headers only fill in the section they belong to\<close>

named_theorems quiet_ops

lemma quiet_set_violation [quiet_ops]: "quiet P m (set_part q (set_violation v) m)"
  by (rule quiet_set_part) (simp_all add: set_violation_def shape_def core_def)

lemma quiet_along_violation [quiet_ops]: "quiet P m (along ps (set_violation v) m)"
  by (rule quiet_along) (simp add: set_violation_def core_def)

lemma quiet_check_boundary [quiet_ops]: "quiet P m (check_boundary r b m)"
  by (simp add: check_boundary_def quiet_set_violation)

lemma quiet_save_content_type [quiet_ops]: "quiet {r} m (save_content_type r ct m)"
  unfolding save_content_type_def by (rule quiet_set_part) (simp_all add: shape_def core_def)

lemma quiet_save_content_type_parameter [quiet_ops]: "quiet {r} m (save_content_type_parameter r nm s ts i n m)"
proof -
  let ?p = "(if nm = asc ''charset'' then lower_paste_tokens else paste_tokens) s ts i n"
  let ?m = "set_part r (\<lambda>q. q\<lparr>content_type_attr := rfc2045_setattr (content_type_attr q) nm (Some ?p)\<rparr>) m"
  let ?b = "lower_paste_tokens s ts i n"
  let ?m2 = "set_part r (\<lambda>q. q\<lparr>boundary := Some ?b\<rparr>) ?m"
  have a: "quiet {r} m ?m" by (rule quiet_set_part) (simp_all add: shape_def core_def)
  have "quiet {r} ?m ?m2" by (rule quiet_set_part) (simp_all add: shape_def core_def)
  also have "quiet {r} ?m2 (check_boundary r ?b ?m2)" by (rule quiet_ops)
  finally have b: "quiet {r} ?m (check_boundary r ?b ?m2)" .
  show ?thesis unfolding save_content_type_parameter_def Let_def using a quiet_trans [OF a b] by presburger
qed

lemma quiet_save_content_disposition [quiet_ops]: "quiet {r} m (save_content_disposition r cd m)"
  unfolding save_content_disposition_def by (rule quiet_set_part) (simp_all add: shape_def core_def)

lemma quiet_save_content_disposition_parameter [quiet_ops]: "quiet {r} m (save_content_disposition_parameter r nm s ts i n m)"
  unfolding save_content_disposition_parameter_def by (rule quiet_set_part) (simp_all add: shape_def core_def)

lemma quiet_param_loop:
  "(\<And>nm s ts i n m. quiet P m (init nm s ts i n m)) \<Longrightarrow> quiet P m (param_loop reformime init s ts start m)"
proof (induction reformime init s ts start m rule: param_loop.induct)
  case (1 reformime init s ts start m)
  let ?i = "next_semi ts start"
  let ?v = "if start < ?i then param_value reformime ts start ?i else None"
  show ?case
  proof (cases "length ts \<le> start")
    case True
    then show ?thesis by (simp add: param_loop.simps [of _ _ _ _ start])
  next
    case False
    show ?thesis
    proof (cases ?v)
      case None
      then show ?thesis using 1(1) [OF False refl None 1(3)] False
        by (simp add: param_loop.simps [of reformime init s ts start m] Let_def)
    next
      case (Some jk)
      obtain j k where jk: "jk = (j, k)" by (cases jk)
      let ?m = "case lower_paste_token s ts start of None \<Rightarrow> m | Some nm \<Rightarrow> init nm s ts j (k - j) m"
      have "quiet P m ?m" using 1(3) by (simp split: option.split)
      also have "quiet P ?m (param_loop reformime init s ts (if k < length ts then k + 1 else k) ?m)"
        by (rule 1(2) [OF False refl Some jk [symmetric] refl 1(3)])
      finally show ?thesis using False Some jk
        by (simp add: param_loop.simps [of reformime init s ts start m] Let_def)
    qed
  qed
qed

lemma quiet_parse_content_header:
  "(\<And>ct m. quiet P m (f ct m)) \<Longrightarrow> (\<And>nm s ts i n m. quiet P m (init nm s ts i n m)) \<Longrightarrow>
    quiet P m (parse_content_header reformime f init s ts m)"
  unfolding parse_content_header_def Let_def by (rule quiet_trans [OF _ quiet_param_loop]) auto

lemma quiet_header_field: "quiet {p} m (header_field reformime p s ts t m)"
proof -
  have "quiet {p} m (content_type_header reformime p s ts m)" "quiet {p} m (content_disposition_header reformime p s ts m)"
    unfolding content_type_header_def content_disposition_header_def
    by (rule quiet_parse_content_header; rule quiet_ops)+
  moreover have "quiet {p} m (set_part p f m)" if "\<And>r. shape (f r) = shape r" for f
    by (rule quiet_set_part) (use that in auto)
  then have "quiet {p} m (mime_version_header p s ts m)" "quiet {p} m (content_transfer_encoding_header p s ts m)"
    "quiet {p} m (content_id_header p s ts m)" "quiet {p} m (content_base_header p s ts m)" "quiet {p} m (content_location_header p s ts m)"
    "quiet {p} m (keep p (\<lambda>v q. q\<lparr>content_description := Some v\<rparr>) (plain_value s) m)"
    "quiet {p} m (keep p (\<lambda>v q. q\<lparr>content_language := Some v\<rparr>) (plain_value s) m)"
    "quiet {p} m (keep p (\<lambda>v q. q\<lparr>content_md5 := Some v\<rparr>) (plain_value s) m)"
    by (simp_all add: mime_version_header_def content_transfer_encoding_header_def content_id_header_def content_base_header_def
        content_location_header_def keep_def Let_def shape_def core_def split: option.split)
  ultimately show ?thesis by (simp add: header_field_def)
qed

lemma quiet_do_header: "quiet {p} m (do_header mem reformime p m)"
  by (auto simp: do_header_def Let_def quiet_header_field split: option.split)

lemma quiet_message: "heap m' = heap m \<Longrightarrow> quiet P m m'"
  by (simp add: quiet_def part_def)

lemma quiet_rw_char: "quiet P m (rw_char w c m)"
proof -
  have s: "quiet P m' (set_part w (\<lambda>r. r\<lparr>haslongline := True\<rparr>) m')" "quiet P m' (set_part w (\<lambda>r. r\<lparr>has8bitchars := True\<rparr>) m')" for m'
    by (rule quiet_set_part; simp add: shape_def core_def)+
  have u: "quiet P m (m\<lparr>curlinepos := k\<rparr>)" for k by (rule quiet_message) simp
  let ?m = "if c = CR \<or> c = NL then m\<lparr>curlinepos := 0\<rparr>
    else if 500 < curlinepos m + 1 then set_part w (\<lambda>r. r\<lparr>haslongline := True\<rparr>) (m\<lparr>curlinepos := curlinepos m + 1\<rparr>)
    else m\<lparr>curlinepos := curlinepos m + 1\<rparr>"
  have "quiet P m ?m" using quiet_trans [OF u s(1)] u by simp
  then show ?thesis using quiet_trans [OF _ s(2)] unfolding rw_char_def Let_def by presburger
qed

lemma quiet_rwprep_step: "quiet P m (rwprep_step w c m)"
proof -
  have s: "quiet P m' (set_part w (\<lambda>r. r\<lparr>haslongline := True\<rparr>) m')" "quiet P m' (set_part w (\<lambda>r. r\<lparr>has8bitchars := True\<rparr>) m')" for m'
    by (rule quiet_set_part; simp add: shape_def core_def)+
  have u: "quiet P m' (m'\<lparr>curstate := a, curlinepos := k\<rparr>)" "quiet P m' (m'\<lparr>curstate := a\<rparr>)" "quiet P m' (m'\<lparr>statechar := d, curstate := a\<rparr>)"
    for m' a k d by (rule quiet_message; simp)+
  have "quiet P m (let m' = (if b then set_part w (\<lambda>r. r\<lparr>has8bitchars := True\<rparr>) m else m);
      m' = m'\<lparr>curstate := quotedprint, curlinepos := k\<rparr> in if d then set_part w (\<lambda>r. r\<lparr>haslongline := True\<rparr>) m' else m')" for b d k
    using quiet_trans [OF s(2) quiet_trans [OF u(1) s(1)]] quiet_trans [OF s(2) u(1)] quiet_trans [OF u(1) s(1)] u(1)
    by (simp add: Let_def)
  then have "curstate m = qpseeneqh \<Longrightarrow> ?thesis" unfolding rwprep_step_def by (simp only: state_t.case)
  then show ?thesis by (cases "curstate m") (simp_all add: rwprep_step_def quiet_rw_char u)
qed

lemma quiet_do_rwprep: "quiet P m (do_rwprep s m)"
proof -
  have "quiet P m (fold (rwprep_step w) s m)" for w
  proof (induction s arbitrary: m)
    case (Cons c s)
    then show ?case using quiet_trans [OF quiet_rwprep_step Cons] by simp
  qed simp
  then show ?thesis by (simp add: do_rwprep_def split: option.split)
qed

end
