(* ===== verification/Mime_Positions.thy ===== *)
theory Mime_Positions imports Mime_Inv begin

text \<open>
  The positions of the sections. Lines change the sections on the way from the message to its innermost
  open section, the spine; all of these end at the same place.
\<close>

subsection \<open>Positions\<close>

definition section_ok :: "message \<Rightarrow> nat \<Rightarrow> bool" where
  "section_ok m p \<longleftrightarrow> (let r = part m p in
     startpos r \<le> startbody r \<and> startbody r \<le> endbody r \<and> endbody r \<le> endpos r \<and>
     (case parent r of
        None \<Rightarrow> True
      | Some q \<Rightarrow> startbody (part m q) \<le> startpos r \<and> endpos r \<le> endpos (part m q) \<and>
          (lastpart (part m q) = Some p \<and> \<not> workclosed r \<longrightarrow> endpos r = endpos (part m q))) \<and>
     (case next_part r of None \<Rightarrow> True | Some s \<Rightarrow> endpos r \<le> startpos (part m s)))"

definition positions_ok :: "message \<Rightarrow> bool" where
  "positions_ok m \<longleftrightarrow> (\<forall>p < size_of m. section_ok m p)"

lemma positions_okD:
  assumes "positions_ok m" "p < size_of m"
  shows "startpos (part m p) \<le> startbody (part m p)" "startbody (part m p) \<le> endbody (part m p)"
    "endbody (part m p) \<le> endpos (part m p)"
    "parent (part m p) = Some q \<Longrightarrow> startbody (part m q) \<le> startpos (part m p) \<and> endpos (part m p) \<le> endpos (part m q)"
    "parent (part m p) = Some q \<Longrightarrow> lastpart (part m q) = Some p \<Longrightarrow> \<not> workclosed (part m p) \<Longrightarrow> endpos (part m p) = endpos (part m q)"
    "next_part (part m p) = Some s \<Longrightarrow> endpos (part m p) \<le> startpos (part m s)"
  using assms by (auto simp: positions_ok_def section_ok_def Let_def)

text \<open>Two states agree in pointers and positions.\<close>

definition places :: "rfc2045 \<Rightarrow> (nat option \<times> nat option \<times> nat option \<times> nat option \<times> nat) \<times> nat \<times> nat \<times> nat \<times> nat \<times> bool" where
  "places r = (links r, startpos r, endpos r, startbody r, endbody r, workclosed r)"

definition same_places :: "message \<Rightarrow> message \<Rightarrow> bool" where
  "same_places m m' \<longleftrightarrow> size_of m' = size_of m \<and> (\<forall>q < size_of m. places (part m' q) = places (part m q))"

lemma same_places_trans [trans]: "same_places m m' \<Longrightarrow> same_places m' m'' \<Longrightarrow> same_places m m''"
  by (simp add: same_places_def)

lemma same_places_size: "same_places m m' \<Longrightarrow> size_of m' = size_of m"
  by (simp add: same_places_def)

lemma same_places_links: "same_places m m' \<Longrightarrow> same_links m m'"
  by (simp add: same_places_def same_links_def places_def)

lemma same_places_fields:
  assumes "same_places m m'" "q < size_of m"
  shows "startpos (part m' q) = startpos (part m q)" "endpos (part m' q) = endpos (part m q)"
    "startbody (part m' q) = startbody (part m q)" "endbody (part m' q) = endbody (part m q)"
    "workclosed (part m' q) = workclosed (part m q)"
  using assms by (simp_all add: same_places_def places_def)

lemma set_part_places: "(\<And>r. places (f r) = places r) \<Longrightarrow> same_places m (set_part p f m)"
  by (auto simp: same_places_def part_set_part)

lemma quiet_places: "quiet P m m' \<Longrightarrow> same_places m m'"
  by (simp add: same_places_def places_def links_def quiet_fields quiet_size)

lemma same_positions:
  assumes "same_places m m'" "tree_ok m" "positions_ok m"
  shows "positions_ok m'"
proof -
  have "section_ok m' p" if p: "p < size_of m" for p
  proof -
    have "parent (part m p) = Some r \<Longrightarrow> r < size_of m" for r using tree_parent [OF assms(2) p] p by fastforce
    moreover have "next_part (part m p) = Some r \<Longrightarrow> r < size_of m" for r using tree_next [OF assms(2) p] by blast
    ultimately show ?thesis
      using assms(3) p same_places_fields [OF assms(1)] same_links_fields [OF same_places_links [OF assms(1)]]
      by (auto simp: positions_ok_def section_ok_def Let_def split: option.splits)
  qed
  then show ?thesis by (simp add: positions_ok_def same_places_size [OF assms(1)])
qed

subsection \<open>The spine\<close>

inductive on_spine :: "message \<Rightarrow> nat \<Rightarrow> bool" for m where
  spine_root: "on_spine m 0"
| spine_down: "on_spine m p \<Longrightarrow> open_child m p = Some q \<Longrightarrow> on_spine m q"

lemma open_child_Some:
  "tree_ok m \<Longrightarrow> p < size_of m \<Longrightarrow> open_child m p = Some q \<longleftrightarrow> lastpart (part m p) = Some q \<and> \<not> workclosed (part m q)"
  by (auto simp: open_child_def tree_down split: option.split)

lemma spine_less: "on_spine m p \<Longrightarrow> tree_ok m \<Longrightarrow> p < size_of m"
  by (induction rule: on_spine.induct) (auto dest: open_child_less tree_root)

lemma spine_cong:
  assumes "same_links m m'" "\<And>q. q < size_of m \<Longrightarrow> workclosed (part m' q) = workclosed (part m q)" "tree_ok m"
  shows "on_spine m p \<Longrightarrow> on_spine m' p"
proof (induction rule: on_spine.induct)
  case (spine_down p q)
  have p: "p < size_of m" by (rule spine_less [OF spine_down(1) assms(3)])
  have "down m' p = down m p" by (rule same_down [OF assms(1) p])
  then have "open_child m' p = Some q"
    using spine_down(2) assms(2) by (auto simp: open_child_def dest: down_less split: option.splits if_splits)
  then show ?case by (rule on_spine.spine_down [OF spine_down(3)])
qed (rule spine_root)

lemma same_spine: "same_places m m' \<Longrightarrow> tree_ok m \<Longrightarrow> on_spine m p \<Longrightarrow> on_spine m' p"
  by (rule spine_cong [OF same_places_links]) (simp_all add: same_places_fields)

lemma lastpart_next:
  assumes "tree_ok m" "p < size_of m" "lastpart (part m p) = Some q"
  shows "next_part (part m q) = None"
proof -
  have q: "q < size_of m" "parent (part m q) = Some p" using tree_lastpart [OF assms] by auto
  have "hd_option (rev (kids m p)) = Some q" using tree_links [OF assms(1,2)] assms(3) by (simp add: links_ok_def)
  then obtain ks where ks: "kids m p = ks @ [q]" by (cases "kids m p" rule: rev_cases) auto
  have "sorted_wrt (<) (kids m p)" unfolding kids_def by (rule sorted_wrt_filter) simp
  then have "filter (\<lambda>c. q < c) (kids m p) = []" unfolding ks by (auto simp: sorted_wrt_append filter_empty_conv)
  then show ?thesis using tree_links [OF assms(1) q(1)] q(2) by (simp add: links_ok_def)
qed

lemma path_down:
  assumes "tree_ok m" "p < size_of m" "open_child m p = Some q"
  shows "path m q = q # path m p"
proof -
  have "lastpart (part m p) = Some q" using assms by (simp add: open_child_Some)
  then have "q < size_of m" "parent (part m q) = Some p" using tree_lastpart [OF assms(1,2)] by auto
  then show ?thesis using tree_up [OF assms(1)] by (subst path.simps) simp
qed

text \<open>Along the spine: the sections end together, each but the innermost has the next one as its last, open section.\<close>

lemma spine_path:
  assumes "on_spine m p" "tree_ok m" "positions_ok m" "q \<in> set (path m p)"
  shows "endpos (part m q) = endpos (part m p) \<and> next_part (part m q) = None \<and>
    (q = p \<or> (\<exists>c\<in>set (path m p). lastpart (part m q) = Some c \<and> \<not> workclosed (part m c)))"
  using assms(1,4)
proof (induction rule: on_spine.induct)
  case spine_root
  have "parent (part m 0) = None" using tree_links [OF assms(2) tree_root [OF assms(2)]] by (auto simp: links_ok_def split: option.splits)
  moreover from this have "up m 0 = None" by (simp add: up_def)
  ultimately show ?case using spine_root tree_links [OF assms(2) tree_root [OF assms(2)]]
    by (simp add: path.simps [of m 0] links_ok_def)
next
  case (spine_down p c)
  have p: "p < size_of m" by (rule spine_less [OF spine_down(1) assms(2)])
  have l: "lastpart (part m p) = Some c" "\<not> workclosed (part m c)" using spine_down(2) open_child_Some [OF assms(2) p] by auto
  have c: "c < size_of m" "parent (part m c) = Some p" using tree_lastpart [OF assms(2) p l(1)] by auto
  have e: "endpos (part m c) = endpos (part m p)" by (rule positions_okD(5) [OF assms(3) c l])
  have pa: "path m c = c # path m p" by (rule path_down [OF assms(2) p spine_down(2)])
  show ?case
  proof (cases "q = c")
    case True
    then show ?thesis using e lastpart_next [OF assms(2) p l(1)] by simp
  next
    case False
    then have "q \<in> set (path m p)" using spine_down(4) pa by simp
    from spine_down(3) [OF this] show ?thesis using e l pa by auto
  qed
qed

lemma spine_end: "on_spine m p \<Longrightarrow> tree_ok m \<Longrightarrow> positions_ok m \<Longrightarrow> endpos (part m p) = endpos (part m 0)"
  using spine_path [of m p 0] root_in_path [of m p] spine_less [of m p] by simp

subsection \<open>Steps\<close>

text \<open>
  A step that ends the spine down to \<open>p\<close> at \<open>newcnt\<close>, and may close the last section of \<open>p\<close> and set where
  its body begins.
\<close>

lemma positions_step:
  assumes tree_ok: "tree_ok m" and ok: "positions_ok m" and sp: "on_spine m p"
    and links: "same_links m m'"
    and le: "endpos (part m p) \<le> newend" "newend \<le> newcnt"
    and ends: "\<And>q. q < size_of m \<Longrightarrow> endpos (part m' q) = (if q \<in> set (path m p) then newcnt else endpos (part m q))"
      "\<And>q. q < size_of m \<Longrightarrow> endbody (part m' q) = (if q \<in> set (path m p) then newend else endbody (part m q))"
    and start: "\<And>q. q < size_of m \<Longrightarrow> startpos (part m' q) = startpos (part m q)"
      "\<And>q. q < size_of m \<Longrightarrow> q \<noteq> p \<Longrightarrow> startbody (part m' q) = startbody (part m q)"
      "startbody (part m' p) = startbody (part m p) \<or>
         lastpart (part m p) = None \<and> startpos (part m p) \<le> startbody (part m' p) \<and> startbody (part m' p) \<le> newend"
    and closed: "\<And>q. q < size_of m \<Longrightarrow> workclosed (part m q) \<Longrightarrow> workclosed (part m' q)"
      "\<And>l. lastpart (part m p) = Some l \<Longrightarrow> workclosed (part m' l)"
  shows "positions_ok m'"
  unfolding positions_ok_def same_links_size [OF links]
proof (intro allI impI)
  fix r
  assume r: "r < size_of m"
  note D = positions_okD [OF ok r] and S = spine_path [OF sp tree_ok ok] and L = same_links_fields [OF links]
  have p: "p < size_of m" by (rule spine_less [OF sp tree_ok])
  have sb: "startbody (part m' r) \<le> endbody (part m' r) \<and> startpos (part m' r) \<le> startbody (part m' r)"
  proof (cases "r = p")
    case True
    then show ?thesis using D(1-3) r start(1) start(3) ends(2) [OF r] le by auto
  next
    case False
    then show ?thesis using D(1-3) r start(1,2) [OF r] ends(2) [OF r] S [of r] le by auto
  qed
  have eb: "endbody (part m' r) \<le> endpos (part m' r)" using D(3) le by (simp add: ends r)
  have par: "startbody (part m' q) \<le> startpos (part m' r) \<and> endpos (part m' r) \<le> endpos (part m' q) \<and>
      (lastpart (part m' q) = Some r \<and> \<not> workclosed (part m' r) \<longrightarrow> endpos (part m' r) = endpos (part m' q))"
    if q: "parent (part m r) = Some q" for q
  proof -
    have ql: "q < size_of m" using tree_parent [OF tree_ok r q] r by simp
    have "r \<in> set (kids m q)" using r q by simp
    then have "kids m q \<noteq> []" by (metis empty_iff empty_set)
    then have "lastpart (part m q) \<noteq> None" using tree_links [OF tree_ok ql] by (simp add: links_ok_def)
    then have sbq: "startbody (part m' q) = startbody (part m q)" using start(2,3) ql by (cases "q = p") auto
    have up: "q \<in> set (path m p)" if "r \<in> set (path m p)" by (rule path_up [OF tree_ok that p q])
    have e: "endpos (part m' r) \<le> endpos (part m' q)"
      using D(4) [OF q] up S [of q] le by (auto simp: ends r ql)
    have "endpos (part m' r) = endpos (part m' q)" if l: "lastpart (part m q) = Some r" "\<not> workclosed (part m' r)"
    proof (cases "q \<in> set (path m p)")
      case True
      have "q \<noteq> p" using closed(2) l by blast
      then obtain c where "c \<in> set (path m p)" "lastpart (part m q) = Some c" using S [OF True] by auto
      then show ?thesis using l True ends(1) [OF r] ends(1) [OF ql] by auto
    next
      case False
      have "\<not> workclosed (part m r)" using closed(1) [OF r] l(2) by blast
      moreover have "r \<notin> set (path m p)" using False up by blast
      ultimately show ?thesis using D(5) [OF q l(1)] False by (simp add: ends r ql)
    qed
    then show ?thesis using D(4) [OF q] e by (simp add: sbq start r L [OF ql])
  qed
  have nx: "endpos (part m' r) \<le> startpos (part m' s)" if s: "next_part (part m r) = Some s" for s
  proof -
    have "s < size_of m" using tree_next [OF tree_ok r s] by blast
    moreover have "r \<notin> set (path m p)" using S [of r] s by auto
    ultimately show ?thesis using D(6) [OF s] by (simp add: ends r start)
  qed
  show "section_ok m' r"
    using sb eb par nx by (auto simp: section_ok_def Let_def L [OF r] split: option.split)
qed

text \<open>A new section of \<open>p\<close> that begins where the spine then ends.\<close>

lemma positions_grow:
  assumes tree_ok: "tree_ok m" and ok: "positions_ok m" and sp: "on_spine m p" and n: "size_of m' = size_of m + 1"
    and new: "parent (part m' (size_of m)) = Some p" "next_part (part m' (size_of m)) = None"
      "startpos (part m' (size_of m)) = newcnt" "endpos (part m' (size_of m)) = newcnt"
      "startbody (part m' (size_of m)) = newcnt" "endbody (part m' (size_of m)) = newcnt"
    and links: "\<And>q. q < size_of m \<Longrightarrow> links (part m' q) = links (relink m p q)"
    and le: "endpos (part m p) \<le> newend" "newend \<le> newcnt"
    and ends: "\<And>q. q < size_of m \<Longrightarrow> endpos (part m' q) = (if q \<in> set (path m p) then newcnt else endpos (part m q))"
      "\<And>q. q < size_of m \<Longrightarrow> endbody (part m' q) = (if q \<in> set (path m p) then newend else endbody (part m q))"
    and start: "\<And>q. q < size_of m \<Longrightarrow> startpos (part m' q) = startpos (part m q)"
      "\<And>q. q < size_of m \<Longrightarrow> startbody (part m' q) = startbody (part m q)"
    and closed: "\<And>q. q < size_of m \<Longrightarrow> workclosed (part m' q) = workclosed (part m q)"
  shows "positions_ok m'"
  unfolding positions_ok_def n
proof (intro allI impI)
  fix r
  assume "r < size_of m + 1"
  note S = spine_path [OF sp tree_ok ok]
  have p: "p < size_of m" by (rule spine_less [OF sp tree_ok])
  have L: "parent (part m' q) = parent (part m q)" "lastpart (part m' q) = lastpart (relink m p q)"
    "next_part (part m' q) = next_part (relink m p q)" if "q < size_of m" for q using links [OF that] by (simp_all add: links_def)
  show "section_ok m' r"
  proof (cases "r = size_of m")
    case True
    have "startbody (part m p) \<le> newcnt" using positions_okD(2,3) [OF ok p] le by simp
    then show ?thesis using True new p start(2) [OF p] ends(1) [OF p] by (simp add: section_ok_def Let_def)
  next
    case False
    then have r: "r < size_of m" using \<open>r < size_of m + 1\<close> by simp
    note D = positions_okD [OF ok r]
    have sb: "startbody (part m' r) \<le> endbody (part m' r)" "startpos (part m' r) \<le> startbody (part m' r)"
      "endbody (part m' r) \<le> endpos (part m' r)"
      using D(1-3) r start ends S [of r] le by auto
    have par: "startbody (part m' q) \<le> startpos (part m' r) \<and> endpos (part m' r) \<le> endpos (part m' q) \<and>
        (lastpart (part m' q) = Some r \<and> \<not> workclosed (part m' r) \<longrightarrow> endpos (part m' r) = endpos (part m' q))"
      if q: "parent (part m r) = Some q" for q
    proof -
      have ql: "q < size_of m" using tree_parent [OF tree_ok r q] r by simp
        have up: "q \<in> set (path m p)" if "r \<in> set (path m p)" by (rule path_up [OF tree_ok that p q])
      have e: "endpos (part m' r) \<le> endpos (part m' q)"
        using D(4) [OF q] up S [of q] le by (auto simp: ends r ql)
      have "endpos (part m' r) = endpos (part m' q)" if l: "lastpart (part m' q) = Some r" "\<not> workclosed (part m' r)"
      proof -
        have qp: "q \<noteq> p" "lastpart (part m q) = Some r" using l(1) r by (auto simp: L(2) [OF ql] relink_links split: if_splits)
        then show ?thesis using S [of q] D(5) [OF q qp(2)] l(2) up by (auto simp: ends r ql closed)
      qed
      then show ?thesis using D(4) [OF q] e by (simp add: start r ql)
    qed
    have nx: "endpos (part m' r) \<le> startpos (part m' s)" if s: "next_part (part m' r) = Some s" for s
    proof (cases "lastpart (part m p) = Some r")
      case True
      then have "s = size_of m" using s by (simp add: L(3) [OF r] relink_links)
      moreover have "endpos (part m r) \<le> endpos (part m p)" using D(4) tree_lastpart [OF tree_ok p True] by simp
      ultimately show ?thesis using le new(3) by (simp add: ends(1) [OF r])
    next
      case False
      then have s': "next_part (part m r) = Some s" using s by (simp add: L(3) [OF r] relink_links)
      have "s < size_of m" using tree_next [OF tree_ok r s'] by blast
      moreover have "r \<notin> set (path m p)" using S [of r] s' by auto
      ultimately show ?thesis using D(6) [OF s'] by (simp add: ends r start)
    qed
    show ?thesis using sb par nx by (auto simp: section_ok_def Let_def L(1) [OF r] split: option.split)
  qed
qed

end
