(* ===== verification/Mime_Lines.thy ===== *)
theory Mime_Lines imports Mime_Positions begin

text \<open>
  Every line keeps the tree and the positions, and moves the end of the message by its length; the same
  holds for what is parsed ahead of a long line. So the sections are nested, disjoint and in order
  for any input, and the message ends where the input does.
\<close>

subsection \<open>Progress\<close>

definition good :: "message \<Rightarrow> bool" where
  "good m \<longleftrightarrow> tree_ok m \<and> positions_ok m"

definition advances :: "nat \<Rightarrow> message \<Rightarrow> message \<Rightarrow> bool" where
  "advances k m m' \<longleftrightarrow> good m' \<and> endpos (part m' 0) = endpos (part m 0) + k \<and>
     size_of m \<le> size_of m' \<and> size_of m' \<le> size_of m + 1"

lemma advances_places: "good m \<Longrightarrow> same_places m m' \<Longrightarrow> advances 0 m m'"
  using tree_root [of m] by (simp add: advances_def good_def same_tree_ok [OF same_places_links] same_positions same_places_size same_places_fields)

lemma advances_after: "good m \<Longrightarrow> same_places m m' \<Longrightarrow> advances k m' m'' \<Longrightarrow> advances k m m''"
  using tree_root [of m] by (simp add: advances_def good_def same_places_size same_places_fields)

lemma advances_before:
  assumes "good m" "advances k m m'" "same_places m' m''"
  shows "advances k m m''"
  using assms tree_root [of m'] advances_places [of m' m''] same_places_size [of m' m''] by (simp add: advances_def)

lemma good_spine: "good m \<Longrightarrow> on_spine m p \<Longrightarrow> p < size_of m \<and> endpos (part m p) = endpos (part m 0)"
  by (simp add: good_def spine_less spine_end)

definition counted :: "nat \<Rightarrow> nat \<Rightarrow> nat \<Rightarrow> rfc2045 \<Rightarrow> rfc2045" where
  "counted newcnt newend lines r = r\<lparr>endpos := newcnt, endbody := newend, nlines := nlines r + lines,
       nbodylines := (if workinheader r then nbodylines r else nbodylines r + lines)\<rparr>"

lemma part_update_counts:
  "p < size_of m \<Longrightarrow> part (update_counts p newcnt newend lines m) q =
    (if q \<in> set (path m p) then counted newcnt newend lines (part m q) else part m q)"
  unfolding update_counts_def counted_def by (rule part_along_path)

lemma length_update_counts [simp]: "size_of (update_counts p newcnt newend lines m) = size_of m"
  by (simp add: update_counts_def)

lemma counted_fields [simp]:
  "endpos (counted a b l r) = a" "endbody (counted a b l r) = b" "startpos (counted a b l r) = startpos r"
  "startbody (counted a b l r) = startbody r" "workclosed (counted a b l r) = workclosed r" "parent (counted a b l r) = parent r"
  "links (counted a b l r) = links r" "boundary (counted a b l r) = boundary r" "workinheader (counted a b l r) = workinheader r"
  "mime_version (counted a b l r) = mime_version r" "content_type (counted a b l r) = content_type r"
  "workbuf (counted a b l r) = workbuf r" "lastpart (counted a b l r) = lastpart r" "numparts (counted a b l r) = numparts r"
  "informdata (counted a b l r) = informdata r" "isdummy (counted a b l r) = isdummy r" "header (counted a b l r) = header r"
  "next_part (counted a b l r) = next_part r" "firstpart (counted a b l r) = firstpart r"
  by (simp_all add: counted_def links_def)

text \<open>Counting along the spine, after the last section of \<open>p\<close> may have been closed or its body begun.\<close>

lemma advances_counts:
  assumes g: "good m" and sp: "on_spine m p" and same: "same_links m m1"
    and f: "\<And>q. q < size_of m \<Longrightarrow> endpos (part m1 q) = endpos (part m q) \<and> endbody (part m1 q) = endbody (part m q) \<and>
        startpos (part m1 q) = startpos (part m q) \<and> (q \<noteq> p \<longrightarrow> startbody (part m1 q) = startbody (part m q)) \<and>
        (workclosed (part m q) \<longrightarrow> workclosed (part m1 q))"
    and closed: "\<And>l. lastpart (part m p) = Some l \<Longrightarrow> workclosed (part m1 l)"
    and start: "startbody (part m1 p) = startbody (part m p) \<or>
         lastpart (part m p) = None \<and> startpos (part m p) \<le> startbody (part m1 p) \<and> startbody (part m1 p) \<le> endpos (part m p) + k'"
    and k: "k' \<le> k"
  shows "advances k m (update_counts p (endpos (part m p) + k) (endpos (part m p) + k') lines m1)"
proof -
  have t: "tree_ok m" "positions_ok m" using g by (simp_all add: good_def)
  have p: "p < size_of m" "endpos (part m p) = endpos (part m 0)" using good_spine [OF g sp] by auto
  let ?e = "endpos (part m p)"
  let ?m = "update_counts p (?e + k) (?e + k') lines m1"
  have s1: "size_of m1 = size_of m" and pa: "path m1 p = path m p" using same p by (simp_all add: same_links_size same_path)
  have part: "part ?m q = (if q \<in> set (path m p) then counted (?e + k) (?e + k') lines (part m1 q) else part m1 q)" for q
    using part_update_counts [of p m1] p(1) s1 pa by simp
  have l: "same_links m ?m" using same_links_trans [OF same update_counts_links] .
  have "positions_ok ?m"
    by (rule positions_step [OF t sp l, of "?e + k'" "?e + k"]) (use f start closed k part in \<open>auto simp: tree_lastpart [OF t(1) p(1)]\<close>)
  moreover have "tree_ok ?m" by (rule same_tree_ok [OF l t(1)])
  moreover have "endpos (part ?m 0) = endpos (part m 0) + k" using part [of 0] root_in_path [OF t(1) p(1)] p(2) by simp
  ultimately show ?thesis by (simp add: advances_def good_def s1)
qed

lemma advances_update:
  assumes "good m" "on_spine m p" "k' \<le> k" "\<And>l. lastpart (part m p) = Some l \<Longrightarrow> workclosed (part m l)"
  shows "advances k m (update_counts p (endpos (part m p) + k) (endpos (part m p) + k') lines m)"
  by (rule advances_counts) (use assms in auto)

text \<open>A new section of \<open>p\<close> after counting.\<close>

lemma advances_grow:
  assumes g: "good m" and sp: "on_spine m p" and k: "k' \<le> k"
    and n: "size_of m' = size_of m + 1"
    and new: "places (part m' (size_of m)) = places (new_part p (endpos (part m p) + k) j)"
    and old: "\<And>q. q < size_of m \<Longrightarrow> places (part m' q) =
        places (if q \<in> set (path m p) then counted (endpos (part m p) + k) (endpos (part m p) + k') lines (relink m p q) else relink m p q)"
  shows "advances k m m'"
proof -
  have t: "tree_ok m" "positions_ok m" using g by (simp_all add: good_def)
  have p: "p < size_of m" "endpos (part m p) = endpos (part m 0)" using good_spine [OF g sp] by auto
  have old': "links (part m' q) = links (relink m p q)" "startpos (part m' q) = startpos (part m q)" "startbody (part m' q) = startbody (part m q)"
    "workclosed (part m' q) = workclosed (part m q)"
    "endpos (part m' q) = (if q \<in> set (path m p) then endpos (part m p) + k else endpos (part m q))"
    "endbody (part m' q) = (if q \<in> set (path m p) then endpos (part m p) + k' else endbody (part m q))" if "q < size_of m" for q
    using old [OF that] by (auto simp: places_def split: if_splits)
  have new': "links (part m' (size_of m)) = links (new_part p (endpos (part m p) + k) j)" using new by (simp add: places_def)
  have "tree_ok m'" by (rule tree_grow [OF t(1) p(1) n new' old'(1)])
  moreover have "positions_ok m'"
    by (rule positions_grow [OF t sp n, of "endpos (part m p) + k" "endpos (part m p) + k'"])
      (use new k old' in \<open>auto simp: places_def links_def new_part_def rfc2045_alloc_def\<close>)
  moreover have "endpos (part m' 0) = endpos (part m 0) + k"
    using old'(5) [of 0] tree_root [OF t(1)] root_in_path [OF t(1) p(1)] p(2) by simp
  ultimately show ?thesis using n by (simp add: advances_def good_def)
qed

subsection \<open>The parts of a line\<close>

lemma down_lastpart: "good m \<Longrightarrow> on_spine m p \<Longrightarrow> down m p = lastpart (part m p)"
  using good_spine [of m p] by (simp add: good_def tree_down)

lemma open_spine: "good m \<Longrightarrow> on_spine m p \<Longrightarrow> lastpart (part m p) = Some l \<Longrightarrow> \<not> workclosed (part m l) \<Longrightarrow> on_spine m l"
  using open_child_Some [of m p l] spine_down [of m p l] good_spine [of m p] by (simp add: good_def)

text \<open>What \<open>drill\<close> returns: the section of the line, or the line is the end of one.\<close>

lemma drill_cases:
  assumes "good m" "on_spine m p" "drill c n m p = (m', res)"
  shows "\<exists>q. on_spine m q \<and>
    (res = Some q \<and> m' = m \<and> lastpart (part m q) = None \<or>
     res = None \<and> (\<exists>l. lastpart (part m q) = Some l \<and>
       (workclosed (part m l) \<and> m' = update_counts q (endpos (part m q) + length c) (endpos (part m q) + n) 1 m \<or>
        (\<exists>cb. boundary (part m q) = Some cb \<and> \<not> workinheader (part m q) \<and> boundary_line c n cb \<and> m' = at_boundary c n q l cb m))))"
  using assms
proof (induction c n m p rule: drill.induct)
  case (1 c n m p)
  note d = down_lastpart [OF 1(3,4)]
  show ?case
  proof (cases "lastpart (part m p)")
    case None
    then have "res = Some p \<and> m' = m" using 1(5) d by (simp add: drill.simps [of c n m p])
    then show ?thesis using 1(4) None by auto
  next
    case (Some l)
    show ?thesis
    proof (cases "workclosed (part m l)")
      case True
      then have "res = None" "m' = update_counts p (endpos (part m p) + length c) (endpos (part m p) + n) 1 m"
        using 1(5) d Some by (simp_all add: drill.simps [of c n m p])
      then show ?thesis using 1(4) Some True by auto
    next
      case False
      have sl: "on_spine m l" by (rule open_spine [OF 1(3,4) Some False])
      show ?thesis
      proof (cases "\<exists>cb. boundary (part m p) = Some cb \<and> \<not> workinheader (part m p) \<and> boundary_line c n cb")
        case True
        then obtain cb where cb: "boundary (part m p) = Some cb" "\<not> workinheader (part m p)" "boundary_line c n cb" by auto
        then have "res = None" "m' = at_boundary c n p l cb m"
          using 1(5) d Some False by (simp_all add: drill.simps [of c n m p])
        then show ?thesis using 1(4) Some cb by blast
      next
        case no: False
        then have "drill c n m l = (m', res)"
          using 1(5) d Some False by (cases "boundary (part m p)") (auto simp: drill.simps [of c n m p])
        then show ?thesis using 1(1) [of l] 1(2) [of l] no d Some False 1(3) sl by (cases "boundary (part m p)") auto
      qed
    qed
  qed
qed

lemma form_data_spine: "good m \<Longrightarrow> on_spine m p \<Longrightarrow> form_data m p = Some q \<Longrightarrow> on_spine m q"
proof (induction m p rule: form_data.induct)
  case (1 m p)
  show ?case
  proof (cases "open_child m p")
    case None
    then show ?thesis using 1(4) by (simp add: form_data.simps [of m p])
  next
    case (Some r)
    then have "on_spine m r" using spine_down [OF 1(3)] by simp
    then show ?thesis using 1 Some by (auto simp: form_data.simps [of m p] split: if_splits)
  qed
qed

lemma stripped_le: "stripped c \<le> length c"
  by (simp add: stripped_def Let_def)

text \<open>The structure made by \<open>append_part\<close>, in terms of the state before.\<close>

lemma append_part:
  assumes "good m" "p < size_of m"
  shows "\<exists>m1 r. append_part p start m = (m1, size_of m) \<and> size_of m1 = size_of m + 1 \<and>
    part m1 (size_of m) = r \<and> (\<exists>k te at. r = (new_part p start k)\<lparr>content_transfer_encoding := te, content_type_attr := at\<rparr>) \<and>
    (\<forall>q < size_of m. part m1 q = relink m p q)"
proof -
  obtain m1 k where "append_part_noinherit p start m = (m1, size_of m)" "size_of m1 = size_of m + 1"
    "part m1 (size_of m) = new_part p start k" "\<forall>q < size_of m. part m1 q = relink m p q"
    using append_part_noinherit [of m p start] assms by (auto simp: good_def)
  then show ?thesis unfolding append_part_def by (fastforce simp: part_set_part)
qed

lemma relink_path: "size_of m1 = size_of m + 1 \<Longrightarrow> (\<And>q. q < size_of m \<Longrightarrow> part m1 q = relink m p q) \<Longrightarrow> p' < size_of m \<Longrightarrow>
    path m1 p' = path m p'"
  by (rule path_cong) simp

lemma advances_boundary:
  assumes g: "good m" and sp: "on_spine m p" and l: "lastpart (part m p) = Some l" and n: "n \<le> length c"
  shows "advances (length c) m (at_boundary c n p l cb m)"
proof (cases "last_boundary c n cb")
  case True
  have t: "tree_ok m" and p: "p < size_of m" using g good_spine [OF g sp] by (auto simp: good_def)
  have "l \<noteq> p" "l < size_of m" using tree_lastpart [OF t p l] by auto
  then have "advances (length c) m (update_counts p (endpos (part m p) + length c) (endpos (part m p) + length c) 1
      (set_part l (\<lambda>r. r\<lparr>workclosed := True\<rparr>) m))"
    using l by (intro advances_counts [OF g sp set_part_links]) (auto simp: links_def part_set_part)
  then show ?thesis using True by (simp add: at_boundary_def Let_def)
next
  case False
  have p: "p < size_of m" using good_spine [OF g sp] by auto
  let ?e = "endpos (part m p)"
  obtain m1 r k te atts where m1: "append_part p (?e + length c) m = (m1, size_of m)" "size_of m1 = size_of m + 1" "part m1 (size_of m) = r"
    "r = (new_part p (?e + length c) k)\<lparr>content_transfer_encoding := te, content_type_attr := atts\<rparr>"
    "\<forall>q < size_of m. part m1 q = relink m p q" using append_part [OF g p] by blast
  let ?m2 = "update_counts p (?e + length c) (?e + n) 1 m1"
  let ?m3 = "set_part (size_of m) (\<lambda>r. r\<lparr>mime_version := mime_version (part ?m2 p)\<rparr>) ?m2"
  have pa: "path m1 p = path m p" by (rule relink_path [OF m1(2) _ p]) (use m1(5) in simp)
  have nin: "size_of m \<notin> set (path m p)" using path_le [of "size_of m" m p] p by auto
  have P: "part ?m2 q = (if q \<in> set (path m p) then counted (?e + length c) (?e + n) 1 (part m1 q) else part m1 q)" for q
    using part_update_counts [of p m1] p m1(2) pa by simp
  have "advances (length c) m ?m3"
    by (rule advances_grow [OF g sp n, of _ k 1])
      (use m1 P nin in \<open>auto simp: part_set_part places_def links_def new_part_def\<close>)
  then show ?thesis using False m1(1) by (simp add: at_boundary_def Let_def)
qed

lemma parent_type_quiet:
  assumes "quiet {} m m'" "p < size_of m"
  shows "parent_type m' p = parent_type m p"
proof -
  have "up m' p = up m p" using quiet_fields(1) [OF assms] by (simp add: up_def)
  moreover have "content_type (part m' r) = content_type (part m r)" if "up m p = Some r" for r
  proof -
    have "core (part m' r) = core (part m r)" using assms up_less [OF that] by (simp add: quiet_def)
    then show ?thesis by (rule core_fields)
  qed
  ultimately show ?thesis by (simp add: parent_type_def split: option.split)
qed

lemma body_line_counts:
  assumes "good m" "on_spine m p" "lastpart (part m p) = None"
  shows "\<exists>m2. quiet {} m m2 \<and> body_line c n bit8 p m =
    update_counts p (endpos (part m p) + length c) (endpos (part m p) + (if multipart_nocase (parent_type m p) then n else length c)) 1 m2"
proof -
  let ?m1 = "if bit8 \<and> \<not> content_8bit (part m p) \<and> rfcviolation (part m p) AND RFC2045_ERR8BITCONTENT = 0
      then along (path m p) (set_violation RFC2045_ERR8BITCONTENT) m else m"
  let ?m2 = "if rfc2045acptr (part ?m1 0) \<and> \<not> isdummy (part ?m1 p) then do_rwprep c ?m1 else ?m1"
  have q1: "quiet {} m ?m1" and q12: "quiet {} ?m1 ?m2" by (simp_all add: quiet_along_violation quiet_do_rwprep)
  have q: "quiet {} m ?m2" by (rule quiet_trans [OF q1 q12])
  have p: "p < size_of m" using good_spine [OF assms(1,2)] by simp
  have d: "down ?m1 p = None" using same_down [OF quiet_links [OF q1] p] assms(3) down_lastpart [OF assms(1,2)] by simp
  have par: "parent_type ?m1 p = parent_type m p" by (rule parent_type_quiet [OF q1 p])
  have "body_line c n bit8 p m = update_counts p (endpos (part ?m2 p) + length c)
      (endpos (part ?m2 p) + (if multipart_nocase (parent_type ?m1 p) then n else length c)) 1 ?m2"
    unfolding body_line_def Let_def using d by (simp only: option.case if_True)
  then show ?thesis using q unfolding par quiet_fields(5) [OF q p] by blast
qed

lemma advances_body:
  assumes g: "good m" and sp: "on_spine m p" and l: "lastpart (part m p) = None" and n: "n \<le> length c"
  shows "advances (length c) m (body_line c n bit8 p m)"
proof -
  let ?k = "if multipart_nocase (parent_type m p) then n else length c"
  obtain m2 where q: "quiet {} m m2" and e: "body_line c n bit8 p m =
      update_counts p (endpos (part m p) + length c) (endpos (part m p) + ?k) 1 m2"
    using body_line_counts [OF g sp l, of c n bit8] by blast
  have pl: "same_places m m2" by (rule quiet_places [OF q])
  have p: "p < size_of m" using good_spine [OF g sp] by simp
  have g2: "good m2" using g pl same_positions [OF pl] same_tree_ok [OF same_places_links [OF pl]] by (simp add: good_def)
  have s2: "on_spine m2 p" using same_spine [OF pl] g sp by (simp add: good_def)
  have "advances (length c) m2 (update_counts p (endpos (part m2 p) + length c) (endpos (part m2 p) + ?k) 1 m2)"
    by (rule advances_update [OF g2 s2]) (use n l quiet_fields(12) [OF q p] in auto)
  then show ?thesis using advances_after [OF g pl] quiet_fields(5) [OF q p] unfolding e by simp
qed

lemma advances_then:
  "advances k m m1 \<Longrightarrow> size_of m1 = size_of m \<Longrightarrow> advances j m1 m2 \<Longrightarrow> advances (k + j) m m2"
  by (simp add: advances_def)

lemma good_places: "good m \<Longrightarrow> same_places m m' \<Longrightarrow> good m'"
  by (simp add: good_def same_positions same_tree_ok [OF same_places_links])

lemma quiet_section_type: "quiet {p} m (section_type p m)"
proof -
  have q: "quiet {p} m' (set_part p f m')" if "\<And>r. shape (f r) = shape r" for f m'
    by (rule quiet_set_part) (use that in auto)
  have n: "shape (no_mime r) = shape r" "shape (r\<lparr>content_type := t\<rparr>) = shape r" "shape (r\<lparr>boundary := b\<rparr>) = shape r" for r t b
    by (simp_all add: shape_def core_def no_mime_def)
  let ?m1 = "if RFC2045_ISMIME1 (mime_version (part m p)) then m else set_part p no_mime m"
  let ?m2 = "if RFC2045_ISMIME1 (mime_version (part ?m1 p)) \<and> content_type (part ?m1 p) = None
      then set_part p (\<lambda>r. r\<lparr>content_type := Some (default_type ?m1 p)\<rparr>) ?m1 else ?m1"
  have "quiet {p} m ?m1" using q n(1) by simp
  also have "quiet {p} ?m1 ?m2" by (cases "RFC2045_ISMIME1 (mime_version (part ?m1 p)) \<and> content_type (part ?m1 p) = None") (use q n(2) in auto)
  also have "quiet {p} ?m2 (if multipart (content_type (part ?m2 p)) then ?m2 else set_part p (\<lambda>r. r\<lparr>boundary := None\<rparr>) ?m2)"
    using q n(3) by (cases "multipart (content_type (part ?m2 p))") auto
  finally show ?thesis unfolding section_type_def Let_def .
qed

lemma quiet_start_rwprep: "quiet P m (start_rwprep p m)"
  by (rule quiet_message) (simp add: start_rwprep_def)

lemma advances_start_body:
  assumes g: "good m" and sp: "on_spine m p" and s: "startbody (part m p) = endpos (part m p)"
    and e: "\<And>q. q \<in> set (path m p) \<Longrightarrow> endbody (part m q) = endpos (part m p)"
  shows "advances 0 m (start_body p m)"
proof -
  have t: "tree_ok m" "positions_ok m" using g by (simp_all add: good_def)
  have p: "p < size_of m" using good_spine [OF g sp] by simp
  have grow: "advances 0 m m'" if n: "size_of m' = size_of m + 1" "places (part m' (size_of m)) = places (new_part p (startbody (part m p)) j)"
    "\<forall>q < size_of m. part m' q = relink m p q" for m' j
  proof (rule advances_grow [OF g sp _ n(1), of 0 0 j 0])
    fix q
    assume q: "q < size_of m"
    show "places (part m' q) = places (if q \<in> set (path m p) then counted (endpos (part m p) + 0) (endpos (part m p) + 0) 0 (relink m p q) else relink m p q)"
      using n(3) q spine_path [OF sp t, of q] e [of q] by (auto simp: places_def links_def)
  qed (use n(2) s in auto)
  obtain m1 k where m1: "append_part_noinherit p (startbody (part m p)) m = (m1, size_of m)" "size_of m1 = size_of m + 1"
    "part m1 (size_of m) = new_part p (startbody (part m p)) k" "\<forall>q < size_of m. part m1 q = relink m p q"
    using append_part_noinherit [OF t(1) p] by blast
  obtain m2 r j te atts where m2: "append_part p (startbody (part m p)) m = (m2, size_of m)" "size_of m2 = size_of m + 1" "part m2 (size_of m) = r"
    "r = (new_part p (startbody (part m p)) j)\<lparr>content_transfer_encoding := te, content_type_attr := atts\<rparr>"
    "\<forall>q < size_of m. part m2 q = relink m p q" using append_part [OF g p] by blast
  have a: "advances 0 m (set_part (size_of m) (\<lambda>r. r\<lparr>workinheader := True\<rparr>) m1)"
    by (rule grow [of _ k]) (use m1 in \<open>auto simp: part_set_part places_def links_def\<close>)
  have b: "advances 0 m (set_part (size_of m) (\<lambda>r. r\<lparr>workinheader := False, isdummy := True\<rparr>) m2)"
    by (rule grow [of _ j]) (use m2 in \<open>auto simp: part_set_part places_def links_def\<close>)
  have c: "advances 0 m (if rfc2045acptr (part m 0) then start_rwprep p m else m)"
    using advances_places [OF g quiet_places [OF quiet_start_rwprep]] advances_places [OF g quiet_places [OF quiet_refl]] by simp
  show ?thesis unfolding start_body_def using a b c m1(1) m2(1) by simp
qed

text \<open>The state at the end of a header, before the body is begun.\<close>

definition header_done :: "(byte list \<Rightarrow> bool) \<Rightarrow> bool \<Rightarrow> byte list \<Rightarrow> nat \<Rightarrow> message \<Rightarrow> message" where
  "header_done mem reformime c p m =
     (let m = do_header mem reformime p m;
          s = endpos (part m p) + length c;
          m = update_counts p s s 1 (set_part p (\<lambda>r. r\<lparr>workinheader := False, startbody := s\<rparr>) m)
      in section_type p (set_part p (\<lambda>r. r\<lparr>nbodylines := nbodylines r - 1\<rparr>) m))"

lemma end_of_header_done: "end_of_header mem reformime c p m = start_body p (header_done mem reformime c p m)"
  by (simp add: end_of_header_def header_done_def Let_def)

lemma header_done:
  assumes g: "good m" and sp: "on_spine m p" and l: "lastpart (part m p) = None"
  shows "advances (length c) m (header_done mem reformime c p m) \<and> size_of (header_done mem reformime c p m) = size_of m \<and>
    on_spine (header_done mem reformime c p m) p \<and>
    startbody (part (header_done mem reformime c p m) p) = endpos (part (header_done mem reformime c p m) p) \<and>
    (\<forall>q\<in>set (path (header_done mem reformime c p m) p).
      endbody (part (header_done mem reformime c p m) q) = endpos (part (header_done mem reformime c p m) p))"
proof -
  let ?m1 = "do_header mem reformime p m"
  let ?s = "endpos (part ?m1 p) + length c"
  let ?m2 = "set_part p (\<lambda>r. r\<lparr>workinheader := False, startbody := ?s\<rparr>) ?m1"
  let ?m3 = "update_counts p ?s ?s 1 ?m2"
  let ?m4 = "set_part p (\<lambda>r. r\<lparr>nbodylines := nbodylines r - 1\<rparr>) ?m3"
  let ?m5 = "section_type p ?m4"
  have p: "p < size_of m" using good_spine [OF g sp] by simp
  have pl: "same_places m ?m1" by (rule quiet_places [OF quiet_do_header])
  have g1: "good ?m1" by (rule good_places [OF g pl])
  have sp1: "on_spine ?m1 p" using same_spine [OF pl] g sp by (simp add: good_def)
  have p1: "p < size_of ?m1" using p same_places_size [OF pl] by simp
  have l1: "lastpart (part ?m1 p) = None" using quiet_fields(12) [OF quiet_do_header p] l by simp
  have st: "startpos (part ?m1 p) \<le> endpos (part ?m1 p)" using positions_okD(1-3) [of ?m1 p] g1 p1 by (simp add: good_def)
  have l12: "same_links ?m1 ?m2" by (rule set_part_links) (simp add: links_def)
  have a3: "advances (length c) ?m1 ?m3"
    by (rule advances_counts [OF g1 sp1 l12]) (use l1 st p1 in \<open>auto simp: part_set_part\<close>)
  have g3: "good ?m3" using a3 by (simp add: advances_def)
  have pa: "path ?m2 p = path ?m1 p" by (rule same_path [OF l12 p1])
  have P3: "part ?m3 q = (if q \<in> set (path ?m1 p) then counted ?s ?s 1 (part ?m2 q) else part ?m2 q)" for q
    using part_update_counts [of p ?m2] p1 pa by simp
  have "same_places ?m3 ?m4" by (rule set_part_places) (simp add: places_def links_def)
  also have "same_places ?m4 ?m5" by (rule quiet_places [OF quiet_section_type])
  finally have pl35: "same_places ?m3 ?m5" .
  have pa5: "path ?m5 p = path ?m1 p"
    using same_path [OF same_places_links [OF pl35], of p] same_path [OF update_counts_links [of ?m2 p ?s ?s 1], of p] pa p1 by simp
  have "on_spine ?m3 p"
    by (rule spine_cong [OF same_links_trans [OF l12 update_counts_links] _ _ sp1]) (use P3 g1 in \<open>auto simp: part_set_part good_def\<close>)
  then have sp5: "on_spine ?m5 p" using same_spine [OF pl35] g3 by (simp add: good_def)
  note F = same_places_fields [OF pl35]
  have sb: "startbody (part ?m5 p) = endpos (part ?m5 p)" using F(2,3) [of p] P3 [of p] p1 by (simp add: part_set_part)
  have eb: "endbody (part ?m5 q) = endpos (part ?m5 p)" if "q \<in> set (path ?m5 p)" for q
  proof -
    have q: "q \<in> set (path ?m1 p)" "q < size_of ?m1" using that pa5 path_le [of q ?m1 p] p1 by auto
    then show ?thesis using F(4) [of q] F(2) [of p] P3 [of q] P3 [of p] p1 by simp
  qed
  have "advances (length c) m ?m5"
    by (rule advances_before [OF g advances_after [OF g pl a3] pl35])
  moreover have "size_of ?m5 = size_of m" using same_places_size [OF pl35] same_places_size [OF pl] by simp
  ultimately show ?thesis using sp5 sb eb unfolding header_done_def Let_def by blast
qed

lemma advances_end_of_header:
  assumes "good m" "on_spine m p" "lastpart (part m p) = None"
  shows "advances (length c) m (end_of_header mem reformime c p m)"
proof -
  note h = header_done [OF assms, of c mem reformime]
  have "advances 0 (header_done mem reformime c p m) (end_of_header mem reformime c p m)"
    unfolding end_of_header_done by (rule advances_start_body) (use h in \<open>auto simp: advances_def\<close>)
  from advances_then [OF _ _ this] h show ?thesis by fastforce
qed

lemma advances_header_line:
  assumes g: "good m" and sp: "on_spine m p" and l: "lastpart (part m p) = None" and n: "n \<le> length c"
  shows "advances (length c) m (header_line mem reformime c n p m)"
proof -
  let ?m1 = "update_counts p (endpos (part m p) + length c) (endpos (part m p) + n) 1 m"
  let ?m2 = "if isspace (at c 0) then set_part p (\<lambda>r. r\<lparr>header := header r @ [32]\<rparr>) ?m1
      else set_part p (\<lambda>r. r\<lparr>header := []\<rparr>) (do_header mem reformime p ?m1)"
  let ?m3 = "set_part p (\<lambda>r. r\<lparr>header := header r @ take n c\<rparr>) ?m2"
  have a: "advances (length c) m ?m1" by (rule advances_update [OF g sp n]) (simp add: l)
  have s: "quiet {p} m' (set_part p (\<lambda>r. r\<lparr>header := f r\<rparr>) m')" for f m'
    by (rule quiet_set_part) (simp_all add: shape_def core_def)
  have "quiet {p} ?m1 ?m2" using s quiet_trans [OF quiet_do_header s] by simp
  also have "quiet {p} ?m2 ?m3" by (rule s)
  finally have "advances (length c) m ?m3" by (intro advances_before [OF g a] quiet_places)
  then show ?thesis unfolding header_line_def Let_def .
qed

lemma advances_section_line:
  assumes g: "good m" and sp: "on_spine m p" and l: "lastpart (part m p) = None"
  shows "advances (length c) m (section_line mem reformime c p m)"
proof -
  let ?b = "\<exists>x\<in>set c. x AND 0x80 \<noteq> 0"
  let ?m1 = "if ?b \<and> rfcviolation (part m p) AND RFC2045_ERR8BITHEADER = 0
      then along (path m p) (set_violation RFC2045_ERR8BITHEADER) m else m"
  have q: "quiet {} m ?m1" by (simp add: quiet_along_violation)
  have p: "p < size_of m" using good_spine [OF g sp] by simp
  have pl: "same_places m ?m1" by (rule quiet_places [OF q])
  have g1: "good ?m1" by (rule good_places [OF g pl])
  have s1: "on_spine ?m1 p" using same_spine [OF pl] g sp by (simp add: good_def)
  have l1: "lastpart (part ?m1 p) = None" using quiet_fields(12) [OF q p] l by simp
  show ?thesis
    using advances_body [OF g sp l stripped_le [of c]] advances_after [OF g pl advances_end_of_header [OF g1 s1 l1, of c]]
      advances_after [OF g pl advances_header_line [OF g1 s1 l1 stripped_le [of c]]]
    unfolding section_line_def Let_def by presburger
qed

subsection \<open>Lines and pieces of the input\<close>

lemma advances_line:
  assumes g: "good m" and sp: "on_spine m p"
  shows "advances (length c) m (case drill c (stripped c) m p of (m, None) \<Rightarrow> m | (m, Some p) \<Rightarrow> section_line mem reformime c p m)"
proof -
  obtain m' res where d: "drill c (stripped c) m p = (m', res)" by fastforce
  from drill_cases [OF g sp d] obtain q where q: "on_spine m q"
    "res = Some q \<and> m' = m \<and> lastpart (part m q) = None \<or>
     res = None \<and> (\<exists>l. lastpart (part m q) = Some l \<and>
       (workclosed (part m l) \<and> m' = update_counts q (endpos (part m q) + length c) (endpos (part m q) + stripped c) 1 m \<or>
        (\<exists>cb. boundary (part m q) = Some cb \<and> \<not> workinheader (part m q) \<and> boundary_line c (stripped c) cb \<and>
          m' = at_boundary c (stripped c) q l cb m)))" by blast
  from q(2) show ?thesis
    using advances_section_line [OF g q(1)] advances_update [OF g q(1) stripped_le [of c]] advances_boundary [OF g q(1) _ stripped_le [of c]]
    unfolding d by auto
qed

lemma doline_advances:
  assumes g: "good m" and few: "numparts (part m 0) \<le> MAXPARTS"
  shows "advances (length (workbuf (part m 0))) m (doline mem reformime m)"
proof -
  let ?c = "no_NUL (workbuf (part m 0))"
  have l: "length ?c = length (workbuf (part m 0))" by (simp add: no_NUL_def)
  note D = advances_line [where c = ?c and mem = mem and reformime = reformime, unfolded l]
  have E: "doline mem reformime m = (case (case form_data m 0 of None \<Rightarrow> (m, 0) | Some q \<Rightarrow> (set_part q (\<lambda>r. r\<lparr>informdata := False\<rparr>) m, q)) of
      (m, p) \<Rightarrow> (case drill ?c (stripped ?c) m p of (m, None) \<Rightarrow> m | (m, Some p) \<Rightarrow> section_line mem reformime ?c p m))"
    using few by (simp add: doline_def Let_def)
  show ?thesis
  proof (cases "form_data m 0")
    case None
    then show ?thesis using D [OF g spine_root] by (simp add: E)
  next
    case (Some q)
    let ?m = "set_part q (\<lambda>r. r\<lparr>informdata := False\<rparr>) m"
    have sq: "on_spine m q" by (rule form_data_spine [OF g spine_root Some])
    have pl: "same_places m ?m" by (rule set_part_places) (simp add: places_def links_def)
    have gm: "good ?m" by (rule good_places [OF g pl])
    have "on_spine ?m q" using same_spine [OF pl _ sq] g by (simp add: good_def)
    from advances_after [OF g pl D [OF gm this]] show ?thesis by (simp add: E Some)
  qed
qed

lemma doline_too_complex:
  "MAXPARTS < numparts (part m 0) \<Longrightarrow> doline mem reformime m = set_part 0 (set_violation RFC2045_ERR2COMPLEX) m"
  by (simp add: doline_def)

lemma violation_places: "same_places m (set_part p (set_violation v) m)"
  by (rule set_part_places) (simp add: places_def links_def set_violation_def)

lemma workbuf_places: "same_places m (set_workbuf s m)" "same_places m (add_workbuf s m)"
  unfolding set_workbuf_def add_workbuf_def by (rule set_part_places; simp add: places_def links_def)+

lemma doline_good: "good m \<Longrightarrow> good (doline mem reformime m)"
  using doline_advances [of m mem reformime] doline_too_complex [of m mem reformime] good_places [OF _ violation_places]
  by (cases "numparts (part m 0) \<le> MAXPARTS") (auto simp: advances_def not_le)

text \<open>How much of the input has been looked at: what is counted and what waits in the buffer.\<close>

definition consumed :: "message \<Rightarrow> nat" where
  "consumed m = endpos (part m 0) + length (workbuf (part m 0))"

definition too_complex :: "message \<Rightarrow> bool" where
  "too_complex m \<longleftrightarrow> MAXPARTS < numparts (part m 0)"

lemma innermost_spine: "on_spine m p \<Longrightarrow> on_spine m (innermost m p)"
proof (induction m p rule: innermost.induct)
  case (1 m p)
  then show ?case by (cases "open_child m p") (auto simp: innermost.simps [of m p] intro: spine_down)
qed

lemma innermost_closed: "lastpart (part m (innermost m p)) = Some l \<Longrightarrow> tree_ok m \<Longrightarrow> on_spine m p \<Longrightarrow> workclosed (part m l)"
proof (induction m p rule: innermost.induct)
  case (1 m p)
  show ?case
  proof (cases "open_child m p")
    case None
    then show ?thesis using 1(2) open_child_Some [OF 1(3) spine_less [OF 1(4,3)], of l] by (auto simp: innermost.simps [of m p])
  next
    case (Some q)
    then show ?thesis using 1(1) [OF Some _ 1(3) spine_down [OF 1(4) Some]] 1(2) by (simp add: innermost.simps [of m p])
  qed
qed

end
