(* ===== verification/Mime_Input.thy ===== *)
theory Mime_Input imports Mime_Lines begin

text \<open>
  What holds of the structure for any input: its shape, that it accounts for every byte, how large it
  gets, and that it does not matter how the input is cut.
\<close>

subsection \<open>The parser on its input\<close>

lemma part_set_workbuf: "tree_ok m \<Longrightarrow> part (set_workbuf s m) 0 = (part m 0)\<lparr>workbuf := s\<rparr>"
  "tree_ok m \<Longrightarrow> part (add_workbuf s m) 0 = (part m 0)\<lparr>workbuf := workbuf (part m 0) @ s\<rparr>"
  using tree_root [of m] by (simp_all add: set_workbuf_def add_workbuf_def part_set_part)

lemma size_workbuf [simp]: "size_of (set_workbuf s m) = size_of m" "size_of (add_workbuf s m) = size_of m"
  by (simp_all add: set_workbuf_def add_workbuf_def)

text \<open>A line: the buffer is handed on and emptied.\<close>

definition take_line :: "(byte list \<Rightarrow> bool) \<Rightarrow> bool \<Rightarrow> byte list \<Rightarrow> message \<Rightarrow> message" where
  "take_line mem reformime line m = set_workbuf [] (doline mem reformime (add_workbuf line m))"

lemma tree_numparts: "tree_ok m \<Longrightarrow> size_of m = numparts (part m 0) + 1"
  by (simp add: tree_ok_def)

text \<open>What every step keeps: good structures of bounded number, and all bytes counted until it gets too complex.\<close>

definition step_ok :: "nat \<Rightarrow> message \<Rightarrow> message \<Rightarrow> bool" where
  "step_ok k m m' \<longleftrightarrow> good m' \<and> size_of m \<le> size_of m' \<and> size_of m' \<le> max (size_of m) (MAXPARTS + 2) \<and>
     (too_complex m' \<or> consumed m' = consumed m + k)"

lemma step_ok_refl: "good m \<Longrightarrow> step_ok 0 m m"
  by (simp add: step_ok_def)

lemma step_ok_trans: "good m \<Longrightarrow> step_ok i m m' \<Longrightarrow> step_ok j m' m'' \<Longrightarrow> step_ok (i + j) m m''"
  using tree_numparts [of m'] tree_numparts [of m''] by (auto simp: step_ok_def good_def too_complex_def)

lemma add_workbuf_ok:
  assumes "good m"
  shows "step_ok (length s) m (add_workbuf s m)"
proof -
  have t: "tree_ok m" using assms by (simp add: good_def)
  show ?thesis using good_places [OF assms workbuf_places(2)]
    by (simp add: step_ok_def consumed_def part_set_workbuf [OF t])
qed

lemma take_line_ok:
  assumes g: "good m"
  shows "step_ok (length line) m (take_line mem reformime line m)"
proof -
  let ?m = "add_workbuf line m"
  let ?d = "doline mem reformime ?m"
  have t: "tree_ok m" using g by (simp add: good_def)
  have gm: "good ?m" by (rule good_places [OF g workbuf_places(2)])
  have gd: "good ?d" by (rule doline_good [OF gm])
  then have td: "tree_ok ?d" by (simp add: good_def)
  have g': "good (take_line mem reformime line m)" unfolding take_line_def by (rule good_places [OF gd workbuf_places(1)])
  have n: "numparts (part ?m 0) = numparts (part m 0)" by (simp add: part_set_workbuf [OF t])
  show ?thesis
  proof (cases "numparts (part ?m 0) \<le> MAXPARTS")
    case True
    from doline_advances [OF gm this, of mem reformime] show ?thesis
      using g' tree_numparts [OF t] True n by (auto simp: step_ok_def take_line_def advances_def consumed_def part_set_workbuf [OF td] part_set_workbuf [OF t])
  next
    case False
    then have d: "?d = set_part 0 (set_violation RFC2045_ERR2COMPLEX) ?m" by (simp add: doline_too_complex)
    have nd: "numparts (part ?d 0) = numparts (part m 0)" unfolding d using tree_root [OF t] n by (simp add: part_set_part set_violation_def)
    have "too_complex (take_line mem reformime line m)"
      unfolding take_line_def too_complex_def part_set_workbuf(1) [OF td] using nd False n by simp
    moreover have "size_of (take_line mem reformime line m) = size_of m" unfolding take_line_def size_workbuf d by simp
    ultimately show ?thesis using g' by (simp add: step_ok_def)
  qed
qed

lemma parse_lines_take:
  "parse_lines mem reformime buf m =
     (if buf = [] then m
      else let line = takeWhile (\<lambda>c. c \<noteq> NL) buf; rest = dropWhile (\<lambda>c. c \<noteq> NL) buf in
        if rest \<noteq> [] then parse_lines mem reformime (tl rest) (take_line mem reformime (line @ [NL]) m) else add_workbuf line m)"
  by (subst parse_lines.simps) (simp only: take_line_def dropWhile_eq_drop Let_def)

lemma parse_lines_ok: "good m \<Longrightarrow> step_ok (length buf) m (parse_lines mem reformime buf m)"
proof (induction buf arbitrary: m rule: length_induct)
  case (1 buf)
  let ?line = "takeWhile (\<lambda>c. c \<noteq> NL) buf" and ?rest = "dropWhile (\<lambda>c. c \<noteq> NL) buf"
  have len: "length ?line + length ?rest = length buf" by (metis length_append takeWhile_dropWhile_id)
  show ?case
  proof (cases "buf = [] \<or> ?rest = []")
    case True
    then show ?thesis using step_ok_refl [OF 1(2)] add_workbuf_ok [OF 1(2), of ?line] len
      by (subst parse_lines_take) (auto simp: Let_def simp del: dropWhile_eq_Nil_conv)
  next
    case False
    let ?m = "take_line mem reformime (?line @ [NL]) m"
    have s: "step_ok (length (?line @ [NL])) m ?m" by (rule take_line_ok [OF 1(2)])
    then have "good ?m" by (simp add: step_ok_def)
    moreover have "length (tl ?rest) < length buf" using False len by (cases ?rest) auto
    ultimately have "step_ok (length (tl ?rest)) ?m (parse_lines mem reformime (tl ?rest) ?m)" using 1(1) by blast
    from step_ok_trans [OF 1(2) s this]
    have "step_ok (length (?line @ [NL]) + length (tl ?rest)) m (parse_lines mem reformime (tl ?rest) ?m)" .
    moreover have "length (?line @ [NL]) + length (tl ?rest) = length buf" using False len by (cases ?rest) auto
    moreover have "parse_lines mem reformime buf m = parse_lines mem reformime (tl ?rest) ?m"
      using False by (subst parse_lines_take) (simp only: Let_def if_False if_True de_Morgan_disj not_not simp_thms)
    ultimately show ?thesis by (simp only:)
  qed
qed

lemma parse_partial_ok:
  assumes g: "good m"
  shows "step_ok 0 m (rfc2045_parse_partial m)" "length (workbuf (part (rfc2045_parse_partial m) 0)) \<le> 1"
proof -
  let ?b = "workbuf (part m 0)"
  let ?p = "innermost m 0"
  let ?l = "if last ?b = CR then length ?b - 1 else length ?b"
  let ?m1 = "if rfc2045acptr (part m 0) \<and> \<not> workinheader (part m ?p) \<and>
      (case down m ?p of None \<Rightarrow> True | Some q \<Rightarrow> \<not> workclosed (part m q)) then do_rwprep (take ?l ?b) m else m"
  let ?m2 = "update_counts ?p (endpos (part ?m1 ?p) + ?l) (endpos (part ?m1 ?p) + ?l) 0 ?m1"
  let ?m3 = "set_part ?p (\<lambda>r. r\<lparr>informdata := True\<rparr>) ?m2"
  have t: "tree_ok m" using g by (simp add: good_def)
  have sp: "on_spine m ?p" by (rule innermost_spine [OF spine_root])
  have p: "?p < size_of m" by (rule spine_less [OF sp t])
  have q1: "quiet {} m ?m1" by (simp add: quiet_do_rwprep)
  have pl1: "same_places m ?m1" by (rule quiet_places [OF q1])
  have g1: "good ?m1" by (rule good_places [OF g pl1])
  have sp1: "on_spine ?m1 ?p" by (rule same_spine [OF pl1 t sp])
  have c1: "workclosed (part ?m1 l)" if l: "lastpart (part ?m1 ?p) = Some l" for l
  proof -
    have "lastpart (part m ?p) = Some l" using quiet_fields(12) [OF q1 p] l by simp
    from innermost_closed [OF this t spine_root] tree_lastpart [OF t p this] show ?thesis using quiet_fields(15) [OF q1] by simp
  qed
  have a2: "advances ?l ?m1 ?m2" by (rule advances_update [OF g1 sp1 order_refl c1])
  have pl3: "same_places ?m2 ?m3" by (rule set_part_places) (simp add: places_def links_def)
  have a3: "advances ?l m ?m3" by (rule advances_before [OF g advances_after [OF g pl1 a2] pl3])
  then have t3: "tree_ok ?m3" by (simp add: advances_def good_def)
  have s3: "size_of ?m3 = size_of m" by (simp add: quiet_size [OF q1])
  define m3 where "m3 = ?m3"
  have e: "rfc2045_parse_partial m = (if ?b = [] then m else set_workbuf (drop ?l ?b) m3)"
    unfolding rfc2045_parse_partial_def Let_def m3_def ..
  note m3 = a3 [folded m3_def] t3 [folded m3_def] s3 [folded m3_def]
  note w = part_set_workbuf(1) [OF m3(2), of "drop ?l ?b"]
  have l: "?l \<le> length ?b" "length (drop ?l ?b) \<le> 1" by (cases "last ?b = CR"; auto)+
  have "good (set_workbuf (drop ?l ?b) m3)" using good_places [OF _ workbuf_places(1)] m3(1) by (simp add: advances_def)
  moreover have "consumed (set_workbuf (drop ?l ?b) m3) = consumed m"
    using m3(1) l(1) unfolding consumed_def w by (simp add: advances_def)
  ultimately show "step_ok 0 m (rfc2045_parse_partial m)"
    unfolding e using step_ok_refl [OF g] m3(3) by (simp add: step_ok_def)
  show "length (workbuf (part (rfc2045_parse_partial m) 0)) \<le> 1"
    unfolding e using w l(2) by simp
qed

lemma parse_ok:
  assumes g: "good m"
  shows "step_ok (length buf) m (rfc2045_parse mem reformime buf m)" "length (workbuf (part (rfc2045_parse mem reformime buf m) 0)) \<le> 1024"
proof -
  let ?m = "parse_lines mem reformime buf m"
  have s: "step_ok (length buf) m ?m" by (rule parse_lines_ok [OF g])
  then have gm: "good ?m" by (simp add: step_ok_def)
  show "step_ok (length buf) m (rfc2045_parse mem reformime buf m)"
    using s step_ok_trans [OF g s parse_partial_ok(1) [OF gm]] by (simp add: rfc2045_parse_def Let_def)
  show "length (workbuf (part (rfc2045_parse mem reformime buf m) 0)) \<le> 1024"
    using parse_partial_ok(2) [OF gm] by (simp add: rfc2045_parse_def Let_def)
qed

lemma fold_parse_ok:
  "good m \<Longrightarrow> length (workbuf (part m 0)) \<le> 1024 \<Longrightarrow>
    step_ok (length (concat bufs)) m (fold (rfc2045_parse mem reformime) bufs m) \<and>
    length (workbuf (part (fold (rfc2045_parse mem reformime) bufs m) 0)) \<le> 1024"
proof (induction bufs arbitrary: m)
  case Nil
  then show ?case using step_ok_refl by simp
next
  case (Cons b bufs)
  let ?m = "rfc2045_parse mem reformime b m"
  have s: "step_ok (length b) m ?m" by (rule parse_ok [OF Cons.prems(1)])
  then have "good ?m" by (simp add: step_ok_def)
  from Cons.IH [OF this parse_ok(2) [OF Cons.prems(1)]] show ?case using step_ok_trans [OF Cons.prems(1) s] by simp
qed

definition start :: "bool \<Rightarrow> message" where
  "start rewrite = (if rewrite then rfc2045_alloc_ac else new_message)"

lemma start_good: "good (start rewrite)" "size_of (start rewrite) = 1" "consumed (start rewrite) = 0" "workbuf (part (start rewrite) 0) = []"
  by (simp_all add: start_def rfc2045_alloc_ac_def new_message_def good_def tree_ok_def links_ok_def positions_ok_def
      section_ok_def part_def kids_def rfc2045_alloc_def consumed_def)

subsection \<open>The properties\<close>

text \<open>
  C2. Whatever the input and however it is cut: the pointers form a tree, in which first, last and next
  sections are in the order of their creation; every section begins with its header, then its body,
  lies within the body of the section around it and behind the end of the one before it; there are at
  most 302 of them, and the buffer for a line that goes on is at most 1024 bytes.
\<close>

theorem sections_nested:
  "case fold (rfc2045_parse mem reformime) bufs (start rewrite) of m \<Rightarrow>
     tree_ok m \<and> positions_ok m \<and> size_of m \<le> MAXPARTS + 2 \<and> length (workbuf (part m 0)) \<le> 1024"
  using fold_parse_ok [of "start rewrite" bufs mem reformime] start_good [of rewrite]
  by (simp add: step_ok_def good_def)

text \<open>
  C3. Every byte of the input is either counted as part of the message or waits in the buffer, until
  there are more than 300 sections.
\<close>

theorem input_counted:
  "case fold (rfc2045_parse mem reformime) bufs (start rewrite) of m \<Rightarrow>
     too_complex m \<or> endpos (part m 0) + length (workbuf (part m 0)) = length (concat bufs)"
  using fold_parse_ok [of "start rewrite" bufs mem reformime] start_good [of rewrite]
  by (auto simp: step_ok_def consumed_def)

subsection \<open>Cutting the input\<close>

text \<open>The length of the longest line, when \<open>k\<close> bytes of the first have been seen.\<close>

fun longest_line :: "byte list \<Rightarrow> nat \<Rightarrow> nat" where
  "longest_line [] k = k"
| "longest_line (c # s) k = (if c = NL then max k (longest_line s 0) else longest_line s (k + 1))"

lemma longest_line_plain: "NL \<notin> set a \<Longrightarrow> longest_line (a @ b) k = longest_line b (k + length a)"
  by (induction a arbitrary: k) auto

lemma longest_line_ge: "k \<le> longest_line s k"
proof (induction s arbitrary: k)
  case (Cons c s)
  show ?case using Cons [of "k + 1"] by simp
qed simp

lemma add_workbuf_after: "add_workbuf t (add_workbuf s m) = add_workbuf (s @ t) m"
  by (cases "heap m") (simp_all add: add_workbuf_def set_part_def)

lemma take_line_after: "take_line mem reformime line (add_workbuf s m) = take_line mem reformime (s @ line) m"
  by (simp add: take_line_def add_workbuf_after)

lemma cut_at_NL:
  "NL \<notin> set a \<Longrightarrow> takeWhile (\<lambda>c. c \<noteq> NL) (a @ NL # b) = a" "NL \<notin> set a \<Longrightarrow> dropWhile (\<lambda>c. c \<noteq> NL) (a @ NL # b) = NL # b"
  "NL \<notin> set a \<Longrightarrow> takeWhile (\<lambda>c. c \<noteq> NL) a = a" "NL \<notin> set a \<Longrightarrow> dropWhile (\<lambda>c. c \<noteq> NL) a = []"
  by (induction a) auto

lemma parse_lines_NL: "NL \<notin> set a \<Longrightarrow> parse_lines mem reformime (a @ NL # b) m = parse_lines mem reformime b (take_line mem reformime (a @ [NL]) m)"
  by (subst parse_lines_take) (simp add: Let_def cut_at_NL del: NL_def)

lemma parse_lines_plain: "NL \<notin> set a \<Longrightarrow> a \<noteq> [] \<Longrightarrow> parse_lines mem reformime a m = add_workbuf a m"
  by (subst parse_lines_take) (simp add: Let_def cut_at_NL del: NL_def)

lemma parse_lines_Nil [simp]: "parse_lines mem reformime [] m = m"
  by (subst parse_lines_take) simp

lemma parse_lines_buffered:
  assumes "NL \<notin> set a"
  shows "parse_lines mem reformime b (add_workbuf a m) = (if a @ b = [] then add_workbuf [] m else parse_lines mem reformime (a @ b) m)"
proof (cases "NL \<in> set b")
  case True
  then obtain x y where b: "b = x @ NL # y" "NL \<notin> set x" by (meson split_list_first)
  have "a @ b = (a @ x) @ NL # y" "NL \<notin> set (a @ x)" using assms b by auto
  then show ?thesis using parse_lines_NL [OF b(2), of mem reformime y "add_workbuf a m"] parse_lines_NL [of "a @ x" mem reformime y m]
      unfolding b(1) by (simp add: take_line_after)
next
  case False
  then show ?thesis using assms parse_lines_plain [of b] parse_lines_plain [of "a @ b"] parse_lines_plain [of a]
    by (cases "a = []"; cases "b = []") (auto simp: add_workbuf_after)
qed

lemma add_workbuf_Nil [simp]: "add_workbuf [] m = m"
  by (cases "heap m") (simp_all add: add_workbuf_def set_part_def)

lemma parse_lines_append:
  "parse_lines mem reformime (a @ b) m = parse_lines mem reformime b (parse_lines mem reformime a m)"
proof (induction a arbitrary: m rule: length_induct)
  case (1 a)
  show ?case
  proof (cases "NL \<in> set a")
    case True
    then obtain x y where a: "a = x @ NL # y" "NL \<notin> set x" by (meson split_list_first)
    then show ?thesis using 1 parse_lines_NL [OF a(2), of mem reformime "y @ b"] parse_lines_NL [OF a(2), of mem reformime y] by simp
  next
    case False
    then show ?thesis using parse_lines_buffered [OF False, of mem reformime b m] parse_lines_plain [OF False]
      by (cases "a = []") auto
  qed
qed

text \<open>The buffer holds what has been seen of the last line.\<close>

lemma parse_lines_workbuf:
  "good m \<Longrightarrow> longest_line (a @ b) (length (workbuf (part m 0))) \<le> n \<Longrightarrow>
    longest_line b (length (workbuf (part (parse_lines mem reformime a m) 0))) \<le> n"
proof (induction a arbitrary: m rule: length_induct)
  case (1 a)
  have t: "tree_ok m" using 1(2) by (simp add: good_def)
  show ?case
  proof (cases "NL \<in> set a")
    case True
    then obtain x y where a: "a = x @ NL # y" "NL \<notin> set x" by (meson split_list_first)
    let ?m = "take_line mem reformime (x @ [NL]) m"
    have g: "good ?m" using take_line_ok [OF 1(2)] by (simp add: step_ok_def)
    have "good (doline mem reformime (add_workbuf (x @ [NL]) m))"
      by (rule doline_good [OF good_places [OF 1(2) workbuf_places(2)]])
    then have w: "workbuf (part ?m 0) = []" unfolding take_line_def by (simp add: good_def part_set_workbuf)
    have "longest_line (y @ b) 0 \<le> n" using 1(3) a longest_line_plain [OF a(2), of "NL # y @ b"] by simp
    then show ?thesis using 1(1) g w a parse_lines_NL [OF a(2), of mem reformime y m] by simp
  next
    case False
    then show ?thesis using 1(3) parse_lines_plain [OF False, of mem reformime m] longest_line_plain [OF False, of b]
      by (cases "a = []") (simp_all add: part_set_workbuf [OF t])
  qed
qed

lemma fold_parse_lines:
  "good m \<Longrightarrow> longest_line (concat bufs) (length (workbuf (part m 0))) \<le> 1024 \<Longrightarrow>
    fold (rfc2045_parse mem reformime) bufs m = parse_lines mem reformime (concat bufs) m"
proof (induction bufs arbitrary: m)
  case (Cons b bufs)
  let ?m = "parse_lines mem reformime b m"
  have w: "longest_line (concat bufs) (length (workbuf (part ?m 0))) \<le> 1024" using parse_lines_workbuf [OF Cons.prems(1)] Cons.prems(2) by simp
  then have "length (workbuf (part ?m 0)) \<le> 1024" using longest_line_ge order_trans by blast
  then have "rfc2045_parse mem reformime b m = ?m" by (simp add: rfc2045_parse_def Let_def)
  moreover have "good ?m" using parse_lines_ok [OF Cons.prems(1)] by (simp add: step_ok_def)
  ultimately show ?case using Cons.IH [OF _ w] by (simp add: parse_lines_append)
qed simp

text \<open>
  C4. How the input is cut does not matter if no line is longer than 1024 bytes: the structure is the one
  that the whole input gives at once.
\<close>

theorem cuts_do_not_matter:
  assumes "longest_line (concat bufs) 0 \<le> 1024"
  shows "fold (rfc2045_parse mem reformime) bufs (start rewrite) = rfc2045_parse mem reformime (concat bufs) (start rewrite)"
  using fold_parse_lines [of "start rewrite" bufs] fold_parse_lines [of "start rewrite" "[concat bufs]"] start_good [of rewrite] assms
  by simp

theorem cuts_do_not_matter_witness:
  "fold (rfc2045_parse (\<lambda>_. True) False) [asc ''Mime-Ver'', asc ''sion: 1.0'' @ [NL, NL]] (start False) =
    rfc2045_parse (\<lambda>_. True) False (asc ''Mime-Version: 1.0'' @ [NL, NL]) (start False)"
proof -
  have "longest_line (concat [asc ''Mime-Ver'', asc ''sion: 1.0'' @ [NL, NL]]) 0 \<le> 1024" by simp
  from cuts_do_not_matter [OF this] show ?thesis by simp
qed

end
