(* ===== verification/Mime_Doc.thy ===== *)
theory Mime_Doc imports Mime_Input begin

text \<open>
  What a MIME document is and what its structure should be, without regard to how it is parsed: a
  document is a section with a body, a multipart of documents, or a message in a section, and its table
  of sections follows from the lengths of its lines. \<open>Mime_Exact\<close> shows that parsing the text of a
  document gives its table.
\<close>

subsection \<open>Documents\<close>

text \<open>
  Lines are without their newlines. A section has header lines and the lines of its body; a multipart
  has its header lines, the text of its boundary, the lines before the first boundary, its parts, and
  the lines behind the last boundary.
\<close>

datatype doc =
    Section "byte list list" "byte list list"
  | Multi "byte list list" "byte list" "byte list list" "doc list" "byte list list"
  | Message "byte list list" doc

definition dashes :: "byte list" where "dashes = asc ''--''"

fun doc_lines :: "doc \<Rightarrow> byte list list" where
  "doc_lines (Section hs body) = hs @ [] # body"
| "doc_lines (Multi hs b pre ds epi) =
     hs @ [] # pre @ concat (map (\<lambda>d. (dashes @ b) # doc_lines d) ds) @ (dashes @ b @ dashes) # epi"
| "doc_lines (Message hs d) = hs @ [] # doc_lines d"

definition text_of :: "byte list list \<Rightarrow> byte list" where
  "text_of ls = concat (map (\<lambda>l. l @ [NL]) ls)"

definition doc_text :: "doc \<Rightarrow> byte list" where
  "doc_text d = text_of (doc_lines d)"

abbreviation width :: "byte list list \<Rightarrow> nat" where "width ls \<equiv> length (text_of ls)"

subsection \<open>What headers say\<close>

text \<open>
  MIME version, content type and boundary of a section. What one header line makes of them does not
  depend on anything else, so it is read off the code for a message of one section.
\<close>

type_synonym fields = "byte list option \<times> byte list option \<times> byte list option"

definition fields :: "rfc2045 \<Rightarrow> fields" where
  "fields r = (mime_version r, content_type r, boundary r)"

definition section_with :: "fields \<Rightarrow> byte list \<Rightarrow> rfc2045" where
  "section_with f h = (case f of (mv, ct, b) \<Rightarrow> rfc2045_alloc\<lparr>mime_version := mv, content_type := ct, boundary := b, header := h\<rparr>)"

definition header_effect :: "(byte list \<Rightarrow> bool) \<Rightarrow> bool \<Rightarrow> byte list \<Rightarrow> fields \<Rightarrow> fields" where
  "header_effect mem reformime h f = fields (part (do_header mem reformime 0 (new_message\<lparr>heap := [section_with f h]\<rparr>)) 0)"

text \<open>The type of a section at the end of its header, given the type of the section around it.\<close>

definition typed :: "byte list option \<Rightarrow> fields \<Rightarrow> fields" where
  "typed outer f = (case f of (mv, ct, b) \<Rightarrow>
     let (ct, b) = (if RFC2045_ISMIME1 mv then (ct, b) else (None, None));
         ct = (if RFC2045_ISMIME1 mv \<and> ct = None
               then Some (if outer = Some (asc ''multipart/digest'') then asc ''message/rfc822'' else asc ''text/plain'') else ct)
     in (mv, ct, if multipart ct then b else None))"

definition section_fields :: "(byte list \<Rightarrow> bool) \<Rightarrow> bool \<Rightarrow> byte list list \<Rightarrow> byte list option \<Rightarrow> byte list option \<Rightarrow> fields" where
  "section_fields mem reformime hs mv outer = typed outer (fold (header_effect mem reformime) (map no_NUL hs) (mv, None, None))"

subsection \<open>Well-formed documents\<close>

text \<open>
  Lines of a document do not end in a carriage return, a header line begins with its name, and no line is
  a boundary of a multipart around it (\<open>bs\<close>). The header of a multipart gives its boundary, up to
  case. \<open>mv\<close> and \<open>outer\<close> are the MIME version that the section begins with and the type around it.
\<close>

definition plain_line :: "byte list list \<Rightarrow> byte list \<Rightarrow> bool" where
  "plain_line bs l \<longleftrightarrow> NL \<notin> set l \<and> (l = [] \<or> last l \<noteq> CR) \<and> (\<forall>b\<in>set bs. \<not> boundary_line (no_NUL l @ [NL]) (length l) b)"

definition name_line :: "byte list \<Rightarrow> bool" where
  "name_line l \<longleftrightarrow> l \<noteq> [] \<and> \<not> isspace (hd (no_NUL l))"

fun doc_ok :: "(byte list \<Rightarrow> bool) \<Rightarrow> bool \<Rightarrow> byte list list \<Rightarrow> byte list option \<Rightarrow> byte list option \<Rightarrow> doc \<Rightarrow> bool" where
  "doc_ok mem reformime bs mv outer (Section hs body) \<longleftrightarrow>
     list_all name_line hs \<and> list_all (plain_line bs) (hs @ [] # body) \<and>
     (case section_fields mem reformime hs mv outer of (_, ct, b) \<Rightarrow> ct \<noteq> Some (asc ''message/rfc822'') \<and> b = None)"
| "doc_ok mem reformime bs mv outer (Multi hs b pre ds epi) \<longleftrightarrow>
     list_all name_line hs \<and> list_all (plain_line bs) (hs @ [] # (dashes @ b) # (dashes @ b @ dashes) # epi) \<and>
     list_all (plain_line (b # bs)) pre \<and> 0 \<notin> set b \<and>
     (case section_fields mem reformime hs mv outer of (mv, ct, cb) \<Rightarrow>
        ct \<noteq> Some (asc ''message/rfc822'') \<and> (case cb of None \<Rightarrow> False | Some c \<Rightarrow> map tolower c = map tolower b) \<and>
        list_all (doc_ok mem reformime (b # bs) mv ct) ds)"
| "doc_ok mem reformime bs mv outer (Message hs d) \<longleftrightarrow>
     list_all name_line hs \<and> list_all (plain_line bs) (hs @ [[]]) \<and>
     (case section_fields mem reformime hs mv outer of (_, ct, b) \<Rightarrow>
        ct = Some (asc ''message/rfc822'') \<and> doc_ok mem reformime bs None ct d)"

subsection \<open>The table of sections\<close>

text \<open>
  A row: the section around it, where it begins, where its body begins, where it ends, the same without
  the newline that belongs to a boundary, whether it is the text before the first boundary, its type
  and boundary. \<open>n\<close> is the number of the first section of the document, \<open>pos\<close> where it begins.
\<close>

type_synonym row = "nat option \<times> nat \<times> nat \<times> nat \<times> nat \<times> bool \<times> byte list option \<times> byte list option"

definition row_of :: "rfc2045 \<Rightarrow> row" where
  "row_of r = (parent r, startpos r, startbody r, endpos r, endbody r, isdummy r, content_type r, boundary r)"

definition row_end :: "row \<Rightarrow> nat" where
  "row_end = (\<lambda>(_, _, _, _, e, _). e)"

text \<open>Where the body of lines that begins at \<open>s\<close> ends; in a multipart the last newline is not part of it.\<close>

definition body_end :: "byte list option \<Rightarrow> nat \<Rightarrow> byte list list \<Rightarrow> nat" where
  "body_end outer s ls = (if multipart_nocase outer \<and> ls \<noteq> [] then s + width ls - 1 else s + width ls)"

fun doc_table :: "(byte list \<Rightarrow> bool) \<Rightarrow> bool \<Rightarrow> byte list option \<Rightarrow> byte list option \<Rightarrow> nat option \<Rightarrow> nat \<Rightarrow> nat \<Rightarrow> doc \<Rightarrow> row list"
  and docs_table :: "(byte list \<Rightarrow> bool) \<Rightarrow> bool \<Rightarrow> byte list option \<Rightarrow> byte list option \<Rightarrow> nat \<Rightarrow> nat \<Rightarrow> nat \<Rightarrow> byte list \<Rightarrow> doc list \<Rightarrow> row list"
where
  "doc_table mem reformime mv outer par n pos (Section hs body) =
     (case section_fields mem reformime hs mv outer of (mv, ct, cb) \<Rightarrow>
        let s = pos + width (hs @ [[]])
        in [(par, pos, s, s + width body, body_end outer s body, False, ct, cb)])"
| "doc_table mem reformime mv outer par n pos (Multi hs b pre ds epi) =
     (case section_fields mem reformime hs mv outer of (mv, ct, cb) \<Rightarrow>
        let s = pos + width (hs @ [[]]); e = pos + width (doc_lines (Multi hs b pre ds epi))
        in (par, pos, s, e, if epi = [] then e else e - 1, False, ct, cb) #
           (Some n, s, s, s + width pre, body_end ct s pre, True, None, None) #
           docs_table mem reformime mv ct n (n + 2) (s + width pre) b ds)"
| "doc_table mem reformime mv outer par n pos (Message hs d) =
     (case section_fields mem reformime hs mv outer of (mv, ct, cb) \<Rightarrow>
        let s = pos + width (hs @ [[]]); t = doc_table mem reformime None ct (Some n) (n + 1) s d
        in (par, pos, s, s + width (doc_lines d), row_end (hd t), False, ct, cb) # t)"
| "docs_table mem reformime mv ct p n pos b [] = []"
| "docs_table mem reformime mv ct p n pos b (d # ds) =
     (let s = pos + width [dashes @ b]; t = doc_table mem reformime mv ct (Some p) n s d
      in t @ docs_table mem reformime mv ct p (n + length t) (s + width (doc_lines d)) b ds)"

end
