(* ===== verification/Mime_Events.thy ===== *)
theory Mime_Events imports Mime_Doc begin

text \<open>
  What one line of a document does to the structure, by the kind of line: what a header line makes of the
  fields of its section, and what a line of a body, a boundary, or the end of a header changes. Each is
  stated for a section on the spine, whatever else the structure holds.
\<close>

subsection \<open>Header lines act on fields\<close>

definition sim :: "nat \<Rightarrow> message \<Rightarrow> message \<Rightarrow> bool" where
  "sim p m m0 \<longleftrightarrow> p < size_of m \<and> 0 < size_of m0 \<and> fields (part m p) = fields (part m0 0)"

lemma sim_set_part:
  assumes "sim p m m0" "\<And>r r'. fields r = fields r' \<Longrightarrow> fields (f r) = fields (f r')"
  shows "sim p (set_part p f m) (set_part 0 f m0)"
proof -
  have "fields (f (part m p)) = fields (f (part m0 0))" by (rule assms(2)) (use assms(1) in \<open>simp add: sim_def\<close>)
  then show ?thesis using assms(1) by (simp add: sim_def part_set_part)
qed

lemma fields_update [simp]: "fields (r\<lparr>header := h\<rparr>) = fields r" "fields (r\<lparr>workbuf := h\<rparr>) = fields r"
  "fields (r\<lparr>workinheader := b\<rparr>) = fields r" "fields (r\<lparr>startbody := n\<rparr>) = fields r" "fields (r\<lparr>nbodylines := n\<rparr>) = fields r"
  "fields (r\<lparr>workclosed := b\<rparr>) = fields r"
  by (simp_all add: fields_def)

lemma fields_violation [simp]: "fields (set_violation v r) = fields r"
  by (simp add: fields_def set_violation_def)

lemma fields_check_boundary [simp]:
  "fields (part (check_boundary r b m) q) = fields (part m q)" "size_of (check_boundary r b m) = size_of m"
  by (simp_all add: check_boundary_def part_set_part)

lemma sim_save_content_type: "sim p m m0 \<Longrightarrow> sim p (save_content_type p ct m) (save_content_type 0 ct m0)"
  unfolding save_content_type_def by (rule sim_set_part) (auto simp: fields_def)

lemma sim_save_content_type_parameter:
  assumes "sim p m m0"
  shows "sim p (save_content_type_parameter p nm s ts i n m) (save_content_type_parameter 0 nm s ts i n m0)"
proof -
  let ?f = "\<lambda>q. q\<lparr>content_type_attr := rfc2045_setattr (content_type_attr q) nm
    (Some ((if nm = asc ''charset'' then lower_paste_tokens else paste_tokens) s ts i n))\<rparr>"
  let ?g = "\<lambda>q. q\<lparr>boundary := Some (lower_paste_tokens s ts i n)\<rparr>"
  have a: "sim p (set_part p ?f m) (set_part 0 ?f m0)" by (rule sim_set_part [OF assms]) (auto simp: fields_def)
  have "sim p (set_part p ?g (set_part p ?f m)) (set_part 0 ?g (set_part 0 ?f m0))" by (rule sim_set_part [OF a]) (auto simp: fields_def)
  then have "sim p (check_boundary p b (set_part p ?g (set_part p ?f m))) (check_boundary 0 b (set_part 0 ?g (set_part 0 ?f m0)))" for b
    unfolding sim_def fields_check_boundary .
  then show ?thesis using a unfolding save_content_type_parameter_def Let_def by presburger
qed

lemma sim_disposition:
  "sim p m m0 \<Longrightarrow> sim p (save_content_disposition p cd m) (save_content_disposition 0 cd m0)"
  "sim p m m0 \<Longrightarrow> sim p (save_content_disposition_parameter p nm s ts i n m) (save_content_disposition_parameter 0 nm s ts i n m0)"
  unfolding save_content_disposition_def save_content_disposition_parameter_def by (rule sim_set_part; auto simp: fields_def)+

lemma sim_param_loop:
  "(\<And>nm s ts i n m m0. sim p m m0 \<Longrightarrow> sim p (init nm s ts i n m) (init0 nm s ts i n m0)) \<Longrightarrow> sim p m m0 \<Longrightarrow>
    sim p (param_loop reformime init s ts st m) (param_loop reformime init0 s ts st m0)"
proof (induction reformime init s ts st m arbitrary: m0 rule: param_loop.induct)
  case (1 reformime init s ts st m)
  let ?i = "next_semi ts st"
  let ?v = "if st < ?i then param_value reformime ts st ?i else None"
  show ?case
  proof (cases "length ts \<le> st")
    case True
    then show ?thesis using 1(4) by (simp add: param_loop.simps [of _ _ _ _ st])
  next
    case False
    show ?thesis
    proof (cases ?v)
      case None
      then show ?thesis using 1(1) [OF False refl None 1(3,4)] False
        by (simp add: param_loop.simps [of reformime _ s ts st] Let_def)
    next
      case (Some jk)
      obtain j k where jk: "jk = (j, k)" by (cases jk)
      let ?m = "case lower_paste_token s ts st of None \<Rightarrow> m | Some nm \<Rightarrow> init nm s ts j (k - j) m"
      let ?mz = "case lower_paste_token s ts st of None \<Rightarrow> m0 | Some nm \<Rightarrow> init0 nm s ts j (k - j) m0"
      have "sim p ?m ?mz" by (cases "lower_paste_token s ts st") (use 1(3,4) in auto)
      from 1(2) [OF False refl Some jk [symmetric] refl 1(3) this] show ?thesis using False Some jk
        by (simp add: param_loop.simps [of reformime _ s ts st] Let_def)
    qed
  qed
qed

lemma sim_parse_content_header:
  "(\<And>ct m m0. sim p m m0 \<Longrightarrow> sim p (f ct m) (f0 ct m0)) \<Longrightarrow>
    (\<And>nm s ts i n m m0. sim p m m0 \<Longrightarrow> sim p (init nm s ts i n m) (init0 nm s ts i n m0)) \<Longrightarrow> sim p m m0 \<Longrightarrow>
    sim p (parse_content_header reformime f init s ts m) (parse_content_header reformime f0 init0 s ts m0)"
  unfolding parse_content_header_def Let_def by (rule sim_param_loop) auto

lemma sim_header_field:
  assumes "sim p m m0"
  shows "sim p (header_field reformime p s ts t m) (header_field reformime 0 s ts t m0)"
proof -
  have "sim p (content_type_header reformime p s ts m) (content_type_header reformime 0 s ts m0)"
    "sim p (content_disposition_header reformime p s ts m) (content_disposition_header reformime 0 s ts m0)"
    unfolding content_type_header_def content_disposition_header_def
    by (rule sim_parse_content_header; simp add: sim_save_content_type sim_save_content_type_parameter sim_disposition assms)+
  moreover have "sim p (set_part p f m) (set_part 0 f m0)" if "\<And>r r'. fields r = fields r' \<Longrightarrow> fields (f r) = fields (f r')" for f
    by (rule sim_set_part [OF assms that])
  then have "sim p (mime_version_header p s ts m) (mime_version_header 0 s ts m0)"
    "sim p (content_transfer_encoding_header p s ts m) (content_transfer_encoding_header 0 s ts m0)"
    "sim p (content_id_header p s ts m) (content_id_header 0 s ts m0)"
    "sim p (content_base_header p s ts m) (content_base_header 0 s ts m0)"
    "sim p (content_location_header p s ts m) (content_location_header 0 s ts m0)"
    "sim p (keep p (\<lambda>v q. q\<lparr>content_description := Some v\<rparr>) (plain_value s) m) (keep 0 (\<lambda>v q. q\<lparr>content_description := Some v\<rparr>) (plain_value s) m0)"
    "sim p (keep p (\<lambda>v q. q\<lparr>content_language := Some v\<rparr>) (plain_value s) m) (keep 0 (\<lambda>v q. q\<lparr>content_language := Some v\<rparr>) (plain_value s) m0)"
    "sim p (keep p (\<lambda>v q. q\<lparr>content_md5 := Some v\<rparr>) (plain_value s) m) (keep 0 (\<lambda>v q. q\<lparr>content_md5 := Some v\<rparr>) (plain_value s) m0)"
    using assms
    by (simp_all add: mime_version_header_def content_transfer_encoding_header_def content_id_header_def content_base_header_def
        content_location_header_def keep_def Let_def fields_def split: option.split)
  ultimately show ?thesis using assms by (simp add: header_field_def)
qed

lemma do_header_fields:
  assumes "p < size_of m"
  shows "fields (part (do_header mem reformime p m) p) = header_effect mem reformime (header (part m p)) (fields (part m p))"
proof -
  let ?mz = "new_message\<lparr>heap := [section_with (fields (part m p)) (header (part m p))]\<rparr>"
  have h: "header (part ?mz 0) = header (part m p)" by (simp add: part_def section_with_def split: prod.split)
  have s: "sim p m ?mz" using assms by (simp add: sim_def part_def section_with_def fields_def)
  have "sim p (do_header mem reformime p m) (do_header mem reformime 0 ?mz)"
    using s sim_header_field [OF s] unfolding do_header_def Let_def h by (auto split: option.split)
  then show ?thesis by (simp add: header_effect_def sim_def)
qed

lemma header_effect_Nil [simp]: "header_effect mem reformime [] f = f"
  by (cases f) (simp add: header_effect_def do_header_def Let_def part_def section_with_def fields_def)

subsection \<open>What a line changes\<close>

definition view :: "rfc2045 \<Rightarrow> (nat option \<times> nat option \<times> nat option \<times> nat option \<times> nat) \<times> nat \<times> nat \<times> bool \<times> bool \<times> bool \<times> bool" where
  "view r = (links r, startpos r, startbody r, isdummy r, workinheader r, workclosed r, informdata r)"

text \<open>
  \<open>moves P ps e m m'\<close>: the sections \<open>ps\<close> now end at \<open>e\<close> (and their body at the second number); what
  headers say may differ only in the sections of \<open>P\<close>.
\<close>

definition moves :: "nat set \<Rightarrow> nat set \<Rightarrow> nat \<times> nat \<Rightarrow> message \<Rightarrow> message \<Rightarrow> bool" where
  "moves P ps e m m' \<longleftrightarrow> size_of m' = size_of m \<and>
     (\<forall>q < size_of m. view (part m' q) = view (part m q) \<and>
        (q \<notin> P \<longrightarrow> fields (part m' q) = fields (part m q) \<and> header (part m' q) = header (part m q)) \<and>
        (endpos (part m' q), endbody (part m' q)) = (if q \<in> ps then e else (endpos (part m q), endbody (part m q))))"

lemma movesD:
  assumes "moves P ps e m m'" "q < size_of m"
  shows "view (part m' q) = view (part m q)" "links (part m' q) = links (part m q)" "startpos (part m' q) = startpos (part m q)"
    "startbody (part m' q) = startbody (part m q)" "isdummy (part m' q) = isdummy (part m q)"
    "workinheader (part m' q) = workinheader (part m q)" "workclosed (part m' q) = workclosed (part m q)"
    "informdata (part m' q) = informdata (part m q)" "parent (part m' q) = parent (part m q)" "lastpart (part m' q) = lastpart (part m q)"
    "numparts (part m' q) = numparts (part m q)"
    "q \<notin> P \<Longrightarrow> fields (part m' q) = fields (part m q)" "q \<notin> P \<Longrightarrow> header (part m' q) = header (part m q)"
    "q \<in> ps \<Longrightarrow> endpos (part m' q) = fst e" "q \<in> ps \<Longrightarrow> endbody (part m' q) = snd e"
    "q \<notin> ps \<Longrightarrow> endpos (part m' q) = endpos (part m q)" "q \<notin> ps \<Longrightarrow> endbody (part m' q) = endbody (part m q)"
  using assms by (cases e; auto simp: moves_def view_def links_def)+

lemma moves_size: "moves P ps e m m' \<Longrightarrow> size_of m' = size_of m"
  by (simp add: moves_def)

lemma moves_refl [simp]: "moves P {} e m m"
  by (simp add: moves_def)

lemma moves_trans:
  assumes "moves P ps e m m1" "moves Q qs e' m1 m2" "ps = {} \<or> ps \<subseteq> qs \<or> qs = {} \<and> e = e'"
  shows "moves (P \<union> Q) (ps \<union> qs) e' m m2"
proof -
  have s: "size_of m1 = size_of m" "size_of m2 = size_of m1" using assms(1,2) by (simp_all add: moves_size)
  have "view (part m2 q) = view (part m q) \<and>
      (q \<notin> P \<union> Q \<longrightarrow> fields (part m2 q) = fields (part m q) \<and> header (part m2 q) = header (part m q)) \<and>
      (endpos (part m2 q), endbody (part m2 q)) = (if q \<in> ps \<union> qs then e' else (endpos (part m q), endbody (part m q)))"
    if q: "q < size_of m" for q
  proof -
    have q1: "q < size_of m1" using q s by simp
    note A = movesD [OF assms(1) q] and B = movesD [OF assms(2) q1]
    have "(endpos (part m2 q), endbody (part m2 q)) = (if q \<in> ps \<union> qs then e' else (endpos (part m q), endbody (part m q)))"
    proof (cases "q \<in> qs")
      case True
      then show ?thesis using B(14,15) by simp
    next
      case False
      then show ?thesis using A(14-17) B(16,17) assms(3) by (cases "q \<in> ps") auto
    qed
    then show ?thesis using A(1,12,13) B(1,12,13) by simp
  qed
  then show ?thesis using s by (simp add: moves_def)
qed

lemma moves_links: "moves P ps e m m' \<Longrightarrow> same_links m m'"
  by (simp add: same_links_def movesD moves_size)

lemma moves_path: "moves P ps e m m' \<Longrightarrow> p < size_of m \<Longrightarrow> path m' p = path m p"
  by (rule same_path [OF moves_links])

lemma moves_spine: "moves P ps e m m' \<Longrightarrow> tree_ok m \<Longrightarrow> on_spine m p \<Longrightarrow> on_spine m' p"
  by (rule spine_cong [OF moves_links]) (simp_all add: movesD)

lemma quiet_moves:
  assumes "quiet P m m'"
  shows "moves P {} e m m'"
proof -
  have "view (part m' q) = view (part m q)" if q: "q < size_of m" for q
    by (simp add: view_def links_def quiet_fields [OF assms q])
  moreover have "fields (part m' q) = fields (part m q) \<and> header (part m' q) = header (part m q)" if q: "q < size_of m" "q \<notin> P" for q
  proof -
    have "core (part m' q) = core (part m q)" using assms q by (simp add: quiet_def)
    from core_fields [OF this] show ?thesis by (simp add: fields_def)
  qed
  ultimately show ?thesis by (simp add: moves_def quiet_size [OF assms] quiet_fields [OF assms])
qed

lemma workbuf_moves: "moves {} {} e m (set_workbuf s m)" "moves {} {} e m (add_workbuf s m)"
  by (auto simp: moves_def view_def links_def fields_def set_workbuf_def add_workbuf_def part_set_part)

lemma counts_moves: "p < size_of m \<Longrightarrow> moves {} (set (path m p)) (a, b) m (update_counts p a b l m)"
  by (auto simp: moves_def part_update_counts view_def fields_def)

text \<open>A section at the end of the spine.\<close>

definition idle :: "message \<Rightarrow> bool" where
  "idle m \<longleftrightarrow> good m \<and> workbuf (part m 0) = [] \<and> (\<forall>q < size_of m. \<not> informdata (part m q))"

lemma take_line_good: "good m \<Longrightarrow> good (take_line mem reformime l m) \<and> workbuf (part (take_line mem reformime l m) 0) = []"
proof
  assume g: "good m"
  show "good (take_line mem reformime l m)" using take_line_ok [OF g] by (simp add: step_ok_def)
  have "good (doline mem reformime (add_workbuf l m))" by (rule doline_good [OF good_places [OF g workbuf_places(2)]])
  then show "workbuf (part (take_line mem reformime l m) 0) = []" unfolding take_line_def by (simp add: good_def part_set_workbuf)
qed

lemma no_form_data:
  assumes "good m" "\<forall>q < size_of m. \<not> informdata (part m q)"
  shows "form_data m p = None"
  using assms
proof (induction m p rule: form_data.induct)
  case (1 m p)
  show ?case
  proof (cases "open_child m p")
    case None
    then show ?thesis by (simp add: form_data.simps [of m p])
  next
    case (Some q)
    then show ?thesis using 1 open_child_less [OF Some] by (simp add: form_data.simps [of m p])
  qed
qed

text \<open>No section above \<open>p\<close> takes the line for its boundary.\<close>

definition passes :: "byte list \<Rightarrow> nat \<Rightarrow> message \<Rightarrow> nat set \<Rightarrow> bool" where
  "passes c n m qs \<longleftrightarrow> (\<forall>q\<in>qs. \<forall>b. boundary (part m q) = Some b \<longrightarrow> \<not> boundary_line c n b)"

lemma drill_down:
  assumes "good m"
  shows "on_spine m p \<Longrightarrow> passes c n m (set (path m p) - {p}) \<Longrightarrow> drill c n m 0 = drill c n m p"
proof (induction rule: on_spine.induct)
  case (spine_down q r)
  have q: "q < size_of m" by (rule spine_less [OF spine_down(1)]) (use assms in \<open>simp add: good_def\<close>)
  have pa: "path m r = r # path m q" by (rule path_down [OF _ q spine_down(2)]) (use assms in \<open>simp add: good_def\<close>)
  have nr: "r \<notin> set (path m q)" using path_le [of r m q] open_child_less [OF spine_down(2)] by auto
  have "passes c n m (set (path m q) - {q})" using spine_down(4) nr by (auto simp: passes_def pa)
  then have "drill c n m 0 = drill c n m q" by (rule spine_down(3))
  also have "\<dots> = drill c n m r"
  proof -
    have "down m q = Some r" "\<not> workclosed (part m r)" using spine_down(2) by (auto simp: open_child_def split: option.splits if_splits)
    moreover have "boundary (part m q) = Some b \<Longrightarrow> \<not> boundary_line c n b" for b using spine_down(4) nr by (auto simp: passes_def pa)
    ultimately show ?thesis by (auto simp: drill.simps [of c n m q] split: option.split)
  qed
  finally show ?case .
qed simp

definition line :: "byte list \<Rightarrow> byte list" where "line l = no_NUL l @ [NL]"

lemma length_line [simp]: "length (line l) = length l + 1"
  by (simp add: line_def no_NUL_def)

lemma stripped_line: "l = [] \<or> last l \<noteq> CR \<Longrightarrow> stripped (line l) = length l"
  by (cases l rule: rev_cases) (auto simp: stripped_def line_def no_NUL_def nth_append Let_def)

text \<open>A line that reaches the section \<open>p\<close> of the spine.\<close>

lemma take_line_reaches:
  assumes idle: "idle m" and few: "size_of m \<le> MAXPARTS + 1" and sp: "on_spine m p"
    and pass: "passes (line l) (length l) m (set (path m p) - {p})" and cr: "l = [] \<or> last l \<noteq> CR"
  shows "\<exists>m1. moves {} {} (0, 0) m m1 \<and> good m1 \<and> on_spine m1 p \<and>
    take_line mem reformime (l @ [NL]) m = set_workbuf [] (case drill (line l) (length l) m1 p of
      (m, None) \<Rightarrow> m | (m, Some p) \<Rightarrow> section_line mem reformime (line l) p m)"
proof (intro exI conjI)
  let ?m1 = "add_workbuf (l @ [NL]) m"
  have g: "good m" and w: "workbuf (part m 0) = []" and i: "\<forall>q < size_of m. \<not> informdata (part m q)" using idle by (simp_all add: idle_def)
  have t: "tree_ok m" using g by (simp add: good_def)
  show mv: "moves {} {} (0, 0) m ?m1" by (rule workbuf_moves)
  show g1: "good ?m1" by (rule good_places [OF g workbuf_places(2)])
  show s1: "on_spine ?m1 p" by (rule moves_spine [OF mv t sp])
  have p: "p < size_of m" by (rule spine_less [OF sp t])
  have fd: "form_data ?m1 0 = None" by (rule no_form_data [OF g1]) (use i movesD(8) [OF mv] in simp)
  have n: "numparts (part ?m1 0) \<le> MAXPARTS" using tree_numparts [OF t] few by (simp add: part_set_workbuf [OF t])
  have c: "no_NUL (workbuf (part ?m1 0)) = line l" using w by (simp add: part_set_workbuf [OF t] line_def no_NUL_def)
  have b: "boundary (part ?m1 q) = boundary (part m q)" if "q < size_of m" for q
    using movesD(12) [OF mv that] by (simp add: fields_def)
  have "passes (line l) (length l) ?m1 (set (path ?m1 p) - {p})"
    using pass moves_path [OF mv p] b path_within [OF p] by (auto simp: passes_def)
  then have "drill (line l) (length l) ?m1 0 = drill (line l) (length l) ?m1 p" by (rule drill_down [OF g1 s1])
  then have "doline mem reformime ?m1 = (case drill (line l) (length l) ?m1 p of
      (m, None) \<Rightarrow> m | (m, Some p) \<Rightarrow> section_line mem reformime (line l) p m)"
    unfolding doline_def c fd stripped_line [OF cr] Let_def using n by simp
  then show "take_line mem reformime (l @ [NL]) m = set_workbuf [] (case drill (line l) (length l) ?m1 p of
      (m, None) \<Rightarrow> m | (m, Some p) \<Rightarrow> section_line mem reformime (line l) p m)"
    unfolding take_line_def by simp
qed

subsection \<open>Each kind of line\<close>

lemma idle_moves: "idle m \<Longrightarrow> moves P ps e m (take_line mem reformime l m) \<Longrightarrow> idle (take_line mem reformime l m)"
  using take_line_good [of m mem reformime l] by (simp add: idle_def movesD moves_size)

lemma parent_type_moves:
  assumes "moves P ps e m m'" "p < size_of m" "\<And>q. parent (part m p) = Some q \<Longrightarrow> q \<notin> P"
  shows "parent_type m' p = parent_type m p"
proof -
  have "up m' p = up m p" using movesD(9) [OF assms(1,2)] by (simp add: up_def)
  moreover have "content_type (part m' q) = content_type (part m q)" if "up m p = Some q" for q
  proof -
    have "q < size_of m" using up_less [OF that] assms(2) by simp
    moreover have "q \<notin> P" using that assms(3) by (auto simp: up_def split: option.splits if_splits)
    ultimately show ?thesis using movesD(12) [OF assms(1)] by (simp add: fields_def)
  qed
  ultimately show ?thesis by (simp add: parent_type_def split: option.split)
qed

text \<open>A line of a body.\<close>

lemma body_event:
  assumes idle: "idle m" and few: "size_of m \<le> MAXPARTS + 1" and sp: "on_spine m p"
    and pass: "passes (line l) (length l) m (set (path m p) - {p})" and cr: "l = [] \<or> last l \<noteq> CR"
    and p: "lastpart (part m p) = None" "\<not> workinheader (part m p)"
  shows "moves {} (set (path m p)) (endpos (part m p) + length l + 1,
      endpos (part m p) + (if multipart_nocase (parent_type m p) then length l else length l + 1)) m (take_line mem reformime (l @ [NL]) m)"
proof -
  obtain m1 where m1: "moves {} {} (0, 0) m m1" "good m1" "on_spine m1 p"
    "take_line mem reformime (l @ [NL]) m = set_workbuf [] (case drill (line l) (length l) m1 p of
      (m, None) \<Rightarrow> m | (m, Some p) \<Rightarrow> section_line mem reformime (line l) p m)"
    using take_line_reaches [OF idle few sp pass cr] by blast
  have pl: "p < size_of m" using good_spine [of m p] idle sp by (simp add: idle_def)
  note M = movesD [OF m1(1) pl]
  have l1: "lastpart (part m1 p) = None" using M(10) p(1) by simp
  let ?b = "\<exists>x\<in>set (line l). x AND 0x80 \<noteq> 0"
  obtain m2 where m2: "quiet {} m1 m2" "body_line (line l) (length l) ?b p m1 =
    update_counts p (endpos (part m1 p) + (length l + 1)) (endpos (part m1 p) + (if multipart_nocase (parent_type m1 p) then length l else length l + 1)) 1 m2"
    using body_line_counts [OF m1(2,3) l1, of "line l" "length l" ?b] by auto
  have d: "drill (line l) (length l) m1 p = (m1, Some p)"
    using l1 down_lastpart [OF m1(2,3)] by (simp add: drill.simps [of _ _ m1 p])
  have s: "section_line mem reformime (line l) p m1 = body_line (line l) (length l) ?b p m1"
    using p(2) M(6) by (simp add: section_line_def stripped_line [OF cr] Let_def)
  let ?e = "(endpos (part m p) + length l + 1, endpos (part m p) + (if multipart_nocase (parent_type m p) then length l else length l + 1))"
  have mv: "moves {} {} (0, 0) m m2" using moves_trans [OF m1(1) quiet_moves [OF m2(1), of "(0, 0)"]] by simp
  have "moves {} (set (path m p)) ?e m2 (update_counts p (fst ?e) (snd ?e) 1 m2)"
    using counts_moves [of p m2] pl moves_size [OF mv] moves_path [OF mv pl] by simp
  from moves_trans [OF moves_trans [OF mv this] workbuf_moves(1) [of ?e _ "[]"]]
  have "moves {} (set (path m p)) ?e m (set_workbuf [] (update_counts p (fst ?e) (snd ?e) 1 m2))" by simp
  moreover have "parent_type m1 p = parent_type m p" by (rule parent_type_moves [OF m1(1) pl]) simp
  ultimately show ?thesis using M(16) unfolding m1(4) d by (simp add: s m2(2) add.assoc)
qed

text \<open>A line behind the last boundary of \<open>p\<close>.\<close>

lemma epilogue_event:
  assumes idle: "idle m" and few: "size_of m \<le> MAXPARTS + 1" and sp: "on_spine m p"
    and pass: "passes (line l) (length l) m (set (path m p) - {p})" and cr: "l = [] \<or> last l \<noteq> CR"
    and p: "lastpart (part m p) = Some x" "workclosed (part m x)"
  shows "moves {} (set (path m p)) (endpos (part m p) + length l + 1, endpos (part m p) + length l) m (take_line mem reformime (l @ [NL]) m)"
proof -
  obtain m1 where m1: "moves {} {} (0, 0) m m1" "good m1" "on_spine m1 p"
    "take_line mem reformime (l @ [NL]) m = set_workbuf [] (case drill (line l) (length l) m1 p of
      (m, None) \<Rightarrow> m | (m, Some p) \<Rightarrow> section_line mem reformime (line l) p m)"
    using take_line_reaches [OF idle few sp pass cr] by blast
  have g: "good m" using idle by (simp add: idle_def)
  have pl: "p < size_of m" using good_spine [OF g sp] by simp
  have xl: "x < size_of m" using tree_lastpart [OF _ pl p(1)] g by (simp add: good_def)
  note M = movesD [OF m1(1) pl]
  let ?e = "(endpos (part m p) + length l + 1, endpos (part m p) + length l)"
  have d: "drill (line l) (length l) m1 p = (update_counts p (fst ?e) (snd ?e) 1 m1, None)"
    using p M(10,16) movesD(7) [OF m1(1) xl] down_lastpart [OF m1(2,3)] by (simp add: drill.simps [of _ _ m1 p] add.assoc)
  have "moves {} (set (path m p)) ?e m1 (update_counts p (fst ?e) (snd ?e) 1 m1)"
    using counts_moves [of p m1] pl moves_size [OF m1(1)] moves_path [OF m1(1) pl] by simp
  from moves_trans [OF moves_trans [OF m1(1) this] workbuf_moves(1) [of ?e _ "[]"]]
  show ?thesis unfolding m1(4) d by simp
qed

text \<open>Lines of a header: reaching the section, with the flag for 8-bit headers set.\<close>

lemma header_reaches:
  assumes idle: "idle m" and few: "size_of m \<le> MAXPARTS + 1" and sp: "on_spine m p"
    and pass: "passes (line l) (length l) m (set (path m p) - {p})" and cr: "l = [] \<or> last l \<noteq> CR"
    and p: "lastpart (part m p) = None" "workinheader (part m p)"
  shows "\<exists>m1. moves {} {} (0, 0) m m1 \<and> good m1 \<and> on_spine m1 p \<and>
    take_line mem reformime (l @ [NL]) m = set_workbuf [] (if l = [] then end_of_header mem reformime (line l) p m1
      else header_line mem reformime (line l) (length l) p m1)"
proof -
  obtain m1 where m1: "moves {} {} (0, 0) m m1" "good m1" "on_spine m1 p"
    "take_line mem reformime (l @ [NL]) m = set_workbuf [] (case drill (line l) (length l) m1 p of
      (m, None) \<Rightarrow> m | (m, Some p) \<Rightarrow> section_line mem reformime (line l) p m)"
    using take_line_reaches [OF idle few sp pass cr] by blast
  have pl: "p < size_of m" using good_spine [of m p] idle sp by (simp add: idle_def)
  note M = movesD [OF m1(1) pl]
  let ?b = "\<exists>x\<in>set (line l). x AND 0x80 \<noteq> 0"
  let ?m2 = "if ?b \<and> rfcviolation (part m1 p) AND RFC2045_ERR8BITHEADER = 0
      then along (path m1 p) (set_violation RFC2045_ERR8BITHEADER) m1 else m1"
  have q: "quiet {} m1 ?m2" by (simp add: quiet_along_violation)
  have g2: "good ?m2" by (rule good_places [OF m1(2) quiet_places [OF q]])
  have sp2: "on_spine ?m2 p" using same_spine [OF quiet_places [OF q] _ m1(3)] m1(2) by (simp add: good_def)
  have mv: "moves {} {} (0, 0) m ?m2" using moves_trans [OF m1(1) quiet_moves [OF q, of "(0, 0)"]] by simp
  have d: "drill (line l) (length l) m1 p = (m1, Some p)"
    using p(1) M(10) down_lastpart [OF m1(2,3)] by (simp add: drill.simps [of _ _ m1 p])
  define m2 where "m2 = ?m2"
  have "section_line mem reformime (line l) p m1 = (if l = [] then end_of_header mem reformime (line l) p m2
      else header_line mem reformime (line l) (length l) p m2)"
    using p(2) M(6) unfolding section_line_def Let_def stripped_line [OF cr] m2_def by simp
  then show ?thesis using mv g2 sp2 unfolding m1(4) d m2_def [symmetric] by auto
qed

lemma header_event:
  assumes idle: "idle m" and few: "size_of m \<le> MAXPARTS + 1" and sp: "on_spine m p"
    and pass: "passes (line l) (length l) m (set (path m p) - {p})" and cr: "l = [] \<or> last l \<noteq> CR"
    and p: "lastpart (part m p) = None" "workinheader (part m p)" and l: "name_line l"
  shows "moves {p} (set (path m p)) (endpos (part m p) + length l + 1, endpos (part m p) + length l) m (take_line mem reformime (l @ [NL]) m)"
    "fields (part (take_line mem reformime (l @ [NL]) m) p) = header_effect mem reformime (header (part m p)) (fields (part m p))"
    "header (part (take_line mem reformime (l @ [NL]) m) p) = no_NUL l"
proof -
  have nl: "l \<noteq> []" "\<not> isspace (at (line l) 0)" "take (length l) (line l) = no_NUL l"
    using l by (cases l; simp add: name_line_def line_def no_NUL_def)+
  obtain m1 where m1: "moves {} {} (0, 0) m m1" "good m1" "on_spine m1 p"
    "take_line mem reformime (l @ [NL]) m = set_workbuf [] (header_line mem reformime (line l) (length l) p m1)"
    using header_reaches [OF idle few sp pass cr p] nl(1) by auto
  have pl: "p < size_of m" using good_spine [of m p] idle sp by (simp add: idle_def)
  let ?e = "(endpos (part m p) + length l + 1, endpos (part m p) + length l)"
  let ?m2 = "update_counts p (fst ?e) (snd ?e) 1 m1"
  let ?m3 = "do_header mem reformime p ?m2"
  let ?m4 = "set_part p (\<lambda>r. r\<lparr>header := []\<rparr>) ?m3"
  let ?m5 = "set_part p (\<lambda>r. r\<lparr>header := header r @ take (length l) (line l)\<rparr>) ?m4"
  have e: "endpos (part m1 p) = endpos (part m p)" using movesD(16) [OF m1(1) pl] by simp
  have h: "header_line mem reformime (line l) (length l) p m1 = ?m5"
    using nl(2) by (simp add: header_line_def Let_def e add.assoc)
  have mv1: "moves {} (set (path m p)) ?e m1 ?m2"
    using counts_moves [of p m1] pl moves_size [OF m1(1)] moves_path [OF m1(1) pl] by simp
  have mv2: "moves {} (set (path m p)) ?e m ?m2" using moves_trans [OF m1(1) mv1] by simp
  have q: "quiet {p} m' (set_part p (\<lambda>r. r\<lparr>header := f r\<rparr>) m')" for f m'
    by (rule quiet_set_part) (simp_all add: shape_def core_def)
  have "quiet {p} ?m2 ?m5" by (rule quiet_trans [OF quiet_do_header quiet_trans [OF q q]])
  from moves_trans [OF moves_trans [OF mv2 quiet_moves [OF this, of ?e]] workbuf_moves(1) [of ?e _ "[]"]]
  show "moves {p} (set (path m p)) ?e m (take_line mem reformime (l @ [NL]) m)" unfolding m1(4) h by simp
  have sz: "size_of ?m2 = size_of m" "size_of ?m3 = size_of m" using moves_size [OF mv2] quiet_size [OF quiet_do_header [of p ?m2 mem reformime]] by simp_all
  have p5: "p < size_of ?m5" using pl sz by simp
  have x: "fields (part (set_workbuf [] ?m5) p) = fields (part ?m5 p)" "header (part (set_workbuf [] ?m5) p) = header (part ?m5 p)"
    by (rule movesD(12) [OF workbuf_moves(1) p5], simp, rule movesD(13) [OF workbuf_moves(1) p5], simp)
  have pp: "p < size_of ?m2" using pl sz(1) by simp
  show "fields (part (take_line mem reformime (l @ [NL]) m) p) = header_effect mem reformime (header (part m p)) (fields (part m p))"
    unfolding m1(4) h x using do_header_fields [OF pp, of mem reformime] movesD(12,13) [OF mv2 pl] sz pl by (simp add: part_set_part)
  show "header (part (take_line mem reformime (l @ [NL]) m) p) = no_NUL l"
    unfolding m1(4) h x using sz pl nl(3) by (simp add: part_set_part)
qed

subsection \<open>Lines that make a section\<close>

text \<open>
  \<open>grown inheader dummy mv p ps e m m'\<close>: a new last section of \<open>p\<close> begins where the sections \<open>ps\<close> now
  end.
\<close>

definition fresh :: "bool \<Rightarrow> bool \<Rightarrow> byte list option \<Rightarrow> nat \<Rightarrow> nat \<Rightarrow> rfc2045 \<Rightarrow> bool" where
  "fresh inheader dummy mv p s r \<longleftrightarrow> parent r = Some p \<and> startpos r = s \<and> startbody r = s \<and> endpos r = s \<and> endbody r = s \<and>
     isdummy r = dummy \<and> workinheader r = inheader \<and> \<not> workclosed r \<and> \<not> informdata r \<and> lastpart r = None \<and>
     header r = [] \<and> fields r = (mv, None, None)"

definition grown :: "bool \<Rightarrow> bool \<Rightarrow> byte list option \<Rightarrow> nat \<Rightarrow> nat set \<Rightarrow> nat \<times> nat \<Rightarrow> message \<Rightarrow> message \<Rightarrow> bool" where
  "grown inheader dummy mv p ps e m m' \<longleftrightarrow> size_of m' = size_of m + 1 \<and> fresh inheader dummy mv p (fst e) (part m' (size_of m)) \<and>
     (\<forall>q < size_of m. snd (view (part m' q)) = snd (view (part m q)) \<and> links (part m' q) = links (relink m p q) \<and>
        fields (part m' q) = fields (part m q) \<and> header (part m' q) = header (part m q) \<and>
        (endpos (part m' q), endbody (part m' q)) = (if q \<in> ps then e else (endpos (part m q), endbody (part m q))))"

lemma grownD:
  assumes "grown inheader dummy mv p ps e m m'" "q < size_of m"
  shows "parent (part m' q) = parent (part m q)" "lastpart (part m' q) = (if q = p then Some (size_of m) else lastpart (part m q))"
    "startpos (part m' q) = startpos (part m q)" "startbody (part m' q) = startbody (part m q)" "isdummy (part m' q) = isdummy (part m q)"
    "workinheader (part m' q) = workinheader (part m q)" "workclosed (part m' q) = workclosed (part m q)"
    "informdata (part m' q) = informdata (part m q)" "fields (part m' q) = fields (part m q)" "header (part m' q) = header (part m q)"
    "q \<in> ps \<Longrightarrow> endpos (part m' q) = fst e" "q \<in> ps \<Longrightarrow> endbody (part m' q) = snd e"
    "q \<notin> ps \<Longrightarrow> endpos (part m' q) = endpos (part m q)" "q \<notin> ps \<Longrightarrow> endbody (part m' q) = endbody (part m q)"
  using assms by (cases e; auto simp: grown_def view_def links_def relink_links)+

lemma grown_size: "grown inheader dummy mv p ps e m m' \<Longrightarrow> size_of m' = size_of m + 1"
  by (simp add: grown_def)

lemma grown_fresh: "grown inheader dummy mv p ps e m m' \<Longrightarrow> fresh inheader dummy mv p (fst e) (part m' (size_of m))"
  by (simp add: grown_def)

lemma grown_path: "grown inheader dummy mv p ps e m m' \<Longrightarrow> q < size_of m \<Longrightarrow> path m' q = path m q"
  by (rule path_cong) (simp add: grownD)

lemma relink_view: "snd (view (relink m p q)) = snd (view (part m q))" "fields (relink m p q) = fields (part m q)"
  "header (relink m p q) = header (part m q)"
  by (simp_all add: relink_def view_def fields_def Let_def)

lemma new_part_fresh: "fresh True False None p s (new_part p s k)"
  "fresh True False None p s ((new_part p s k)\<lparr>content_transfer_encoding := te, content_type_attr := atts\<rparr>)"
  by (simp_all add: fresh_def new_part_def rfc2045_alloc_def fields_def)

lemma append_grown:
  assumes "good m" "p < size_of m"
  shows "\<exists>m1. append_part_noinherit p s m = (m1, size_of m) \<and> grown True False None p {} (s, x) m m1"
    "\<exists>m1. append_part p s m = (m1, size_of m) \<and> grown True False None p {} (s, x) m m1"
proof -
  obtain m1 k where "append_part_noinherit p s m = (m1, size_of m)" "size_of m1 = size_of m + 1"
    "part m1 (size_of m) = new_part p s k" "\<forall>q < size_of m. part m1 q = relink m p q"
    using append_part_noinherit [of m p s] assms by (auto simp: good_def)
  then show "\<exists>m1. append_part_noinherit p s m = (m1, size_of m) \<and> grown True False None p {} (s, x) m m1"
    by (auto simp: grown_def new_part_fresh relink_view)
  obtain m2 r k te atts where "append_part p s m = (m2, size_of m)" "size_of m2 = size_of m + 1" "part m2 (size_of m) = r"
    "r = (new_part p s k)\<lparr>content_transfer_encoding := te, content_type_attr := atts\<rparr>" "\<forall>q < size_of m. part m2 q = relink m p q"
    using append_part [OF assms, of s] by blast
  then show "\<exists>m1. append_part p s m = (m1, size_of m) \<and> grown True False None p {} (s, x) m m1"
    by (auto simp: grown_def new_part_fresh relink_view)
qed

lemma grown_counts:
  assumes "grown inheader dummy mv p {} (a, x) m m1" "p < size_of m"
  shows "grown inheader dummy mv p (set (path m p)) (a, b) m (update_counts p a b l m1)"
proof -
  have s: "p < size_of m1" using assms grown_size by fastforce
  have nin: "size_of m \<notin> set (path m p)" using path_le [of "size_of m" m p] assms(2) by auto
  have P: "part (update_counts p a b l m1) q = (if q \<in> set (path m p) then counted a b l (part m1 q) else part m1 q)" for q
    using part_update_counts [OF s, of a b l q] grown_path [OF assms] by simp
  show ?thesis using assms(1) nin unfolding grown_def P by (auto simp: view_def fields_def)
qed

lemma grown_new:
  assumes "grown inheader dummy mv p ps e m m1" "\<And>r. fresh inheader dummy mv p (fst e) r \<Longrightarrow> fresh ih d v p (fst e) (f r)"
  shows "grown ih d v p ps e m (set_part (size_of m) f m1)"
  using assms by (auto simp: grown_def part_set_part)

lemma links_relink:
  "links (relink m p q) = (case links (part m q) of (a, b, c, d, k) \<Rightarrow>
     (a, if lastpart (part m p) = Some q then Some (size_of m) else b, if q = p \<and> d = None then Some (size_of m) else c,
      if q = p then Some (size_of m) else d, if q = 0 then k + 1 else k))"
  by (auto simp: links_def relink_links)

lemma grown_after:
  assumes "moves {} {} x m m1" "grown inheader dummy mv p ps e m1 m2" "p < size_of m"
  shows "grown inheader dummy mv p ps e m m2"
proof -
  have s: "size_of m1 = size_of m" by (rule moves_size [OF assms(1)])
  have l: "links (relink m1 p q) = links (relink m p q)" if q: "q < size_of m" for q
    unfolding links_relink s movesD(2) [OF assms(1) q] movesD(10) [OF assms(1,3)] ..
  show ?thesis
    using assms(2) unfolding grown_def s by (auto simp: l movesD(1,12,13,16,17) [OF assms(1)])
qed

lemma grown_before:
  assumes "grown inheader dummy mv p ps e m m1" "moves {} {} x m1 m2"
  shows "grown inheader dummy mv p ps e m m2"
proof -
  have s: "size_of m2 = size_of m1" "size_of m1 = size_of m + 1" using moves_size [OF assms(2)] grown_size [OF assms(1)] by auto
  have f: "fresh inheader dummy mv p (fst e) (part m2 (size_of m))"
    using grown_fresh [OF assms(1)] movesD [OF assms(2), of "size_of m"] s by (simp add: fresh_def)
  have q: "q < size_of m1" if "q < size_of m" for q using that s by simp
  show ?thesis
    using assms(1) f unfolding grown_def s by (auto simp: movesD(1,2,12,13,16,17) [OF assms(2) q])
qed

text \<open>A boundary of \<open>p\<close>, and its last one.\<close>

lemma at_boundary_event:
  assumes idle: "idle m" and few: "size_of m \<le> MAXPARTS + 1" and sp: "on_spine m p"
    and pass: "passes (line l) (length l) m (set (path m p) - {p})" and cr: "l = [] \<or> last l \<noteq> CR"
    and p: "lastpart (part m p) = Some x" "\<not> workclosed (part m x)" "\<not> workinheader (part m p)"
      "boundary (part m p) = Some cb" "boundary_line (line l) (length l) cb"
  shows "\<exists>m1. moves {} {} (0, 0) m m1 \<and> good m1 \<and> on_spine m1 p \<and>
    take_line mem reformime (l @ [NL]) m = set_workbuf [] (at_boundary (line l) (length l) p x cb m1)"
proof -
  obtain m1 where m1: "moves {} {} (0, 0) m m1" "good m1" "on_spine m1 p"
    "take_line mem reformime (l @ [NL]) m = set_workbuf [] (case drill (line l) (length l) m1 p of
      (m, None) \<Rightarrow> m | (m, Some p) \<Rightarrow> section_line mem reformime (line l) p m)"
    using take_line_reaches [OF idle few sp pass cr] by blast
  have g: "good m" using idle by (simp add: idle_def)
  have pl: "p < size_of m" using good_spine [OF g sp] by simp
  have xl: "x < size_of m" using tree_lastpart [OF _ pl p(1)] g by (simp add: good_def)
  have "drill (line l) (length l) m1 p = (at_boundary (line l) (length l) p x cb m1, None)"
    using p movesD(6,10,12) [OF m1(1) pl] movesD(7) [OF m1(1) xl] down_lastpart [OF m1(2,3)]
    by (simp add: drill.simps [of _ _ m1 p] fields_def)
  then show ?thesis using m1 by auto
qed

lemma next_boundary_event:
  assumes a: "idle m" "size_of m \<le> MAXPARTS + 1" "on_spine m p"
      "passes (line l) (length l) m (set (path m p) - {p})" "l = [] \<or> last l \<noteq> CR"
      "lastpart (part m p) = Some x" "\<not> workclosed (part m x)" "\<not> workinheader (part m p)"
      "boundary (part m p) = Some cb" "boundary_line (line l) (length l) cb"
    and nl: "\<not> last_boundary (line l) (length l) cb"
  shows "grown True False (mime_version (part m p)) p (set (path m p)) (endpos (part m p) + length l + 1, endpos (part m p) + length l)
    m (take_line mem reformime (l @ [NL]) m)"
proof -
  obtain m1 where m1: "moves {} {} (0, 0) m m1" "good m1" "on_spine m1 p"
    "take_line mem reformime (l @ [NL]) m = set_workbuf [] (at_boundary (line l) (length l) p x cb m1)"
    using at_boundary_event [OF a] by blast
  have pl: "p < size_of m" using good_spine [of m p] a(1,3) by (simp add: idle_def)
  have pl1: "p < size_of m1" using pl moves_size [OF m1(1)] by simp
  note M = movesD [OF m1(1) pl]
  let ?e = "endpos (part m p) + length l + 1" and ?n = "endpos (part m p) + length l"
  obtain m2 where m2: "append_part p ?e m1 = (m2, size_of m1)" "grown True False None p {} (?e, ?n) m1 m2"
    using append_grown(2) [OF m1(2) pl1] by blast
  let ?m3 = "update_counts p ?e ?n 1 m2"
  let ?m4 = "set_part (size_of m1) (\<lambda>r. r\<lparr>mime_version := mime_version (part m p)\<rparr>) ?m3"
  have g3: "grown True False None p (set (path m1 p)) (?e, ?n) m1 ?m3" by (rule grown_counts [OF m2(2) pl1])
  have mv: "mime_version (part ?m3 p) = mime_version (part m p)" using grownD(9) [OF g3 pl1] M(12) by (simp add: fields_def)
  have "grown True False (mime_version (part m p)) p (set (path m1 p)) (?e, ?n) m1 ?m4"
    by (rule grown_new [OF g3]) (auto simp: fresh_def fields_def)
  from grown_after [OF m1(1) grown_before [OF this workbuf_moves(1)] pl]
  have "grown True False (mime_version (part m p)) p (set (path m p)) (?e, ?n) m (set_workbuf [] ?m4)"
    unfolding moves_path [OF m1(1) pl] .
  moreover have "at_boundary (line l) (length l) p x cb m1 = ?m4"
    using nl M(16) m2(1) mv by (simp add: at_boundary_def Let_def add.assoc)
  ultimately show ?thesis unfolding m1(4) by simp
qed

text \<open>The last boundary closes the section before it.\<close>

definition closed_part :: "nat \<Rightarrow> message \<Rightarrow> message" where
  "closed_part x = set_part x (\<lambda>r. r\<lparr>workclosed := True\<rparr>)"

lemma last_boundary_event:
  assumes a: "idle m" "size_of m \<le> MAXPARTS + 1" "on_spine m p"
      "passes (line l) (length l) m (set (path m p) - {p})" "l = [] \<or> last l \<noteq> CR"
      "lastpart (part m p) = Some x" "\<not> workclosed (part m x)" "\<not> workinheader (part m p)"
      "boundary (part m p) = Some cb" "boundary_line (line l) (length l) cb"
    and nl: "last_boundary (line l) (length l) cb"
  shows "moves {} (set (path m p)) (endpos (part m p) + length l + 1, endpos (part m p) + length l + 1)
    (closed_part x m) (take_line mem reformime (l @ [NL]) m)"
proof -
  obtain m1 where m1: "moves {} {} (0, 0) m m1" "good m1" "on_spine m1 p"
    "take_line mem reformime (l @ [NL]) m = set_workbuf [] (at_boundary (line l) (length l) p x cb m1)"
    using at_boundary_event [OF a] by blast
  have pl: "p < size_of m" using good_spine [of m p] a(1,3) by (simp add: idle_def)
  let ?e = "endpos (part m p) + length l + 1"
  have c: "moves {} {} (0, 0) (closed_part x m) (closed_part x m1)"
    using m1(1) by (auto simp: moves_def closed_part_def part_set_part view_def links_def)
  have lc: "same_links m (closed_part x m)" unfolding closed_part_def by (rule set_part_links) (simp add: links_def)
  have plc: "p < size_of (closed_part x m)" "path (closed_part x m) p = path m p"
    using pl same_path [OF lc pl] by (simp_all add: closed_part_def)
  have "moves {} (set (path m p)) (?e, ?e) (closed_part x m1) (update_counts p ?e ?e 1 (closed_part x m1))"
    using counts_moves [of p "closed_part x m1"] plc moves_size [OF c] moves_path [OF c plc(1)] by simp
  from moves_trans [OF moves_trans [OF c this] workbuf_moves(1) [of "(?e, ?e)" _ "[]"]]
  have "moves {} (set (path m p)) (?e, ?e) (closed_part x m) (set_workbuf [] (update_counts p ?e ?e 1 (closed_part x m1)))" by simp
  moreover have "at_boundary (line l) (length l) p x cb m1 = update_counts p ?e ?e 1 (closed_part x m1)"
    using nl movesD(16) [OF m1(1) pl] by (simp add: at_boundary_def Let_def closed_part_def add.assoc)
  ultimately show ?thesis unfolding m1(4) by simp
qed

end
