(* ===== verification/Mime_Runs.thy ===== *)
theory Mime_Runs imports Mime_Events begin

text \<open>
  What the pieces of a document do to the structure: its header with the line that ends it, the beginning
  of its body, and runs of lines of one kind.
\<close>

subsection \<open>The end of a header\<close>

lemma parent_type_set_part: "(\<And>r. parent (f r) = parent r) \<Longrightarrow> parent_type (set_part p f m) p = parent_type m p"
proof -
  assume f: "\<And>r. parent (f r) = parent r"
  have "up (set_part p f m) p = up m p" by (simp add: up_def part_set_part f)
  moreover have "part (set_part p f m) q = part m q" if "up m p = Some q" for q using up_less [OF that] by (simp add: part_set_part)
  ultimately show ?thesis by (simp add: parent_type_def split: option.split)
qed

lemma section_type_fields:
  assumes "p < size_of m"
  shows "fields (part (section_type p m) p) = typed (parent_type m p) (fields (part m p))"
proof -
  let ?m1 = "if RFC2045_ISMIME1 (mime_version (part m p)) then m else set_part p no_mime m"
  let ?m2 = "if RFC2045_ISMIME1 (mime_version (part ?m1 p)) \<and> content_type (part ?m1 p) = None
      then set_part p (\<lambda>r. r\<lparr>content_type := Some (default_type ?m1 p)\<rparr>) ?m1 else ?m1"
  have pt: "parent_type ?m1 p = parent_type m p" by (simp add: parent_type_set_part no_mime_def)
  have d: "default_type ?m1 p = (if parent_type m p = Some (asc ''multipart/digest'') then asc ''message/rfc822'' else asc ''text/plain'')"
    unfolding default_type_def pt ..
  have "section_type p m = (if multipart (content_type (part ?m2 p)) then ?m2 else set_part p (\<lambda>r. r\<lparr>boundary := None\<rparr>) ?m2)"
    unfolding section_type_def Let_def ..
  then show ?thesis using assms unfolding d
    by (auto simp: part_set_part fields_def typed_def no_mime_def Let_def)
qed

definition begun :: "nat \<Rightarrow> nat \<Rightarrow> message \<Rightarrow> message" where
  "begun p s = set_part p (\<lambda>r. r\<lparr>workinheader := False, startbody := s\<rparr>)"

lemma begun_moves: "moves P ps e m m' \<Longrightarrow> moves P ps e (begun p s m) (begun p s m')"
  by (auto simp: moves_def begun_def part_set_part view_def links_def fields_def)

lemma begun_links: "same_links m (begun p s m)"
  unfolding begun_def by (rule set_part_links) (simp add: links_def)

lemma header_end_event:
  assumes idle: "idle m" and few: "size_of m \<le> MAXPARTS + 1" and sp: "on_spine m p"
    and pass: "passes (line []) 0 m (set (path m p) - {p})" and p: "lastpart (part m p) = None" "workinheader (part m p)"
  shows "\<exists>m1. good m1 \<and> moves {p} (set (path m p)) (endpos (part m p) + 1, endpos (part m p) + 1) (begun p (endpos (part m p) + 1) m) m1 \<and>
    fields (part m1 p) = typed (parent_type m p) (header_effect mem reformime (header (part m p)) (fields (part m p))) \<and>
    take_line mem reformime [NL] m = set_workbuf [] (start_body p m1)"
proof -
  let ?s = "endpos (part m p) + 1"
  obtain m1 where m1: "moves {} {} (0, 0) m m1" "good m1" "on_spine m1 p"
    "take_line mem reformime ([] @ [NL]) m = set_workbuf [] (end_of_header mem reformime (line []) p m1)"
    using header_reaches [OF idle few sp, of "[]"] pass p by auto
  have pl: "p < size_of m" using good_spine [of m p] idle sp by (simp add: idle_def)
  have pl1: "p < size_of m1" using pl moves_size [OF m1(1)] by simp
  note M = movesD [OF m1(1) pl]
  let ?m2 = "do_header mem reformime p m1"
  have q2: "quiet {p} m1 ?m2" by (rule quiet_do_header)
  have mv2: "moves {p} {} (0, 0) m ?m2" using moves_trans [OF m1(1) quiet_moves [OF q2, of "(0, 0)"]] by simp
  note D = movesD [OF mv2 pl]
  have mb: "moves {p} {} (0, 0) (begun p ?s m) (begun p ?s ?m2)" by (rule begun_moves [OF mv2])
  have plb: "p < size_of (begun p ?s ?m2)" "path (begun p ?s ?m2) p = path m p"
    using pl moves_size [OF mv2] same_path [OF same_links_trans [OF moves_links [OF mv2] begun_links] pl] by (simp_all add: begun_def)
  let ?m3 = "update_counts p ?s ?s 1 (begun p ?s ?m2)"
  let ?m4 = "set_part p (\<lambda>r. r\<lparr>nbodylines := nbodylines r - 1\<rparr>) ?m3"
  let ?m5 = "section_type p ?m4"
  have h: "header_done mem reformime (line []) p m1 = ?m5"
    using D(16) by (simp add: header_done_def Let_def begun_def)
  have mv3: "moves {p} (set (path m p)) (?s, ?s) (begun p ?s m) ?m3"
    using moves_trans [OF mb, of "{}" "set (path m p)" "(?s, ?s)" ?m3] counts_moves [OF plb(1), of ?s ?s 1] plb(2) by simp
  have "moves {} {} (?s, ?s) ?m3 ?m4" by (auto simp: moves_def part_set_part view_def links_def)
  from moves_trans [OF moves_trans [OF mv3 this] quiet_moves [OF quiet_section_type [of p ?m4], of "(?s, ?s)"]]
  have mv5: "moves {p} (set (path m p)) (?s, ?s) (begun p ?s m) ?m5" by simp
  have p4: "p < size_of ?m4" using plb by simp
  have "parent_type ?m4 p = parent_type ?m3 p" by (rule parent_type_set_part) simp
  also have "\<dots> = parent_type (begun p ?s m) p"
  proof (rule parent_type_moves [OF mv3])
    show "p < size_of (begun p ?s m)" using pl by (simp add: begun_def)
    show "q \<notin> {p}" if "parent (part (begun p ?s m) p) = Some q" for q
      using that tree_parent [OF _ pl] pl idle by (auto simp: begun_def part_set_part idle_def good_def)
  qed
  also have "\<dots> = parent_type m p" unfolding begun_def by (rule parent_type_set_part) simp
  finally have pt: "parent_type ?m4 p = parent_type m p" .
  have "fields (part ?m4 p) = fields (part ?m2 p)"
    using plb pl moves_size [OF mv2] part_update_counts [OF plb(1), of ?s ?s 1 p] by (simp add: part_set_part begun_def fields_def)
  also have "\<dots> = header_effect mem reformime (header (part m p)) (fields (part m p))"
    using do_header_fields [OF pl1] M(12,13) by simp
  finally have f: "fields (part ?m5 p) = typed (parent_type m p) (header_effect mem reformime (header (part m p)) (fields (part m p)))"
    using section_type_fields [OF p4] pt by simp
  have l1: "lastpart (part m1 p) = None" using M(10) p(1) by simp
  have "good ?m5" using header_done [OF m1(2,3) l1, of "line []" mem reformime] unfolding h by (simp add: advances_def)
  then show ?thesis using mv5 f m1(4) unfolding end_of_header_done h by auto
qed

text \<open>What the body begins with: a message or a multipart has a first section.\<close>

lemma start_body_event:
  assumes g: "good m" and p: "p < size_of m"
  shows "content_type (part m p) = Some (asc ''message/rfc822'') \<Longrightarrow>
      grown True False None p {} (startbody (part m p), x) m (start_body p m)"
    "content_type (part m p) \<noteq> Some (asc ''message/rfc822'') \<Longrightarrow> boundary (part m p) \<noteq> None \<Longrightarrow>
      grown False True None p {} (startbody (part m p), x) m (start_body p m)"
    "content_type (part m p) \<noteq> Some (asc ''message/rfc822'') \<Longrightarrow> boundary (part m p) = None \<Longrightarrow> moves {} {} e m (start_body p m)"
proof -
  obtain m1 where m1: "append_part_noinherit p (startbody (part m p)) m = (m1, size_of m)" "grown True False None p {} (startbody (part m p), x) m m1"
    using append_grown(1) [OF g p] by blast
  obtain m2 where m2: "append_part p (startbody (part m p)) m = (m2, size_of m)" "grown True False None p {} (startbody (part m p), x) m m2"
    using append_grown(2) [OF g p] by blast
  show "grown True False None p {} (startbody (part m p), x) m (start_body p m)" if "content_type (part m p) = Some (asc ''message/rfc822'')"
    using that m1 grown_new [OF m1(2), of True False None "\<lambda>r. r\<lparr>workinheader := True\<rparr>"] by (simp add: start_body_def fresh_def)
  show "grown False True None p {} (startbody (part m p), x) m (start_body p m)"
    if "content_type (part m p) \<noteq> Some (asc ''message/rfc822'')" "boundary (part m p) \<noteq> None"
    using that m2 grown_new [OF m2(2), of False True None "\<lambda>r. r\<lparr>workinheader := False, isdummy := True\<rparr>"]
    by (simp add: start_body_def fresh_def fields_def)
  show "moves {} {} e m (start_body p m)" if "content_type (part m p) \<noteq> Some (asc ''message/rfc822'')" "boundary (part m p) = None"
    using that quiet_moves [OF quiet_start_rwprep] by (simp add: start_body_def)
qed

subsection \<open>Runs of lines\<close>

definition run :: "(byte list \<Rightarrow> bool) \<Rightarrow> bool \<Rightarrow> byte list list \<Rightarrow> message \<Rightarrow> message" where
  "run mem reformime = fold (\<lambda>l. take_line mem reformime (l @ [NL]))"

lemma run_simps [simp]: "run mem reformime [] m = m"
  "run mem reformime (l # ls) m = run mem reformime ls (take_line mem reformime (l @ [NL]) m)"
  "run mem reformime (ls @ ls') m = run mem reformime ls' (run mem reformime ls m)"
  by (simp_all add: run_def)

lemma text_of_simps [simp]: "text_of [] = []" "text_of (l # ls) = l @ NL # text_of ls" "text_of (ls @ ls') = text_of ls @ text_of ls'"
  by (simp_all add: text_of_def)

text \<open>
  \<open>inside bs m p\<close>: \<open>p\<close> is on the spine, and the boundaries around it are among \<open>bs\<close>, up to case.
  \<open>deep bs m p\<close>: that, between two lines.
\<close>

definition inside :: "byte list list \<Rightarrow> message \<Rightarrow> nat \<Rightarrow> bool" where
  "inside bs m p \<longleftrightarrow> on_spine m p \<and>
     (\<forall>q\<in>set (path m p) - {p}. \<forall>c. boundary (part m q) = Some c \<longrightarrow> (\<exists>b\<in>set bs. map tolower b = map tolower c))"

definition deep :: "byte list list \<Rightarrow> message \<Rightarrow> nat \<Rightarrow> bool" where
  "deep bs m p \<longleftrightarrow> idle m \<and> inside bs m p"

lemma boundary_line_nocase: "map tolower b = map tolower c \<Longrightarrow> boundary_line s n b \<longleftrightarrow> boundary_line s n c"
proof -
  assume a: "map tolower b = map tolower c"
  then have "length b = length c" by (metis length_map)
  then show ?thesis using a by (simp add: boundary_line_def has_prefix_nocase_def)
qed

lemma deepD: "deep bs m p \<Longrightarrow> idle m" "deep bs m p \<Longrightarrow> inside bs m p" "deep bs m p \<Longrightarrow> on_spine m p"
  by (simp_all add: deep_def inside_def)

lemma deep_less: "deep bs m p \<Longrightarrow> p < size_of m \<and> good m \<and> tree_ok m"
  using good_spine [of m p] by (simp add: deep_def inside_def idle_def good_def)

lemma deep_passes: "deep bs m p \<Longrightarrow> plain_line bs l \<Longrightarrow> passes (line l) (length l) m (set (path m p) - {p})"
  unfolding deep_def inside_def passes_def plain_line_def line_def by (metis boundary_line_nocase)

lemma inside_moves:
  assumes "inside bs m p" "tree_ok m" "moves P ps e m m'" "P \<subseteq> {p}"
  shows "inside bs m' p"
proof -
  have l: "p < size_of m" using assms(1,2) spine_less [of m p] by (simp add: inside_def)
  have "boundary (part m' q) = boundary (part m q)" if "q \<in> set (path m p) - {p}" for q
    using movesD(12) [OF assms(3) path_within [of p m q]] that assms(4) l by (auto simp: fields_def)
  then show ?thesis
    using assms(1,2) moves_spine [OF assms(3)] moves_path [OF assms(3)] l by (auto simp: inside_def)
qed

lemma deep_moves: "deep bs m p \<Longrightarrow> moves P ps e m m' \<Longrightarrow> P \<subseteq> {p} \<Longrightarrow> idle m' \<Longrightarrow> deep bs m' p"
  using inside_moves [of bs m p P ps e m'] deepD(2) [of bs m p] deep_less [of bs m p] by (simp add: deep_def)

lemma inside_begun: "inside bs m p \<Longrightarrow> tree_ok m \<Longrightarrow> inside bs (begun p s m) p"
proof -
  assume a: "inside bs m p" "tree_ok m"
  have "on_spine (begun p s m) p" by (rule spine_cong [OF begun_links _ a(2)]) (use a(1) in \<open>auto simp: begun_def part_set_part inside_def\<close>)
  moreover have "path (begun p s m) p = path m p" by (rule path_cong) (simp add: begun_def part_set_part)
  ultimately show ?thesis using a(1) by (auto simp: inside_def begun_def part_set_part)
qed

lemma run_moves:
  assumes m: "idle m" "p < size_of m" "d \<le> 1"
    and step: "\<And>l m' ps e. l \<in> set ls \<Longrightarrow> idle m' \<Longrightarrow> moves P ps e m m' \<Longrightarrow> moves P (set (path m p))
      (endpos (part m' p) + length l + 1, endpos (part m' p) + length l + 1 - d) m' (take_line mem reformime (l @ [NL]) m')"
  shows "idle (run mem reformime ls m) \<and> moves P (if ls = [] then {} else set (path m p))
    (endpos (part m p) + width ls, endpos (part m p) + width ls - d) m (run mem reformime ls m)"
  using step
proof (induction ls rule: rev_induct)
  case (snoc l ls)
  let ?m = "run mem reformime ls m"
  have a: "idle ?m" "moves P (if ls = [] then {} else set (path m p)) (endpos (part m p) + width ls, endpos (part m p) + width ls - d) m ?m"
    using snoc.IH snoc.prems by auto
  have e: "endpos (part ?m p) = endpos (part m p) + width ls" using movesD(14,16) [OF a(2) m(2)] by (cases "ls = []") auto
  have t: "moves P (set (path m p)) (endpos (part ?m p) + length l + 1, endpos (part ?m p) + length l + 1 - d) ?m (take_line mem reformime (l @ [NL]) ?m)"
    using snoc.prems a by auto
  have i: "idle (take_line mem reformime (l @ [NL]) ?m)" by (rule idle_moves [OF a(1) t])
  have "moves (P \<union> P) ((if ls = [] then {} else set (path m p)) \<union> set (path m p)) (endpos (part ?m p) + length l + 1, endpos (part ?m p) + length l + 1 - d)
     m (take_line mem reformime (l @ [NL]) ?m)"
    by (rule moves_trans [OF a(2) t]) auto
  moreover have "(if ls = [] then {} else set (path m p)) \<union> set (path m p) = set (path m p)" by auto
  ultimately show ?case using i by (simp add: e add.assoc)
qed (use m in simp)

text \<open>Lines of a body, and lines behind the last boundary.\<close>

lemma body_run:
  assumes d: "deep bs m p" and few: "size_of m \<le> MAXPARTS + 1" and ls: "list_all (plain_line bs) ls"
    and p: "lastpart (part m p) = None" "\<not> workinheader (part m p)"
  shows "idle (run mem reformime ls m) \<and> moves {} (if ls = [] then {} else set (path m p))
    (endpos (part m p) + width ls, endpos (part m p) + width ls - (if multipart_nocase (parent_type m p) then 1 else 0)) m (run mem reformime ls m)"
proof (rule run_moves)
  show "idle m" "p < size_of m" using deepD [OF d] deep_less [OF d] by simp_all
  fix l m' ps e assume l: "l \<in> set ls" and i: "idle m'" and mv: "moves {} ps e m m'"
  have pl: "p < size_of m" using deep_less [OF d] by simp
  have d': "deep bs m' p" by (rule deep_moves [OF d mv _ i]) simp
  have pt: "parent_type m' p = parent_type m p" by (rule parent_type_moves [OF mv pl]) simp
  have l': "plain_line bs l" using ls l by (simp add: list_all_iff)
  have b: "moves {} (set (path m' p)) (endpos (part m' p) + length l + 1,
      endpos (part m' p) + (if multipart_nocase (parent_type m' p) then length l else length l + 1)) m' (take_line mem reformime (l @ [NL]) m')"
    by (rule body_event [OF i _ _ deep_passes [OF d' l']])
      (use few d' l' p movesD [OF mv pl] moves_size [OF mv] in \<open>simp_all add: deepD plain_line_def\<close>)
  show "moves {} (set (path m p)) (endpos (part m' p) + length l + 1,
      endpos (part m' p) + length l + 1 - (if multipart_nocase (parent_type m p) then 1 else 0)) m' (take_line mem reformime (l @ [NL]) m')"
    using b unfolding pt moves_path [OF mv pl] by (simp split: if_splits)
qed simp

lemma epilogue_run:
  assumes d: "deep bs m p" and few: "size_of m \<le> MAXPARTS + 1" and ls: "list_all (plain_line bs) ls"
    and p: "lastpart (part m p) = Some x" "workclosed (part m x)"
  shows "idle (run mem reformime ls m) \<and> moves {} (if ls = [] then {} else set (path m p))
    (endpos (part m p) + width ls, endpos (part m p) + width ls - 1) m (run mem reformime ls m)"
proof (rule run_moves)
  show "idle m" "p < size_of m" using deepD [OF d] deep_less [OF d] by simp_all
  have xl: "x < size_of m" using tree_lastpart [OF _ _ p(1)] deep_less [OF d] by simp
  fix l m' ps e assume l: "l \<in> set ls" and i: "idle m'" and mv: "moves {} ps e m m'"
  have pl: "p < size_of m" using deep_less [OF d] by simp
  have d': "deep bs m' p" by (rule deep_moves [OF d mv _ i]) simp
  have l': "plain_line bs l" using ls l by (simp add: list_all_iff)
  have "moves {} (set (path m' p)) (endpos (part m' p) + length l + 1, endpos (part m' p) + length l) m' (take_line mem reformime (l @ [NL]) m')"
    by (rule epilogue_event [OF i _ _ deep_passes [OF d' l']])
      (use few d' l' p movesD [OF mv pl] movesD(7) [OF mv xl] moves_size [OF mv] in \<open>simp_all add: deepD plain_line_def\<close>)
  then show "moves {} (set (path m p)) (endpos (part m' p) + length l + 1, endpos (part m' p) + length l + 1 - 1) m' (take_line mem reformime (l @ [NL]) m')"
    unfolding moves_path [OF mv pl] by simp
qed simp

text \<open>Lines of a header: all but the last have their effect at once.\<close>

lemma header_lines_run:
  assumes d: "deep bs m p" and few: "size_of m \<le> MAXPARTS + 1" and hs: "list_all (plain_line bs) hs" "list_all name_line hs"
    and p: "lastpart (part m p) = None" "workinheader (part m p)"
  shows "idle (run mem reformime hs m) \<and> moves {p} (if hs = [] then {} else set (path m p))
    (endpos (part m p) + width hs, endpos (part m p) + width hs - 1) m (run mem reformime hs m)"
proof (rule run_moves)
  show "idle m" "p < size_of m" using deepD [OF d] deep_less [OF d] by simp_all
  fix l m' ps e assume l: "l \<in> set hs" and i: "idle m'" and mv: "moves {p} ps e m m'"
  have pl: "p < size_of m" using deep_less [OF d] by simp
  have d': "deep bs m' p" by (rule deep_moves [OF d mv _ i]) simp
  have l': "plain_line bs l" "name_line l" using hs l by (simp_all add: list_all_iff)
  have "moves {p} (set (path m' p)) (endpos (part m' p) + length l + 1, endpos (part m' p) + length l) m' (take_line mem reformime (l @ [NL]) m')"
    by (rule header_event(1) [OF i _ _ deep_passes [OF d' l'(1)]])
      (use few d' l' p movesD [OF mv pl] moves_size [OF mv] in \<open>simp_all add: deepD plain_line_def\<close>)
  then show "moves {p} (set (path m p)) (endpos (part m' p) + length l + 1, endpos (part m' p) + length l + 1 - 1) m' (take_line mem reformime (l @ [NL]) m')"
    unfolding moves_path [OF mv pl] by simp
qed simp

lemma header_lines_effect:
  assumes d: "deep bs m p" and few: "size_of m \<le> MAXPARTS + 1" and p: "lastpart (part m p) = None" "workinheader (part m p)"
  shows "list_all (plain_line bs) hs \<Longrightarrow> list_all name_line hs \<Longrightarrow>
    header_effect mem reformime (header (part (run mem reformime hs m) p)) (fields (part (run mem reformime hs m) p)) =
    fold (header_effect mem reformime) (header (part m p) # map no_NUL hs) (fields (part m p))"
proof (induction hs rule: rev_induct)
  case (snoc l hs)
  let ?m = "run mem reformime hs m"
  have hs: "list_all (plain_line bs) hs" "list_all name_line hs" "plain_line bs l" "name_line l" using snoc.prems by simp_all
  have pl: "p < size_of m" using deep_less [OF d] by simp
  have a: "idle ?m" "moves {p} (if hs = [] then {} else set (path m p)) (endpos (part m p) + width hs, endpos (part m p) + width hs - 1) m ?m"
    using header_lines_run [OF d few hs(1,2) p] by simp_all
  have d': "deep bs ?m p" by (rule deep_moves [OF d a(2) _ a(1)]) simp
  have r: "size_of ?m \<le> MAXPARTS + 1" "on_spine ?m p" "l = [] \<or> last l \<noteq> CR" "lastpart (part ?m p) = None" "workinheader (part ?m p)"
    using few d' hs p movesD [OF a(2) pl] moves_size [OF a(2)] by (simp_all add: deepD plain_line_def)
  note ev = header_event(2,3) [OF a(1) r(1,2) deep_passes [OF d' hs(3)] r(3,4,5) hs(4)]
  show ?case using snoc.IH [OF hs(1,2)] by (simp add: ev del: NL_def)
qed simp

text \<open>The whole header of a section, with the line that ends it.\<close>

lemma header_run:
  assumes d: "deep bs m p" and few: "size_of m \<le> MAXPARTS + 1" and hs: "list_all (plain_line bs) (hs @ [[]])" "list_all name_line hs"
    and p: "lastpart (part m p) = None" "workinheader (part m p)" "header (part m p) = []" "fields (part m p) = (mv, None, None)"
  defines "s \<equiv> endpos (part m p) + width (hs @ [[]])"
  shows "\<exists>m1. good m1 \<and> moves {p} (set (path m p)) (s, s) (begun p s m) m1 \<and>
    fields (part m1 p) = section_fields mem reformime hs mv (parent_type m p) \<and>
    run mem reformime (hs @ [[]]) m = set_workbuf [] (start_body p m1)"
proof -
  let ?m = "run mem reformime hs m"
  have pl: "p < size_of m" using deep_less [OF d] by simp
  have ls: "list_all (plain_line bs) hs" "plain_line bs []" using hs(1) by simp_all
  have a: "idle ?m" "moves {p} (if hs = [] then {} else set (path m p)) (endpos (part m p) + width hs, endpos (part m p) + width hs - 1) m ?m"
    using header_lines_run [OF d few ls(1) hs(2) p(1,2)] by simp_all
  have d': "deep bs ?m p" by (rule deep_moves [OF d a(2) _ a(1)]) simp
  have r: "size_of ?m \<le> MAXPARTS + 1" "on_spine ?m p" "lastpart (part ?m p) = None" "workinheader (part ?m p)"
    using few d' p movesD [OF a(2) pl] moves_size [OF a(2)] by (simp_all add: deepD)
  have e: "endpos (part ?m p) + 1 = s" using movesD(14,16) [OF a(2) pl] by (cases "hs = []") (simp_all add: s_def)
  have ps: "passes (line []) 0 ?m (set (path ?m p) - {p})" using deep_passes [OF d' ls(2)] by simp
  have pt: "parent_type ?m p = parent_type m p"
    by (rule parent_type_moves [OF a(2) pl]) (use tree_parent [of m p] deep_less [OF d] in fastforce)
  have pa: "path ?m p = path m p" by (rule moves_path [OF a(2) pl])
  obtain m1 where m1: "good m1" "moves {p} (set (path m p)) (s, s) (begun p s ?m) m1"
    "fields (part m1 p) = typed (parent_type m p) (header_effect mem reformime (header (part ?m p)) (fields (part ?m p)))"
    "take_line mem reformime [NL] ?m = set_workbuf [] (start_body p m1)"
    using header_end_event [OF a(1) r(1,2) ps r(3,4), of mem reformime] unfolding e pt pa by blast
  have "moves ({p} \<union> {p}) ((if hs = [] then {} else set (path m p)) \<union> set (path m p)) (s, s) (begun p s m) m1"
    by (rule moves_trans [OF begun_moves [OF a(2)] m1(2)]) auto
  moreover have "(if hs = [] then {} else set (path m p)) \<union> set (path m p) = set (path m p)" by auto
  ultimately have "moves {p} (set (path m p)) (s, s) (begun p s m) m1" by simp
  then show ?thesis using m1(1,3,4) header_lines_effect [OF d few p(1,2) ls(1) hs(2), of mem reformime] p(3,4)
    by (auto simp: section_fields_def)
qed

text \<open>Where the sections around the lines end after them.\<close>

lemma tail_ends:
  assumes "\<forall>q\<in>X. endpos (part m1 q) = a \<and> endbody (part m1 q) = a" "\<forall>q\<in>X. q < size_of m1"
    "moves Q (if ls = [] then {} else X) (a + width ls, a + width ls - d) m1 m2"
  shows "\<forall>q\<in>X. endpos (part m2 q) = a + width ls \<and> endbody (part m2 q) = (if ls = [] then a + width ls else a + width ls - d)"
  using assms(1,2) movesD(14-17) [OF assms(3)] by (cases "ls = []") auto

lemma run_good: "good m \<Longrightarrow> workbuf (part m 0) = [] \<Longrightarrow> good (run mem reformime ls m) \<and> workbuf (part (run mem reformime ls m) 0) = []"
  by (induction ls arbitrary: m) (simp_all add: take_line_good del: NL_def)

lemma idle_run: "idle m \<Longrightarrow> \<forall>q < size_of (run mem reformime ls m). \<not> informdata (part (run mem reformime ls m) q) \<Longrightarrow> idle (run mem reformime ls m)"
  using run_good [of m mem reformime ls] by (simp add: idle_def)

end
