(* ===== verification/Mime_Exact.thy ===== *)
theory Mime_Exact imports Mime_Runs begin

text \<open>
  Parsing the text of a document gives its table: by induction on the document, inside any others.
\<close>

subsection \<open>What later lines keep of the sections before \<open>k\<close>\<close>

text \<open>
  Only the sections of \<open>L\<close> get new sections, and only the ends of those of \<open>E\<close> move.
\<close>

definition keeps :: "nat \<Rightarrow> nat set \<Rightarrow> nat set \<Rightarrow> message \<Rightarrow> message \<Rightarrow> bool" where
  "keeps k L E m m' \<longleftrightarrow> k \<le> size_of m \<and> size_of m \<le> size_of m' \<and>
     (\<forall>q < k. parent (part m' q) = parent (part m q) \<and> snd (view (part m' q)) = snd (view (part m q)) \<and>
        fields (part m' q) = fields (part m q) \<and> (q \<notin> L \<longrightarrow> lastpart (part m' q) = lastpart (part m q)) \<and>
        (q \<notin> E \<longrightarrow> endpos (part m' q) = endpos (part m q) \<and> endbody (part m' q) = endbody (part m q)))"

lemma keepsD:
  assumes "keeps k L E m m'" "q < k"
  shows "parent (part m' q) = parent (part m q)" "startpos (part m' q) = startpos (part m q)" "startbody (part m' q) = startbody (part m q)"
    "isdummy (part m' q) = isdummy (part m q)" "workinheader (part m' q) = workinheader (part m q)"
    "workclosed (part m' q) = workclosed (part m q)" "informdata (part m' q) = informdata (part m q)"
    "fields (part m' q) = fields (part m q)" "q \<notin> L \<Longrightarrow> lastpart (part m' q) = lastpart (part m q)"
    "q \<notin> E \<Longrightarrow> endpos (part m' q) = endpos (part m q)" "q \<notin> E \<Longrightarrow> endbody (part m' q) = endbody (part m q)"
  using assms by (simp_all add: keeps_def view_def)

lemma keeps_size: "keeps k L E m m' \<Longrightarrow> k \<le> size_of m \<and> size_of m \<le> size_of m'"
  by (simp add: keeps_def)

lemma keeps_refl: "k \<le> size_of m \<Longrightarrow> keeps k L E m m"
  by (simp add: keeps_def)

lemma keeps_trans [trans]:
  assumes "keeps k L E m m1" "keeps k L E m1 m2"
  shows "keeps k L E m m2"
  using keeps_size [OF assms(1)] keeps_size [OF assms(2)]
  by (simp add: keeps_def [of k L E m m2] keepsD [OF assms(1)] keepsD [OF assms(2)] view_def)

lemma keeps_mono:
  assumes "keeps k L E m m'" "k' \<le> k" "\<And>q. q < k' \<Longrightarrow> q \<in> L \<Longrightarrow> q \<in> L'" "\<And>q. q < k' \<Longrightarrow> q \<in> E \<Longrightarrow> q \<in> E'"
  shows "keeps k' L' E' m m'"
proof -
  have "q \<notin> L' \<Longrightarrow> q \<notin> L" "q \<notin> E' \<Longrightarrow> q \<notin> E" "q < k" if "q < k'" for q using that assms(2-4) by auto
  then show ?thesis using assms(1,2) by (simp add: keeps_def)
qed

lemma keeps_moves:
  assumes "moves P ps e m m'" "k \<le> size_of m" "\<And>q. q < k \<Longrightarrow> q \<notin> P" "\<And>q. q < k \<Longrightarrow> q \<in> ps \<Longrightarrow> q \<in> E"
  shows "keeps k L E m m'"
proof -
  have "q < size_of m" "q \<notin> P" "q \<notin> E \<Longrightarrow> q \<notin> ps" if "q < k" for q using that assms(2-4) by auto
  then show ?thesis using assms(2) by (simp add: keeps_def moves_size [OF assms(1)] movesD(1,9,10,12,16,17) [OF assms(1)])
qed

lemma keeps_grown:
  assumes "grown ih d v p ps e m m'" "k \<le> size_of m" "p \<in> L \<or> k \<le> p" "ps \<subseteq> E"
  shows "keeps k L E m m'"
proof -
  have "q < size_of m" "q \<notin> L \<Longrightarrow> q \<noteq> p" "q \<notin> E \<Longrightarrow> q \<notin> ps" if "q < k" for q using that assms(2-4) by auto
  then show ?thesis using assms(1,2) by (simp add: keeps_def grown_size [OF assms(1)] grownD [OF assms(1)] view_def)
qed

lemma keeps_begun: "k \<le> p \<Longrightarrow> k \<le> size_of m \<Longrightarrow> keeps k L E m (begun p s m)"
  by (simp add: keeps_def begun_def part_set_part)

lemma keeps_closed: "k \<le> x \<Longrightarrow> k \<le> size_of m \<Longrightarrow> keeps k L E m (closed_part x m)"
  by (simp add: keeps_def closed_part_def part_set_part)

lemma keeps_path: "keeps k L E m m' \<Longrightarrow> p < k \<Longrightarrow> path m' p = path m p"
  by (rule path_cong) (simp add: keepsD)

lemma keeps_parent_type:
  assumes "keeps k L E m m'" "p < k"
  shows "parent_type m' p = parent_type m p"
proof -
  have "up m' p = up m p" using keepsD(1) [OF assms] by (simp add: up_def)
  moreover have "content_type (part m' q) = content_type (part m q)" if "up m p = Some q" for q
    using keepsD(8) [OF assms(1), of q] up_less [OF that] assms(2) by (simp add: fields_def)
  ultimately show ?thesis by (simp add: parent_type_def split: option.split)
qed

lemma keeps_spine:
  assumes "keeps k L E m m'" "tree_ok m" "tree_ok m'"
  shows "on_spine m p \<Longrightarrow> p < k \<Longrightarrow> \<forall>q\<in>L. p \<le> q \<Longrightarrow> on_spine m' p"
proof (induction rule: on_spine.induct)
  case (spine_down p q)
  have pq: "p < q" "q < size_of m" using open_child_less [OF spine_down(2)] by simp_all
  have on: "on_spine m' p" using spine_down(3-5) pq by force
  have "lastpart (part m p) = Some q" "\<not> workclosed (part m q)"
    using spine_down(2) open_child_Some [OF assms(2), of p q] pq by simp_all
  moreover have "p \<notin> L" using pq spine_down(5) by force
  ultimately have "lastpart (part m' p) = Some q" "\<not> workclosed (part m' q)"
    using keepsD(6,9) [OF assms(1)] pq spine_down(4) by simp_all
  then have "open_child m' p = Some q"
    using open_child_Some [OF assms(3), of p q] pq keeps_size [OF assms(1)] by simp
  from on_spine.spine_down [OF on this] show ?case .
qed (simp add: spine_root)

lemma keeps_inside:
  assumes "inside bs m p" "keeps k L E m m'" "tree_ok m" "tree_ok m'" "p < k" "\<forall>q\<in>L. p \<le> q"
  shows "inside bs m' p"
proof -
  have "on_spine m' p" using keeps_spine [OF assms(2-4) _ assms(5,6)] assms(1) by (simp add: inside_def)
  moreover have "boundary (part m' q) = boundary (part m q)" if "q \<in> set (path m p)" for q
    using keepsD(8) [OF assms(2), of q] path_le [OF that] assms(5) by (simp add: fields_def)
  ultimately show ?thesis using assms(1) keeps_path [OF assms(2,5)] by (auto simp: inside_def)
qed

subsection \<open>Rows\<close>

definition rows :: "nat \<Rightarrow> message \<Rightarrow> row list" where
  "rows k m = map (\<lambda>q. row_of (part m q)) [k..<size_of m]"

lemma rows_all: "rows 0 m = map row_of (heap m)"
proof -
  have "rows 0 m = map row_of (map (nth (heap m)) [0..<size_of m])" by (simp add: rows_def part_def)
  then show ?thesis by (simp only: map_nth)
qed

lemma length_rows [simp]: "length (rows k m) = size_of m - k"
  by (simp add: rows_def)

lemma rows_Cons: "k < size_of m \<Longrightarrow> rows k m = row_of (part m k) # rows (k + 1) m"
  by (simp add: rows_def upt_conv_Cons)

lemma keeps_row: "keeps k L E m m' \<Longrightarrow> q < k \<Longrightarrow> q \<notin> E \<Longrightarrow> row_of (part m' q) = row_of (part m q)"
  using keepsD [of k L E m m' q] by (simp add: row_of_def fields_def)

lemma rows_append:
  assumes "keeps (size_of m) L E m m'" "\<forall>q\<in>E. q < k" "k \<le> size_of m"
  shows "rows k m' = rows k m @ rows (size_of m) m'"
proof -
  have "[k..<size_of m'] = [k..<size_of m] @ [size_of m..<size_of m']"
    using assms(3) keeps_size [OF assms(1)] upt_add_eq_append [of k "size_of m" "size_of m' - size_of m"] by simp
  moreover have "row_of (part m' q) = row_of (part m q)" if "k \<le> q" "q < size_of m" for q
    using keeps_row [OF assms(1) that(2)] assms(2) that(1) by (meson not_le)
  ultimately show ?thesis by (simp add: rows_def)
qed

subsection \<open>The beginning of a section\<close>

text \<open>Not in the middle of form data.\<close>

definition calm :: "message \<Rightarrow> bool" where
  "calm m \<longleftrightarrow> (\<forall>q < size_of m. \<not> informdata (part m q))"

lemma calm_moves: "calm m \<Longrightarrow> moves P ps e m m' \<Longrightarrow> calm m'"
  by (simp add: calm_def movesD moves_size)

lemma calm_grown: "calm m \<Longrightarrow> grown ih d v p ps e m m' \<Longrightarrow> calm m'"
  using grown_fresh [of ih d v p ps e m m'] by (auto simp: calm_def grownD grown_size fresh_def less_Suc_eq)

lemma calm_set [simp]: "calm (begun p s m) = calm m" "calm (closed_part x m) = calm m"
  by (auto simp: calm_def begun_def closed_part_def part_set_part)

lemma idle_calm: "idle m \<Longrightarrow> calm m"
  by (simp add: calm_def idle_def)

lemma idle_after: "idle m \<Longrightarrow> calm (run mem reformime ls m) \<Longrightarrow> idle (run mem reformime ls m)"
  using idle_run [of m mem reformime ls] by (simp add: calm_def)

text \<open>A section that waits for its header, and one whose header has been read.\<close>

definition opens :: "byte list option \<Rightarrow> nat \<Rightarrow> message \<Rightarrow> nat \<Rightarrow> bool" where
  "opens mv pos m p \<longleftrightarrow> size_of m = p + 1 \<and> lastpart (part m p) = None \<and> workinheader (part m p) \<and> header (part m p) = [] \<and>
     startpos (part m p) = pos \<and> endpos (part m p) = pos \<and> \<not> isdummy (part m p) \<and> \<not> workclosed (part m p) \<and>
     fields (part m p) = (mv, None, None)"

lemma grown_opens: "grown True False mv p ps (pos, x) m m' \<Longrightarrow> opens mv pos m' (size_of m)"
  using grown_fresh [of True False mv p ps "(pos, x)" m m'] by (simp add: opens_def fresh_def grown_size)

definition begins :: "byte list list \<Rightarrow> nat \<Rightarrow> nat \<Rightarrow> nat \<Rightarrow> message \<Rightarrow> message \<Rightarrow> bool" where
  "begins bs pos s p m m1 \<longleftrightarrow> good m1 \<and> calm m1 \<and> inside bs m1 p \<and> size_of m1 = p + 1 \<and> keeps p {} (set (path m p)) m m1 \<and>
     path m1 p = path m p \<and> parent_type m1 p = parent_type m p \<and> parent (part m1 p) = parent (part m p) \<and>
     startpos (part m1 p) = pos \<and> startbody (part m1 p) = s \<and> \<not> isdummy (part m1 p) \<and> \<not> workclosed (part m1 p) \<and>
     \<not> workinheader (part m1 p) \<and> lastpart (part m1 p) = None \<and> (\<forall>q\<in>set (path m p). endpos (part m1 q) = s \<and> endbody (part m1 q) = s)"

lemma header_begins:
  assumes d: "deep bs m p" and o: "opens mv pos m p" and few: "p \<le> MAXPARTS"
    and hs: "list_all (plain_line bs) (hs @ [[]])" "list_all name_line hs"
  defines "s \<equiv> pos + width (hs @ [[]])"
  shows "\<exists>m1. begins bs pos s p m m1 \<and> fields (part m1 p) = section_fields mem reformime hs mv (parent_type m p) \<and>
    run mem reformime (hs @ [[]]) m = set_workbuf [] (start_body p m1)"
proof -
  have O: "size_of m = p + 1" "lastpart (part m p) = None" "workinheader (part m p)" "header (part m p) = []" "startpos (part m p) = pos"
    "endpos (part m p) = pos" "\<not> isdummy (part m p)" "\<not> workclosed (part m p)" "fields (part m p) = (mv, None, None)"
    using o by (simp_all add: opens_def)
  let ?b = "begun p s m"
  have few': "size_of m \<le> MAXPARTS + 1" using few O(1) by simp
  note t = deep_less [OF d]
  obtain m1 where m1: "good m1" "moves {p} (set (path m p)) (s, s) ?b m1"
    "fields (part m1 p) = section_fields mem reformime hs mv (parent_type m p)"
    "run mem reformime (hs @ [[]]) m = set_workbuf [] (start_body p m1)"
    using header_run [OF d few' hs O(2-4,9), of mem reformime] unfolding O(6) s_def by blast
  have tb: "tree_ok ?b" using same_tree_ok [OF begun_links] t by blast
  have pb: "p < size_of ?b" using O(1) by (simp add: begun_def)
  have pa: "path m1 p = path m p"
    using moves_path [OF m1(2) pb] same_path [OF begun_links, of p m] t by simp
  have "parent_type m1 p = parent_type ?b p"
    by (rule parent_type_moves [OF m1(2) pb]) (use tree_parent [OF tb pb] in fastforce)
  also have "\<dots> = parent_type m p" unfolding begun_def by (rule parent_type_set_part) simp
  finally have pt: "parent_type m1 p = parent_type m p" .
  have "keeps p {} (set (path m p)) m ?b" by (rule keeps_begun) (simp_all add: O(1))
  moreover have "keeps p {} (set (path m p)) ?b m1" by (rule keeps_moves [OF m1(2)]) (simp_all add: begun_def O(1))
  ultimately have k: "keeps p {} (set (path m p)) m m1" by (rule keeps_trans)
  have i: "inside bs m1 p" by (rule inside_moves [OF inside_begun tb m1(2)]) (use d t in \<open>simp_all add: deepD\<close>)
  have c: "calm m1" by (rule calm_moves [OF _ m1(2)]) (use idle_calm [OF deepD(1) [OF d]] in simp)
  have b: "part ?b p = part m p\<lparr>workinheader := False, startbody := s\<rparr>" using O(1) by (simp add: begun_def part_set_part)
  have e: "\<forall>q\<in>set (path m p). endpos (part m1 q) = s \<and> endbody (part m1 q) = s"
    using movesD(14,15) [OF m1(2)] path_within [of p ?b] pb same_path [OF begun_links, of p m] t by auto
  have "begins bs pos s p m m1"
    using m1(1) c i k pa pt e O movesD [OF m1(2) pb] moves_size [OF m1(2)] unfolding begins_def b by (simp add: begun_def)
  then show ?thesis using m1(3,4) by blast
qed

subsection \<open>Documents inside documents\<close>

text \<open>After the document that begins at the section \<open>p\<close>: its rows, and where it ends.\<close>

definition outcome :: "nat \<Rightarrow> row list \<Rightarrow> nat \<Rightarrow> message \<Rightarrow> message \<Rightarrow> bool" where
  "outcome p t e m m' \<longleftrightarrow> idle m' \<and> keeps p {} (set (path m p)) m m' \<and> p < size_of m' \<and> rows p m' = t \<and> \<not> workclosed (part m' p) \<and>
     (\<forall>q\<in>set (path m p). endpos (part m' q) = e \<and> endbody (part m' q) = row_end (hd t))"

lemma begins_outcome:
  assumes b: "begins bs pos s p m m1" and k: "keeps (p + 1) {p} (set (path m p)) m1 m'" and i: "idle m'"
    and ends: "\<forall>q\<in>set (path m p). endpos (part m' q) = e \<and> endbody (part m' q) = eb" and f: "fields (part m1 p) = (mv, ct, cb)"
  shows "outcome p ((parent (part m p), pos, s, e, eb, False, ct, cb) # rows (p + 1) m') e m m'"
proof -
  have B: "size_of m1 = p + 1" "keeps p {} (set (path m p)) m m1" "parent (part m1 p) = parent (part m p)"
    "startpos (part m1 p) = pos" "startbody (part m1 p) = s" "\<not> isdummy (part m1 p)" "\<not> workclosed (part m1 p)"
    using b by (simp_all add: begins_def)
  have p: "p < size_of m'" using keeps_size [OF k] B(1) by simp
  note K = keepsD [OF k, of p]
  have "keeps p {} (set (path m p)) m1 m'" by (rule keeps_mono [OF k]) auto
  then have "keeps p {} (set (path m p)) m m'" by (rule keeps_trans [OF B(2)])
  moreover have "content_type (part m' p) = ct" "boundary (part m' p) = cb" using K(8) f by (simp_all add: fields_def)
  then have "row_of (part m' p) = (parent (part m p), pos, s, e, eb, False, ct, cb)" using K(1-4) B(3-6) ends by (simp add: row_of_def)
  ultimately show ?thesis using i p ends K(6) B(7) rows_Cons [OF p] by (simp add: outcome_def row_end_def)
qed

definition parses :: "(byte list \<Rightarrow> bool) \<Rightarrow> bool \<Rightarrow> doc \<Rightarrow> bool" where
  "parses mem reformime d \<longleftrightarrow> (\<forall>bs mv pos m p. deep bs m p \<longrightarrow> opens mv pos m p \<longrightarrow> doc_ok mem reformime bs mv (parent_type m p) d \<longrightarrow>
     p + length (doc_table mem reformime mv (parent_type m p) (parent (part m p)) p pos d) \<le> MAXPARTS + 1 \<longrightarrow>
     outcome p (doc_table mem reformime mv (parent_type m p) (parent (part m p)) p pos d) (pos + width (doc_lines d)) m
       (run mem reformime (doc_lines d) m))"

lemma parsesD:
  assumes "parses mem reformime d" "deep bs m p" "opens mv pos m p" "parent_type m p = outer" "parent (part m p) = par"
    "doc_ok mem reformime bs mv outer d" "p + length (doc_table mem reformime mv outer par p pos d) \<le> MAXPARTS + 1"
  shows "outcome p (doc_table mem reformime mv outer par p pos d) (pos + width (doc_lines d)) m (run mem reformime (doc_lines d) m)"
  using assms unfolding parses_def by blast

lemma section_parses: "parses mem reformime (Section hs body)"
  unfolding parses_def
proof (intro allI impI)
  fix bs mv pos m p assume d: "deep bs m p" and o: "opens mv pos m p" and ok: "doc_ok mem reformime bs mv (parent_type m p) (Section hs body)"
    and few: "p + length (doc_table mem reformime mv (parent_type m p) (parent (part m p)) p pos (Section hs body)) \<le> MAXPARTS + 1"
  let ?o = "parent_type m p"
  define s where "s = pos + width (hs @ [[]])"
  obtain mv' ct cb where f: "section_fields mem reformime hs mv ?o = (mv', ct, cb)" by (metis prod_cases3)
  have ls: "list_all name_line hs" "list_all (plain_line bs) (hs @ [[]])" "list_all (plain_line bs) body"
    "ct \<noteq> Some (asc ''message/rfc822'')" "cb = None" using ok by (simp_all add: f)
  have p: "p \<le> MAXPARTS" using few by (simp add: f Let_def)
  define m2 where "m2 = run mem reformime (hs @ [[]]) m"
  obtain m1 where b: "begins bs pos s p m m1" "fields (part m1 p) = (mv', ct, cb)" "m2 = set_workbuf [] (start_body p m1)"
    using header_begins [OF d o p ls(2,1), of mem reformime] unfolding f s_def m2_def by blast
  have B: "good m1" "calm m1" "inside bs m1 p" "size_of m1 = p + 1" "path m1 p = path m p" "parent_type m1 p = ?o"
    "\<not> workinheader (part m1 p)" "lastpart (part m1 p) = None" "\<forall>q\<in>set (path m p). endpos (part m1 q) = s \<and> endbody (part m1 q) = s"
    using b(1) by (simp_all add: begins_def)
  have p1: "p < size_of m1" using B(4) by simp
  have "moves {} {} (0, 0) m1 (start_body p m1)" using start_body_event(3) [OF B(1) p1] b(2) ls by (simp add: fields_def)
  from moves_trans [OF this workbuf_moves(1) [of "(0, 0)" _ "[]"]] have mv: "moves {} {} (0, 0) m1 m2" unfolding b(3) by simp
  note M = movesD [OF mv p1]
  have i: "idle m2" unfolding m2_def by (rule idle_after [OF deepD(1) [OF d]]) (use calm_moves [OF B(2) mv] in \<open>simp add: m2_def\<close>)
  have d2: "deep bs m2 p" using i inside_moves [OF B(3) _ mv] B(1) by (simp add: deep_def good_def)
  have pt: "parent_type m2 p = ?o" using parent_type_moves [OF mv p1] B(6) by simp
  let ?d = "if multipart_nocase ?o then 1 else 0 :: nat"
  define m3 where "m3 = run mem reformime body m2"
  have at2: "lastpart (part m2 p) = None" "\<not> workinheader (part m2 p)" "endpos (part m2 p) = s" "size_of m2 \<le> MAXPARTS + 1" "path m2 p = path m p"
    using M(6,10,16) moves_size [OF mv] p B moves_path [OF mv p1] by simp_all
  have r: "idle m3" "moves {} (if body = [] then {} else set (path m p)) (s + width body, s + width body - ?d) m2 m3"
    using body_run [OF d2 at2(4) ls(3) at2(1,2), of mem reformime] unfolding m3_def [symmetric] at2(3,5) pt by blast+
  have k: "keeps (p + 1) {p} (set (path m p)) m1 m2" by (rule keeps_moves [OF mv]) (simp_all add: B(4))
  have "keeps (p + 1) {p} (set (path m p)) m2 m3"
    by (rule keeps_moves [OF r(2)]) (simp_all add: moves_size [OF mv] B(4) split: if_splits)
  then have k: "keeps (p + 1) {p} (set (path m p)) m1 m3" by (rule keeps_trans [OF k])
  have q: "q < size_of m1" if "q \<in> set (path m p)" for q using path_within [OF p1] that B(5) by simp
  have "\<forall>q\<in>set (path m p). endpos (part m2 q) = s \<and> endbody (part m2 q) = s" using B(9) movesD(16,17) [OF mv q] by simp
  from tail_ends [OF this _ r(2)]
  have e: "\<forall>q\<in>set (path m p). endpos (part m3 q) = s + width body \<and>
      endbody (part m3 q) = body_end ?o s body"
    using q moves_size [OF mv] by (simp add: body_end_def split: if_splits)
  have sz: "size_of m3 = p + 1" using moves_size [OF r(2)] moves_size [OF mv] B(4) by simp
  then have "rows (p + 1) m3 = []" by (simp add: rows_def)
  with begins_outcome [OF b(1) k r(1) e b(2)]
  show "outcome p (doc_table mem reformime mv ?o (parent (part m p)) p pos (Section hs body)) (pos + width (doc_lines (Section hs body))) m
      (run mem reformime (doc_lines (Section hs body)) m)"
    by (simp add: f Let_def s_def m2_def m3_def add.assoc)
qed

text \<open>A new section is inside the one that it was made for.\<close>

lemma grown_child:
  assumes i: "inside bs m p" and g: "good m" "good m'" and p: "p < size_of m" and n: "grown ih d v p ps e m m'"
    and b: "\<And>c. boundary (part m p) = Some c \<Longrightarrow> \<exists>b\<in>set bs'. map tolower b = map tolower c" and bs: "set bs \<subseteq> set bs'"
  shows "inside bs' m' (size_of m)" "path m' (size_of m) = size_of m # path m p"
    "parent_type m' (size_of m) = content_type (part m p)" "parent (part m' (size_of m)) = Some p"
proof -
  have t: "tree_ok m" "tree_ok m'" using g by (simp_all add: good_def)
  have F: "parent (part m' (size_of m)) = Some p" "\<not> workclosed (part m' (size_of m))" using grown_fresh [OF n] by (simp_all add: fresh_def)
  have k: "keeps (size_of m) {p} ps m m'" by (rule keeps_grown [OF n]) simp_all
  have p': "p < size_of m'" using p grown_size [OF n] by simp
  have s: "on_spine m' p" by (rule keeps_spine [OF k t _ p]) (use i in \<open>simp_all add: inside_def\<close>)
  have o: "open_child m' p = Some (size_of m)" using open_child_Some [OF t(2) p'] grownD(2) [OF n p] F(2) by simp
  show pa: "path m' (size_of m) = size_of m # path m p" using path_down [OF t(2) p' o] keeps_path [OF k p] by simp
  show "parent (part m' (size_of m)) = Some p" by (rule F(1))
  then have "up m' (size_of m) = Some p" using p by (simp add: up_def)
  then show "parent_type m' (size_of m) = content_type (part m p)" using grownD(9) [OF n p] by (simp add: parent_type_def fields_def)
  have "boundary (part m' q) = boundary (part m q)" if "q \<in> set (path m p)" for q
    using grownD(9) [OF n path_within [OF p that]] by (simp add: fields_def)
  then show "inside bs' m' (size_of m)" using i spine_down [OF s o] b bs unfolding inside_def pa by fastforce
qed

lemma section_fields_boundary: "section_fields mem reformime hs mv outer = (mv', ct, cb) \<Longrightarrow> \<not> multipart ct \<Longrightarrow> cb = None"
  unfolding section_fields_def typed_def Let_def by (auto split: prod.splits if_split_asm)

lemma rfc822_not_multipart: "\<not> multipart (Some (asc ''message/rfc822''))"
  by code_simp

lemma message_parses:
  assumes D: "parses mem reformime d"
  shows "parses mem reformime (Message hs d)"
  unfolding parses_def
proof (intro allI impI)
  fix bs mv pos m p assume d: "deep bs m p" and o: "opens mv pos m p" and ok: "doc_ok mem reformime bs mv (parent_type m p) (Message hs d)"
    and few: "p + length (doc_table mem reformime mv (parent_type m p) (parent (part m p)) p pos (Message hs d)) \<le> MAXPARTS + 1"
  let ?o = "parent_type m p"
  define s where "s = pos + width (hs @ [[]])"
  obtain mv' ct cb where f: "section_fields mem reformime hs mv ?o = (mv', ct, cb)" by (metis prod_cases3)
  have ls: "list_all name_line hs" "list_all (plain_line bs) (hs @ [[]])" "ct = Some (asc ''message/rfc822'')" "doc_ok mem reformime bs None ct d"
    using ok unfolding doc_ok.simps f prod.case by blast+
  have cb: "cb = None" by (rule section_fields_boundary [OF f]) (unfold ls(3), rule rfc822_not_multipart)
  define t where "t = doc_table mem reformime None ct (Some p) (p + 1) s d"
  have p: "p + 1 + length t \<le> MAXPARTS + 1" using few by (simp add: f Let_def t_def s_def)
  then have p0: "p \<le> MAXPARTS" by simp
  define m2 where "m2 = run mem reformime (hs @ [[]]) m"
  obtain m1 where b: "begins bs pos s p m m1" "fields (part m1 p) = (mv', ct, cb)" "m2 = set_workbuf [] (start_body p m1)"
    using header_begins [OF d o p0 ls(2,1), of mem reformime] unfolding f s_def m2_def by blast
  have B: "good m1" "calm m1" "inside bs m1 p" "size_of m1 = p + 1" "path m1 p = path m p" "startbody (part m1 p) = s"
    using b(1) by (simp_all add: begins_def)
  have p1: "p < size_of m1" using B(4) by simp
  have "grown True False None p {} (s, 0) m1 (start_body p m1)"
    using start_body_event(1) [OF B(1) p1, of 0] b(2) ls(3) B(6) by (simp add: fields_def)
  from grown_before [OF this workbuf_moves(1) [of "(0, 0)" _ "[]"]] have g: "grown True False None p {} (s, 0) m1 m2" unfolding b(3) .
  have i: "idle m2" unfolding m2_def by (rule idle_after [OF deepD(1) [OF d]]) (use calm_grown [OF B(2) g] in \<open>simp add: m2_def\<close>)
  have g2: "good m2" using i by (simp add: idle_def)
  have nb: "boundary (part m1 p) = Some c \<Longrightarrow> \<exists>b\<in>set bs. map tolower b = map tolower c" for c using b(2) cb by (simp add: fields_def)
  note C = grown_child [OF B(3,1) g2 p1 g nb subset_refl, unfolded B(4,5)]
  have o2: "opens None s m2 (p + 1)" using grown_opens [OF g] B(4) by simp
  have d2: "deep bs m2 (p + 1)" using i C(1) by (simp add: deep_def)
  have pt: "parent_type m2 (p + 1) = ct" using C(3) b(2) by (simp add: fields_def)
  define m3 where "m3 = run mem reformime (doc_lines d) m2"
  have x: "outcome (p + 1) t (s + width (doc_lines d)) m2 m3"
    using parsesD [OF D d2 o2 pt C(4) ls(4)] p unfolding t_def m3_def by blast
  have k1: "keeps (p + 1) {p} (set (path m p)) m1 m2" by (rule keeps_grown [OF g]) (simp_all add: B(4))
  have "keeps (p + 1) {p} (set (path m p)) m2 m3"
    by (rule keeps_mono [of "p + 1" "{}" "set (path m2 (p + 1))"]) (use x C(2) in \<open>auto simp: outcome_def\<close>)
  then have k: "keeps (p + 1) {p} (set (path m p)) m1 m3" by (rule keeps_trans [OF k1])
  have e: "\<forall>q\<in>set (path m p). endpos (part m3 q) = s + width (doc_lines d) \<and> endbody (part m3 q) = row_end (hd t)"
    using x C(2) by (simp add: outcome_def)
  have "rows (p + 1) m3 = t" "idle m3" using x by (simp_all add: outcome_def)
  with begins_outcome [OF b(1) k _ e b(2)]
  have "outcome p ((parent (part m p), pos, s, s + width (doc_lines d), row_end (hd t), False, ct, cb) # t) (s + width (doc_lines d)) m m3" by simp
  then show "outcome p (doc_table mem reformime mv ?o (parent (part m p)) p pos (Message hs d)) (pos + width (doc_lines (Message hs d))) m
      (run mem reformime (doc_lines (Message hs d)) m)"
    by (simp add: f Let_def t_def s_def m2_def m3_def add.assoc)
qed

subsection \<open>The parts of a multipart\<close>

lemma no_NUL_id: "0 \<notin> set l \<Longrightarrow> no_NUL l = l"
  unfolding no_NUL_def by (induction l) auto

lemma boundary_lines:
  assumes b: "0 \<notin> set b" and c: "map tolower b = map tolower c"
  shows "boundary_line (line (dashes @ b)) (length (dashes @ b)) c" "\<not> last_boundary (line (dashes @ b)) (length (dashes @ b)) c"
    "boundary_line (line (dashes @ b @ dashes)) (length (dashes @ b @ dashes)) c" "last_boundary (line (dashes @ b @ dashes)) (length (dashes @ b @ dashes)) c"
proof -
  have n: "length c = length b" using c by (metis length_map)
  have d: "dashes = [45, 45]" "asc ''--'' = [45, 45]" by (simp_all add: dashes_def)
  have l: "line (dashes @ b) = 45 # 45 # b @ [NL]" "line (dashes @ b @ dashes) = 45 # 45 # b @ 45 # 45 # [NL]"
    unfolding line_def using b by (simp_all add: no_NUL_id d)
  show "boundary_line (line (dashes @ b)) (length (dashes @ b)) c" "\<not> last_boundary (line (dashes @ b)) (length (dashes @ b)) c"
    "boundary_line (line (dashes @ b @ dashes)) (length (dashes @ b @ dashes)) c" "last_boundary (line (dashes @ b @ dashes)) (length (dashes @ b @ dashes)) c"
    unfolding l using c n by (simp_all add: d boundary_line_def last_boundary_def has_prefix_nocase_def has_prefix_def)
qed

text \<open>Between two parts of the multipart \<open>p\<close>.\<close>

definition between :: "byte list list \<Rightarrow> fields \<Rightarrow> nat \<Rightarrow> nat \<Rightarrow> message \<Rightarrow> nat \<Rightarrow> bool" where
  "between bs f n t m p \<longleftrightarrow> deep bs m p \<and> size_of m = n \<and> (\<exists>x. lastpart (part m p) = Some x \<and> \<not> workclosed (part m x)) \<and>
     \<not> workinheader (part m p) \<and> fields (part m p) = f \<and> endpos (part m p) = t"

lemma boundary_opens:
  fixes mem :: "byte list \<Rightarrow> bool" and reformime :: bool
  assumes w: "between bs (mv, ct, Some c) n t m p" and few: "n \<le> MAXPARTS" and b: "0 \<notin> set b" "map tolower c = map tolower b"
    and l: "plain_line bs (dashes @ b)"
  defines "m1 \<equiv> take_line mem reformime ((dashes @ b) @ [NL]) m"
  shows "deep (b # bs) m1 n" "opens mv (t + width [dashes @ b]) m1 n" "parent_type m1 n = ct" "parent (part m1 n) = Some p"
    "path m1 n = n # path m p" "keeps n {p} (set (path m p)) m m1" "lastpart (part m1 p) = Some n"
proof -
  have W: "deep bs m p" "size_of m = n" "\<not> workinheader (part m p)" "fields (part m p) = (mv, ct, Some c)" "endpos (part m p) = t"
    using w by (simp_all add: between_def)
  obtain x where x: "lastpart (part m p) = Some x" "\<not> workclosed (part m x)" using w by (auto simp: between_def)
  have F: "boundary (part m p) = Some c" "mime_version (part m p) = mv" "content_type (part m p) = ct" using W(4) by (simp_all add: fields_def)
  have p: "p < size_of m" using deep_less [OF W(1)] by simp
  have few': "size_of m \<le> MAXPARTS + 1" using few W(2) by simp
  have cr: "dashes @ b = [] \<or> last (dashes @ b) \<noteq> CR" using l by (simp add: plain_line_def)
  note B = boundary_lines [OF b(1) b(2) [symmetric]]
  have g: "grown True False mv p (set (path m p)) (t + length (dashes @ b) + 1, t + length (dashes @ b)) m m1"
    using next_boundary_event [OF deepD(1) [OF W(1)] few' deepD(3) [OF W(1)] deep_passes [OF W(1) l] cr x W(3) F(1) B(1,2)]
    unfolding F(2) W(5) m1_def .
  have i: "idle m1" using take_line_good [of m mem reformime "(dashes @ b) @ [NL]"] deep_less [OF W(1)]
      calm_grown [OF idle_calm [OF deepD(1) [OF W(1)]] g] unfolding m1_def by (simp add: idle_def calm_def)
  have g1: "good m" "good m1" using deep_less [OF W(1)] i by (simp_all add: idle_def)
  have nb: "boundary (part m p) = Some c' \<Longrightarrow> \<exists>b'\<in>set (b # bs). map tolower b' = map tolower c'" for c' using F(1) b(2) by auto
  have ss: "set bs \<subseteq> set (b # bs)" by auto
  note C = grown_child [OF deepD(2) [OF W(1)] g1 p g nb ss, unfolded W(2)]
  show "deep (b # bs) m1 n" using i C(1) by (simp add: deep_def)
  show "opens mv (t + width [dashes @ b]) m1 n" using grown_opens [OF g] W(2) by (simp add: add.assoc)
  show "parent_type m1 n = ct" using C(3) F(3) by simp
  show "parent (part m1 n) = Some p" by (rule C(4))
  show "path m1 n = n # path m p" by (rule C(2))
  show "keeps n {p} (set (path m p)) m m1" by (rule keeps_grown [OF g]) (simp_all add: W(2))
  show "lastpart (part m1 p) = Some n" using grownD(2) [OF g p] W(2) by simp
qed

lemma part_parses:
  assumes w: "between bs (mv, ct, Some c) n t m p" and D: "parses mem reformime d" and b: "0 \<notin> set b" "map tolower c = map tolower b"
    and l: "plain_line bs (dashes @ b)" and ok: "doc_ok mem reformime (b # bs) mv ct d"
  defines "r \<equiv> doc_table mem reformime mv ct (Some p) n (t + width [dashes @ b]) d"
    and "m' \<equiv> run mem reformime ((dashes @ b) # doc_lines d) m"
  assumes few: "n + length r \<le> MAXPARTS + 1"
  shows "between bs (mv, ct, Some c) (n + length r) (t + width [dashes @ b] + width (doc_lines d)) m' p \<and>
    keeps n {p} (set (path m p)) m m' \<and> rows n m' = r"
proof -
  have "r \<noteq> []" unfolding r_def by (cases d) (auto split: prod.split simp: Let_def)
  then have n: "n \<le> MAXPARTS" using few by (cases r) auto
  define m1 where "m1 = take_line mem reformime ((dashes @ b) @ [NL]) m"
  note O = boundary_opens [OF w n b l, of mem reformime, folded m1_def]
  have x: "outcome n r (t + width [dashes @ b] + width (doc_lines d)) m1 m'"
    using parsesD [OF D O(1-4) ok] few unfolding r_def m'_def m1_def run_simps by blast
  have W: "deep bs m p" "size_of m = n" "\<not> workinheader (part m p)" "fields (part m p) = (mv, ct, Some c)"
    using w by (simp_all add: between_def)
  have p: "p < n" using deep_less [OF W(1)] W(2) by simp
  have X: "idle m'" "keeps n {} (set (path m1 n)) m1 m'" "n < size_of m'" "rows n m' = r" "\<not> workclosed (part m' n)"
    "endpos (part m' p) = t + width [dashes @ b] + width (doc_lines d)"
    using x O(5) by (simp_all add: outcome_def)
  have "keeps n {p} (set (path m p)) m1 m'" by (rule keeps_mono [OF X(2)]) (use O(5) in auto)
  then have k: "keeps n {p} (set (path m p)) m m'" by (rule keeps_trans [OF O(6)])
  have t: "tree_ok m" "tree_ok m'" using deep_less [OF W(1)] X(1) by (simp_all add: idle_def good_def)
  have "inside bs m' p" by (rule keeps_inside [OF deepD(2) [OF W(1)] k t p]) simp
  moreover have "lastpart (part m' p) = Some n" using keepsD(9) [OF X(2) p] O(7) by simp
  moreover have "size_of m' = n + length r" using X(3,4) length_rows [of n m'] by simp
  ultimately show ?thesis using k X W keepsD(5,8) [OF k p] unfolding between_def deep_def by simp
qed

lemma parts_parse:
  assumes b: "0 \<notin> set b" "map tolower c = map tolower b" and l: "plain_line bs (dashes @ b)"
  shows "(\<And>d. d \<in> set ds \<Longrightarrow> parses mem reformime d) \<Longrightarrow> list_all (doc_ok mem reformime (b # bs) mv ct) ds \<Longrightarrow>
    between bs (mv, ct, Some c) n t m p \<Longrightarrow> n + length (docs_table mem reformime mv ct p n t b ds) \<le> MAXPARTS + 1 \<Longrightarrow>
    (let r = docs_table mem reformime mv ct p n t b ds; ls = concat (map (\<lambda>d. (dashes @ b) # doc_lines d) ds); m' = run mem reformime ls m
     in between bs (mv, ct, Some c) (n + length r) (t + width ls) m' p \<and> keeps n {p} (set (path m p)) m m' \<and> rows n m' = r)"
proof (induction ds arbitrary: n t m)
  case Nil
  then show ?case by (auto simp: between_def keeps_refl rows_def)
next
  case (Cons d ds)
  define r where "r = doc_table mem reformime mv ct (Some p) n (t + width [dashes @ b]) d"
  define t1 where "t1 = t + width [dashes @ b] + width (doc_lines d)"
  define r' where "r' = docs_table mem reformime mv ct p (n + length r) t1 b ds"
  define ls where "ls = concat (map (\<lambda>d. (dashes @ b) # doc_lines d) ds)"
  have tab: "docs_table mem reformime mv ct p n t b (d # ds) = r @ r'" by (simp add: Let_def r_def r'_def t1_def add.assoc)
  have few: "n + length r \<le> MAXPARTS + 1" "(n + length r) + length r' \<le> MAXPARTS + 1" using Cons.prems(4) unfolding tab by simp_all
  have ok: "doc_ok mem reformime (b # bs) mv ct d" "list_all (doc_ok mem reformime (b # bs) mv ct) ds" using Cons.prems(2) by simp_all
  define m1 where "m1 = run mem reformime ((dashes @ b) # doc_lines d) m"
  have A: "between bs (mv, ct, Some c) (n + length r) t1 m1 p" "keeps n {p} (set (path m p)) m m1" "rows n m1 = r"
    using part_parses [OF Cons.prems(3) Cons.prems(1) b l ok(1) few(1) [unfolded r_def]] unfolding r_def t1_def m1_def by auto
  have p: "p < n" using Cons.prems(3) deep_less [of bs m p] by (simp add: between_def)
  have pa: "path m1 p = path m p" by (rule keeps_path [OF A(2) p])
  define m2 where "m2 = run mem reformime ls m1"
  have B: "between bs (mv, ct, Some c) (n + length r + length r') (t1 + width ls) m2 p" "keeps (n + length r) {p} (set (path m p)) m1 m2"
    "rows (n + length r) m2 = r'"
    using Cons.IH [OF Cons.prems(1) ok(2) A(1)] few(2) unfolding r'_def Let_def pa ls_def [symmetric] m2_def by auto
  have s: "size_of m1 = n + length r" using A(1) by (simp add: between_def)
  have "keeps n {p} (set (path m p)) m1 m2" by (rule keeps_mono [OF B(2)]) simp_all
  then have k: "keeps n {p} (set (path m p)) m m2" by (rule keeps_trans [OF A(2)])
  have "rows n m2 = rows n m1 @ rows (size_of m1) m2"
    by (rule rows_append [OF B(2) [folded s]]) (use path_le [of _ m p] p s in fastforce)+
  then have R: "rows n m2 = r @ r'" using A(3) B(3) s by simp
  have L: "concat (map (\<lambda>d. (dashes @ b) # doc_lines d) (d # ds)) = ((dashes @ b) # doc_lines d) @ ls" by (simp add: ls_def)
  have M: "run mem reformime (((dashes @ b) # doc_lines d) @ ls) m = m2" unfolding run_simps(3) m1_def [symmetric] m2_def ..
  have T: "t + width (((dashes @ b) # doc_lines d) @ ls) = t1 + width ls" by (simp add: t1_def)
  show ?case using B(1) k R unfolding Let_def tab L M T length_append by (simp add: add.assoc)
qed

subsection \<open>Multiparts\<close>

text \<open>The text before the first boundary.\<close>

lemma preamble_parses:
  fixes mem :: "byte list \<Rightarrow> bool" and reformime :: bool
  assumes b: "begins bs pos s p m m1" and f: "fields (part m1 p) = (mv, ct, Some c)" and ct: "ct \<noteq> Some (asc ''message/rfc822'')"
    and m2: "m2 = set_workbuf [] (start_body p m1)" "idle m2" and few: "p + 2 \<le> MAXPARTS + 1"
    and bc: "map tolower c = map tolower b" and pre: "list_all (plain_line (b # bs)) pre"
  defines "m3 \<equiv> run mem reformime pre m2"
  shows "between bs (mv, ct, Some c) (p + 2) (s + width pre) m3 p \<and> keeps (p + 1) {p} (set (path m p)) m1 m3 \<and>
    rows (p + 1) m3 = [(Some p, s, s, s + width pre, body_end ct s pre, True, None, None)]"
proof -
  have B: "good m1" "calm m1" "inside bs m1 p" "size_of m1 = p + 1" "path m1 p = path m p" "startbody (part m1 p) = s"
    "\<not> workinheader (part m1 p)" "endpos (part m1 p) = s"
    using b by (simp_all add: begins_def)
  have F: "content_type (part m1 p) = ct" "boundary (part m1 p) = Some c" using f by (simp_all add: fields_def)
  have p1: "p < size_of m1" using B(4) by simp
  have "grown False True None p {} (s, s) m1 (start_body p m1)"
    using start_body_event(2) [OF B(1) p1, of s] F ct B(6) by simp
  from grown_before [OF this workbuf_moves(1) [of "(0, 0)" _ "[]"]] have g: "grown False True None p {} (s, s) m1 m2" unfolding m2(1) .
  have g2: "good m2" using m2(2) by (simp add: idle_def)
  have nb: "boundary (part m1 p) = Some c' \<Longrightarrow> \<exists>b'\<in>set (b # bs). map tolower b' = map tolower c'" for c' using F bc by auto
  have ss: "set bs \<subseteq> set (b # bs)" by auto
  note C = grown_child [OF B(3,1) g2 p1 g nb ss, unfolded B(4,5)]
  have d2: "deep (b # bs) m2 (p + 1)" using m2(2) C(1) by (simp add: deep_def)
  have N: "startpos (part m2 (p + 1)) = s" "startbody (part m2 (p + 1)) = s" "endpos (part m2 (p + 1)) = s" "endbody (part m2 (p + 1)) = s"
    "isdummy (part m2 (p + 1))" "\<not> workinheader (part m2 (p + 1))" "\<not> workclosed (part m2 (p + 1))" "lastpart (part m2 (p + 1)) = None"
    "fields (part m2 (p + 1)) = (None, None, None)"
    using grown_fresh [OF g] B(4) by (simp_all add: fresh_def)
  have z2: "size_of m2 = p + 2" using grown_size [OF g] B(4) by simp
  have few2: "size_of m2 \<le> MAXPARTS + 1" using few z2 by simp
  let ?d = "if multipart_nocase ct then 1 else 0 :: nat"
  have pt: "parent_type m2 (p + 1) = ct" using C(3) F(1) by simp
  have r: "idle m3" "moves {} (if pre = [] then {} else set (path m2 (p + 1))) (s + width pre, s + width pre - ?d) m2 m3"
    using body_run [OF d2 few2 pre N(8,6), of mem reformime] unfolding pt N(3) m3_def by blast+
  have k1: "keeps (p + 1) {p} (set (path m p)) m1 m2" by (rule keeps_grown [OF g]) (simp_all add: B(4))
  have "keeps (p + 1) {p} (set (path m p)) m2 m3"
    by (rule keeps_moves [OF r(2)]) (use z2 C(2) in \<open>auto split: if_splits\<close>)
  then have k: "keeps (p + 1) {p} (set (path m p)) m1 m3" by (rule keeps_trans [OF k1])
  have c2: "p + 1 < size_of m2" using z2 by simp
  note M = movesD [OF r(2) c2]
  have z3: "size_of m3 = p + 2" using moves_size [OF r(2)] z2 by simp
  have "endpos (part m3 (p + 1)) = s + width pre" "endbody (part m3 (p + 1)) = body_end ct s pre"
    using M(14-17) N(3,4) by (cases "pre = []"; simp add: body_end_def)+
  then have row: "row_of (part m3 (p + 1)) = (Some p, s, s, s + width pre, body_end ct s pre, True, None, None)"
    using M(3-5,9,12) N C(4) by (simp add: row_of_def fields_def)
  have t: "tree_ok m1" "tree_ok m3" using B(1) r(1) by (simp_all add: idle_def good_def)
  have "inside bs m3 p" by (rule keeps_inside [OF B(3) k t]) simp_all
  moreover have "lastpart (part m3 p) = Some (p + 1)" using movesD(10) [OF r(2), of p] grownD(2) [OF g p1] z2 B(4) by simp
  moreover have "endpos (part m3 p) = s + width pre"
    using movesD(14,16) [OF r(2), of p] grownD(13) [OF g p1] z2 B(8) C(2) by (cases "pre = []") simp_all
  ultimately have "between bs (mv, ct, Some c) (p + 2) (s + width pre) m3 p"
    using r(1) z3 M(7) N(7) keepsD(5,8) [OF k, of p] B(7) f by (simp add: between_def deep_def)
  moreover have "rows (p + 1) m3 = [row_of (part m3 (p + 1))]" using z3 by (simp add: rows_def)
  ultimately show ?thesis using k row by simp
qed

text \<open>The last boundary and the lines behind it.\<close>

lemma multipart_closes:
  fixes mem :: "byte list \<Rightarrow> bool" and reformime :: bool
  assumes w: "between bs (mv, ct, Some c) n t m p" and few: "n \<le> MAXPARTS + 1" and b: "0 \<notin> set b" "map tolower c = map tolower b"
    and l: "plain_line bs (dashes @ b @ dashes)" and epi: "list_all (plain_line bs) epi"
  defines "m' \<equiv> run mem reformime ((dashes @ b @ dashes) # epi) m" and "e \<equiv> t + width ((dashes @ b @ dashes) # epi)"
  shows "idle m' \<and> keeps (p + 1) {p} (set (path m p)) m m' \<and> rows (p + 1) m' = rows (p + 1) m \<and>
    (\<forall>q\<in>set (path m p). endpos (part m' q) = e \<and> endbody (part m' q) = (if epi = [] then e else e - 1))"
proof -
  have W: "deep bs m p" "size_of m = n" "\<not> workinheader (part m p)" "boundary (part m p) = Some c" "endpos (part m p) = t"
    using w by (simp_all add: between_def fields_def)
  obtain x where x: "lastpart (part m p) = Some x" "\<not> workclosed (part m x)" using w by (auto simp: between_def)
  have T: "good m" "tree_ok m" "p < size_of m" using deep_less [OF W(1)] by simp_all
  have xl: "p < x" "x < size_of m" using tree_lastpart [OF T(2,3) x(1)] by simp_all
  have few': "size_of m \<le> MAXPARTS + 1" using few W(2) by simp
  have cr: "dashes @ b @ dashes = [] \<or> last (dashes @ b @ dashes) \<noteq> CR" using l by (simp add: plain_line_def)
  note B = boundary_lines(3,4) [OF b(1) b(2) [symmetric]]
  define m1 where "m1 = take_line mem reformime ((dashes @ b @ dashes) @ [NL]) m"
  define a where "a = t + length (dashes @ b @ dashes) + 1"
  let ?mc = "closed_part x m"
  have mv: "moves {} (set (path m p)) (a, a) ?mc m1"
    using last_boundary_event [OF deepD(1) [OF W(1)] few' deepD(3) [OF W(1)] deep_passes [OF W(1) l] cr x W(3,4) B] unfolding W(5) a_def m1_def .
  have Z: "size_of ?mc = size_of m" by (simp add: closed_part_def)
  have z1: "size_of m1 = size_of m" using moves_size [OF mv] Z by simp
  have "calm ?mc" using idle_calm [OF deepD(1) [OF W(1)]] by simp
  then have "calm m1" by (rule calm_moves [OF _ mv])
  then have i1: "idle m1" using take_line_good [OF T(1), of mem reformime "(dashes @ b @ dashes) @ [NL]"]
    unfolding m1_def by (simp add: idle_def calm_def)
  have kc: "keeps (p + 1) {p} (set (path m p)) m ?mc" by (rule keeps_closed) (use xl in simp_all)
  have "keeps (p + 1) {p} (set (path m p)) ?mc m1" by (rule keeps_moves [OF mv]) (use T(3) Z in auto)
  then have k1: "keeps (p + 1) {p} (set (path m p)) m m1" by (rule keeps_trans [OF kc])
  have t1: "tree_ok m1" using i1 by (simp add: idle_def good_def)
  have "inside bs m1 p" by (rule keeps_inside [OF deepD(2) [OF W(1)] k1 T(2) t1]) simp_all
  then have d1: "deep bs m1 p" using i1 by (simp add: deep_def)
  have p1: "p < size_of m1" using T(3) z1 by simp
  have x1: "lastpart (part m1 p) = Some x" "workclosed (part m1 x)"
    using movesD(10) [OF mv, of p] movesD(7) [OF mv, of x] x(1) T(3) xl Z by (simp_all add: closed_part_def part_set_part)
  have pa: "path m1 p = path m p" by (rule keeps_path [OF k1]) simp
  have e1: "\<forall>q\<in>set (path m p). endpos (part m1 q) = a \<and> endbody (part m1 q) = a"
    using movesD(14,15) [OF mv] path_within [OF T(3)] Z by auto
  have m': "m' = run mem reformime epi m1" unfolding m'_def m1_def run_simps ..
  have r: "idle m'" "moves {} (if epi = [] then {} else set (path m p)) (a + width epi, a + width epi - 1) m1 m'"
    using epilogue_run [OF d1 _ epi x1, of mem reformime] few' z1 e1 unfolding m' pa by simp_all
  have "keeps (p + 1) {p} (set (path m p)) m1 m'" by (rule keeps_moves [OF r(2)]) (use p1 in \<open>auto split: if_splits\<close>)
  then have k: "keeps (p + 1) {p} (set (path m p)) m m'" by (rule keeps_trans [OF k1])
  have "a + width epi = e" by (simp add: a_def e_def)
  then have E: "\<forall>q\<in>set (path m p). endpos (part m' q) = e \<and> endbody (part m' q) = (if epi = [] then e else e - 1)"
    using tail_ends [OF e1 _ r(2)] path_within [OF T(3)] z1 by auto
  have "row_of (part m' q) = row_of (part m q)" if q: "p + 1 \<le> q" "q < size_of m" for q
  proof -
    have nq: "q \<notin> set (path m p)" "q \<notin> (if epi = [] then {} else set (path m p))" using path_le [of q m p] q by auto
    have qs: "q < size_of ?mc" "q < size_of m1" using q Z z1 by simp_all
    have "row_of (part m' q) = row_of (part ?mc q)"
      using movesD [OF r(2) qs(2)] movesD [OF mv qs(1)] nq by (simp add: row_of_def fields_def)
    also have "\<dots> = row_of (part m q)" by (simp add: closed_part_def part_set_part row_of_def)
    finally show ?thesis .
  qed
  then have "rows (p + 1) m' = rows (p + 1) m" using moves_size [OF r(2)] z1 by (simp add: rows_def)
  then show ?thesis using r(1) k E by blast
qed

lemma multi_parses:
  assumes D: "\<And>d. d \<in> set ds \<Longrightarrow> parses mem reformime d"
  shows "parses mem reformime (Multi hs b pre ds epi)"
  unfolding parses_def
proof (intro allI impI)
  fix bs mv pos m p assume d: "deep bs m p" and o: "opens mv pos m p"
    and ok: "doc_ok mem reformime bs mv (parent_type m p) (Multi hs b pre ds epi)"
    and few: "p + length (doc_table mem reformime mv (parent_type m p) (parent (part m p)) p pos (Multi hs b pre ds epi)) \<le> MAXPARTS + 1"
  let ?o = "parent_type m p" and ?last = "dashes @ b @ dashes"
  define s where "s = pos + width (hs @ [[]])"
  define ls where "ls = concat (map (\<lambda>d. (dashes @ b) # doc_lines d) ds)"
  obtain mv' ct cb where f: "section_fields mem reformime hs mv ?o = (mv', ct, cb)" by (metis prod_cases3)
  have ok': "list_all name_line hs" "list_all (plain_line bs) (hs @ [[]])" "plain_line bs (dashes @ b)" "plain_line bs ?last"
    "list_all (plain_line bs) epi" "list_all (plain_line (b # bs)) pre" "0 \<notin> set b" "ct \<noteq> Some (asc ''message/rfc822'')"
    "case cb of None \<Rightarrow> False | Some c \<Rightarrow> map tolower c = map tolower b" "list_all (doc_ok mem reformime (b # bs) mv' ct) ds"
    using ok unfolding doc_ok.simps f prod.case by simp_all
  obtain c where c: "cb = Some c" "map tolower c = map tolower b" using ok'(9) by (cases cb) auto
  define r where "r = docs_table mem reformime mv' ct p (p + 2) (s + width pre) b ds"
  have p: "p + 2 + length r \<le> MAXPARTS + 1" using few by (simp add: f Let_def r_def s_def)
  then have p0: "p \<le> MAXPARTS" by simp
  define m2 where "m2 = run mem reformime (hs @ [[]]) m"
  obtain m1 where b: "begins bs pos s p m m1" "fields (part m1 p) = (mv', ct, cb)" "m2 = set_workbuf [] (start_body p m1)"
    using header_begins [OF d o p0 ok'(2,1), of mem reformime] unfolding f s_def m2_def by blast
  have p1: "p < size_of m1" "good m1" "calm m1" "path m1 p = path m p" using b(1) by (simp_all add: begins_def)
  have "grown False True None p {} (startbody (part m1 p), 0) m1 (start_body p m1)"
    using start_body_event(2) [OF p1(2,1), of 0] b(2) ok'(8) c(1) by (simp add: fields_def)
  from calm_grown [OF p1(3) grown_before [OF this workbuf_moves(1)]] have "calm m2" unfolding b(3) .
  then have i2: "idle m2" unfolding m2_def by (rule idle_after [OF deepD(1) [OF d]])
  define m3 where "m3 = run mem reformime pre m2"
  have A: "between bs (mv', ct, Some c) (p + 2) (s + width pre) m3 p" "keeps (p + 1) {p} (set (path m p)) m1 m3"
    "rows (p + 1) m3 = [(Some p, s, s, s + width pre, body_end ct s pre, True, None, None)]"
    using preamble_parses [OF b(1) b(2) [unfolded c(1)] ok'(8) b(3) i2 _ c(2) ok'(6), of mem reformime] p unfolding m3_def by simp_all
  have pa: "path m3 p = path m p" using keeps_path [OF A(2), of p] p1(4) by simp
  define m4 where "m4 = run mem reformime ls m3"
  have B: "between bs (mv', ct, Some c) (p + 2 + length r) (s + width pre + width ls) m4 p" "keeps (p + 2) {p} (set (path m p)) m3 m4"
    "rows (p + 2) m4 = r"
    using parts_parse [OF ok'(7) c(2) ok'(3) D ok'(10) A(1)] p unfolding r_def Let_def ls_def [symmetric] m4_def pa by auto
  have s3: "size_of m3 = p + 2" using A(1) by (simp add: between_def)
  have k4: "keeps (p + 1) {p} (set (path m p)) m3 m4" by (rule keeps_mono [OF B(2)]) simp_all
  have pa4: "path m4 p = path m p" using keeps_path [OF k4, of p] pa by simp
  have "rows (p + 1) m4 = rows (p + 1) m3 @ rows (size_of m3) m4"
    by (rule rows_append [of m3 "{p}" "set (path m p)"]) (use B(2) s3 path_le [of _ m p] in \<open>auto simp: le_imp_less_Suc\<close>)
  then have R: "rows (p + 1) m4 = (Some p, s, s, s + width pre, body_end ct s pre, True, None, None) # r" using A(3) B(3) s3 by simp
  define e where "e = pos + width (doc_lines (Multi hs b pre ds epi))"
  define m5 where "m5 = run mem reformime (?last # epi) m4"
  have te: "s + width pre + width ls + width (?last # epi) = e" by (simp add: e_def s_def ls_def)
  have C: "idle m5" "keeps (p + 1) {p} (set (path m p)) m4 m5" "rows (p + 1) m5 = rows (p + 1) m4"
    "\<forall>q\<in>set (path m p). endpos (part m5 q) = e \<and> endbody (part m5 q) = (if epi = [] then e else e - 1)"
    using multipart_closes [OF B(1) p ok'(7) c(2) ok'(4,5), of mem reformime] unfolding m5_def pa4 te by simp_all
  have k: "keeps (p + 1) {p} (set (path m p)) m1 m5" by (rule keeps_trans [OF keeps_trans [OF A(2) k4] C(2)])
  have M: "run mem reformime (doc_lines (Multi hs b pre ds epi)) m = m5"
    by (simp add: m5_def m4_def m3_def m2_def ls_def)
  have T: "doc_table mem reformime mv ?o (parent (part m p)) p pos (Multi hs b pre ds epi) =
      (parent (part m p), pos, s, e, if epi = [] then e else e - 1, False, ct, cb) # rows (p + 1) m5"
    unfolding C(3) R doc_table.simps f prod.case Let_def by (simp add: s_def e_def r_def del: doc_lines.simps)
  show "outcome p (doc_table mem reformime mv ?o (parent (part m p)) p pos (Multi hs b pre ds epi)) (pos + width (doc_lines (Multi hs b pre ds epi))) m
      (run mem reformime (doc_lines (Multi hs b pre ds epi)) m)"
    unfolding T M using begins_outcome [OF b(1) k C(1,4) b(2)] unfolding e_def .
qed

lemma all_parse: "parses mem reformime d"
  by (induction d) (rule section_parses multi_parses message_parses; assumption)+

subsection \<open>A document as input\<close>

lemma doc_ok_lines: "doc_ok mem reformime bs mv outer d \<Longrightarrow> l \<in> set (doc_lines d) \<Longrightarrow> NL \<notin> set l"
proof (induction d arbitrary: bs mv outer)
  case (Multi hs b pre ds epi)
  obtain mv' ct cb where f: "section_fields mem reformime hs mv outer = (mv', ct, cb)" by (metis prod_cases3)
  have ok: "list_all (plain_line bs) (hs @ [] # (dashes @ b) # (dashes @ b @ dashes) # epi)" "list_all (plain_line (b # bs)) pre"
    "list_all (doc_ok mem reformime (b # bs) mv' ct) ds"
    using Multi.prems(1) unfolding doc_ok.simps f prod.case by blast+
  show ?case
  proof (cases "\<exists>d\<in>set ds. l \<in> set (doc_lines d)")
    case True
    then obtain d where d: "d \<in> set ds" "l \<in> set (doc_lines d)" by blast
    then show ?thesis using Multi.IH [OF d(1) _ d(2)] ok(3) unfolding list_all_iff by blast
  next
    case False
    then have "l \<in> set (hs @ [] # (dashes @ b) # (dashes @ b @ dashes) # epi) \<or> l \<in> set pre"
      using Multi.prems(2) by (auto split: if_split_asm)
    then show ?thesis using ok(1,2) unfolding list_all_iff plain_line_def by blast
  qed
next
  case (Section hs body)
  have "list_all (plain_line bs) (hs @ [] # body)" using Section.prems(1) unfolding doc_ok.simps by blast
  then show ?case using Section.prems(2) unfolding list_all_iff plain_line_def doc_lines.simps by blast
next
  case (Message hs d)
  obtain mv' ct cb where f: "section_fields mem reformime hs mv outer = (mv', ct, cb)" by (metis prod_cases3)
  have "list_all (plain_line bs) (hs @ [[]])" "doc_ok mem reformime bs None ct d"
    using Message.prems(1) unfolding doc_ok.simps f prod.case by blast+
  then show ?case using Message.IH Message.prems(2) by (auto simp: list_all_iff plain_line_def)
qed

lemma parse_lines_run: "\<forall>l\<in>set ls. NL \<notin> set l \<Longrightarrow> parse_lines mem reformime (text_of ls) m = run mem reformime ls m"
  by (induction ls arbitrary: m) (simp_all add: parse_lines_NL del: NL_def)

lemma longest_line_text: "\<forall>l\<in>set ls. NL \<notin> set l \<and> length l \<le> n \<Longrightarrow> longest_line (text_of ls) 0 \<le> n"
  by (induction ls) (simp_all add: longest_line_plain del: NL_def)

lemma start_opens: "deep [] (start rewrite) 0" "opens None 0 (start rewrite) 0" "parent_type (start rewrite) 0 = None" "parent (part (start rewrite) 0) = None"
proof -
  have p: "part (start rewrite) 0 = rfc2045_alloc\<lparr>rfc2045acptr := rewrite\<rparr>" "size_of (start rewrite) = 1"
    by (simp_all add: start_def part_def new_message_def rfc2045_alloc_ac_def rfc2045_alloc_def)
  show n: "parent (part (start rewrite) 0) = None" unfolding p by (simp add: rfc2045_alloc_def)
  then show "parent_type (start rewrite) 0 = None" by (simp add: parent_type_def up_def)
  have "path (start rewrite) 0 = [0]" using n by (subst path.simps) (simp add: up_def)
  then show "deep [] (start rewrite) 0" using start_good [of rewrite] p
    by (simp add: deep_def inside_def idle_def spine_root rfc2045_alloc_def)
  show "opens None 0 (start rewrite) 0" unfolding opens_def p by (simp add: rfc2045_alloc_def fields_def)
qed

text \<open>
  C1. Parsing the text of a document, however it is cut, gives the sections of the document: their order and
  nesting, where each begins, where its body begins and ends, and its content type and boundary.
\<close>

theorem document_structure:
  assumes "doc_ok mem reformime [] None None d" "length (doc_table mem reformime None None None 0 0 d) \<le> MAXPARTS + 1"
    "\<forall>l\<in>set (doc_lines d). length l \<le> 1024" "concat bufs = doc_text d"
  shows "map row_of (heap (fold (rfc2045_parse mem reformime) bufs (start rewrite))) = doc_table mem reformime None None None 0 0 d"
proof -
  have l: "\<forall>l\<in>set (doc_lines d). NL \<notin> set l" using doc_ok_lines [OF assms(1)] by blast
  have "longest_line (concat bufs) 0 \<le> 1024" using longest_line_text l assms(3) unfolding assms(4) doc_text_def by blast
  then have "fold (rfc2045_parse mem reformime) bufs (start rewrite) = run mem reformime (doc_lines d) (start rewrite)"
    using fold_parse_lines [of "start rewrite" bufs mem reformime] start_good [of rewrite] parse_lines_run [OF l]
    unfolding assms(4) doc_text_def by simp
  then show ?thesis
    using parsesD [OF all_parse start_opens assms(1)] assms(2) by (simp add: outcome_def rows_all)
qed

text \<open>A multipart with a text, and a message of no type.\<close>

definition letter :: doc where
  "letter = Multi [asc ''Mime-Version: 1.0'', asc ''Content-Type: multipart/mixed; boundary=x''] (asc ''x'') [asc ''hi'']
     [Section [] [asc ''one''], Message [asc ''Content-Type: message/rfc822''] (Section [] [])] []"

lemma section_fields_simps:
  "section_fields mem reformime [] mv outer = typed outer (mv, None, None)"
  "section_fields mem reformime [h] mv outer = typed outer (header_effect mem reformime (no_NUL h) (mv, None, None))"
  "section_fields mem reformime [h, h'] mv outer = typed outer (header_effect mem reformime (no_NUL h') (header_effect mem reformime (no_NUL h) (mv, None, None)))"
  by (simp_all add: section_fields_def)

lemma letter_version:
  "header_effect (\<lambda>_. True) False (no_NUL (asc ''Mime-Version: 1.0'')) (None, None, None) = (Some (asc ''1.0''), None, None)"
  by code_simp

lemma letter_type:
  "header_effect (\<lambda>_. True) False (no_NUL (asc ''Content-Type: multipart/mixed; boundary=x'')) (Some (asc ''1.0''), None, None) =
     (Some (asc ''1.0''), Some (asc ''multipart/mixed''), Some (asc ''x''))"
  by code_simp

lemma letter_message:
  "header_effect (\<lambda>_. True) False (no_NUL (asc ''Content-Type: message/rfc822'')) (Some (asc ''1.0''), None, None) =
     (Some (asc ''1.0''), Some (asc ''message/rfc822''), None)"
  by code_simp

lemma atoi_1_0: "atoi [49, 46, 48] = 1"
  by code_simp

lemma letter_fields:
  "section_fields (\<lambda>_. True) False [asc ''Mime-Version: 1.0'', asc ''Content-Type: multipart/mixed; boundary=x''] None None =
     (Some (asc ''1.0''), Some (asc ''multipart/mixed''), Some (asc ''x''))"
  "section_fields (\<lambda>_. True) False [asc ''Content-Type: message/rfc822''] (Some (asc ''1.0'')) (Some (asc ''multipart/mixed'')) =
     (Some (asc ''1.0''), Some (asc ''message/rfc822''), None)"
  "section_fields (\<lambda>_. True) False [] (Some (asc ''1.0'')) (Some (asc ''multipart/mixed'')) = (Some (asc ''1.0''), Some (asc ''text/plain''), None)"
  "section_fields (\<lambda>_. True) False [] None (Some (asc ''message/rfc822'')) = (None, None, None)"
  unfolding section_fields_simps letter_version letter_type letter_message
  by (simp_all add: typed_def RFC2045_ISMIME1_def multipart_def has_prefix_def atoi_1_0)

lemma letter_ok: "doc_ok (\<lambda>_. True) False [] None None letter"
  unfolding letter_def doc_ok.simps letter_fields prod.case
  by (simp add: letter_fields [simplified] dashes_def name_line_def plain_line_def isspace_def no_NUL_def boundary_line_def
      has_prefix_nocase_def at_def tolower_def isupper_def cong: conj_cong)

lemma letter_table: "doc_table (\<lambda>_. True) False None None None 0 0 letter =
   [(None, 0, 61, 114, 114, False, Some (asc ''multipart/mixed''), Some (asc ''x'')),
    (Some 0, 61, 61, 64, 63, True, None, None),
    (Some 0, 68, 69, 73, 72, False, Some (asc ''text/plain''), None),
    (Some 0, 77, 107, 108, 108, False, Some (asc ''message/rfc822''), None),
    (Some 3, 107, 108, 108, 108, False, None, None)]"
  unfolding letter_def doc_table.simps letter_fields prod.case
  by (simp add: letter_fields [simplified] dashes_def body_end_def multipart_nocase_def has_prefix_nocase_def tolower_def isupper_def row_end_def)

theorem document_structure_letter:
  "map row_of (heap (fold (rfc2045_parse (\<lambda>_. True) False) [take 20 (doc_text letter), drop 20 (doc_text letter)] (start True))) =
   [(None, 0, 61, 114, 114, False, Some (asc ''multipart/mixed''), Some (asc ''x'')),
    (Some 0, 61, 61, 64, 63, True, None, None),
    (Some 0, 68, 69, 73, 72, False, Some (asc ''text/plain''), None),
    (Some 0, 77, 107, 108, 108, False, Some (asc ''message/rfc822''), None),
    (Some 3, 107, 108, 108, 108, False, None, None)]"
proof -
  have "\<forall>l\<in>set (doc_lines letter). length l \<le> 1024" by (simp add: letter_def dashes_def)
  moreover have "length (doc_table (\<lambda>_. True) False None None None 0 0 letter) \<le> MAXPARTS + 1" by (simp add: letter_table MAXPARTS_def)
  moreover have "concat [take 20 (doc_text letter), drop 20 (doc_text letter)] = doc_text letter" by simp
  ultimately show ?thesis unfolding letter_table [symmetric] using letter_ok by (intro document_structure)
qed

end
