(* ===== verification/Utf8.thy ===== *)
theory Utf8 imports Prelude begin

text \<open>
  UTF-8: \<open>wmail/unicode/utf8.c\<close>. Characters of up to 31 bits are written in one to six bytes; reading
  is in two passes, one that counts and finds errors, and one that fills the array. \<open>mem n\<close> says
  whether there is memory for \<open>n\<close> bytes; what is stored behind the pointer for the error is an option.
\<close>

subsection \<open>Reading\<close>

type_synonym unicode_char = u32

definition cont :: "byte \<Rightarrow> bool" where
  "cont c \<longleftrightarrow> c AND 0xC0 = 0x80"

definition utf8_len :: "byte list \<Rightarrow> nat option" where
  "utf8_len cp =
     (if at cp 0 AND 0x80 = 0 then Some 1
      else if at cp 0 AND 0xE0 = 0xC0 \<and> cont (at cp 1) then Some 2
      else if at cp 0 AND 0xF0 = 0xE0 \<and> cont (at cp 1) \<and> cont (at cp 2) then Some 3
      else if at cp 0 AND 0xF8 = 0xF0 \<and> cont (at cp 1) \<and> cont (at cp 2) \<and> cont (at cp 3) then Some 4
      else if at cp 0 AND 0xFC = 0xF8 \<and> cont (at cp 1) \<and> cont (at cp 2) \<and> cont (at cp 3) \<and> cont (at cp 4) then Some 5
      else if at cp 0 AND 0xFE = 0xFC \<and> cont (at cp 1) \<and> cont (at cp 2) \<and> cont (at cp 3) \<and> cont (at cp 4) \<and> cont (at cp 5) then Some 6
      else None)"

lemma at_drop_less: "at cp 0 \<noteq> 0 \<Longrightarrow> 0 < k \<Longrightarrow> length cp - k < length cp"
  by (cases cp) auto

lemma at_tl_less: "at cp 0 \<noteq> 0 \<Longrightarrow> length cp - Suc 0 < length cp"
  by (cases cp) auto

lemma utf8_len_pos: "utf8_len cp = Some k \<Longrightarrow> 0 < k"
  by (auto simp: utf8_len_def split: if_split_asm)

text \<open>The first pass: \<open>Inl\<close> the position of an error, or \<open>Inr\<close> the size of the array.\<close>

function tou_count :: "bool \<Rightarrow> byte list \<Rightarrow> nat \<Rightarrow> nat \<Rightarrow> nat + nat" where
  "tou_count ip cp l n =
     (if at cp 0 = 0 then Inr n
      else case utf8_len cp of
        Some k \<Rightarrow> tou_count ip (drop k cp) (l + k) (n + 1)
      | None \<Rightarrow> if ip then Inl l else tou_count ip (tl cp) (l + 1) (n + 1))"
  by pat_completeness auto
termination
  by (relation "measure (\<lambda>(ip, cp, l, n). length cp)") (auto intro: at_drop_less at_tl_less utf8_len_pos)

declare tou_count.simps [simp del]

text \<open>The second pass. A byte that does not belong to a character is taken as a signed \<open>char\<close>.\<close>

definition more :: "unicode_char \<Rightarrow> byte \<Rightarrow> unicode_char" where
  "more uc c = push_bit 6 uc OR wide (c AND 0x3F)"

definition tou_char :: "byte list \<Rightarrow> unicode_char" where
  "tou_char cp =
     (case utf8_len cp of
        None \<Rightarrow> scast (at cp 0)
      | Some k \<Rightarrow>
          if k = 1 then wide (at cp 0)
          else if k = 2 then more (wide (at cp 0 AND 0x1F)) (at cp 1)
          else if k = 3 then more (more (wide (at cp 0 AND 0x0F)) (at cp 1)) (at cp 2)
          else if k = 4 then more (more (more (wide (at cp 0 AND 0x07)) (at cp 1)) (at cp 2)) (at cp 3)
          else if k = 5 then more (more (more (more (wide (at cp 0 AND 0x03)) (at cp 1)) (at cp 2)) (at cp 3)) (at cp 4)
          else more (more (more (more (more (wide (at cp 0 AND 0x01)) (at cp 1)) (at cp 2)) (at cp 3)) (at cp 4)) (at cp 5))"

definition tou_skip :: "byte list \<Rightarrow> nat" where
  "tou_skip cp = (case utf8_len cp of None \<Rightarrow> 1 | Some k \<Rightarrow> k)"

function tou_fill :: "byte list \<Rightarrow> unicode_char list" where
  "tou_fill cp = (if at cp 0 = 0 then [] else tou_char cp # tou_fill (drop (tou_skip cp) cp))"
  by pat_completeness auto
termination
  by (relation "measure length") (auto simp: tou_skip_def intro: at_drop_less at_tl_less utf8_len_pos split: option.split)

declare tou_fill.simps [simp del]

definition unicode_utf8_tou :: "(nat \<Rightarrow> bool) \<Rightarrow> bool \<Rightarrow> byte list \<Rightarrow> unicode_char list option \<times> int option" where
  "unicode_utf8_tou mem ip cp =
     (case tou_count ip cp 0 1 of
        Inl l \<Rightarrow> (None, Some (int l))
      | Inr n \<Rightarrow> (if mem (n * 4) then Some (tou_fill cp) else None, if ip then Some (- 1) else None))"

subsection \<open>Writing\<close>

text \<open>One character: how many bytes, and the bytes if there is a buffer \<open>p\<close> for them.\<close>

definition low6 :: "unicode_char \<Rightarrow> nat \<Rightarrow> byte" where
  "low6 uc k = low8 (drop_bit k uc AND 0x3F) OR 0x80"

definition put_char :: "bool \<Rightarrow> unicode_char \<Rightarrow> nat \<times> byte list" where
  "put_char p uc =
     (if uc = uc AND 0x7F then (1, if p then [low8 uc] else [])
      else if uc = uc AND 0x7FF then (2, if p then [low8 (drop_bit 6 uc AND 0x1F) OR 0xC0, low6 uc 0] else [])
      else if uc = uc AND 0xFFFF then (3, if p then [low8 (drop_bit 12 uc AND 0x0F) OR 0xE0, low6 uc 6, low6 uc 0] else [])
      else if uc = uc AND 0x1FFFFF then (4, if p then [low8 (drop_bit 18 uc AND 0x07) OR 0xF0, low6 uc 12, low6 uc 6, low6 uc 0] else [])
      else if uc = uc AND 0x3FFFFFF
      then (5, if p then [low8 (drop_bit 24 uc AND 0x03) OR 0xF8, low6 uc 18, low6 uc 12, low6 uc 6, low6 uc 0] else [])
      else (6, if p then [low8 (drop_bit 30 uc AND 0x01) OR 0xFC, low6 uc 24, low6 uc 18, low6 uc 12, low6 uc 6, low6 uc 0] else []))"

fun unicode_utf8_fromu_pass :: "bool \<Rightarrow> unicode_char list \<Rightarrow> nat \<times> byte list" where
  "unicode_utf8_fromu_pass p [] = (0, [])"
| "unicode_utf8_fromu_pass p (uc # cp) =
     (if uc = 0 then (0, [])
      else case put_char p uc of (k, s) \<Rightarrow> case unicode_utf8_fromu_pass p cp of (l, t) \<Rightarrow> (k + l, s @ t))"

definition unicode_utf8_fromu :: "(nat \<Rightarrow> bool) \<Rightarrow> bool \<Rightarrow> unicode_char list \<Rightarrow> byte list option \<times> int option" where
  "unicode_utf8_fromu mem ip cp =
     (let l = fst (unicode_utf8_fromu_pass False cp)
      in if mem (l + 1) then (Some (snd (unicode_utf8_fromu_pass True cp)), None) else (None, if ip then Some (- 1) else None))"

subsection \<open>Sizes of the buffers\<close>

text \<open>The passes agree: what the second writes fits, with the terminator, what the first asked for.\<close>

lemma tou_count_fill: "tou_count ip cp l n = Inr k \<Longrightarrow> k = n + length (tou_fill cp)"
proof (induction ip cp l n rule: tou_count.induct)
  case (1 ip cp l n)
  show ?case using 1(1,2) 1(3)
    by (subst tou_fill.simps) (auto simp: tou_count.simps [of ip cp] tou_skip_def drop_Suc split: option.splits if_split_asm)
qed

lemma put_char_length: "length (snd (put_char True uc)) = fst (put_char p uc)"
  by (simp add: put_char_def)

lemma fromu_pass_length: "length (snd (unicode_utf8_fromu_pass True cp)) = fst (unicode_utf8_fromu_pass p cp)"
proof (induction cp)
  case (Cons uc cp)
  then show ?case using put_char_length [of uc p] by (simp add: case_prod_unfold)
qed simp

subsection \<open>Reading what was written\<close>

lemma wide_masks: "(0x1F::u32) = mask 5" "(0x3F::u32) = mask 6" "(0x0F::u32) = mask 4" "(0x07::u32) = mask 3" "(0x03::u32) = mask 2" "(0x01::u32) = mask 1"
  "(0x7F::u32) = mask 7" "(0x7FF::u32) = mask 11" "(0xFFFF::u32) = mask 16" "(0x1FFFFF::u32) = mask 21" "(0x3FFFFFF::u32) = mask 26"
  by (simp_all add: mask_eq_exp_minus_1)

lemma byte_by_bits: "(\<And>n. n \<in> {0, 1, 2, 3, 4, 5, 6, 7} \<Longrightarrow> bit (x::byte) n = bit y n) \<Longrightarrow> x = y"
  by (rule bit_word_eqI) (auto simp: less_Suc_eq numeral_eq_Suc)

lemma cont_low6: "cont (low6 uc k)"
  unfolding cont_def by (rule byte_by_bits) (auto simp: low6_def bit_simps wide_masks)

lemma low6_value: "low6 uc k AND 0x3F = low8 (drop_bit k uc AND 0x3F)"
  by (rule byte_by_bits) (auto simp: low6_def bit_simps wide_masks)

lemma wide_low8: "m \<le> 8 \<Longrightarrow> wide (low8 (x AND mask m)) = x AND mask m"
  by (rule bit_word_eqI) (auto simp: bit_simps)

lemma split_low: "push_bit n (drop_bit n (x::u32)) OR (x AND mask n) = x"
proof (rule bit_word_eqI)
  fix i assume "i < LENGTH(32)"
  then show "bit (push_bit n (drop_bit n x) OR x AND mask n) i = bit x i" by (cases "n \<le> i") (auto simp: bit_simps)
qed

lemma more_low6: "more (drop_bit (k + 6) uc) (low6 uc k) = drop_bit k uc"
  using split_low [of 6 "drop_bit k uc"] wide_low8 [of 6 "drop_bit k uc"]
  by (simp add: more_def low6_value wide_masks drop_bit_drop_bit add.commute)

text \<open>The first byte gives the highest bits, and how many bytes there are.\<close>

lemma lead_value:
  assumes "uc = uc AND mask (k + m)" "m \<le> 8"
  shows "wide (low8 (drop_bit k uc AND mask m)) = drop_bit k uc"
proof -
  have "drop_bit k uc AND mask m = drop_bit k uc"
    by (rule bit_word_eqI) (use arg_cong [OF assms(1), of "\<lambda>w. bit w (k + n)" for n] in \<open>auto simp: bit_simps\<close>)
  then show ?thesis using wide_low8 [OF assms(2), of "drop_bit k uc"] by simp
qed

lemma low8_and: "low8 (x AND y) = low8 x AND low8 y"
  by (rule bit_word_eqI) (auto simp: bit_simps)

lemma and_or_and: "((y AND a) OR b) AND c = (y AND (a AND c)) OR (b AND c)" for y :: byte
  by (rule bit_word_eqI) (auto simp: bit_simps)

lemma lead_bytes:
  "(low8 (x AND 0x1F) OR 0xC0) AND 0x1F = low8 (x AND 0x1F)" "(low8 (x AND 0x1F) OR 0xC0) AND 0xE0 = 0xC0" "(low8 (x AND 0x1F) OR 0xC0) AND 0x80 = 0x80"
  "(low8 (x AND 0x0F) OR 0xE0) AND 0x0F = low8 (x AND 0x0F)" "(low8 (x AND 0x0F) OR 0xE0) AND 0xF0 = 0xE0" "(low8 (x AND 0x0F) OR 0xE0) AND 0x80 = 0x80"
    "(low8 (x AND 0x0F) OR 0xE0) AND 0xE0 = 0xE0"
  "(low8 (x AND 0x07) OR 0xF0) AND 0x07 = low8 (x AND 0x07)" "(low8 (x AND 0x07) OR 0xF0) AND 0xF8 = 0xF0" "(low8 (x AND 0x07) OR 0xF0) AND 0x80 = 0x80"
    "(low8 (x AND 0x07) OR 0xF0) AND 0xE0 = 0xE0" "(low8 (x AND 0x07) OR 0xF0) AND 0xF0 = 0xF0"
  "(low8 (x AND 0x03) OR 0xF8) AND 0x03 = low8 (x AND 0x03)" "(low8 (x AND 0x03) OR 0xF8) AND 0xFC = 0xF8" "(low8 (x AND 0x03) OR 0xF8) AND 0x80 = 0x80"
    "(low8 (x AND 0x03) OR 0xF8) AND 0xE0 = 0xE0" "(low8 (x AND 0x03) OR 0xF8) AND 0xF0 = 0xF0" "(low8 (x AND 0x03) OR 0xF8) AND 0xF8 = 0xF8"
  "(low8 (x AND 0x01) OR 0xFC) AND 0x01 = low8 (x AND 0x01)" "(low8 (x AND 0x01) OR 0xFC) AND 0xFE = 0xFC" "(low8 (x AND 0x01) OR 0xFC) AND 0x80 = 0x80"
    "(low8 (x AND 0x01) OR 0xFC) AND 0xE0 = 0xE0" "(low8 (x AND 0x01) OR 0xFC) AND 0xF0 = 0xF0" "(low8 (x AND 0x01) OR 0xFC) AND 0xF8 = 0xF8"
    "(low8 (x AND 0x01) OR 0xFC) AND 0xFC = 0xFC"
  by (simp_all add: low8_and and_or_and)

lemma byte_differ: "(0x80::byte) \<noteq> 0" "(0xE0::byte) \<noteq> 0xC0" "(0xF0::byte) \<noteq> 0xE0" "(0xF8::byte) \<noteq> 0xF0" "(0xFC::byte) \<noteq> 0xF8"
  by (auto dest: arg_cong [of _ _ "\<lambda>w. bit w 7"])

lemma at_bytes: "at (a # s) 0 = a" "at (a # b # s) 1 = b" "at (a # b # c # s) 2 = c" "at (a # b # c # d # s) 3 = d"
  "at (a # b # c # d # e # s) 4 = e" "at (a # b # c # d # e # f # s) 5 = f"
  by (simp_all add: at_def)

lemma low8_ascii: "uc = uc AND 0x7F \<Longrightarrow> low8 uc AND 0x80 = 0" "uc = uc AND 0x7F \<Longrightarrow> wide (low8 uc) = uc"
proof -
  assume a: "uc = uc AND 0x7F"
  have "low8 (uc AND 0x7F) AND 0x80 = 0" by (rule byte_by_bits) (auto simp: bit_simps wide_masks)
  then show "low8 uc AND 0x80 = 0" using a by simp
  show "wide (low8 uc) = uc" using wide_low8 [of 7 uc] a by (simp add: wide_masks)
qed

lemma utf8_len_lead:
  "utf8_len ((low8 (x AND 0x1F) OR 0xC0) # low6 uc 0 # s) = Some 2"
  "utf8_len ((low8 (x AND 0x0F) OR 0xE0) # low6 uc 6 # low6 uc 0 # s) = Some 3"
  "utf8_len ((low8 (x AND 0x07) OR 0xF0) # low6 uc 12 # low6 uc 6 # low6 uc 0 # s) = Some 4"
  "utf8_len ((low8 (x AND 0x03) OR 0xF8) # low6 uc 18 # low6 uc 12 # low6 uc 6 # low6 uc 0 # s) = Some 5"
  "utf8_len ((low8 (x AND 0x01) OR 0xFC) # low6 uc 24 # low6 uc 18 # low6 uc 12 # low6 uc 6 # low6 uc 0 # s) = Some 6"
  unfolding utf8_len_def by (simp_all only: at_bytes lead_bytes byte_differ cont_low6 if_True if_False HOL.simp_thms)

lemma tou_char_lead:
  "utf8_len (a # b # s) = Some 2 \<Longrightarrow> tou_char (a # b # s) = more (wide (a AND 0x1F)) b"
  "utf8_len (a # b # c # s) = Some 3 \<Longrightarrow> tou_char (a # b # c # s) = more (more (wide (a AND 0x0F)) b) c"
  "utf8_len (a # b # c # d # s) = Some 4 \<Longrightarrow> tou_char (a # b # c # d # s) = more (more (more (wide (a AND 0x07)) b) c) d"
  "utf8_len (a # b # c # d # e # s) = Some 5 \<Longrightarrow> tou_char (a # b # c # d # e # s) = more (more (more (more (wide (a AND 0x03)) b) c) d) e"
  "utf8_len (a # b # c # d # e # f # s) = Some 6 \<Longrightarrow>
     tou_char (a # b # c # d # e # f # s) = more (more (more (more (more (wide (a AND 0x01)) b) c) d) e) f"
  unfolding tou_char_def by (simp_all add: at_def)

lemma lead_values:
  "uc = uc AND 0x7FF \<Longrightarrow> wide (low8 (drop_bit 6 uc AND 0x1F)) = drop_bit 6 uc"
  "uc = uc AND 0xFFFF \<Longrightarrow> wide (low8 (drop_bit 12 uc AND 0x0F)) = drop_bit 12 uc"
  "uc = uc AND 0x1FFFFF \<Longrightarrow> wide (low8 (drop_bit 18 uc AND 0x07)) = drop_bit 18 uc"
  "uc = uc AND 0x3FFFFFF \<Longrightarrow> wide (low8 (drop_bit 24 uc AND 0x03)) = drop_bit 24 uc"
  "uc = uc AND mask 31 \<Longrightarrow> wide (low8 (drop_bit 30 uc AND 0x01)) = drop_bit 30 uc"
  unfolding wide_masks by (rule lead_value; simp)+

lemma put_char_read:
  assumes "uc = uc AND mask 31"
  shows "utf8_len (snd (put_char True uc) @ s) = Some (fst (put_char True uc))" "tou_char (snd (put_char True uc) @ s) = uc"
proof -
  note M = more_low6 [of 0 uc] more_low6 [of 6 uc] more_low6 [of 12 uc] more_low6 [of 18 uc] more_low6 [of 24 uc]
  have "utf8_len (snd (put_char True uc) @ s) = Some (fst (put_char True uc)) \<and> tou_char (snd (put_char True uc) @ s) = uc"
  proof (cases "uc = uc AND 0x7F")
    case True
    then show ?thesis using low8_ascii [OF True] by (simp add: put_char_def utf8_len_def tou_char_def)
  next
    case a: False
    consider (b) "uc = uc AND 0x7FF" | (c) "uc = uc AND 0xFFFF" "uc \<noteq> uc AND 0x7FF"
      | (d) "uc = uc AND 0x1FFFFF" "uc \<noteq> uc AND 0x7FF" "uc \<noteq> uc AND 0xFFFF"
      | (e) "uc = uc AND 0x3FFFFFF" "uc \<noteq> uc AND 0x7FF" "uc \<noteq> uc AND 0xFFFF" "uc \<noteq> uc AND 0x1FFFFF"
      | (f) "uc \<noteq> uc AND 0x7FF" "uc \<noteq> uc AND 0xFFFF" "uc \<noteq> uc AND 0x1FFFFF" "uc \<noteq> uc AND 0x3FFFFFF" by blast
    then show ?thesis
    proof cases
      case b
      then show ?thesis using a M lead_values by (simp add: put_char_def utf8_len_lead tou_char_lead lead_bytes)
    next
      case c
      then show ?thesis using a M lead_values by (simp add: put_char_def utf8_len_lead tou_char_lead lead_bytes)
    next
      case d
      then show ?thesis using a M lead_values by (simp add: put_char_def utf8_len_lead tou_char_lead lead_bytes)
    next
      case e
      then show ?thesis using a M lead_values by (simp add: put_char_def utf8_len_lead tou_char_lead lead_bytes)
    next
      case f
      then show ?thesis using a M lead_values(5) [OF assms] by (simp add: put_char_def utf8_len_lead tou_char_lead lead_bytes)
    qed
  qed
  then show "utf8_len (snd (put_char True uc) @ s) = Some (fst (put_char True uc))" "tou_char (snd (put_char True uc) @ s) = uc" by blast+
qed

lemma put_char_head: "uc \<noteq> 0 \<Longrightarrow> uc = uc AND mask 31 \<Longrightarrow> at (snd (put_char True uc) @ s) 0 \<noteq> 0"
proof
  assume uc: "uc \<noteq> 0" "uc = uc AND mask 31" and z: "at (snd (put_char True uc) @ s) 0 = 0"
  then have "utf8_len (snd (put_char True uc) @ s) = Some 1" by (simp add: utf8_len_def)
  then have "tou_char (snd (put_char True uc) @ s) = 0" using z by (simp add: tou_char_def)
  then show False using uc put_char_read(2) [OF uc(2)] by simp
qed

lemma put_char_drop: "drop (fst (put_char True uc)) (snd (put_char True uc) @ s) = s"
  using put_char_length [of uc True] by simp

lemma fromu_pass_read:
  "\<forall>uc\<in>set us. uc \<noteq> 0 \<and> uc = uc AND mask 31 \<Longrightarrow>
    tou_count ip (snd (unicode_utf8_fromu_pass True us)) l n = Inr (n + length us) \<and>
    tou_fill (snd (unicode_utf8_fromu_pass True us)) = us"
proof (induction us arbitrary: l n)
  case Nil
  then show ?case by (simp add: tou_count.simps tou_fill.simps)
next
  case (Cons uc us)
  let ?s = "snd (unicode_utf8_fromu_pass True us)" and ?k = "fst (put_char True uc)"
  have uc: "uc \<noteq> 0" "uc = uc AND mask 31" using Cons.prems by simp_all
  have s: "snd (unicode_utf8_fromu_pass True (uc # us)) = snd (put_char True uc) @ ?s" using uc(1) by (simp add: case_prod_unfold)
  have IH: "tou_count ip ?s (l + ?k) (n + 1) = Inr (n + 1 + length us)" "tou_fill ?s = us" using Cons by auto
  have c: "tou_count ip (snd (put_char True uc) @ ?s) l n = Inr (n + length (uc # us))"
    using IH(1) by (subst tou_count.simps) (simp only: put_char_head [OF uc] put_char_read(1) [OF uc(2)] put_char_drop if_False option.case, simp)
  have "tou_fill (snd (put_char True uc) @ ?s) = uc # us"
    using IH(2) by (subst tou_fill.simps)
      (simp only: put_char_head [OF uc] put_char_read [OF uc(2)] put_char_drop if_False tou_skip_def option.case)
  with c show ?case unfolding s by simp
qed

lemma below_31: "uc < 0x80000000 \<Longrightarrow> uc = uc AND mask 31" for uc :: u32
proof -
  assume "uc < 0x80000000"
  then have "unat uc < 2 ^ 31" by (simp add: word_less_nat_alt)
  then have "take_bit 31 (unat uc) = unat uc" by (rule take_bit_nat_eq_self)
  then have "take_bit 31 uc = uc" by (metis unsigned_take_bit_eq word_unat_eq_iff)
  then show ?thesis by (simp add: take_bit_eq_mask)
qed

text \<open>An error is at a position of the text, and the text before it has none.\<close>

lemma cont_nonzero: "cont c \<Longrightarrow> c \<noteq> 0"
  by (auto simp: cont_def)

lemma at_length: "at s i \<noteq> 0 \<Longrightarrow> i < length s"
  by (simp add: at_def split: if_split_asm)

lemma utf8_len_le: "utf8_len cp = Some k \<Longrightarrow> at cp 0 \<noteq> 0 \<Longrightarrow> k \<le> length cp"
proof -
  assume u: "utf8_len cp = Some k" and z: "at cp 0 \<noteq> 0"
  have "k = 1 \<or> at cp (k - 1) \<noteq> 0 \<and> 0 < k" using u cont_nonzero unfolding utf8_len_def by (auto split: if_split_asm)
  then show ?thesis using at_length [OF z] at_length [of cp "k - 1"] by (cases cp) auto
qed

lemma at_take: "i < j \<Longrightarrow> at (take j s) i = at s i"
  by (simp add: at_def)

lemma utf8_len_take: "utf8_len cp = Some k \<Longrightarrow> k \<le> j \<Longrightarrow> utf8_len (take j cp) = Some k"
  unfolding utf8_len_def by (cases "at cp 0 AND 0x80 = 0") (auto simp: at_take split: if_split_asm)

lemma tou_count_error:
  "tou_count True cp l n = Inl e \<Longrightarrow> l \<le> e \<and> e < l + length cp \<and> (\<exists>k. tou_count True (take (e - l) cp) l n = Inr k)"
proof (induction True cp l n rule: tou_count.induct)
  case (1 cp l n)
  have z: "at cp 0 \<noteq> 0" using 1(3) by (auto simp: tou_count.simps [of _ cp])
  show ?case
  proof (cases "utf8_len cp")
    case None
    then have "e = l" using 1(3) z by (simp add: tou_count.simps [of _ cp])
    then show ?thesis using at_length [OF z] by (auto simp: tou_count.simps [of _ "[]"])
  next
    case (Some k)
    have "tou_count True (drop k cp) (l + k) (n + 1) = Inl e" using 1(3) z Some by (simp add: tou_count.simps [of _ cp])
    from 1(2) [OF z Some this] obtain j where e: "l + k \<le> e" "e < l + k + length (drop k cp)"
      "tou_count True (take (e - (l + k)) (drop k cp)) (l + k) (n + 1) = Inr j" by blast
    have k: "0 < k" "k \<le> length cp" using utf8_len_pos [OF Some] utf8_len_le [OF Some z] .
    have "at (take (e - l) cp) 0 \<noteq> 0" using z e(1) k(1) by (simp add: at_take)
    moreover have "utf8_len (take (e - l) cp) = Some k" by (rule utf8_len_take [OF Some]) (use e(1) in simp)
    moreover have "drop k (take (e - l) cp) = take (e - (l + k)) (drop k cp)" using e(1) by (simp add: drop_take)
    ultimately have "tou_count True (take (e - l) cp) l n = Inr j" using e(3) by (subst tou_count.simps) simp
    then show ?thesis using e k by auto
  qed
qed

subsection \<open>The property\<close>

text \<open>
  Text written as UTF-8 is read back as the same characters, without an error: for every character of
  at most 31 bits.
\<close>

theorem utf8_roundtrip:
  assumes "\<forall>uc\<in>set us. uc \<noteq> 0 \<and> uc < 0x80000000" "unicode_utf8_fromu mem ip us = (Some s, e)" "mem' ((length us + 1) * 4)"
  shows "unicode_utf8_tou mem' True s = (Some us, Some (- 1))"
proof -
  have "\<forall>uc\<in>set us. uc \<noteq> 0 \<and> uc = uc AND mask 31" using assms(1) below_31 by blast
  from fromu_pass_read [OF this, of True 0 1] show ?thesis
    using assms(2,3) by (auto simp: unicode_utf8_fromu_def unicode_utf8_tou_def Let_def split: if_split_asm)
qed

theorem utf8_roundtrip_witness:
  "unicode_utf8_tou (\<lambda>_. True) True (asc ''caf'' @ [0xC3, 0xA9, 0xE2, 0x82, 0xAC]) = (Some [99, 97, 102, 233, 8364], Some (- 1))"
  by (rule utf8_roundtrip [of _ "\<lambda>_. True" True _ None]) (simp, code_simp, simp)

end
