(* ===== verification/Unicode.thy ===== *)
theory Unicode imports Utf8 begin

text \<open>
  Character sets and converting between them: \<open>wmail/unicode/iso8859.c\<close>, \<open>iso8859_convert.c\<close>,
  \<open>iso88591.c\<close> and \<open>unicode.c\<close>. A character set is a pair of conversions from and to Unicode; what the
  conversions rely on is a contract that both UTF-8 and the sets with a table of 128 characters keep.
\<close>

subsection \<open>Sets of 256 characters\<close>

text \<open>One byte: the character, or 0 if the table has none.\<close>

definition table_char :: "unicode_char list \<Rightarrow> byte \<Rightarrow> unicode_char" where
  "table_char table b = (let c = wide b in if c < 128 then c else table ! unat (c AND 0x7F))"

fun c2u_loop :: "bool \<Rightarrow> unicode_char list \<Rightarrow> byte list \<Rightarrow> nat \<Rightarrow> nat + unicode_char list" where
  "c2u_loop err table [] l = Inr []"
| "c2u_loop err table (b # s) l =
     (let c = table_char table b
      in if c = 0 \<and> err then Inl l
         else case c2u_loop err table s (l + 1) of Inl e \<Rightarrow> Inl e | Inr us \<Rightarrow> Inr ((if c = 0 then wide b else c) # us))"

definition unicode_iso8859_c2u :: "(nat \<Rightarrow> bool) \<Rightarrow> bool \<Rightarrow> unicode_char list \<Rightarrow> byte list \<Rightarrow> unicode_char list option \<times> int option" where
  "unicode_iso8859_c2u mem err table str =
     (let minus = if err then Some (- 1) else None
      in if \<not> mem ((length str + 1) * 4) then (None, minus)
         else case c2u_loop err table str 0 of Inl l \<Rightarrow> (None, Some (int l)) | Inr us \<Rightarrow> (Some us, minus))"

text \<open>One character: its byte, first guessed from its low bits, then looked for.\<close>

definition table_byte :: "unicode_char list \<Rightarrow> unicode_char \<Rightarrow> unicode_char option" where
  "table_byte tab ucc =
     (if ucc AND 0x7F = ucc then Some (ucc AND 0xFF)
      else if tab ! unat (ucc AND 0x7F) = ucc then Some ((ucc AND 0x7F) OR 0x80)
      else case find (\<lambda>c. tab ! c = ucc) [0..<128] of None \<Rightarrow> None | Some c \<Rightarrow> Some (of_nat c OR 0x80))"

fun u2c_loop :: "bool \<Rightarrow> unicode_char list \<Rightarrow> unicode_char list \<Rightarrow> nat \<Rightarrow> nat + byte list" where
  "u2c_loop err tab [] l = Inr []"
| "u2c_loop err tab (uc # us) l =
     (if uc = 0 then Inr []
      else case table_byte tab uc of
        None \<Rightarrow>
          (if err then Inl l
           else case u2c_loop err tab us (l + 1) of Inl e \<Rightarrow> Inl e | Inr s \<Rightarrow> Inr (low8 (uc OR 0x80) # s))
      | Some c \<Rightarrow>
          (case u2c_loop err tab us (l + 1) of Inl e \<Rightarrow> Inl e | Inr s \<Rightarrow> Inr (low8 (if c = 0 then 255 else c) # s)))"

text \<open>What of an array of characters is before its end.\<close>

definition ustr :: "unicode_char list \<Rightarrow> unicode_char list" where
  "ustr us = takeWhile (\<lambda>uc. uc \<noteq> 0) us"

definition unicode_iso8859_u2c :: "(nat \<Rightarrow> bool) \<Rightarrow> bool \<Rightarrow> unicode_char list \<Rightarrow> unicode_char list \<Rightarrow> byte list option \<times> int option" where
  "unicode_iso8859_u2c mem errflag tab uc =
     (let minus = if errflag then Some (- 1) else None
      in if \<not> mem (length (ustr uc) + 1) then (None, minus)
         else case u2c_loop errflag tab uc 0 of Inl l \<Rightarrow> (None, Some (int l)) | Inr s \<Rightarrow> (Some s, minus))"

text \<open>Another table maps bytes to bytes, for the upper and lower case.\<close>

fun convert_loop :: "bool \<Rightarrow> byte list \<Rightarrow> byte list \<Rightarrow> nat \<Rightarrow> nat + byte list" where
  "convert_loop err table [] l = Inr []"
| "convert_loop err table (b # s) l =
     (let c = table ! unat b
      in if c = 0 \<and> err then Inl l
         else case convert_loop err table s (l + 1) of Inl e \<Rightarrow> Inl e | Inr t \<Rightarrow> Inr ((if c = 0 then b else c) # t))"

definition unicode_iso8859_convert :: "(nat \<Rightarrow> bool) \<Rightarrow> bool \<Rightarrow> byte list \<Rightarrow> byte list \<Rightarrow> byte list option \<times> int option" where
  "unicode_iso8859_convert mem err table str =
     (let minus = if err then Some (- 1) else None
      in if \<not> mem (length str + 1) then (None, minus)
         else case convert_loop err table str 0 of Inl l \<Rightarrow> (None, Some (int l)) | Inr t \<Rightarrow> (Some t, minus))"

subsection \<open>Converting\<close>

record unicode_info =
  chset :: "byte list"
  c2u :: "byte list \<Rightarrow> unicode_char list option \<times> int option"
  u2c :: "unicode_char list \<Rightarrow> byte list option \<times> int option"

text \<open>A variable after it was given to a conversion for its error.\<close>

definition stored :: "int \<Rightarrow> int option \<Rightarrow> int" where
  "stored d e = (case e of None \<Rightarrow> d | Some v \<Rightarrow> v)"

text \<open>
  The result, and whether \<open>errno\<close> is set to EINVAL. \<open>junk\<close> is the value of the variable \<open>dummy\<close> that
  nothing was stored in.
\<close>

definition unicode_convert :: "(nat \<Rightarrow> bool) \<Rightarrow> int \<Rightarrow> byte list \<Rightarrow> unicode_info \<Rightarrow> unicode_info \<Rightarrow> byte list option \<times> bool" where
  "unicode_convert mem junk txt from to =
     (if chset from = chset to then (if mem (length txt + 1) then Some txt else None, False)
      else case c2u from txt of
        (None, e) \<Rightarrow> (None, 0 \<le> stored junk e)
      | (Some uc, e) \<Rightarrow> (case u2c to uc of (s, e') \<Rightarrow> (s, 0 \<le> stored (stored junk e) e')))"

text \<open>
  Converting whatever can be converted. The buffer is its text and its size; writing past its end is an
  outcome of its own.
\<close>

datatype xfailure = No_memory | Overrun

type_synonym ux_buf = "byte list \<times> nat"

definition ux_alloc :: "(nat \<Rightarrow> bool) \<Rightarrow> ux_buf \<Rightarrow> nat \<Rightarrow> xfailure + ux_buf" where
  "ux_alloc mem p l = (case p of (buf, sz) \<Rightarrow> if l < sz then Inr p else if mem (l + 64) then Inr (buf, l + 64) else Inl No_memory)"

definition strcat :: "ux_buf \<Rightarrow> byte list \<Rightarrow> xfailure + ux_buf" where
  "strcat p s = (case p of (buf, sz) \<Rightarrow> if length buf + length s < sz then Inr (buf @ s, sz) else Inl Overrun)"

definition and_then :: "'e + 'a \<Rightarrow> ('a \<Rightarrow> 'e + 'b) \<Rightarrow> 'e + 'b" where
  "and_then r f = (case r of Inl e \<Rightarrow> Inl e | Inr x \<Rightarrow> f x)"

lemma and_then_simps [simp]: "and_then (Inl e) f = Inl e" "and_then (Inr x) f = f x"
  by (simp_all add: and_then_def)

lemma and_then_cong [fundef_cong]: "r = r' \<Longrightarrow> (\<And>x. r' = Inr x \<Longrightarrow> f x = g x) \<Longrightarrow> and_then r f = and_then r' g"
  by (simp add: and_then_def split: sum.split)

text \<open>How many characters can be converted from here, and their text.\<close>

definition some_u2c :: "int \<Rightarrow> unicode_info \<Rightarrow> unicode_char list \<Rightarrow> xfailure + (byte list \<times> nat)" where
  "some_u2c junk to ucptr =
     (case u2c to ucptr of
        (Some s, e) \<Rightarrow> Inr (s, length (ustr ucptr))
      | (None, e) \<Rightarrow>
          (if stored junk e < 0 then Inl No_memory
           else let n = nat (stored junk e) in case fst (u2c to (take n ucptr)) of None \<Rightarrow> Inl No_memory | Some s \<Rightarrow> Inr (s, n)))"

lemma ustr_less: "ustr us \<noteq> [] \<Longrightarrow> length us - Suc k < length us"
  by (cases us) (auto simp: ustr_def)

function xconvert_chars :: "(nat \<Rightarrow> bool) \<Rightarrow> int \<Rightarrow> unicode_info \<Rightarrow> unicode_char list \<Rightarrow> ux_buf \<Rightarrow> xfailure + ux_buf" where
  "xconvert_chars mem junk to ucptr dst =
     (if ustr ucptr = [] then Inr dst
      else and_then (some_u2c junk to ucptr) (\<lambda>(s, n).
           and_then (ux_alloc mem dst (length (fst dst) + length s + 2)) (\<lambda>dst.
           and_then (strcat dst s) (\<lambda>dst.
             let ucptr = drop n ucptr
             in if ustr ucptr \<noteq> []
                then and_then (strcat dst (asc ''.'')) (\<lambda>dst. xconvert_chars mem junk to (tl ucptr) dst)
                else Inr dst))))"
  by pat_completeness auto
termination
  by (relation "measure (\<lambda>(mem, junk, to, ucptr, dst). length ucptr)") (auto dest: ustr_less)

declare xconvert_chars.simps [simp del]

definition some_c2u :: "int \<Rightarrow> unicode_info \<Rightarrow> byte list \<Rightarrow> xfailure + (unicode_char list \<times> nat)" where
  "some_c2u junk from cur_conv =
     (case c2u from cur_conv of
        (Some uc, e) \<Rightarrow> Inr (uc, length cur_conv)
      | (None, e) \<Rightarrow>
          (if stored junk e < 0 then Inl No_memory
           else let l = nat (stored junk e) in case fst (c2u from (take l cur_conv)) of None \<Rightarrow> Inl No_memory | Some uc \<Rightarrow> Inr (uc, l)))"

function xconvert_text :: "(nat \<Rightarrow> bool) \<Rightarrow> int \<Rightarrow> unicode_info \<Rightarrow> unicode_info \<Rightarrow> byte list \<Rightarrow> ux_buf \<Rightarrow> xfailure + ux_buf" where
  "xconvert_text mem junk from to cur_conv dst =
     (if cur_conv = [] then Inr dst
      else and_then (some_c2u junk from cur_conv) (\<lambda>(uc, l).
           and_then (xconvert_chars mem junk to uc dst) (\<lambda>dst.
             let cur_conv = drop l cur_conv
             in if cur_conv \<noteq> []
                then and_then (ux_alloc mem dst (length (fst dst) + 1)) (\<lambda>dst.
                     and_then (strcat dst [hd cur_conv]) (\<lambda>dst. xconvert_text mem junk from to (tl cur_conv) dst))
                else Inr dst)))"
  by pat_completeness auto
termination
  by (relation "measure (\<lambda>(mem, junk, from, to, cur_conv, dst). length cur_conv)") auto

declare xconvert_text.simps [simp del]

definition unicode_xconvert :: "(nat \<Rightarrow> bool) \<Rightarrow> int \<Rightarrow> byte list \<Rightarrow> unicode_info \<Rightarrow> unicode_info \<Rightarrow> xfailure + byte list" where
  "unicode_xconvert mem junk txt from to =
     (if \<not> mem (length txt + 1) then Inl No_memory
      else if chset from = chset to then Inr txt
      else and_then (ux_alloc mem ([], 0) (length txt * 2)) (\<lambda>dst.
           and_then (xconvert_text mem junk from to txt dst) (\<lambda>dst. Inr (fst dst))))"

text \<open>Finding a set by its name, upper case; \<open>sets\<close> is \<open>unicode_chsetlist\<close>, which the build makes.\<close>

definition unicode_find :: "(nat \<Rightarrow> bool) \<Rightarrow> unicode_info \<Rightarrow> (byte list \<times> unicode_info) list \<Rightarrow> byte list option \<Rightarrow> unicode_info option" where
  "unicode_find mem latin1 sets name =
     (case name of
        None \<Rightarrow> Some latin1
      | Some name \<Rightarrow>
          if \<not> mem (length name + 1) then None
          else let p = map toupper name in if p = chset latin1 then Some latin1 else map_of sets p)"

definition unicode_default_chset :: "(nat \<Rightarrow> bool) \<Rightarrow> unicode_info \<Rightarrow> (byte list \<times> unicode_info) list \<Rightarrow> byte list \<Rightarrow> byte list" where
  "unicode_default_chset mem latin1 sets configured =
     (if unicode_find mem latin1 sets (Some configured) \<noteq> None then configured else chset latin1)"

definition unicode_convert_fromchset :: "(nat \<Rightarrow> bool) \<Rightarrow> unicode_info \<Rightarrow> (byte list \<times> unicode_info) list \<Rightarrow> int \<Rightarrow> byte list \<Rightarrow> byte list option \<Rightarrow>
    unicode_info \<Rightarrow> byte list option \<times> bool" where
  "unicode_convert_fromchset mem latin1 sets junk txt from to =
     (case unicode_find mem latin1 sets from of None \<Rightarrow> (None, True) | Some fromu \<Rightarrow> unicode_convert mem junk txt fromu to)"

subsection \<open>The sets\<close>

definition unicode_UTF8 :: "(nat \<Rightarrow> bool) \<Rightarrow> unicode_info" where
  "unicode_UTF8 mem = \<lparr>chset = asc ''UTF-8'', c2u = unicode_utf8_tou mem True, u2c = unicode_utf8_fromu mem True\<rparr>"

definition iso88591_unicode :: "unicode_char list" where
  "iso88591_unicode =
     [128,129,130,131,132,133,134,135,136,137,138,139,140,141,142,143,
      144,145,146,147,148,149,150,151,152,153,154,155,156,157,158,159,
      160,161,162,163,164,165,166,167,168,169,170,171,172,173,174,175,
      176,177,178,179,180,181,182,183,184,185,186,187,188,189,190,191,
      192,193,194,195,196,197,198,199,200,201,202,203,204,205,206,207,
      208,209,210,211,212,213,214,215,216,217,218,219,220,221,222,223,
      224,225,226,227,228,229,230,231,232,233,234,235,236,237,238,239,
      240,241,242,243,244,245,246,247,248,249,250,251,252,253,254,255]"

definition unicode_ISO8859_1 :: "(nat \<Rightarrow> bool) \<Rightarrow> unicode_info" where
  "unicode_ISO8859_1 mem = \<lparr>chset = asc ''ISO-8859-1'',
     c2u = unicode_iso8859_c2u mem True iso88591_unicode, u2c = unicode_iso8859_u2c mem True iso88591_unicode\<rparr>"

definition iso885915_unicode :: "unicode_char list" where
  "iso885915_unicode =
     [128,129,130,131,132,133,134,135,136,137,138,139,140,141,142,143,
      144,145,146,147,148,149,150,151,152,153,154,155,156,157,158,159,
      160,161,162,163,8364,165,352,167,353,169,170,171,172,173,174,175,
      176,177,178,179,381,181,182,183,382,185,186,187,338,339,376,191,
      192,193,194,195,196,197,198,199,200,201,202,203,204,205,206,207,
      208,209,210,211,212,213,214,215,216,217,218,219,220,221,222,223,
      224,225,226,227,228,229,230,231,232,233,234,235,236,237,238,239,
      240,241,242,243,244,245,246,247,248,249,250,251,252,253,254,255]"

definition unicode_ISO8859_15 :: "(nat \<Rightarrow> bool) \<Rightarrow> unicode_info" where
  "unicode_ISO8859_15 mem = \<lparr>chset = asc ''ISO-8859-15'',
     c2u = unicode_iso8859_c2u mem True iso885915_unicode, u2c = unicode_iso8859_u2c mem True iso885915_unicode\<rparr>"

subsection \<open>The contract of a character set\<close>

text \<open>What a character becomes: a point if the set does not have it.\<close>

definition shown :: "unicode_info \<Rightarrow> unicode_char \<Rightarrow> byte list" where
  "shown info u = (case fst (u2c info [u]) of Some s \<Rightarrow> s | None \<Rightarrow> asc ''.'')"

lemma zero_ustr [simp]: "0 \<notin> set (ustr us)"
  by (auto simp: ustr_def dest: set_takeWhileD)

lemma ustr_append: "0 \<notin> set vs \<Longrightarrow> ustr (vs @ us) = vs @ ustr us"
  by (induction vs) (auto simp: ustr_def)

lemma ustr_parts: "\<exists>vs r. us = vs @ r \<and> ustr us = vs \<and> 0 \<notin> set vs \<and> ustr r = []"
  by (induction us) (auto simp: ustr_def intro: exI [of _ "[]"])

lemma take_ustr: "i \<le> length (ustr us) \<Longrightarrow> take i us = take i (ustr us)"
proof -
  assume i: "i \<le> length (ustr us)"
  obtain vs r where vs: "us = vs @ r" "ustr us = vs" using ustr_parts [of us] by blast
  then show "take i us = take i (ustr us)" using i unfolding vs(2) by (simp add: vs(1))
qed

lemma ustr_split:
  assumes "n < length (ustr us)"
  shows "drop n us = us ! n # drop (n + 1) us" "ustr us = take n (ustr us) @ us ! n # ustr (drop (n + 1) us)" "us ! n \<noteq> 0"
proof -
  obtain vs r where vs: "us = vs @ r" "ustr us = vs" "0 \<notin> set vs" "ustr r = []" using ustr_parts [of us] by blast
  have n: "n < length vs" using assms vs(2) by simp
  show "drop n us = us ! n # drop (n + 1) us" using Cons_nth_drop_Suc [of n us] n vs(1) by (simp only: length_append Suc_eq_plus1)
  have "drop (n + 1) us = drop (n + 1) vs @ r" using n vs(1) by simp
  moreover have "0 \<notin> set (drop (n + 1) vs)" using vs(3) in_set_dropD by metis
  ultimately have "ustr (drop (n + 1) us) = drop (n + 1) vs" using vs(4) by (simp add: ustr_append)
  then show "ustr us = take n (ustr us) @ us ! n # ustr (drop (n + 1) us)"
    unfolding vs(2) using n vs(1) id_take_nth_drop [OF n] by (simp add: nth_append)
  show "us ! n \<noteq> 0" using n vs(1,3) nth_mem [OF n] by (metis nth_append)
qed

lemma ustr_end: "ustr (drop (length (ustr us)) us) = []"
  by (induction us) (auto simp: ustr_def)

text \<open>
  With memory, a conversion that fails says where, and the text before converts; what is written is read
  back; characters are written one by one.
\<close>

locale charset =
  fixes info :: unicode_info
    and valid :: "unicode_char \<Rightarrow> bool"
  assumes c2u_stops: "c2u info s = (None, e) \<Longrightarrow> \<exists>i < length s. e = Some (int i) \<and> fst (c2u info (take i s)) \<noteq> None"
    and u2c_stops: "u2c info us = (None, e) \<Longrightarrow>
      \<exists>i < length (ustr us). e = Some (int i) \<and> fst (u2c info (take i us)) \<noteq> None \<and> fst (u2c info [us ! i]) = None"
    and u2c_ustr: "u2c info (ustr us) = u2c info us"
    and u2c_append: "0 \<notin> set us \<Longrightarrow> fst (u2c info (us @ vs)) =
      (case (fst (u2c info us), fst (u2c info vs)) of (Some s, Some t) \<Rightarrow> Some (s @ t) | _ \<Rightarrow> None)"
    and u2c_Nil: "fst (u2c info []) = Some []"
    and errors_stored: "c2u info s = (Some us, e) \<Longrightarrow> stored junk e < 0" "u2c info us = (Some t, e') \<Longrightarrow> d < 0 \<Longrightarrow> stored d e' < 0"
    and read_back: "\<forall>u\<in>set us. valid u \<Longrightarrow> u2c info us = (Some s, e) \<Longrightarrow> fst (c2u info s) = Some us"
begin

lemma u2c_shown: "0 \<notin> set us \<Longrightarrow> fst (u2c info us) = Some s \<Longrightarrow> s = concat (map (shown info) us)"
proof (induction us arbitrary: s)
  case Nil
  then show ?case using u2c_Nil by simp
next
  case (Cons u us)
  have "fst (u2c info ([u] @ us)) = Some s" using Cons.prems by simp
  then obtain t t' where t: "fst (u2c info [u]) = Some t" "fst (u2c info us) = Some t'" "s = t @ t'"
    using u2c_append [of "[u]" us] Cons.prems(1) by (auto split: option.splits)
  then show ?case using Cons.IH [of t'] Cons.prems(1) by (simp add: shown_def)
qed

lemma some_u2c_shown:
  "\<exists>s n. some_u2c junk info us = Inr (s, n) \<and> n \<le> length (ustr us) \<and> s = concat (map (shown info) (take n (ustr us))) \<and>
     (n < length (ustr us) \<longrightarrow> shown info (us ! n) = asc ''.'')"
proof (cases "u2c info us")
  case (Pair r e)
  show ?thesis
  proof (cases r)
    case None
    obtain i where i: "i < length (ustr us)" "e = Some (int i)" "fst (u2c info (take i us)) \<noteq> None" "fst (u2c info [us ! i]) = None"
      using u2c_stops [of us e] Pair None by auto
    then obtain s where s: "fst (u2c info (take i us)) = Some s" by auto
    have t: "take i us = take i (ustr us)" using i(1) by (simp add: take_ustr)
    then have "0 \<notin> set (take i us)" using in_set_takeD [of 0 i "ustr us"] by auto
    from u2c_shown [OF this s] have "s = concat (map (shown info) (take i (ustr us)))" unfolding t .
    then show ?thesis using Pair None i s by (simp add: some_u2c_def stored_def Let_def shown_def)
  next
    case (Some s)
    have "fst (u2c info (ustr us)) = Some s" using Pair Some by (simp add: u2c_ustr)
    then show ?thesis using Pair Some u2c_shown [of "ustr us" s] by (simp add: some_u2c_def)
  qed
qed

text \<open>With memory, the characters are converted one by one, and the buffer is never overrun.\<close>

lemma xconvert_chars_shown:
  "length buf < sz \<Longrightarrow> \<exists>sz'. xconvert_chars (\<lambda>_. True) junk info us (buf, sz) = Inr (buf @ concat (map (shown info) (ustr us)), sz') \<and>
     length (buf @ concat (map (shown info) (ustr us))) < sz'"
proof (induction "length us" arbitrary: us buf sz rule: less_induct)
  case less
  show ?case
  proof (cases "ustr us = []")
    case True
    then show ?thesis using less.prems by (simp add: xconvert_chars.simps)
  next
    case False
    obtain s n where n: "some_u2c junk info us = Inr (s, n)" "n \<le> length (ustr us)" "s = concat (map (shown info) (take n (ustr us)))"
      "n < length (ustr us) \<Longrightarrow> shown info (us ! n) = asc ''.''"
      using some_u2c_shown [of junk us] by blast
    obtain sz1 where sz1: "ux_alloc (\<lambda>_. True) (buf, sz) (length buf + length s + 2) = Inr (buf, sz1)" "length buf + length s + 2 < sz1"
      unfolding ux_alloc_def by (cases "length buf + length s + 2 < sz") auto
    then have cat: "strcat (buf, sz1) s = Inr (buf @ s, sz1)" "strcat (buf @ s, sz1) (asc ''.'') = Inr (buf @ s @ asc ''.'', sz1)"
      by (simp_all add: strcat_def)
    show ?thesis
    proof (cases "n < length (ustr us)")
      case True
      have d: "drop n us = us ! n # drop (n + 1) us" "ustr us = take n (ustr us) @ us ! n # ustr (drop (n + 1) us)" "us ! n \<noteq> 0"
        using ustr_split [OF True] by auto
      have nz: "ustr (drop n us) \<noteq> []" unfolding d(1) using d(3) by (simp add: ustr_def)
      have "length (drop (n + 1) us) < length us" using d(1) by (metis length_Cons length_drop less_add_Suc1 less_imp_diff_less add_diff_cancel_right' diff_less length_greater_0_conv list.distinct(1) drop_Nil zero_less_Suc Suc_eq_plus1)
      moreover have "length (buf @ s @ asc ''.'') < sz1" using sz1(2) by simp
      ultimately obtain sz' where r: "xconvert_chars (\<lambda>_. True) junk info (drop (n + 1) us) (buf @ s @ asc ''.'', sz1) =
          Inr ((buf @ s @ asc ''.'') @ concat (map (shown info) (ustr (drop (n + 1) us))), sz')"
          "length ((buf @ s @ asc ''.'') @ concat (map (shown info) (ustr (drop (n + 1) us)))) < sz'"
        using less.hyps by blast
      have c: "concat (map (shown info) (ustr us)) = s @ asc ''.'' @ concat (map (shown info) (ustr (drop (n + 1) us)))"
        by (subst d(2)) (simp add: n(3,4) True)
      have "tl (drop n us) = drop (n + 1) us" using d(1) by simp
      then show ?thesis using False n(1) sz1 cat r nz unfolding c by (subst xconvert_chars.simps) (simp add: Let_def)
    next
      case g: False
      have "ustr (drop n us) = []" using g n(2) ustr_end [of us] by simp
      moreover have "s = concat (map (shown info) (ustr us))" using g n(2,3) by simp
      ultimately show ?thesis using False n(1) sz1 cat by (subst xconvert_chars.simps) (simp add: Let_def)
    qed
  qed
qed

lemma some_c2u_total:
  assumes "cur \<noteq> []"
  shows "\<exists>us l. some_c2u junk info cur = Inr (us, l) \<and> (\<forall>us' e. c2u info cur = (Some us', e) \<longrightarrow> us = us' \<and> l = length cur)"
proof (cases "c2u info cur")
  case (Pair r e)
  then show ?thesis using c2u_stops [of cur e] by (cases r) (auto simp: some_c2u_def stored_def Let_def)
qed

end

text \<open>A conversion between two sets.\<close>

locale conversion = src: charset source valid + dst: charset target valid'
  for source :: unicode_info and valid and target :: unicode_info and valid'
begin

lemma xconvert_text_total:
  "length buf < sz \<Longrightarrow> \<exists>t sz'. xconvert_text (\<lambda>_. True) junk source target cur (buf, sz) = Inr (buf @ t, sz') \<and> length (buf @ t) < sz' \<and>
     (\<forall>us e. c2u source cur = (Some us, e) \<longrightarrow> cur \<noteq> [] \<longrightarrow> t = concat (map (shown target) (ustr us)))"
proof (induction "length cur" arbitrary: cur buf sz rule: less_induct)
  case less
  show ?case
  proof (cases "cur = []")
    case True
    then show ?thesis using less.prems by (simp add: xconvert_text.simps)
  next
    case False
    obtain us l where u: "some_c2u junk source cur = Inr (us, l)" "\<forall>us' e. c2u source cur = (Some us', e) \<longrightarrow> us = us' \<and> l = length cur"
      using src.some_c2u_total [OF False, of junk] by (elim exE conjE) (rule that)
    let ?t = "concat (map (shown target) (ustr us))"
    obtain sz1 where s1: "xconvert_chars (\<lambda>_. True) junk target us (buf, sz) = Inr (buf @ ?t, sz1)" "length (buf @ ?t) < sz1"
      using dst.xconvert_chars_shown [OF less.prems] by blast
    show ?thesis
    proof (cases "l < length cur")
      case True
      obtain sz2 where s2: "ux_alloc (\<lambda>_. True) (buf @ ?t, sz1) (length (buf @ ?t) + 1) = Inr (buf @ ?t, sz2)" "length (buf @ ?t) + 1 < sz2"
        unfolding ux_alloc_def by (cases "length (buf @ ?t) + 1 < sz1") auto
      then have c: "strcat (buf @ ?t, sz2) [hd (drop l cur)] = Inr (buf @ ?t @ [hd (drop l cur)], sz2)" by (simp add: strcat_def)
      have "length (tl (drop l cur)) < length cur" "length (buf @ ?t @ [hd (drop l cur)]) < sz2" using True s2(2) by simp_all
      then obtain t sz3 where r: "xconvert_text (\<lambda>_. True) junk source target (tl (drop l cur)) (buf @ ?t @ [hd (drop l cur)], sz2) =
          Inr ((buf @ ?t @ [hd (drop l cur)]) @ t, sz3)" "length ((buf @ ?t @ [hd (drop l cur)]) @ t) < sz3"
        using less.hyps by blast
      have "xconvert_text (\<lambda>_. True) junk source target cur (buf, sz) = Inr (buf @ (?t @ [hd (drop l cur)] @ t), sz3)"
        using False True u(1) s1(1) s2(1) c r(1) by (subst xconvert_text.simps) (simp add: Let_def)
      then show ?thesis using u(2) True r(2) by (intro exI [of _ "?t @ [hd (drop l cur)] @ t"] exI [of _ sz3]) auto
    next
      case g: False
      have "xconvert_text (\<lambda>_. True) junk source target cur (buf, sz) = Inr (buf @ ?t, sz1)"
        using False g u(1) s1(1) by (subst xconvert_text.simps) (simp add: Let_def)
      then show ?thesis using u(2) s1(2) by blast
    qed
  qed
qed

lemma xconvert_total: "\<exists>t. unicode_xconvert (\<lambda>_. True) junk txt source target = Inr t"
proof -
  obtain sz where "ux_alloc (\<lambda>_. True) ([], 0) (length txt * 2) = Inr ([], sz)" "length ([] :: byte list) < sz" by (simp add: ux_alloc_def)
  then show ?thesis using xconvert_text_total [of "[]" sz junk "txt"] by (auto simp: unicode_xconvert_def)
qed

lemma xconvert_convert:
  assumes c: "unicode_convert (\<lambda>_. True) junk txt source target = (Some t, e)" and n: "txt \<noteq> []"
  shows "unicode_xconvert (\<lambda>_. True) junk txt source target = Inr t"
proof (cases "chset source = chset target")
  case True
  then show ?thesis using c by (simp add: unicode_convert_def unicode_xconvert_def)
next
  case False
  obtain us e1 e2 where u: "c2u source txt = (Some us, e1)" "u2c target us = (Some t, e2)"
    using c False by (auto simp: unicode_convert_def split: prod.splits option.splits)
  have "t = concat (map (shown target) (ustr us))" by (rule dst.u2c_shown) (simp_all add: dst.u2c_ustr u(2))
  moreover obtain sz where a: "ux_alloc (\<lambda>_. True) ([], 0) (length txt * 2) = Inr ([], sz)" "length ([] :: byte list) < sz" by (simp add: ux_alloc_def)
  ultimately show ?thesis using False xconvert_text_total [OF a(2), of junk "txt"] u(1) n by (auto simp: unicode_xconvert_def)
qed

lemma convert_back:
  assumes c: "unicode_convert mem junk txt source target = (Some t, e)" and d: "chset source \<noteq> chset target"
    and us: "fst (c2u source txt) = Some us" "\<forall>u\<in>set us. valid' u" "fst (u2c source us) = Some txt"
  shows "unicode_convert mem' junk' t target source = (Some txt, False)"
proof -
  obtain e1 e2 where u: "c2u source txt = (Some us, e1)" "u2c target us = (Some t, e2)"
    using c d us(1) by (auto simp: unicode_convert_def split: prod.splits)
  obtain e3 e4 where b: "c2u target t = (Some us, e3)" "u2c source us = (Some txt, e4)"
    using dst.read_back [OF us(2) u(2)] us(3) by (metis prod.collapse)
  show ?thesis using d b dst.errors_stored(1) [OF b(1), of junk'] src.errors_stored(2) [OF b(2)]
    by (auto simp: unicode_convert_def not_le)
qed

end

subsection \<open>UTF-8 keeps the contract\<close>

definition utf8_valid :: "unicode_char \<Rightarrow> bool" where
  "utf8_valid u \<longleftrightarrow> u \<noteq> 0 \<and> u < 0x80000000"

lemma fromu_pass_ustr: "unicode_utf8_fromu_pass p (ustr us) = unicode_utf8_fromu_pass p us"
  by (induction us) (auto simp: ustr_def)

lemma fromu_pass_append: "0 \<notin> set us \<Longrightarrow> unicode_utf8_fromu_pass p (us @ vs) =
    (fst (unicode_utf8_fromu_pass p us) + fst (unicode_utf8_fromu_pass p vs), snd (unicode_utf8_fromu_pass p us) @ snd (unicode_utf8_fromu_pass p vs))"
  by (induction us) (auto simp: case_prod_unfold)

interpretation utf8: charset "unicode_UTF8 (\<lambda>_. True)" utf8_valid
proof
  show "\<exists>i<length s. e = Some (int i) \<and> fst (c2u (unicode_UTF8 (\<lambda>_. True)) (take i s)) \<noteq> None"
    if c: "c2u (unicode_UTF8 (\<lambda>_. True)) s = (None, e)" for s e
  proof -
    obtain l where l: "tou_count True s 0 1 = Inl l" "e = Some (int l)"
      using c by (auto simp: unicode_UTF8_def unicode_utf8_tou_def split: sum.splits)
    then show ?thesis using tou_count_error [OF l(1)]
      by (intro exI [of _ l]) (auto simp: unicode_UTF8_def unicode_utf8_tou_def split: sum.split)
  qed
  show "fst (c2u (unicode_UTF8 (\<lambda>_. True)) s) = Some us"
    if "\<forall>u\<in>set us. utf8_valid u" "u2c (unicode_UTF8 (\<lambda>_. True)) us = (Some s, e)" for us s e
  proof -
    have "\<forall>uc\<in>set us. uc \<noteq> 0 \<and> uc = uc AND mask 31" using that(1) below_31 unfolding utf8_valid_def by blast
    from fromu_pass_read [OF this, of True 0 1] show ?thesis
      using that(2) by (auto simp: unicode_UTF8_def unicode_utf8_tou_def unicode_utf8_fromu_def)
  qed
qed (auto simp: unicode_UTF8_def unicode_utf8_fromu_def unicode_utf8_tou_def fromu_pass_ustr fromu_pass_append stored_def split: sum.splits)

subsection \<open>Tables keep the contract\<close>

definition table_set :: "byte list \<Rightarrow> unicode_char list \<Rightarrow> unicode_info" where
  "table_set nm table = \<lparr>chset = nm, c2u = unicode_iso8859_c2u (\<lambda>_. True) True table, u2c = unicode_iso8859_u2c (\<lambda>_. True) True table\<rparr>"

lemma c2u_loop_error: "c2u_loop True table s l = Inl e \<Longrightarrow> l \<le> e \<and> e < l + length s \<and> (\<exists>us. c2u_loop True table (take (e - l) s) l = Inr us)"
proof (induction s arbitrary: l)
  case (Cons b s)
  show ?case
  proof (cases "table_char table b = 0")
    case True
    then show ?thesis using Cons.prems by (simp add: Let_def)
  next
    case False
    then have "c2u_loop True table s (l + 1) = Inl e" using Cons.prems by (auto simp: Let_def split: sum.splits)
    from Cons.IH [OF this] obtain us where us: "l + 1 \<le> e" "e < l + 1 + length s" "c2u_loop True table (take (e - (l + 1)) s) (l + 1) = Inr us" by blast
    then have "e - l = Suc (e - (l + 1))" by arith
    then have "take (e - l) (b # s) = b # take (e - (l + 1)) s" by simp
    then show ?thesis using us False by (simp add: Let_def)
  qed
qed simp

lemma u2c_loop_error: "u2c_loop True tab us l = Inl e \<Longrightarrow>
    l \<le> e \<and> e < l + length (ustr us) \<and> (\<exists>s. u2c_loop True tab (take (e - l) us) l = Inr s) \<and> table_byte tab (us ! (e - l)) = None \<and> us ! (e - l) \<noteq> 0"
proof (induction us arbitrary: l)
  case (Cons u us)
  have u: "u \<noteq> 0" using Cons.prems by auto
  show ?case
  proof (cases "table_byte tab u")
    case None
    then show ?thesis using Cons.prems u by (simp add: ustr_def)
  next
    case (Some c)
    then have "u2c_loop True tab us (l + 1) = Inl e" using Cons.prems u by (auto split: sum.splits)
    note IH = Cons.IH [OF this]
    then obtain s where s: "u2c_loop True tab (take (e - (l + 1)) us) (l + 1) = Inr s" by blast
    have e: "e - l = Suc (e - (l + 1))" using IH by arith
    show ?thesis unfolding e using IH s u Some by (simp add: ustr_def)
  qed
qed simp

lemma u2c_loop_ustr: "u2c_loop err tab (ustr us) l = u2c_loop err tab us l"
  by (induction us arbitrary: l) (auto simp: ustr_def split: option.split)

lemma u2c_loop_ok: "0 \<notin> set us \<Longrightarrow> (\<exists>s. u2c_loop True tab us l = Inr s) \<longleftrightarrow> (\<forall>u\<in>set us. table_byte tab u \<noteq> None)"
proof (induction us arbitrary: l)
  case (Cons u us)
  show ?case using Cons.prems Cons.IH [of "l + 1"] by (cases "u2c_loop True tab us (l + 1)") (simp_all split: option.split)
qed simp

lemma u2c_loop_text: "0 \<notin> set us \<Longrightarrow> u2c_loop True tab us l = Inr s \<Longrightarrow> s = map (\<lambda>u. low8 (let c = the (table_byte tab u) in if c = 0 then 255 else c)) us"
  by (induction us arbitrary: l s) (auto split: option.splits sum.splits)

lemma below_128: "u < 128 \<longleftrightarrow> u AND 0x7F = u" for u :: u32
proof
  assume "u < 128"
  then have "unat u < 2 ^ 7" by (simp add: word_less_nat_alt)
  then have "take_bit 7 (unat u) = unat u" by (rule take_bit_nat_eq_self)
  then have "take_bit 7 u = u" by (metis unsigned_take_bit_eq word_unat_eq_iff)
  then show "u AND 0x7F = u" by (simp add: take_bit_eq_mask wide_masks)
next
  assume "u AND 0x7F = u"
  moreover have "unat (u AND 0x7F) < 2 ^ 7" by (rule unat_lt_bits) (simp add: bit_simps wide_masks)
  ultimately show "u < 128" by (simp add: word_less_nat_alt)
qed

lemma high_byte:
  fixes x :: u32
  defines "y \<equiv> (x AND 0x7F) OR 0x80"
  shows "wide (low8 y) = y" "y AND 0x7F = x AND 0x7F" "y \<noteq> 0" "\<not> y < 128"
proof -
  have e: "(0x80 :: u32) = 2 ^ 7" by simp
  have b: "bit y n \<longleftrightarrow> n < 7 \<and> bit x n \<or> n = 7" for n
    unfolding y_def e bit_or_iff bit_exp_iff by (auto simp: bit_simps wide_masks)
  show "wide (low8 y) = y" by (rule bit_word_eqI) (auto simp: bit_simps b)
  show y: "y AND 0x7F = x AND 0x7F" by (rule bit_word_eqI) (auto simp: bit_simps b wide_masks)
  have "bit y 7" by (simp add: b)
  then show "y \<noteq> 0" by auto
  have "\<not> bit (x AND 0x7F) 7" by (simp add: bit_simps wide_masks)
  then show "\<not> y < 128" using \<open>bit y 7\<close> y unfolding below_128 by metis
qed

lemma table_byte_read: "u \<noteq> 0 \<Longrightarrow> table_byte tab u = Some c \<Longrightarrow> c \<noteq> 0 \<and> table_char tab (low8 c) = u"
proof -
  assume u: "u \<noteq> 0" and c: "table_byte tab u = Some c"
  show ?thesis
  proof (cases "u AND 0x7F = u")
    case True
    have "u AND 0xFF = (u AND 0x7F) AND 0xFF" unfolding True ..
    also have "\<dots> = u AND 0x7F" by (simp add: and.assoc)
    finally have "u AND 0xFF = u" unfolding True .
    then show ?thesis using u c True wide_low8 [of 7 u] by (simp add: table_byte_def table_char_def below_128 wide_masks)
  next
    case F: False
    show ?thesis
    proof (cases "tab ! unat (u AND 0x7F) = u")
      case True
      then show ?thesis using c F high_byte [of u] by (auto simp: table_byte_def table_char_def Let_def)
    next
      case False
      then obtain i where i: "find (\<lambda>c. tab ! c = u) [0..<128] = Some i" "c = of_nat i OR 0x80"
        using c F by (auto simp: table_byte_def split: option.splits)
      then have t: "i < 128" "tab ! i = u" by (auto simp: find_Some_iff)
      have n: "unat (of_nat i :: u32) = i" using t(1) by (simp add: unat_of_nat)
      then have "(of_nat i :: u32) < 128" using t(1) by (simp add: word_less_nat_alt)
      then have m: "(of_nat i :: u32) AND 0x7F = of_nat i" unfolding below_128 .
      show ?thesis using high_byte [of "of_nat i"] t(2) n unfolding m i(2) table_char_def Let_def by simp
    qed
  qed
qed

lemma u2c_loop_read: "0 \<notin> set us \<Longrightarrow> u2c_loop True tab us l = Inr s \<Longrightarrow> c2u_loop True tab s k = Inr us"
proof (induction us arbitrary: l s k)
  case (Cons u us)
  have u: "u \<noteq> 0" "0 \<notin> set us" using Cons.prems(1) by auto
  obtain c t where c: "table_byte tab u = Some c" "u2c_loop True tab us (l + 1) = Inr t" "s = low8 (if c = 0 then 255 else c) # t"
    using Cons.prems(2) u(1) by (auto split: option.splits sum.splits)
  show ?case using table_byte_read [OF u(1) c(1)] Cons.IH [OF u(2) c(2)] c(3) u(1) by (simp add: Let_def)
qed simp

text \<open>Whether the rest converts does not depend on what was before, apart from the position.\<close>

lemma u2c_loop_append: "0 \<notin> set us \<Longrightarrow> (case u2c_loop True tab (us @ vs) l of Inl _ \<Rightarrow> None | Inr s \<Rightarrow> Some s) =
    (case (case u2c_loop True tab us l of Inl _ \<Rightarrow> None | Inr s \<Rightarrow> Some s, case u2c_loop True tab vs k of Inl _ \<Rightarrow> None | Inr s \<Rightarrow> Some s) of
       (Some s, Some t) \<Rightarrow> Some (s @ t) | _ \<Rightarrow> None)"
proof (induction us arbitrary: l)
  case Nil
  show ?case
  proof (induction vs arbitrary: l k)
    case (Cons v vs)
    then show ?case using Cons.IH [of "l + 1" "k + 1"]
      by (cases "u2c_loop True tab vs (l + 1)"; cases "u2c_loop True tab vs (k + 1)") (auto split: option.split)
  qed simp
next
  case (Cons u us)
  have u: "u \<noteq> 0" "0 \<notin> set us" using Cons.prems by auto
  show ?case using Cons.IH [OF u(2), of "l + 1"] u(1)
    by (cases "u2c_loop True tab (us @ vs) (l + 1)"; cases "u2c_loop True tab us (l + 1)"; cases "u2c_loop True tab vs k")
      (simp_all split: option.split)
qed

interpretation latin: charset "table_set nm table" "\<lambda>u. u \<noteq> 0" for nm table
proof
  show "\<exists>i<length s. e = Some (int i) \<and> fst (c2u (table_set nm table) (take i s)) \<noteq> None"
    if c: "c2u (table_set nm table) s = (None, e)" for s e
  proof -
    obtain l where l: "c2u_loop True table s 0 = Inl l" "e = Some (int l)"
      using c by (auto simp: table_set_def unicode_iso8859_c2u_def Let_def split: sum.splits)
    then show ?thesis using c2u_loop_error [OF l(1)]
      by (intro exI [of _ l]) (auto simp: table_set_def unicode_iso8859_c2u_def Let_def)
  qed
  show "\<exists>i<length (ustr us). e = Some (int i) \<and> fst (u2c (table_set nm table) (take i us)) \<noteq> None \<and> fst (u2c (table_set nm table) [us ! i]) = None"
    if c: "u2c (table_set nm table) us = (None, e)" for us e
  proof -
    obtain l where l: "u2c_loop True table us 0 = Inl l" "e = Some (int l)"
      using c by (auto simp: table_set_def unicode_iso8859_u2c_def Let_def split: sum.splits)
    then show ?thesis using u2c_loop_error [OF l(1)]
      by (intro exI [of _ l]) (auto simp: table_set_def unicode_iso8859_u2c_def Let_def)
  qed
  show "fst (u2c (table_set nm table) (us @ vs)) =
      (case (fst (u2c (table_set nm table) us), fst (u2c (table_set nm table) vs)) of (Some s, Some t) \<Rightarrow> Some (s @ t) | _ \<Rightarrow> None)"
    if "0 \<notin> set us" for us vs
    using u2c_loop_append [OF that, of table vs 0 0]
    by (auto simp: table_set_def unicode_iso8859_u2c_def Let_def split: sum.splits)
  show "fst (c2u (table_set nm table) s) = Some us" if "\<forall>u\<in>set us. u \<noteq> 0" "u2c (table_set nm table) us = (Some s, e)" for us s e
    using u2c_loop_read [of us table 0 s 0] that
    by (fastforce simp: table_set_def unicode_iso8859_u2c_def unicode_iso8859_c2u_def Let_def split: sum.splits)
qed (auto simp: table_set_def unicode_iso8859_u2c_def unicode_iso8859_c2u_def stored_def Let_def u2c_loop_ustr split: sum.splits)

interpretation latin_utf8: conversion "table_set nm table" "\<lambda>u. u \<noteq> 0" "unicode_UTF8 (\<lambda>_. True)" utf8_valid for nm table ..

interpretation utf8_latin: conversion "unicode_UTF8 (\<lambda>_. True)" utf8_valid "table_set nm table" "\<lambda>u. u \<noteq> 0" for nm table ..

subsection \<open>Tables without duplicates\<close>

definition good_table :: "unicode_char list \<Rightarrow> bool" where
  "good_table t \<longleftrightarrow> length t = 128 \<and> distinct t \<and> (\<forall>u\<in>set t. 128 \<le> u \<and> u < 0x80000000)"

lemma low8_high: "\<not> wide b < 128 \<Longrightarrow> low8 ((wide b AND 0x7F) OR 0x80) = b"
proof -
  assume b: "\<not> wide b < 128"
  have "bit b 7"
  proof (rule ccontr)
    assume n: "\<not> bit b 7"
    have "wide b AND 0x7F = wide b"
    proof (rule bit_word_eqI)
      fix n' assume "n' < LENGTH(32)"
      have "bit b n' \<Longrightarrow> n' < 8" using byte_bit_ge not_le by blast
      then have "bit b n' \<Longrightarrow> n' < 7" using n by (cases "n' = 7") auto
      then show "bit (wide b AND 0x7F) n' = bit (wide b) n'" by (auto simp: bit_simps wide_masks)
    qed
    then show False using b by (simp add: below_128)
  qed
  then show ?thesis by (intro byte_by_bits) (auto simp: bit_simps wide_masks)
qed

lemma table_byte_char:
  assumes g: "good_table t" and b: "b \<noteq> 0"
  shows "\<exists>c. table_byte t (table_char t b) = Some c \<and> c \<noteq> 0 \<and> low8 c = b" "table_char t b \<noteq> 0 \<and> table_char t b < 0x80000000"
proof -
  let ?u = "table_char t b"
  have bw: "low8 (wide b) = b" by (rule bit_word_eqI) (simp add: bit_simps)
  then have nz: "wide b \<noteq> 0" using b by auto
  have "(\<exists>c. table_byte t ?u = Some c \<and> c \<noteq> 0 \<and> low8 c = b) \<and> ?u \<noteq> 0 \<and> ?u < 0x80000000"
  proof (cases "wide b < 128")
    case True
    have "wide b AND 0xFF = (wide b AND 0x7F) AND 0xFF" using True unfolding below_128 by simp
    also have "\<dots> = wide b AND 0x7F" by (simp add: and.assoc)
    finally have "wide b AND 0xFF = wide b" using True unfolding below_128 by simp
    then show ?thesis using True nz bw order.strict_trans [OF True, of "0x80000000"] by (simp add: table_char_def table_byte_def below_128 Let_def)
  next
    case False
    let ?i = "unat (wide b AND 0x7F)"
    have i: "?i < 128" by (rule unat_lt_bits [of 7, simplified]) (simp add: bit_simps wide_masks)
    have u: "?u = t ! ?i" using False by (simp add: table_char_def Let_def)
    have m: "?u \<in> set t" unfolding u by (rule nth_mem) (use i g in \<open>simp add: good_table_def\<close>)
    then have r: "128 \<le> ?u" "?u < 0x80000000" using g by (simp_all add: good_table_def)
    have inj: "j < 128 \<Longrightarrow> t ! j = ?u \<Longrightarrow> j = ?i" for j using g i unfolding u good_table_def by (simp add: nth_eq_iff_index_eq)
    have "\<exists>c. table_byte t ?u = Some c \<and> c = (wide b AND 0x7F) OR 0x80"
    proof (cases "t ! unat (?u AND 0x7F) = ?u")
      case True
      have "unat (?u AND 0x7F) < 128" by (rule unat_lt_bits [of 7, simplified]) (simp add: bit_simps wide_masks)
      then have "?u AND 0x7F = wide b AND 0x7F" using inj [OF _ True] by (simp add: word_unat_eq_iff)
      then show ?thesis using r True by (auto simp: table_byte_def below_128 [symmetric] not_less)
    next
      case nt: False
      obtain j where j: "find (\<lambda>c. t ! c = ?u) [0..<128] = Some j"
        using i u by (cases "find (\<lambda>c. t ! c = ?u) [0..<128]") (auto simp: find_None_iff)
      then have "j < 128" "t ! j = ?u" by (auto simp: find_Some_iff)
      then have "j = ?i" by (rule inj)
      then show ?thesis using r nt j by (auto simp: table_byte_def below_128 [symmetric] not_less)
    qed
    then show ?thesis using r low8_high [OF False] high_byte(3) [of "wide b"] by auto
  qed
  then show "\<exists>c. table_byte t (table_char t b) = Some c \<and> c \<noteq> 0 \<and> low8 c = b" "table_char t b \<noteq> 0 \<and> table_char t b < 0x80000000" by blast+
qed

lemma good_table_loops:
  assumes g: "good_table t"
  shows "0 \<notin> set s \<Longrightarrow> c2u_loop True t s l = Inr (map (table_char t) s) \<and> u2c_loop True t (map (table_char t) s) k = Inr s"
proof (induction s arbitrary: l k)
  case (Cons b s)
  have "b \<noteq> 0" using Cons.prems by auto
  then show ?case using table_byte_char [OF g, of b] Cons by (auto simp: Let_def)
qed simp

lemma good_tableI: "length t = 128 \<Longrightarrow> distinct (map unat t) \<Longrightarrow> \<forall>u\<in>set t. 128 \<le> u \<and> u < 0x80000000 \<Longrightarrow> good_table t"
  by (simp add: good_table_def distinct_map)

lemma good_tables: "good_table iso88591_unicode" "good_table iso885915_unicode"
  by (rule good_tableI; simp add: iso88591_unicode_def iso885915_unicode_def)+

subsection \<open>The properties\<close>

definition latin_sets :: "unicode_info list" where
  "latin_sets = [unicode_ISO8859_1 (\<lambda>_. True), unicode_ISO8859_15 (\<lambda>_. True)]"

lemma latin_sets_table: "info \<in> set latin_sets \<Longrightarrow> \<exists>nm t. info = table_set nm t \<and> good_table t \<and> nm \<noteq> asc ''UTF-8''"
  using good_tables by (auto simp: latin_sets_def unicode_ISO8859_1_def unicode_ISO8859_15_def table_set_def)

text \<open>
  C16. Any text in ISO-8859-1 or ISO-8859-15 converts to UTF-8, and converting that back gives the text.
\<close>

theorem latin_utf8_back:
  assumes "info \<in> set latin_sets" "0 \<notin> set s"
  shows "\<exists>t. unicode_convert (\<lambda>_. True) junk s info (unicode_UTF8 (\<lambda>_. True)) = (Some t, False) \<and>
    unicode_convert (\<lambda>_. True) junk' t (unicode_UTF8 (\<lambda>_. True)) info = (Some s, False)"
proof -
  obtain nm t where t: "info = table_set nm t" "good_table t" "nm \<noteq> asc ''UTF-8''" using latin_sets_table [OF assms(1)] by blast
  let ?us = "map (table_char t) s"
  have l: "c2u_loop True t s 0 = Inr ?us" "u2c_loop True t ?us 0 = Inr s" using good_table_loops [OF t(2) assms(2)] by blast+
  have c: "c2u info s = (Some ?us, Some (- 1))" "u2c info ?us = (Some s, Some (- 1))"
    using l by (simp_all add: t(1) table_set_def unicode_iso8859_c2u_def unicode_iso8859_u2c_def)
  have v: "\<forall>u\<in>set ?us. utf8_valid u"
  proof
    fix u assume "u \<in> set ?us"
    then obtain b where "b \<in> set s" "u = table_char t b" by auto
    then show "utf8_valid u" using table_byte_char(2) [OF t(2), of b] assms(2) by (metis utf8_valid_def)
  qed
  have d: "chset info \<noteq> chset (unicode_UTF8 (\<lambda>_. True))" using t(1,3) by (simp add: table_set_def unicode_UTF8_def)
  have "\<exists>w. unicode_convert (\<lambda>_. True) junk s info (unicode_UTF8 (\<lambda>_. True)) = (Some w, False)"
    using c(1) d by (simp add: unicode_convert_def unicode_UTF8_def unicode_utf8_fromu_def stored_def)
  then obtain w where w: "unicode_convert (\<lambda>_. True) junk s info (unicode_UTF8 (\<lambda>_. True)) = (Some w, False)" by blast
  have "unicode_convert (\<lambda>_. True) junk' w (unicode_UTF8 (\<lambda>_. True)) info = (Some s, False)"
    unfolding t(1) by (rule latin_utf8.convert_back [OF w [unfolded t(1)] d [unfolded t(1)] _ v]) (simp_all add: c [unfolded t(1)])
  with w show ?thesis by blast
qed

theorem latin_utf8_back_witness:
  "\<exists>t. unicode_convert (\<lambda>_. True) 0 [0xA4, 0x31] (unicode_ISO8859_15 (\<lambda>_. True)) (unicode_UTF8 (\<lambda>_. True)) = (Some t, False) \<and>
    unicode_convert (\<lambda>_. True) 0 t (unicode_UTF8 (\<lambda>_. True)) (unicode_ISO8859_15 (\<lambda>_. True)) = (Some [0xA4, 0x31], False)"
  by (rule latin_utf8_back) (simp_all add: latin_sets_def)

text \<open>
  C15. Converting what can be converted never fails for lack of room in its buffer or because of the text: it
  gives a text, and the one of the exact conversion if there is one.
\<close>

theorem xconvert_never_fails:
  assumes "a \<in> set (unicode_UTF8 (\<lambda>_. True) # latin_sets)" "b \<in> set (unicode_UTF8 (\<lambda>_. True) # latin_sets)" "s \<noteq> []"
  shows "\<exists>t. unicode_xconvert (\<lambda>_. True) junk s a b = Inr t \<and>
    (\<forall>t' e. unicode_convert (\<lambda>_. True) junk s a b = (Some t', e) \<longrightarrow> t = t')"
proof -
  have c: "\<exists>v. charset x v" if "x \<in> set (unicode_UTF8 (\<lambda>_. True) # latin_sets)" for x
  proof (cases "x = unicode_UTF8 (\<lambda>_. True)")
    case True
    then show ?thesis using utf8.charset_axioms by blast
  next
    case False
    then have "x \<in> set latin_sets" using that by simp
    from latin_sets_table [OF this] show ?thesis using latin.charset_axioms by blast
  qed
  obtain v v' where "charset a v" "charset b v'" using c [OF assms(1)] c [OF assms(2)] by blast
  then have c: "conversion a v b v'" by (rule conversion.intro)
  obtain t where t: "unicode_xconvert (\<lambda>_. True) junk s a b = Inr t" using conversion.xconvert_total [OF c] by blast
  then show ?thesis using conversion.xconvert_convert [OF c _ assms(3), of junk] by (intro exI [of _ t]) auto
qed

theorem xconvert_never_fails_witness:
  "\<exists>t. unicode_xconvert (\<lambda>_. True) 0 [0xE2, 0x82, 0xAC, 0xFF, 0x31] (unicode_UTF8 (\<lambda>_. True)) (unicode_ISO8859_1 (\<lambda>_. True)) = Inr t \<and>
    (\<forall>t' e. unicode_convert (\<lambda>_. True) 0 [0xE2, 0x82, 0xAC, 0xFF, 0x31] (unicode_UTF8 (\<lambda>_. True)) (unicode_ISO8859_1 (\<lambda>_. True)) = (Some t', e) \<longrightarrow> t = t')"
  by (rule xconvert_never_fails) (simp_all add: latin_sets_def)

end
