(* ===== verification/Utf7.thy ===== *)
theory Utf7 imports Utf8 begin

text \<open>
  The names of folders on an IMAP server, \<open>wmail/unicode/utf7imap.c\<close>: characters other than printable
  ASCII are written in groups of modified base 64, between an ampersand and a dash. Bits are moved
  through a small buffer in both directions; the proof compares the lists of bits.
\<close>

subsection \<open>Reading\<close>

definition mbase64 :: "byte list" where
  "mbase64 = asc ''ABCDEFGHIJKLMNOPQRSTUVWXYZabcdefghijklmnopqrstuvwxyz0123456789+,''"

definition mbase64_lookup :: "byte \<Rightarrow> int" where
  "mbase64_lookup c = (case find (\<lambda>i. mbase64 ! i = c) [0..<64] of None \<Rightarrow> - 1 | Some i \<Rightarrow> int i)"

definition cons_char :: "unicode_char \<Rightarrow> nat + unicode_char list \<Rightarrow> nat + unicode_char list" where
  "cons_char u r = (case r of Inl e \<Rightarrow> Inl e | Inr us \<Rightarrow> Inr (u # us))"

text \<open>Outside and inside of a group; \<open>l\<close> is the position.\<close>

fun touc_text :: "byte list \<Rightarrow> nat \<Rightarrow> nat + unicode_char list"
  and touc_group :: "byte list \<Rightarrow> nat \<Rightarrow> u32 \<Rightarrow> nat \<Rightarrow> nat + unicode_char list"
where
  "touc_text [] l = Inr []"
| "touc_text (c # s) l =
     (if c < 0x20 \<or> 0x7F \<le> c then Inl l
      else if c \<noteq> ch CHR ''&'' then cons_char (wide c) (touc_text s (l + 1))
      else case s of
        [] \<Rightarrow> touc_group [] (l + 1) 0 0
      | d # s' \<Rightarrow> if d = ch CHR ''-'' then cons_char 38 (touc_text s' (l + 2)) else touc_group s (l + 1) 0 0)"
| "touc_group [] l uu bitcount = Inl l"
| "touc_group (c # s) l uu bitcount =
     (if c = ch CHR ''-'' then touc_text s (l + 1)
      else let bits = mbase64_lookup c
        in if bits = - 1 then Inl l
           else if 16 \<le> bitcount + 6
           then let n = bitcount + 6 - 16; uu = push_bit (6 - n) uu OR drop_bit n (of_int bits)
                in cons_char (uu AND 0xFFFF) (touc_group s (l + 1) (of_int bits) n)
           else touc_group s (l + 1) (push_bit 6 uu OR of_int bits) (bitcount + 6))"

definition unicode_modutf7touc :: "(nat \<Rightarrow> bool) \<Rightarrow> byte list \<Rightarrow> unicode_char list option \<times> int option" where
  "unicode_modutf7touc mem s =
     (if \<not> mem (4 * (length s + 1)) then (None, None)
      else case touc_text s 0 of Inl l \<Rightarrow> (None, Some (int l)) | Inr us \<Rightarrow> (Some us, Some (- 1)))"

subsection \<open>Writing\<close>

definition is_special :: "unicode_char \<Rightarrow> unicode_char list \<Rightarrow> bool" where
  "is_special uc specials \<longleftrightarrow> uc \<in> set specials \<or> uc < 0x20 \<or> 0x7F \<le> uc"

text \<open>The loop over the 16 bits of a character: letters, and the bits that are left.\<close>

function put_bits :: "nat \<Rightarrow> u32 \<Rightarrow> u32 \<Rightarrow> nat \<Rightarrow> byte list \<times> u32 \<times> nat" where
  "put_bits counter uu bits bitcount =
     (if counter = 0 then ([], bits, bitcount)
      else if counter + bitcount < 6 then ([], push_bit counter bits OR drop_bit (16 - counter) uu, bitcount + counter)
      else let x = 6 - bitcount; bits = push_bit x bits OR drop_bit (16 - x) uu; uu = push_bit x uu AND 0xFFFF
        in case put_bits (counter - x) uu 0 0 of (t, r) \<Rightarrow> (mbase64 ! unat bits # t, r))"
  by pat_completeness auto
termination
  by (relation "measures [\<lambda>(counter, uu, bits, bitcount). counter, \<lambda>(counter, uu, bits, bitcount). bitcount]") auto

declare put_bits.simps [simp del]

fun utf7_text :: "unicode_char list \<Rightarrow> unicode_char list \<Rightarrow> byte list"
  and utf7_group :: "unicode_char list \<Rightarrow> unicode_char list \<Rightarrow> u32 \<Rightarrow> nat \<Rightarrow> byte list"
where
  "utf7_text [] specials = []"
| "utf7_text (u # us) specials =
     (if \<not> is_special u specials then low8 u # (if u = 38 then [ch CHR ''-''] else []) @ utf7_text us specials
      else ch CHR ''&'' #
        (let uu = u AND 0xFFFF; uu = (if uu = 0 then 0xFFFD else uu)
         in case put_bits 16 uu 0 0 of (t, bits, bitcount) \<Rightarrow> t @ utf7_group us specials bits bitcount))"
| "utf7_group [] specials bits bitcount =
     (if bitcount \<noteq> 0 then [mbase64 ! unat (push_bit (6 - bitcount) bits)] else []) @ [ch CHR ''-'']"
| "utf7_group (u # us) specials bits bitcount =
     (if is_special u specials
      then let uu = u AND 0xFFFF; uu = (if uu = 0 then 0xFFFD else uu)
           in case put_bits 16 uu bits bitcount of (t, bits, bitcount) \<Rightarrow> t @ utf7_group us specials bits bitcount
      else (if bitcount \<noteq> 0 then [mbase64 ! unat (push_bit (6 - bitcount) bits)] else []) @ ch CHR ''-'' # utf7_text (u # us) specials)"

definition unicode_uctomodutf7x :: "(nat \<Rightarrow> bool) \<Rightarrow> unicode_char list \<Rightarrow> unicode_char list \<Rightarrow> byte list option" where
  "unicode_uctomodutf7x mem us specials =
     (let s = utf7_text us specials in if mem (length s + 1) then Some s else None)"

definition unicode_uctomodutf7 :: "(nat \<Rightarrow> bool) \<Rightarrow> unicode_char list \<Rightarrow> byte list option" where
  "unicode_uctomodutf7 mem us = unicode_uctomodutf7x mem us []"

subsection \<open>Bits\<close>

text \<open>The lower \<open>n\<close> bits of a word, the highest first.\<close>

definition bits_of :: "nat \<Rightarrow> u32 \<Rightarrow> bool list" where
  "bits_of n w = map (\<lambda>i. bit w (n - 1 - i)) [0..<n]"

lemma length_bits_of [simp]: "length (bits_of n w) = n"
  by (simp add: bits_of_def)

lemma bits_of_0 [simp]: "bits_of 0 w = []"
  by (simp add: bits_of_def)

lemma bits_of_split: "bits_of (a + b) w = bits_of a (drop_bit b w) @ bits_of b w"
  by (rule nth_equalityI) (auto simp: bits_of_def nth_append bit_simps intro!: arg_cong [of _ _ "bit w"])

lemma bits_of_cong: "(\<And>i. i < n \<Longrightarrow> bit w i = bit v i) \<Longrightarrow> bits_of n w = bits_of n v"
  by (auto simp: bits_of_def)

lemma bits_of_inject: "bits_of n w = bits_of n v \<Longrightarrow> i < n \<Longrightarrow> bit w i = bit v i"
proof -
  assume e: "bits_of n w = bits_of n v" and i: "i < n"
  have "bits_of n w ! (n - 1 - i) = bits_of n v ! (n - 1 - i)" using e by simp
  then show ?thesis using i by (simp add: bits_of_def)
qed

text \<open>Shifting bits in.\<close>

lemma bits_of_shift:
  assumes "a + b \<le> 32" "\<And>i. b \<le> i \<Longrightarrow> \<not> bit v i"
  shows "bits_of (a + b) (push_bit b u OR v) = bits_of a u @ bits_of b v"
proof -
  have "bits_of a (drop_bit b (push_bit b u OR v)) = bits_of a u"
    by (rule bits_of_cong) (use assms in \<open>auto simp: bit_simps\<close>)
  moreover have "bits_of b (push_bit b u OR v) = bits_of b v"
    by (rule bits_of_cong) (use assms in \<open>auto simp: bit_simps\<close>)
  ultimately show ?thesis by (simp add: bits_of_split)
qed

text \<open>Equal lists of bits, cut into characters from the front, are equal characters.\<close>

lemma bits_of_16: "u AND 0xFFFF = u \<Longrightarrow> v AND 0xFFFF = v \<Longrightarrow> bits_of 16 u = bits_of 16 v \<Longrightarrow> u = v"
proof (rule bit_word_eqI)
  fix n assume h: "u AND 0xFFFF = u" "v AND 0xFFFF = v" "bits_of 16 u = bits_of 16 v"
  show "bit u n = bit v n"
  proof (cases "n < 16")
    case True
    then show ?thesis by (rule bits_of_inject [OF h(3)])
  next
    case False
    have "\<not> bit (u AND 0xFFFF) n" "\<not> bit (v AND 0xFFFF) n" using False by (auto simp: bit_simps wide_masks)
    then show ?thesis using h by simp
  qed
qed

lemma chars_of_bits:
  "concat (map (bits_of 16) us) @ p = concat (map (bits_of 16) vs) @ q \<Longrightarrow> length p < 16 \<Longrightarrow> length q < 16 \<Longrightarrow>
    \<forall>u\<in>set us. u AND 0xFFFF = u \<Longrightarrow> \<forall>v\<in>set vs. v AND 0xFFFF = v \<Longrightarrow> us = vs"
proof (induction us arbitrary: vs)
  case Nil
  then show ?case using arg_cong [OF Nil(1), of length] by (cases vs) auto
next
  case (Cons u us)
  show ?case
  proof (cases vs)
    case Nil
    then show ?thesis using arg_cong [OF Cons.prems(1), of length] Cons.prems(2,3) by auto
  next
    case (Cons v vs')
    have "bits_of 16 u = bits_of 16 v" "concat (map (bits_of 16) us) @ p = concat (map (bits_of 16) vs') @ q"
      using Cons.prems(1) Cons by auto
    then show ?thesis using Cons.IH [of vs'] Cons.prems(2-5) Cons bits_of_16 [of u v] by auto
  qed
qed

subsection \<open>The letters\<close>

definition letters :: "u32 list \<Rightarrow> byte list" where
  "letters = map (\<lambda>x. mbase64 ! unat x)"

lemma find_nth_distinct:
  assumes "distinct xs" "i < length xs"
  shows "find (\<lambda>j. xs ! j = xs ! i) [0..<length xs] = Some i"
proof -
  have "find (\<lambda>j. xs ! j = xs ! i) [0..<length xs] = find (\<lambda>j. j = i) [0..<length xs]"
    by (rule find_cong) (use assms in \<open>auto simp: nth_eq_iff_index_eq\<close>)
  also have "\<dots> = Some i" unfolding find_Some_iff by (rule exI [of _ i]) (use assms(2) in simp)
  finally show ?thesis .
qed

lemma mbase64_facts: "length mbase64 = 64" "distinct mbase64" "ch CHR ''-'' \<notin> set mbase64"
  by (simp_all add: mbase64_def)

lemma lookup_letter: "i < 64 \<Longrightarrow> mbase64_lookup (mbase64 ! i) = int i" "i < 64 \<Longrightarrow> mbase64 ! i \<noteq> ch CHR ''-''"
  using find_nth_distinct [OF mbase64_facts(2), of i] mbase64_facts(1,3) nth_mem [of i mbase64]
  by (simp add: mbase64_lookup_def, metis)

lemma bit_small: "x < 64 \<Longrightarrow> 6 \<le> i \<Longrightarrow> \<not> bit x i" for x :: u32
proof -
  assume "x < 64" and i: "6 \<le> i"
  then have "unat x < 2 ^ 6" by (simp add: word_less_nat_alt)
  then have "take_bit 6 (unat x) = unat x" by (rule take_bit_nat_eq_self)
  then have "take_bit 6 x = x" by (metis unsigned_take_bit_eq word_unat_eq_iff)
  then show "\<not> bit x i" using i by (metis bit_take_bit_iff not_le)
qed

text \<open>
  Reading letters: the bits come out 16 at a time, the rest stays in the buffer.
\<close>

lemma touc_group_letters:
  "\<forall>x\<in>set xs. x < 64 \<Longrightarrow> bitcount < 16 \<Longrightarrow>
    \<exists>us uu' bc'. bc' < 16 \<and> (\<forall>u\<in>set us. u AND 0xFFFF = u) \<and>
      concat (map (bits_of 16) us) @ bits_of bc' uu' = bits_of bitcount uu @ concat (map (bits_of 6) xs) \<and>
      (\<forall>s. touc_group (letters xs @ s) l uu bitcount = foldr cons_char us (touc_group s (l + length xs) uu' bc'))"
proof (induction xs arbitrary: l uu bitcount)
  case Nil
  then show ?case by (intro exI [of _ "[]"] exI [of _ uu] exI [of _ bitcount]) (simp add: letters_def)
next
  case (Cons x xs)
  have x: "unat x < 64" "x < 64" "\<forall>x\<in>set xs. x < 64" using Cons.prems(1) by (simp_all add: word_less_nat_alt)
  have b: "\<not> bit x i" if "6 \<le> i" for i
    using bit_small [OF x(2)] that by simp
  have v: "of_int (int (unat x)) = x" "uint x \<noteq> - 1" using uint_ge_0 [of x] by (simp, linarith)
  show ?case
  proof (cases "16 \<le> bitcount + 6")
    case True
    let ?n = "bitcount + 6 - 16"
    let ?u = "(push_bit (6 - ?n) uu OR drop_bit ?n x) AND 0xFFFF"
    have n: "?n < 6" "?n < 16" "6 = (6 - ?n) + ?n" "bitcount + (6 - ?n) = 16" using True Cons.prems(2) by auto
    obtain us uu' bc' where IH: "bc' < 16" "\<forall>u\<in>set us. u AND 0xFFFF = u"
      "concat (map (bits_of 16) us) @ bits_of bc' uu' = bits_of ?n x @ concat (map (bits_of 6) xs)"
      "\<forall>s. touc_group (letters xs @ s) (l + 1) x ?n = foldr cons_char us (touc_group s (l + 1 + length xs) uu' bc')"
      using Cons.IH [OF x(3) n(2)] by blast
    have "bits_of 16 ?u = bits_of 16 (push_bit (6 - ?n) uu OR drop_bit ?n x)" by (rule bits_of_cong) (auto simp: bit_simps wide_masks)
    also have "\<dots> = bits_of bitcount uu @ bits_of (6 - ?n) (drop_bit ?n x)"
      using bits_of_shift [of bitcount "6 - ?n" "drop_bit ?n x" uu] n b by (simp add: bit_simps)
    finally have "bits_of 16 ?u @ bits_of ?n x = bits_of bitcount uu @ bits_of 6 x"
      using bits_of_split [of "6 - ?n" ?n x] n(3) by simp
    then have e: "concat (map (bits_of 16) (?u # us)) @ bits_of bc' uu' = bits_of bitcount uu @ concat (map (bits_of 6) (x # xs))"
      using IH(3) by simp
    have r: "touc_group (letters (x # xs) @ s) l uu bitcount = foldr cons_char (?u # us) (touc_group s (l + length (x # xs)) uu' bc')" for s
      using True lookup_letter [OF x(1)] IH(4) v by (simp add: letters_def Let_def)
    have "\<forall>u\<in>set (?u # us). u AND 0xFFFF = u" using IH(2) by (simp add: and.assoc)
    then show ?thesis using IH(1) e r by blast
  next
    case False
    have m: "bitcount + 6 < 16" using False by simp
    obtain us uu' bc' where IH: "bc' < 16" "\<forall>u\<in>set us. u AND 0xFFFF = u"
      "concat (map (bits_of 16) us) @ bits_of bc' uu' = bits_of (bitcount + 6) (push_bit 6 uu OR x) @ concat (map (bits_of 6) xs)"
      "\<forall>s. touc_group (letters xs @ s) (l + 1) (push_bit 6 uu OR x) (bitcount + 6) = foldr cons_char us (touc_group s (l + 1 + length xs) uu' bc')"
      using Cons.IH [OF x(3) m] by blast
    have "bits_of (bitcount + 6) (push_bit 6 uu OR x) = bits_of bitcount uu @ bits_of 6 x"
      by (rule bits_of_shift) (use m b in auto)
    then have e: "concat (map (bits_of 16) us) @ bits_of bc' uu' = bits_of bitcount uu @ concat (map (bits_of 6) (x # xs))"
      using IH(3) by simp
    have r: "touc_group (letters (x # xs) @ s) l uu bitcount = foldr cons_char us (touc_group s (l + length (x # xs)) uu' bc')" for s
      using False lookup_letter [OF x(1)] IH(4) v by (simp add: letters_def Let_def)
    show ?thesis using IH(1,2) e r by blast
  qed
qed

text \<open>Writing letters: the bits go in 16 at a time.\<close>

lemma small_bits: "(\<And>i. 6 \<le> i \<Longrightarrow> \<not> bit x i) \<Longrightarrow> x < 64" for x :: u32
  using unat_lt_64 [of x] by (simp add: word_less_nat_alt)

lemma bits_of_counter:
  assumes "x \<le> counter" "counter \<le> 16"
  shows "bits_of counter (drop_bit (16 - counter) uu) =
    bits_of x (drop_bit (16 - x) uu) @ bits_of (counter - x) (drop_bit (16 - (counter - x)) (push_bit x uu AND 0xFFFF))"
proof -
  have "bits_of (counter - x) (drop_bit (16 - counter) uu) = bits_of (counter - x) (drop_bit (16 - (counter - x)) (push_bit x uu AND 0xFFFF))"
    by (rule bits_of_cong) (use assms in \<open>auto simp: bit_simps wide_masks intro!: arg_cong [of _ _ "bit uu"]\<close>)
  moreover have "drop_bit (counter - x) (drop_bit (16 - counter) uu) = drop_bit (16 - x) uu" using assms by (simp add: drop_bit_drop_bit)
  ultimately show ?thesis using bits_of_split [of x "counter - x" "drop_bit (16 - counter) uu"] assms by simp
qed

lemma put_bits_letters:
  "counter \<le> 16 \<Longrightarrow> uu AND 0xFFFF = uu \<Longrightarrow> bitcount < 6 \<Longrightarrow> \<forall>i\<ge>bitcount. \<not> bit bits i \<Longrightarrow>
    \<exists>xs b c. put_bits counter uu bits bitcount = (letters xs, b, c) \<and> (\<forall>x\<in>set xs. x < 64) \<and> c < 6 \<and> (\<forall>i\<ge>c. \<not> bit b i) \<and>
      concat (map (bits_of 6) xs) @ bits_of c b = bits_of bitcount bits @ bits_of counter (drop_bit (16 - counter) uu)"
proof (induction counter uu bits bitcount rule: put_bits.induct)
  case (1 counter uu bits bitcount)
  have hi: "\<not> bit uu i" if "16 \<le> i" for i
  proof -
    have "\<not> bit (uu AND 0xFFFF) i" using that by (simp add: bit_simps wide_masks)
    then show ?thesis using 1(3) by simp
  qed
  consider "counter = 0" | "counter \<noteq> 0" "counter + bitcount < 6" | "counter \<noteq> 0" "\<not> counter + bitcount < 6" by blast
  then show ?case
  proof cases
    case 1
    then show ?thesis using \<open>bitcount < 6\<close> \<open>\<forall>i\<ge>bitcount. \<not> bit bits i\<close>
      by (intro exI [of _ "[]"] exI [of _ bits] exI [of _ bitcount]) (simp add: put_bits.simps letters_def)
  next
    case 2
    let ?b = "push_bit counter bits OR drop_bit (16 - counter) uu"
    have "bits_of (bitcount + counter) ?b = bits_of bitcount bits @ bits_of counter (drop_bit (16 - counter) uu)"
      by (rule bits_of_shift) (use 2 hi 1(2) in \<open>auto simp: bit_simps\<close>)
    moreover have "\<forall>i\<ge>bitcount + counter. \<not> bit ?b i" using 1(2,5) hi by (auto simp: bit_simps)
    ultimately show ?thesis using 2
      by (intro exI [of _ "[]"] exI [of _ ?b] exI [of _ "bitcount + counter"]) (simp add: put_bits.simps letters_def)
  next
    case 3
    let ?x = "6 - bitcount" and ?u = "push_bit (6 - bitcount) uu AND 0xFFFF"
    let ?X = "push_bit ?x bits OR drop_bit (16 - ?x) uu"
    have x: "?x \<le> counter" "bitcount + ?x = 6" "?x \<le> 16" using 3 1(2,4) by auto
    have "(\<forall>i\<ge>0. \<not> bit (0 :: u32) i)" "?u AND 0xFFFF = ?u" "counter - ?x \<le> 16" "(0 :: nat) < 6" using 1(2) by (simp_all add: and.assoc)
    then obtain xs b c where r: "put_bits (counter - ?x) ?u 0 0 = (letters xs, b, c)" "\<forall>x\<in>set xs. x < 64" "c < 6" "\<forall>i\<ge>c. \<not> bit b i"
      "concat (map (bits_of 6) xs) @ bits_of c b = bits_of 0 0 @ bits_of (counter - ?x) (drop_bit (16 - (counter - ?x)) ?u)"
      using 1(1) [OF 3 refl refl refl] by blast
    have X: "?X < 64" by (rule small_bits) (use 1(5) hi x in \<open>auto simp: bit_simps\<close>)
    have "bits_of 6 ?X = bits_of bitcount bits @ bits_of ?x (drop_bit (16 - ?x) uu)"
      using bits_of_shift [of bitcount ?x "drop_bit (16 - ?x) uu" bits] x hi by (simp add: bit_simps)
    then have "concat (map (bits_of 6) (?X # xs)) @ bits_of c b = bits_of bitcount bits @ bits_of counter (drop_bit (16 - counter) uu)"
      using r(5) bits_of_counter [OF x(1) 1(2)] by simp
    moreover have "put_bits counter uu bits bitcount = (letters (?X # xs), b, c)"
      using 3 r(1) by (simp add: put_bits.simps [of counter] Let_def letters_def)
    moreover have "\<forall>x\<in>set (?X # xs). x < 64" using X r(2) by simp
    ultimately show ?thesis using r(3,4) by blast
  qed
qed

subsection \<open>Groups\<close>

definition ucs2 :: "unicode_char \<Rightarrow> unicode_char" where
  "ucs2 u = (let uu = u AND 0xFFFF in if uu = 0 then 0xFFFD else uu)"

lemma ucs2_16: "ucs2 u AND 0xFFFF = ucs2 u"
  by (simp add: ucs2_def Let_def and.assoc)

lemma ucs2_id: "u \<noteq> 0 \<Longrightarrow> u < 0x10000 \<Longrightarrow> ucs2 u = u"
proof -
  assume u: "u \<noteq> 0" "u < 0x10000"
  then have "unat u < 2 ^ 16" by (simp add: word_less_nat_alt)
  then have "take_bit 16 (unat u) = unat u" by (rule take_bit_nat_eq_self)
  then have "take_bit 16 u = u" by (metis unsigned_take_bit_eq word_unat_eq_iff)
  then have "u AND 0xFFFF = u" by (simp add: take_bit_eq_mask wide_masks)
  then show "ucs2 u = u" using u(1) by (simp add: ucs2_def)
qed

definition left_over :: "u32 \<Rightarrow> nat \<Rightarrow> u32 list" where
  "left_over bits bitcount = (if bitcount \<noteq> 0 then [push_bit (6 - bitcount) bits] else [])"

lemma left_over:
  assumes "bitcount < 6" "\<forall>i\<ge>bitcount. \<not> bit bits i"
  shows "\<forall>x\<in>set (left_over bits bitcount). x < 64"
    "\<exists>pad. concat (map (bits_of 6) (left_over bits bitcount)) = bits_of bitcount bits @ pad \<and> length pad < 6"
proof -
  have "push_bit (6 - bitcount) bits < 64" by (rule small_bits) (use assms in \<open>auto simp: bit_simps\<close>)
  then show "\<forall>x\<in>set (left_over bits bitcount). x < 64" by (simp add: left_over_def)
  have "bits_of (bitcount + (6 - bitcount)) (push_bit (6 - bitcount) bits OR 0) = bits_of bitcount bits @ bits_of (6 - bitcount) 0"
    by (rule bits_of_shift) (use assms in simp_all)
  then show "\<exists>pad. concat (map (bits_of 6) (left_over bits bitcount)) = bits_of bitcount bits @ pad \<and> length pad < 6"
    using assms(1) by (cases "bitcount = 0") (auto simp: left_over_def)
qed

lemma utf7_group_end: "ws = [] \<or> \<not> is_special (hd ws) sp \<Longrightarrow>
    utf7_group ws sp bits bitcount = letters (left_over bits bitcount) @ ch CHR ''-'' # utf7_text ws sp"
  by (cases ws) (auto simp: left_over_def letters_def)

lemma utf7_group_special:
  "is_special u sp \<Longrightarrow> put_bits 16 (ucs2 u) bits bitcount = (t, b, c) \<Longrightarrow> utf7_group (u # us) sp bits bitcount = t @ utf7_group us sp b c"
  by (simp add: ucs2_def Let_def)

lemma utf7_group_letters:
  assumes ws: "ws = [] \<or> \<not> is_special (hd ws) sp"
  shows "\<forall>v\<in>set vs. is_special v sp \<Longrightarrow> bitcount < 6 \<Longrightarrow> \<forall>i\<ge>bitcount. \<not> bit bits i \<Longrightarrow>
    \<exists>xs pad. utf7_group (vs @ ws) sp bits bitcount = letters xs @ ch CHR ''-'' # utf7_text ws sp \<and> (\<forall>x\<in>set xs. x < 64) \<and>
      concat (map (bits_of 6) xs) = bits_of bitcount bits @ concat (map (bits_of 16) (map ucs2 vs)) @ pad \<and> length pad < 6"
proof (induction vs arbitrary: bits bitcount)
  case Nil
  then show ?case using utf7_group_end [OF ws] left_over [OF Nil(2,3)] by (intro exI [of _ "left_over bits bitcount"]) auto
next
  case (Cons v vs)
  have v: "is_special v sp" "\<forall>v\<in>set vs. is_special v sp" using Cons.prems(1) by auto
  obtain xs b c where p: "put_bits 16 (ucs2 v) bits bitcount = (letters xs, b, c)" "\<forall>x\<in>set xs. x < 64" "c < 6" "\<forall>i\<ge>c. \<not> bit b i"
    "concat (map (bits_of 6) xs) @ bits_of c b = bits_of bitcount bits @ bits_of 16 (drop_bit (16 - 16) (ucs2 v))"
    using put_bits_letters [OF _ ucs2_16 Cons.prems(2,3), of 16 v] by blast
  obtain ys pad where q: "utf7_group (vs @ ws) sp b c = letters ys @ ch CHR ''-'' # utf7_text ws sp" "\<forall>x\<in>set ys. x < 64"
    "concat (map (bits_of 6) ys) = bits_of c b @ concat (map (bits_of 16) (map ucs2 vs)) @ pad" "length pad < 6"
    using Cons.IH [OF v(2) p(3,4)] by blast
  have "utf7_group ((v # vs) @ ws) sp bits bitcount = letters (xs @ ys) @ ch CHR ''-'' # utf7_text ws sp"
    using utf7_group_special [OF v(1) p(1), of "vs @ ws"] q(1) by (simp add: letters_def)
  moreover have "concat (map (bits_of 6) (xs @ ys)) = bits_of bitcount bits @ concat (map (bits_of 16) (map ucs2 (v # vs))) @ pad"
    using p(5) q(3) by (simp flip: append_assoc)
  moreover have "\<forall>x\<in>set (xs @ ys). x < 64" using p(2) q(2) by auto
  ultimately show ?case using q(4) by blast
qed

lemma utf7_text_special: "is_special u sp \<Longrightarrow> utf7_text (u # us) sp = ch CHR ''&'' # utf7_group (u # us) sp 0 0"
  by (simp add: Let_def)

subsection \<open>The property\<close>

lemma not_special: "\<not> is_special u sp \<Longrightarrow> wide (low8 u) = u \<and> \<not> low8 u < 0x20 \<and> \<not> 0x7F \<le> low8 u"
proof -
  assume "\<not> is_special u sp"
  then have u: "0x20 \<le> unat u" "unat u < 0x7F" by (simp_all add: is_special_def not_le not_less word_less_nat_alt word_le_nat_alt)
  then have l: "unat (low8 u) = unat u" by (simp add: unsigned_ucast_eq unsigned_take_bit_eq take_bit_nat_eq_self)
  have "unat (wide (low8 u)) = unat (low8 u)" by (simp add: unsigned_ucast_eq unsigned_take_bit_eq)
  then have "wide (low8 u) = u" using l by (simp add: word_unat_eq_iff)
  then show ?thesis using u l by (simp add: word_less_nat_alt word_le_nat_alt)
qed

lemma foldr_cons_char: "foldr cons_char us (Inr vs) = Inr (us @ vs)"
  by (induction us) (simp_all add: cons_char_def)

lemma touc_text_read: "touc_text (utf7_text us sp) l = Inr us" if "\<forall>u\<in>set us. u \<noteq> 0 \<and> u < 0x10000"
  using that
proof (induction "length us" arbitrary: us l rule: less_induct)
  case less
  show ?case
  proof (cases us)
    case (Cons u us')
    show ?thesis
    proof (cases "is_special u sp")
      case False
      have r: "touc_text (utf7_text us' sp) k = Inr us'" for k using less Cons by simp
      have e: "low8 u = 38 \<longleftrightarrow> u = 38"
      proof
        assume "low8 u = 38"
        then have "wide (low8 u) = 38" by simp
        then show "u = 38" using not_special [OF False] by simp
      qed simp
      show ?thesis using False not_special [OF False] r Cons e by (simp add: cons_char_def)
    next
      case True
      obtain vs ws where v: "us = (u # vs) @ ws" "\<forall>v\<in>set (u # vs). is_special v sp" "ws = [] \<or> \<not> is_special (hd ws) sp"
        using True Cons takeWhile_dropWhile_id [of "\<lambda>u. is_special u sp" us'] hd_dropWhile [of "\<lambda>u. is_special u sp" us']
        by (metis append_Cons set_ConsD set_takeWhileD)
      obtain xs pad where x: "utf7_group us sp 0 0 = letters xs @ ch CHR ''-'' # utf7_text ws sp" "\<forall>x\<in>set xs. x < 64"
        "concat (map (bits_of 6) xs) = bits_of 0 0 @ concat (map (bits_of 16) (map ucs2 (u # vs))) @ pad" "length pad < 6"
        using utf7_group_letters [OF v(3,2), of 0 0] v(1) by auto
      have i: "map ucs2 (u # vs) = u # vs" by (rule map_idI) (use less.prems v(1) ucs2_id in auto)
      obtain ys uu b where y: "b < 16" "\<forall>u\<in>set ys. u AND 0xFFFF = u"
        "concat (map (bits_of 16) ys) @ bits_of b uu = bits_of 0 0 @ concat (map (bits_of 6) xs)"
        "\<forall>s. touc_group (letters xs @ s) (l + 1) 0 0 = foldr cons_char ys (touc_group s (l + 1 + length xs) uu b)"
        using touc_group_letters [OF x(2), where bitcount = 0 and l = "l + 1" and uu = 0] by auto
      have x3: "concat (map (bits_of 6) xs) = concat (map (bits_of 16) (u # vs)) @ pad" using x(3) unfolding i by simp
      have u16: "\<forall>v\<in>set (u # vs). v AND 0xFFFF = v" using less.prems v(1) ucs2_id ucs2_16 by (metis Un_iff set_append)
      have "ys = u # vs"
        by (rule chars_of_bits [OF _ _ _ y(2) u16, of "bits_of b uu" pad]) (use y(1,3) x(4) x3 in simp_all)
      have r: "touc_text (utf7_text ws sp) k = Inr ws" for k using less v(1) by simp
      have ne: "xs \<noteq> []" using arg_cong [OF x(3), of length] by auto
      have n: "hd (letters xs) \<noteq> ch CHR ''-''" "letters xs \<noteq> []"
        using ne x(2) lookup_letter(2) [of "unat (hd xs)"] by (cases xs; simp add: letters_def word_less_nat_alt)+
      have "touc_text (ch CHR ''&'' # letters xs @ s) l = touc_group (letters xs @ s) (l + 1) 0 0" for s
        using n by (cases "letters xs") auto
      then show ?thesis using utf7_text_special [OF True, of us'] Cons x(1) y(4) r v(1) \<open>ys = u # vs\<close>
        by (simp add: foldr_cons_char cons_char_def [of u "Inr us'"])
    qed
  qed simp
qed

text \<open>
  C14. The name of a folder is read back as it was written, whatever characters are given a group of their
  own, for all characters of the basic plane.
\<close>

theorem utf7_roundtrip:
  assumes "\<forall>u\<in>set us. u \<noteq> 0 \<and> u < 0x10000" "unicode_uctomodutf7x mem us specials = Some s" "mem' (4 * (length s + 1))"
  shows "unicode_modutf7touc mem' s = (Some us, Some (- 1))"
  using touc_text_read [OF assms(1), of specials 0] assms(2,3)
  by (auto simp: unicode_uctomodutf7x_def unicode_modutf7touc_def Let_def split: if_split_asm)

theorem utf7_roundtrip_witness: "unicode_modutf7touc (\<lambda>_. True) (asc ''R&AOk-sum&AOk- &- co'') = (Some [82, 233, 115, 117, 109, 233, 32, 38, 32, 99, 111], Some (- 1))"
  by (rule utf7_roundtrip [of _ "\<lambda>_. True" "[]"]) (simp, code_simp, simp)

text \<open>What is read fits the array, which has a character for every byte and the end.\<close>

lemma cons_char_length: "cons_char u r = Inr us \<Longrightarrow> \<exists>vs. r = Inr vs \<and> us = u # vs"
  by (auto simp: cons_char_def split: sum.splits)

lemma touc_fits: "touc_text s l = Inr us \<Longrightarrow> length us \<le> length s"
  "touc_group s l uu bitcount = Inr us \<Longrightarrow> length us \<le> length s"
proof (induction s l and s l uu bitcount arbitrary: us and us rule: touc_text_touc_group.induct)
  case (2 c s l)
  then show ?case by (fastforce split: if_split_asm list.splits dest: cons_char_length)
next
  case (4 c s l uu bitcount)
  then show ?case by (fastforce split: if_split_asm simp: Let_def dest: cons_char_length)
qed simp_all

end
