(* ===== verification/Cgi.thy ===== *)
theory Cgi imports Numlib begin

text \<open>
  The arguments of a CGI program: \<open>wmail/cgi/cgi.c\<close>, with the cookies, the version of the protocol and
  the name of the browser. The environment is a function from names to values; the list of arguments is
  linked in both directions in the code and a list here, its head first.
\<close>

type_synonym environ = "string \<Rightarrow> byte list option"

subsection \<open>Encoding\<close>

definition cgi_hex :: "byte list" where
  "cgi_hex = asc ''0123456789ABCDEF''"

definition enc_char :: "byte list \<Rightarrow> byte \<Rightarrow> byte list" where
  "enc_char punct c =
     (if c \<in> set punct \<or> c < 32 \<or> 127 \<le> c
      then [ch CHR ''%'', cgi_hex ! (unat c div 16), cgi_hex ! unat (c AND 15)]
      else [if c = ch CHR '' '' then ch CHR ''+'' else c])"

definition cgiurlencode_common :: "byte list \<Rightarrow> byte list \<Rightarrow> byte list" where
  "cgiurlencode_common buf punct = concat (map (enc_char punct) buf)"

definition cgiurlencode :: "byte list \<Rightarrow> byte list" where
  "cgiurlencode buf = cgiurlencode_common buf (asc ''\"?;<>&=/:%@+#'')"

definition cgiurlencode_noamp :: "byte list \<Rightarrow> byte list" where
  "cgiurlencode_noamp buf = cgiurlencode_common buf (asc ''\"?<>=/:%@+#'')"

definition cgiurlencode_noeq :: "byte list \<Rightarrow> byte list" where
  "cgiurlencode_noeq buf = cgiurlencode_common buf (asc ''\"?;<>&/:%@+#'')"

subsection \<open>Decoding\<close>

text \<open>A digit is added to \<open>n\<close>; anything else stays.\<close>

fun cgi_nybble :: "byte list \<Rightarrow> nat \<Rightarrow> byte list \<times> nat" where
  "cgi_nybble [] n = ([], n)"
| "cgi_nybble (c # p) n =
     (if ch CHR ''0'' \<le> c \<and> c \<le> ch CHR ''9'' then (p, n * 16 + unat (c - ch CHR ''0''))
      else if ch CHR ''A'' \<le> c \<and> c \<le> ch CHR ''F'' then (p, n * 16 + (unat (c - ch CHR ''A'') + 10))
      else (c # p, n))"

lemma length_cgi_nybble: "length (fst (cgi_nybble p n)) \<le> length p"
  by (cases p) auto

function cgiurldecode :: "byte list \<Rightarrow> byte list" where
  "cgiurldecode [] = []"
| "cgiurldecode (c # q) =
     (if c = ch CHR ''+'' \<or> c = 0xA0 then ch CHR '' '' # cgiurldecode q
      else if c \<noteq> ch CHR ''%'' then c # cgiurldecode q
      else let r = cgi_nybble q 0; r = cgi_nybble (fst r) (snd r);
               d = (if (of_nat (snd r) :: byte) = 0xA0 then 32 else snd r)
           in (if d \<noteq> 0 \<and> d \<noteq> 13 then [of_nat d] else []) @ cgiurldecode (fst r))"
  by pat_completeness auto
termination
  by (relation "measure length") (auto simp: less_Suc_eq_le intro: le_trans length_cgi_nybble)

declare cgiurldecode.simps [simp del]

subsection \<open>The arguments of a request\<close>

type_synonym cgi_arglist = "(byte list \<times> byte list) list"

text \<open>The text between two ampersands; a new argument comes first in the list.\<close>

definition one_arg :: "byte list \<Rightarrow> byte list \<times> byte list" where
  "one_arg p =
     (case strchr p (ch CHR ''='') of
        Some i \<Rightarrow> (cgiurldecode (take i p), cgiurldecode (drop (i + 1) p))
      | None \<Rightarrow> (cgiurldecode p, []))"

lemma drop_dropWhile_less: "q \<noteq> [] \<Longrightarrow> length (dropWhile P q) - Suc 0 < length q"
  by (metis diff_Suc_less diff_le_self le_neq_implies_less length_dropWhile_le length_greater_0_conv less_le_trans order_less_le_trans nat_less_le)

function cgi_args :: "byte list \<Rightarrow> cgi_arglist \<Rightarrow> cgi_arglist" where
  "cgi_args q list =
     (if q = [] then list
      else cgi_args (drop 1 (dropWhile (\<lambda>c. c \<noteq> ch CHR ''&'') q)) (one_arg (takeWhile (\<lambda>c. c \<noteq> ch CHR ''&'') q) # list))"
  by pat_completeness auto
termination
  by (relation "measure (\<lambda>(q, list). length q)") (auto simp: drop_dropWhile_less)

declare cgi_args.simps [simp del]

text \<open>What the setup ends in: no memory, the page that says that too much was sent, a form of several parts.\<close>

datatype cgi_setup = Arguments cgi_arglist | Enomem | Too_large | Form_data u64

definition CGIMAXARG :: nat where "CGIMAXARG = 500000"
definition CGIMAXFORMDATAARG :: nat where "CGIMAXFORMDATAARG = 2000000"

definition cgi_setup_1 :: "(nat \<Rightarrow> bool) \<Rightarrow> environ \<Rightarrow> byte list \<Rightarrow> cgi_setup" where
  "cgi_setup_1 mem env stdin =
     (if env ''REQUEST_METHOD'' = Some (asc ''GET'')
      then case env ''QUERY_STRING'' of
        None \<Rightarrow> Arguments []
      | Some args \<Rightarrow>
          if CGIMAXARG < length args then Enomem
          else if \<not> mem (length args + 1) then Arguments []
          else Arguments (cgi_args args [])
      else if env ''REQUEST_METHOD'' = Some (asc ''POST'')
      then case env ''CONTENT_TYPE'' of
        None \<Rightarrow> Arguments []
      | Some args \<Rightarrow>
          let multipart = has_prefix_nocase args (asc ''multipart/form-data;'')
          in if \<not> multipart \<and> \<not> has_prefix args (asc ''application/x-www-form-urlencoded'') then Arguments []
             else case env ''CONTENT_LENGTH'' of
               None \<Rightarrow> Arguments []
             | Some n \<Rightarrow>
                 let cl = (of_int (atol n) :: u64)
                 in if multipart
                    then if of_nat CGIMAXFORMDATAARG < cl then Too_large else Form_data cl
                    else if of_nat CGIMAXARG < cl then Too_large
                    else if \<not> mem (unat cl + 1) \<or> length stdin < unat cl then Arguments []
                    else Arguments (cgi_args (cstr (take (unat cl) stdin)) [])
      else Arguments [])"

definition cgi :: "cgi_arglist \<Rightarrow> byte list \<Rightarrow> byte list" where
  "cgi list arg = (case map_of list arg of Some v \<Rightarrow> v | None \<Rightarrow> [])"

text \<open>All values of an argument, with a separator, from the tail of the list to its head, in a buffer of \<open>l\<close> bytes.\<close>

definition multiple_size :: "cgi_arglist \<Rightarrow> byte list \<Rightarrow> byte list \<Rightarrow> nat" where
  "multiple_size list arg sep = 1 + (\<Sum>(n, v)\<leftarrow>list. if n = arg then length v + length sep else 0)"

fun multiple_fill :: "cgi_arglist \<Rightarrow> byte list \<Rightarrow> byte list \<Rightarrow> byte list \<Rightarrow> byte list" where
  "multiple_fill [] arg sep buf = buf"
| "multiple_fill ((n, v) # args) arg sep buf =
     multiple_fill args arg sep (if n = arg then (if buf \<noteq> [] then buf @ sep else buf) @ v else buf)"

definition cgi_multiple :: "(nat \<Rightarrow> bool) \<Rightarrow> cgi_arglist \<Rightarrow> byte list \<Rightarrow> byte list \<Rightarrow> byte list option" where
  "cgi_multiple mem list arg sep =
     (if mem (multiple_size list arg sep) then Some (multiple_fill (rev list) arg sep []) else None)"

fun put_first :: "cgi_arglist \<Rightarrow> byte list \<Rightarrow> byte list \<Rightarrow> cgi_arglist option" where
  "put_first [] name value = None"
| "put_first ((n, v) # list) name value =
     (if n = name then Some ((n, value) # list) else map_option ((#) (n, v)) (put_first list name value))"

definition cgi_put :: "cgi_arglist \<Rightarrow> byte list \<Rightarrow> byte list \<Rightarrow> cgi_arglist" where
  "cgi_put list name value = (case put_first list name value of Some l \<Rightarrow> l | None \<Rightarrow> (name, value) # list)"


subsection \<open>Cookies, the protocol and the browser\<close>

function cookie_loop :: "byte list \<Rightarrow> byte list \<Rightarrow> byte list" where
  "cookie_loop p c =
     (if c = [] then []
      else if takeWhile (\<lambda>c. c \<noteq> ch CHR ''='') c = p
      then cgiurldecode (takeWhile (\<lambda>c. c \<noteq> ch CHR '';'') (drop 1 (dropWhile (\<lambda>c. c \<noteq> ch CHR ''='') c)))
      else cookie_loop p (dropWhile isspace (drop 1 (dropWhile (\<lambda>c. c \<noteq> ch CHR '';'') c))))"
  by pat_completeness auto
termination
  by (relation "measure (\<lambda>(p, c). length c)") (auto intro: le_less_trans [OF length_dropWhile_le] simp: drop_dropWhile_less)

declare cookie_loop.simps [simp del]

definition cgi_cookie :: "environ \<Rightarrow> byte list \<Rightarrow> byte list" where
  "cgi_cookie env p = (case env ''HTTP_COOKIE'' of None \<Rightarrow> [] | Some c \<Rightarrow> cookie_loop p c)"

text \<open>What is printed; the encoded value is made and released again.\<close>

definition cgi_setcookie :: "environ \<Rightarrow> byte list \<Rightarrow> byte list \<Rightarrow> byte list" where
  "cgi_setcookie env name value =
     (let sn = (case env ''SCRIPT_NAME'' of Some (c # s) \<Rightarrow> c # s | _ \<Rightarrow> asc ''/'')
      in asc ''Set-Cookie: '' @ name @ asc ''='' @ value @ asc ''; path='' @ sn @ [NL])"

definition version_number :: "byte list \<Rightarrow> u32" where
  "version_number ds = foldl (\<lambda>n c. n * 10 + (wide c - 48)) 0 ds"

definition cgiversion :: "environ \<Rightarrow> u32 \<times> u32" where
  "cgiversion env =
     (case env ''SERVER_PROTOCOL'' of
        None \<Rightarrow> (0, 0)
      | Some p \<Rightarrow>
          if map toupper (take 4 p) \<noteq> asc ''HTTP'' \<or> at p 4 \<noteq> ch CHR ''/'' then (0, 0)
          else let p = drop 5 p; major = version_number (takeWhile isdigit p); p = dropWhile isdigit p
            in (major, if at p 0 = ch CHR ''.'' then version_number (takeWhile isdigit (drop 1 p)) else 0))"

definition cgihasversion :: "environ \<Rightarrow> u32 \<Rightarrow> u32 \<Rightarrow> bool" where
  "cgihasversion env major minor =
     (case cgiversion env of (vmajor, vminor) \<Rightarrow> major < vmajor \<or> vmajor = major \<and> minor \<le> vminor)"

text \<open>
  Whether the browser's name has \<open>p\<close> after a character that is no letter. The character that is tested
  behind it is one too far: it may be outside the string, \<open>None\<close>.
\<close>

fun useragent_loop :: "byte list \<Rightarrow> byte list \<Rightarrow> bool option" where
  "useragent_loop p [] = Some False"
| "useragent_loop p (c # s) =
     (if isalpha c \<or> map toupper (take (length p) s) \<noteq> map toupper p then useragent_loop p s
      else if length s \<le> length p then None
      else if \<not> isalpha (at s (length p + 1)) then Some True
      else useragent_loop p s)"

definition cgi_useragent :: "environ \<Rightarrow> byte list \<Rightarrow> bool option" where
  "cgi_useragent env p = (case env ''HTTP_USER_AGENT'' of None \<Rightarrow> Some False | Some c \<Rightarrow> useragent_loop p c)"

subsection \<open>What was encoded is read back\<close>

text \<open>Bytes that a form can carry: the decoder drops carriage returns and takes 0xA0 for a blank.\<close>

definition plain :: "byte list \<Rightarrow> bool" where
  "plain s \<longleftrightarrow> 0 \<notin> set s \<and> 13 \<notin> set s \<and> 0xA0 \<notin> set s"

lemma plain_Cons [simp]: "plain (c # s) \<longleftrightarrow> c \<noteq> 0 \<and> c \<noteq> 13 \<and> c \<noteq> 0xA0 \<and> plain s"
  by (auto simp: plain_def)

lemma length_cgi_hex: "length cgi_hex = 16"
  by (simp add: cgi_hex_def)

lemma cgi_nybble_hex: "i < 16 \<Longrightarrow> cgi_nybble (cgi_hex ! i # s) n = (s, n * 16 + i)"
proof -
  assume "i < 16"
  then have "i \<in> set [0..<16]" by simp
  also have "[0..<16] = [0, 1, 2, 3, 4, 5, 6, 7, 8, 9, 10, 11, 12, 13, 14, 15]" by (simp add: upt_rec)
  finally show ?thesis by (auto simp: cgi_hex_def)
qed

lemma unat_nibbles: "unat (c::byte) div 16 * 16 + unat (c AND 15) = unat c" "unat (c::byte) div 16 < 16" "unat (c AND 15) < 16"
proof -
  have m: "unat (c AND 15) = unat c mod 16"
    using take_bit_eq_mask [of 4 c] unsigned_take_bit_eq [of 4 c, where 'a = nat] by (simp add: byte_masks take_bit_eq_mod)
  show "unat c div 16 * 16 + unat (c AND 15) = unat c" by (simp add: m)
  have "unat c < 2 ^ LENGTH(8)" by (rule unsigned_less)
  then show "unat c div 16 < 16" by simp
  show "unat (c AND 15) < 16" by (simp add: m)
qed


text \<open>One character.\<close>

definition safe_punct :: "byte list \<Rightarrow> bool" where
  "safe_punct punct \<longleftrightarrow> ch CHR ''%'' \<in> set punct \<and> ch CHR ''+'' \<in> set punct"

lemma decode_enc_char:
  assumes "safe_punct punct" "c \<noteq> 0" "c \<noteq> 13" "c \<noteq> 0xA0"
  shows "cgiurldecode (enc_char punct c @ s) = c # cgiurldecode s"
proof (cases "c \<in> set punct \<or> c < 32 \<or> 127 \<le> c")
  case True
  have "unat c \<noteq> 0" "unat c \<noteq> 13"
    using assms(2,3) by (simp_all add: word_unat_eq_iff)
  moreover have "enc_char punct c = [ch CHR ''%'', cgi_hex ! (unat c div 16), cgi_hex ! unat (c AND 15)]"
    using True by (simp only: enc_char_def if_True)
  moreover have "cgi_nybble (cgi_hex ! (unat c div 16) # cgi_hex ! unat (c AND 15) # s) 0 = (cgi_hex ! unat (c AND 15) # s, unat c div 16)"
    "cgi_nybble (cgi_hex ! unat (c AND 15) # s) (unat c div 16) = (s, unat c)"
    unfolding cgi_nybble_hex [OF unat_nibbles(2)] cgi_nybble_hex [OF unat_nibbles(3)] by (simp_all add: unat_nibbles(1))
  ultimately show ?thesis using assms(4) by (simp add: cgiurldecode.simps(2))
next
  case False
  then show ?thesis using assms by (auto simp: enc_char_def safe_punct_def cgiurldecode.simps)
qed

lemma decode_encode: "safe_punct punct \<Longrightarrow> plain s \<Longrightarrow> cgiurldecode (cgiurlencode_common s punct @ t) = s @ cgiurldecode t"
  by (induction s) (auto simp: cgiurlencode_common_def decode_enc_char)

lemma enc_char_clean: "x \<in> set (enc_char punct c) \<Longrightarrow> x \<in> set punct \<Longrightarrow> x = ch CHR ''%'' \<or> x = ch CHR ''+'' \<or> x \<in> set cgi_hex"
  using unat_nibbles [of c] nth_mem [of _ cgi_hex] by (auto simp: enc_char_def length_cgi_hex split: if_split_asm)

lemma encode_clean:
  assumes "x \<in> set punct" "x \<noteq> ch CHR ''%''" "x \<noteq> ch CHR ''+''" "x \<notin> set cgi_hex"
  shows "x \<notin> set (cgiurlencode_common s punct)"
  using enc_char_clean [of x punct] assms by (auto simp: cgiurlencode_common_def)


text \<open>A form as a browser sends it: the fields in their order, names and values encoded.\<close>

fun form_text :: "(byte list \<times> byte list) list \<Rightarrow> byte list" where
  "form_text [] = []"
| "form_text [(n, v)] = cgiurlencode n @ ch CHR ''='' # cgiurlencode v"
| "form_text ((n, v) # fs) = cgiurlencode n @ ch CHR ''='' # cgiurlencode v @ ch CHR ''&'' # form_text fs"

definition form_sent :: "environ \<Rightarrow> byte list \<Rightarrow> byte list \<Rightarrow> bool" where
  "form_sent env stdin t \<longleftrightarrow>
     env ''REQUEST_METHOD'' = Some (asc ''GET'') \<and> env ''QUERY_STRING'' = Some t \<or>
     env ''REQUEST_METHOD'' = Some (asc ''POST'') \<and> env ''CONTENT_TYPE'' = Some (asc ''application/x-www-form-urlencoded'') \<and>
       (\<exists>n. env ''CONTENT_LENGTH'' = Some n \<and> atol n = int (length t)) \<and> take (length t) stdin = t"

definition field_values :: "(byte list \<times> byte list) list \<Rightarrow> byte list \<Rightarrow> byte list list" where
  "field_values fields arg = map snd (filter (\<lambda>f. fst f = arg) fields)"

fun join :: "byte list \<Rightarrow> byte list list \<Rightarrow> byte list" where
  "join sep [] = []"
| "join sep [v] = v"
| "join sep (v # vs) = v @ sep @ join sep vs"

lemma cgiurlencode_clean: "ch CHR ''='' \<notin> set (cgiurlencode s)" "ch CHR ''&'' \<notin> set (cgiurlencode s)"
  unfolding cgiurlencode_def by (rule encode_clean; simp add: cgi_hex_def)+

lemma cgiurlencode_back: "plain s \<Longrightarrow> cgiurldecode (cgiurlencode s) = s"
  using decode_encode [of _ s "[]"] by (simp add: cgiurlencode_def safe_punct_def cgiurldecode.simps(1))

lemma strchr_found: "x \<notin> set a \<Longrightarrow> strchr (a @ x # b) x = Some (length a)"
  by (induction a) auto

lemma one_arg_field: "plain n \<Longrightarrow> plain v \<Longrightarrow> one_arg (cgiurlencode n @ ch CHR ''='' # cgiurlencode v) = (n, v)"
  using strchr_found [OF cgiurlencode_clean(1), of n "cgiurlencode v"] by (simp add: one_arg_def cgiurlencode_back)

lemma cgi_args_form:
  "\<forall>(n, v)\<in>set fields. plain n \<and> plain v \<Longrightarrow> cgi_args (form_text fields) list = rev fields @ list"
proof (induction fields arbitrary: list rule: form_text.induct)
  case (2 n v)
  let ?t = "cgiurlencode n @ ch CHR ''='' # cgiurlencode v"
  have "\<forall>c\<in>set ?t. c \<noteq> ch CHR ''&''" using cgiurlencode_clean by auto
  then have "takeWhile (\<lambda>c. c \<noteq> ch CHR ''&'') ?t = ?t" "dropWhile (\<lambda>c. c \<noteq> ch CHR ''&'') ?t = []"
    by (simp_all only: takeWhile_eq_all_conv dropWhile_eq_Nil_conv simp_thms)
  then have "cgi_args ?t list = cgi_args [] (one_arg ?t # list)"
    by (subst cgi_args.simps) (simp only: drop_Nil append_is_Nil_conv list.distinct if_False simp_thms)
  then show ?case using 2 one_arg_field [of n v] by (simp add: cgi_args.simps [of "[]"])
next
  case (3 n v f fs)
  let ?t = "cgiurlencode n @ ch CHR ''='' # cgiurlencode v"
  have "\<forall>c\<in>set ?t. c \<noteq> ch CHR ''&''" using cgiurlencode_clean by auto
  then have "takeWhile (\<lambda>c. c \<noteq> ch CHR ''&'') (?t @ ch CHR ''&'' # r) = ?t" "dropWhile (\<lambda>c. c \<noteq> ch CHR ''&'') (?t @ ch CHR ''&'' # r) = ch CHR ''&'' # r" for r
    by (simp_all add: takeWhile_append2 dropWhile_append2)
  then have "cgi_args (?t @ ch CHR ''&'' # form_text (f # fs)) list = cgi_args (form_text (f # fs)) (one_arg ?t # list)"
    by (subst cgi_args.simps) simp
  then show ?case using 3 one_arg_field [of n v] by simp
qed (simp add: cgi_args.simps)

lemma form_text_no_nul: "\<forall>(n, v)\<in>set fields. plain n \<and> plain v \<Longrightarrow> 0 \<notin> set (form_text fields)"
proof -
  have "0 \<notin> set (cgiurlencode s)" if "plain s" for s
  proof -
    have "0 \<notin> set cgi_hex" by (simp add: cgi_hex_def)
    then have "cgi_hex ! i \<noteq> 0" if "i < 16" for i using nth_mem [of i cgi_hex] that length_cgi_hex by metis
    then have e: "0 \<notin> set (enc_char punct c)" if "c \<noteq> 0" for c punct
      using that unat_nibbles(2,3) [of c] by (auto simp: enc_char_def split: if_splits)
    from that show ?thesis by (induction s) (simp_all add: cgiurlencode_def cgiurlencode_common_def e)
  qed
  then show "\<forall>(n, v)\<in>set fields. plain n \<and> plain v \<Longrightarrow> ?thesis"
    by (induction fields rule: form_text.induct) auto
qed

lemma setup_sent:
  assumes "form_sent env stdin t" "length t \<le> CGIMAXARG" "0 \<notin> set t" "\<forall>k. mem k"
  shows "cgi_setup_1 mem env stdin = Arguments (cgi_args t [])"
proof -
  have w: "unat (of_nat (length t) :: u64) = length t"
    using assms(2) by (simp add: CGIMAXARG_def unat_of_nat take_bit_nat_eq_self)
  have l: "\<not> of_nat CGIMAXARG < (of_nat (length t) :: u64)"
    using assms(2) by (simp add: word_less_nat_alt w CGIMAXARG_def)
  have "take (length t) stdin = t \<Longrightarrow> length t \<le> length stdin" by (metis length_take min.absorb_iff2 min_def nat_le_linear)
  then show ?thesis
    using assms w l cstr_id [OF assms(3)] by (auto simp: cgi_setup_1_def form_sent_def Let_def has_prefix_def has_prefix_nocase_def tolower_def isupper_def)
qed


lemma map_of_rev_fields: "cgi (rev fields) arg = (case field_values fields arg of [] \<Rightarrow> [] | vs \<Rightarrow> last vs)"
proof (induction fields rule: rev_induct)
  case Nil
  then show ?case by (simp add: cgi_def field_values_def)
next
  case (snoc f fields)
  then show ?case
    by (cases f) (auto simp: cgi_def field_values_def split: list.splits)
qed

lemma multiple_fill_values:
  "buf \<noteq> [] \<Longrightarrow> [] \<notin> set (field_values fields arg) \<Longrightarrow>
    multiple_fill fields arg sep buf = join sep (buf # field_values fields arg)"
proof (induction fields arg sep buf rule: multiple_fill.induct)
  case (2 n v args arg sep buf)
  have j: "join sep (buf # v # vs) = join sep ((buf @ sep @ v) # vs)" for vs
    by (cases vs) simp_all
  show ?case
  proof (cases "n = arg")
    case True
    then have "multiple_fill args arg sep (buf @ sep @ v) = join sep ((buf @ sep @ v) # field_values args arg)"
      using 2 by (simp add: field_values_def)
    then show ?thesis using True 2(2) j by (simp add: field_values_def)
  next
    case False
    then show ?thesis using 2 by (simp add: field_values_def)
  qed
qed (simp add: field_values_def)

lemma multiple_fill_start:
  "[] \<notin> set (field_values fields arg) \<Longrightarrow> multiple_fill fields arg sep [] = join sep (field_values fields arg)"
proof (induction fields)
  case (Cons f fields)
  obtain n v where f: "f = (n, v)" by fastforce
  show ?case
  proof (cases "n = arg")
    case True
    then have "v \<noteq> []" "[] \<notin> set (field_values fields arg)" using Cons.prems by (auto simp: f field_values_def)
    then show ?thesis using True multiple_fill_values [of v fields arg sep] by (simp add: f field_values_def)
  next
    case False
    then show ?thesis using Cons by (simp add: f field_values_def)
  qed
qed (simp add: field_values_def)

text \<open>The buffer of \<open>cgi_multiple\<close> is large enough, with the NUL.\<close>

lemma multiple_fill_length:
  "length (multiple_fill args arg sep buf) + 1 \<le> length buf + multiple_size args arg sep"
  by (induction args arg sep buf rule: multiple_fill.induct) (fastforce simp: multiple_size_def)+

lemma multiple_size_rev: "multiple_size (rev args) arg sep = multiple_size args arg sep"
  by (simp add: multiple_size_def rev_map [symmetric] sum_list_rev)

subsection \<open>The property\<close>

text \<open>
  C29. The fields of a form that a browser encodes and sends, as a query or as the body of the request, come
  back as they were: \<open>cgi\<close> gives the last value of a field, or the empty string if there is none, and
  \<open>cgi_multiple\<close> all its values in their order, between separators, in a buffer that is large enough.
  The names and values have no NUL, carriage return or byte 0xA0, the text is at most 500000 bytes
  long, memory suffices, and for \<open>cgi_multiple\<close> no value is empty.
\<close>

theorem form_fields_back:
  assumes "\<forall>(n, v)\<in>set fields. plain n \<and> plain v" "form_sent env stdin (form_text fields)"
    "length (form_text fields) \<le> CGIMAXARG" "\<forall>k. mem k"
  shows "\<exists>args. cgi_setup_1 mem env stdin = Arguments args \<and>
    cgi args arg = (case field_values fields arg of [] \<Rightarrow> [] | vs \<Rightarrow> last vs) \<and>
    ([] \<notin> set (field_values fields arg) \<longrightarrow>
      cgi_multiple mem args arg sep = Some (join sep (field_values fields arg)) \<and>
      length (join sep (field_values fields arg)) < multiple_size args arg sep)"
proof -
  have "cgi_setup_1 mem env stdin = Arguments (rev fields)"
    using setup_sent [OF assms(2,3) form_text_no_nul [OF assms(1)] assms(4)] cgi_args_form [OF assms(1), of "[]"] by simp
  moreover have "cgi_multiple mem (rev fields) arg sep = Some (join sep (field_values fields arg))"
    if "[] \<notin> set (field_values fields arg)"
    using multiple_fill_start [OF that, of sep] assms(4) by (simp add: cgi_multiple_def)
  moreover have "length (join sep (field_values fields arg)) < multiple_size (rev fields) arg sep"
    if "[] \<notin> set (field_values fields arg)"
    using multiple_fill_start [OF that, of sep] multiple_fill_length [of fields arg sep "[]"] by (simp add: multiple_size_rev)
  ultimately show ?thesis by (auto simp: map_of_rev_fields)
qed

theorem form_fields_back_witness:
  "\<exists>args. cgi_setup_1 (\<lambda>_. True) [''REQUEST_METHOD'' \<mapsto> asc ''GET'', ''QUERY_STRING'' \<mapsto> asc ''to=a%40b&to=c+d''] [] = Arguments args \<and>
    cgi_multiple (\<lambda>_. True) args (asc ''to'') (asc '', '') = Some (asc ''a@b, c d'')"
proof -
  let ?f = "[(asc ''to'', asc ''a@b''), (asc ''to'', asc ''c d'')]"
  have t: "form_text ?f = asc ''to=a%40b&to=c+d''" by code_simp
  have "field_values ?f (asc ''to'') = [asc ''a@b'', asc ''c d'']" by (simp add: field_values_def)
  moreover have "\<forall>(n, v)\<in>set ?f. plain n \<and> plain v" by (simp add: plain_def)
  moreover have "form_sent [''REQUEST_METHOD'' \<mapsto> asc ''GET'', ''QUERY_STRING'' \<mapsto> asc ''to=a%40b&to=c+d''] [] (form_text ?f)"
    unfolding t by (simp add: form_sent_def)
  moreover have "length (form_text ?f) \<le> CGIMAXARG" unfolding t by (simp add: CGIMAXARG_def)
  ultimately show ?thesis
    using form_fields_back [of ?f "[''REQUEST_METHOD'' \<mapsto> asc ''GET'', ''QUERY_STRING'' \<mapsto> asc ''to=a%40b&to=c+d'']" "[]" "\<lambda>_. True" "asc ''to''" "asc '', ''"]
    by auto
qed

end
