(* ===== verification/Spec2Isabelle.thy ===== *)
theory Spec2Isabelle imports Mime_Decode License Auth_Daemon Maildir_Recalc Rfc822_Date Rfc2047_Decode Mime_Exact Unicode Utf7 Cgi begin

text \<open>
  NoSPAM is a mail gateway with a web mail program. Its C code is the licence check of the gateway
  (\<open>src/License\<close>) and the web mail server (\<open>src/wmail\<close>), a set of libraries that read and write
  mail, keep accounts and maildirs, and a daemon that authenticates users. This development models
  the libraries on which a login, the delivery of a message and the reading of a message rest.

  \<^bold>\<open>Parts and theories\<close>

  \<^item> \<open>Prelude\<close>: bytes, C strings, character classes, lemmas on lists and words.
  \<^item> Transfer encodings, \<open>wmail/rfc2045\<close>. \<open>Mime_Encode\<close>: \<open>rfc2045encode.c\<close>; \<open>Base64_Decode\<close>:
    \<open>base64.c\<close>; \<open>Mime_Decode\<close>: \<open>rfc2045cdecode.c\<close>. The state is the work buffer and the state of
    the caller's callback, which is an argument.
  \<^item> Digests. \<open>Md_Stream\<close>: the context that \<open>md5/md5.c\<close> and \<open>sha1/sha1.c\<close> share; \<open>Md5\<close>, \<open>Sha1\<close>:
    their block functions; \<open>Fips180\<close>: SHA-1 as the standard has it; \<open>Md5c\<close>: the other MD5, of \<open>License/md5\<close>; \<open>Hmac\<close>: \<open>libhmac/hmac.c\<close> with the
    descriptors of both hashes.
  \<^item> SASL, \<open>wmail/authlib\<close>. \<open>Authsasl\<close>: base64, PLAIN and LOGIN on both sides; \<open>Cram\<close>: challenge and
    response, the verification in \<open>cramlib.c\<close>, and the dispatchers.
  \<^item> Accounts. \<open>Passwd\<close>: stored passwords; \<open>Userdb\<close>: the user database; \<open>Auth_Userdb\<close>: logging in
    against it, changing a password; \<open>Auth_Search\<close>: the search through the modules; \<open>Auth_Daemon\<close>:
    the protocol of \<open>authdaemond.c\<close> and its clients.
  \<^item> \<open>Numlib\<close>: \<open>wmail/numlib\<close>, numbers as text.
  \<^item> Quotas, \<open>wmail/maildir/maildirquota.c\<close>. \<open>Maildir_Quota\<close>: the files and the operations;
    \<open>Maildir_Size\<close>: what adding to the size file keeps; \<open>Maildir_Recalc\<close>: opening and counting.
  \<^item> \<open>License\<close>: \<open>License/license.c\<close> and the script that makes licences.
  \<^item> Headers, \<open>wmail/rfc822\<close>. \<open>Rfc822_Date\<close>: dates; \<open>Rfc822_Token\<close>: the tokenizer; \<open>Rfc822_Addr\<close>:
    addresses, parsed in the array of tokens; \<open>Rfc822_Print\<close>: printing them; \<open>Rfc2047\<close>,
    \<open>Rfc2047_Decode\<close>: encoded words.
  \<^item> The MIME parser, \<open>wmail/rfc2045/rfc2045.c\<close>. \<open>Mime_Struct\<close>: the tree of structures, a list of
    records with indices for pointers; \<open>Mime_Header\<close>: what headers put into a structure;
    \<open>Mime_Parse\<close>: lines and pieces of input. \<open>Mime_Wf\<close>, \<open>Mime_Inv\<close>, \<open>Mime_Positions\<close>,
    \<open>Mime_Lines\<close>: what each operation keeps; \<open>Mime_Input\<close>: what holds for any input;
    \<open>Mime_Doc\<close>: documents and the structures they should have; \<open>Mime_Events\<close>, \<open>Mime_Runs\<close>: what
    a line and a run of lines changes; \<open>Mime_Exact\<close>: parsing a document gives its structure.
  \<^item> Character sets, \<open>wmail/unicode\<close>. \<open>Utf8\<close>: \<open>utf8.c\<close>; \<open>Utf7\<close>: the names of folders, \<open>utf7imap.c\<close>;
    \<open>Unicode\<close>: sets with a table, \<open>iso8859.c\<close>, and conversions between any two sets, \<open>unicode.c\<close>.
  \<^item> \<open>Cgi\<close>: the arguments and cookies of a request, \<open>wmail/cgi\<close>.

  A login goes through most of them: the server takes the name and password out of the SASL
  exchange (\<open>Authsasl\<close>, \<open>Cram\<close>), the client sends them to the daemon (\<open>Auth_Daemon\<close>), which searches
  its modules (\<open>Auth_Search\<close>); the module of the user database (\<open>Auth_Userdb\<close>) reads the shadow record
  (\<open>Userdb\<close>), checks the password (\<open>Passwd\<close>, over \<open>Hmac\<close> and the digests, written with the base64 of
  \<open>Mime_Encode\<close>) and reports the account, which the daemon writes back with \<open>Numlib\<close>.

  \<^bold>\<open>How the code is read\<close>

  Functions keep their names. A \<open>char\<close> is a byte, a C string a list of bytes without the final NUL; a
  buffer of fixed size is the part of it that is filled, with a lemma that it never overflows;
  words keep their width where they can wrap (\<open>Md5\<close>, \<open>Sha1\<close>, \<open>Md5c\<close>, \<open>Numlib\<close>, \<open>Maildir_Quota\<close>). What the code
  does to the outside is a state that is threaded through, or a list of actions. Memory that may
  run out is an argument, except where the code ends the program then. Services the source only
  calls are arguments: the database library, \<open>crypt\<close>, \<open>stat\<close>, sockets, hardware addresses, the time.
  Behaviour that C leaves undefined is \<open>None\<close> (\<open>License\<close>) or a flag of the state (\<open>Maildir_Quota\<close>).

  The interfaces are locales: a callback that keeps what it gets (\<open>sink\<close>), the parts of a hash that
  its stream needs and a hash that HMAC needs (\<open>hmac_hash\<close>), what a
  conversion needs of its two character sets (\<open>charset\<close>, \<open>conversion\<close>); each is interpreted on the model's
  functions in the theory that provides them.

  \<^bold>\<open>What is shown\<close>

  \<^item> Encoders and decoders invert each other however their input is cut, for every encoding that is
    chosen; the digests are those of RFC 1321 and FIPS 180, the two MD5s agree, HMAC is RFC 2104.
  \<^item> PLAIN, LOGIN and CRAM authenticate exactly the right user and secret, from the client's first
    call to the verified record; a login through the daemon is the login of the module; the search
    reports only what a module has verified; a password changes only after the old one was verified.
  \<^item> The size file of a quota stays true to what was added and within the quota; without
    disturbance a check decides by the exact size if a count is due, else by the recorded one.
  \<^item> The MIME parser gives a tree of nested, ordered sections that accounts for every byte, however the
    input is cut, and of bounded size.
  \<^item> Printed addresses, and encoded header texts that do not end in white space, are read back as what
    they were written from; parsing addresses in the array refines parsing lists.
  \<^item> Characters are read back from UTF-8 and from modified UTF-7; a conversion that skips what it cannot
    convert always ends with a text and stays inside its buffer.
  \<^item> A licence is accepted exactly if both its hashes are right; one that was made for a machine is, if
    the array that nothing clears happens not to change its hash.
  \<^item> Dates, tokens, forms and the daemon's answers are read back as what they were written from; dates
    with the exception of zones whose daylight saving time is not an hour, in one configuration.
  \<^item> The user database in use is always one whose file had, when it was opened, the time and inode that
    every later call found.
  \<^item> Errors: properties state what goes wrong where the code does, such as the length field of SHA1
    beyond \<open>2 ^ 29\<close> bytes, a freed string, crypt passwords that never check, a decoder that loses the
    result of its callback.

  \<^bold>\<open>Bounds\<close>

  The buffers of the code: 8192 bytes (\<open>BUFSIZ\<close>, encoder and decoder), 57 (\<open>INBUFSIZ\<close>), 256 (the work
  buffer of \<open>base64.c\<close>), 64 (a block of a digest), 60 (\<open>NUMBUFSIZE\<close>), 5120 (\<open>MAXSIZEFILE\<close>). Hypotheses keep
  lengths below the range of the integers that count them: messages of a digest below \<open>2 ^ 32\<close>
  bytes (SHA1: \<open>2 ^ 29\<close>), sizes of messages and quotas below \<open>2 ^ 50\<close>, licences below 20000 bytes, dates
  before the year 9956. Loops that might not end are partial functions into \<open>option\<close>, \<open>None\<close> being
  a run without end; that they return is a theorem (\<open>Maildir_Recalc\<close>, \<open>Rfc2047_Decode\<close>), or where they do not. All other
  functions terminate. The parser follows a pointer upwards only to an older structure and downwards
  only to a newer one; \<open>Mime_Wf\<close> shows that there are no others.

  \<^bold>\<open>Not modelled\<close>

  The web pages, folders and the calendar server (input and output throughout), the modules for
  LDAP, SQL and PAM (calls of libraries), the other generated tables of character sets and of upper and lower case, the text
  formats built on the MIME parser, subjects and threads of headers, filters and
  the remaining operations on maildirs, GnuPG, forms of several parts. The first and the last of these are glue; the
  rest is what a continuation would add.
\<close>

end
